(* ===== verification/QsPrelude.thy ===== *)
theory QsPrelude
  imports Main "HOL-Library.Word" "HOL-Library.Multiset"
begin

text \<open>
  Shared vocabulary of the development: machine types, the result type of fallible code,
  block writes into tables (\<open>memset\<close>, \<open>memsetd\<close>), searches (\<open>memchrd\<close>, \<open>memchrnd\<close>) and the
  collections of simplification rules the component theories extend.
\<close>

unbundle bit_operations_syntax

section \<open>Types of the source (hc/qstypes.h)\<close>

type_synonym u8 = "8 word"
type_synonym u16 = "16 word"
type_synonym u32 = "32 word"
type_synonym u64 = "64 word"

named_theorems res_simps "rules for sequencing fallible steps"
named_theorems fill_simps "rules for block writes into tables"

section \<open>Results of fallible code\<close>

text \<open>
  A call that may stop with an error is a value of a sum type, \<open>Inl\<close> the error.
  \<open>rbind\<close> is the sequencing every C caller has: stop at the first error.
\<close>

type_synonym ('v, 'err) outcome = "'err + 'v"

definition rbind :: "('v, 'err) outcome \<Rightarrow> ('v \<Rightarrow> ('w, 'err) outcome) \<Rightarrow> ('w, 'err) outcome" where
  "rbind step next_step = (if isl step then Inl (projl step) else next_step (projr step))"

lemma rbind_Inl [simp, res_simps]: "rbind (Inl e) f = Inl e"
  by (simp add: rbind_def)

lemma rbind_Inr [simp, res_simps]: "rbind (Inr x) f = f x"
  by (simp add: rbind_def)

lemma rbind_eq_Inr [res_simps]: "rbind r f = Inr y \<longleftrightarrow> (\<exists>x. r = Inr x \<and> f x = Inr y)"
  by (cases r) auto

lemma rbind_eq_Inl [res_simps]:
  "rbind r f = Inl e \<longleftrightarrow> r = Inl e \<or> (\<exists>x. r = Inr x \<and> f x = Inl e)"
  by (cases r) auto

definition guard_err :: "bool \<Rightarrow> 'e \<Rightarrow> 'e + unit" where
  "guard_err b e = (if b then Inr () else Inl e)"

lemma guard_err_True [simp]: "b \<Longrightarrow> guard_err b e = Inr ()"
  by (simp add: guard_err_def)

lemma guard_err_False [simp]: "\<not> b \<Longrightarrow> guard_err b e = Inl e"
  by (simp add: guard_err_def)

lemma guard_err_eq_Inr [res_simps]: "guard_err b e = Inr u \<longleftrightarrow> b"
  by (simp add: guard_err_def)

section \<open>Block writes: memset, memsetd\<close>

text \<open>\<open>fill xs p n v\<close> is \<open>memsetd(xs+p, v, n)\<close> on a table held as a list; cells outside
  the table are not part of it and are not written.\<close>

definition fill :: "'a list \<Rightarrow> nat \<Rightarrow> nat \<Rightarrow> 'a \<Rightarrow> 'a list" where
  "fill xs p n v = map (\<lambda>i. if p \<le> i \<and> i < p + n then v else xs ! i) [0..<length xs]"

lemma length_fill [simp, fill_simps]: "length (fill xs p n v) = length xs"
  by (simp add: fill_def)

lemma nth_fill [simp, fill_simps]:
  "i < length xs \<Longrightarrow> fill xs p n v ! i = (if p \<le> i \<and> i < p + n then v else xs ! i)"
  by (simp add: fill_def)

lemma fill_0 [simp]: "fill xs p 0 v = xs"
  by (rule nth_equalityI) auto

lemma nth_update_if:
  "i < length xs \<Longrightarrow> xs[j := v] ! i = (if i = j then v else xs ! i)"
  by (simp add: nth_list_update)

lemma fill_Suc: "fill xs p (Suc n) v = fill (xs[p := v]) (Suc p) n v"
  by (rule nth_equalityI) (auto simp: nth_update_if)

section \<open>Searches: memchrd, memchrnd\<close>

text \<open>\<open>memchrd(mem, v, n)\<close>: position of the first cell equal to \<open>v\<close>;
  \<open>memchrnd\<close>: of the first cell that differs.\<close>

fun find_pos :: "('a \<Rightarrow> bool) \<Rightarrow> 'a list \<Rightarrow> nat option" where
  "find_pos P [] = None"
| "find_pos P (x # xs) = (if P x then Some 0 else map_option Suc (find_pos P xs))"

definition memchr_pos :: "'a list \<Rightarrow> 'a \<Rightarrow> nat option" where
  "memchr_pos xs v = find_pos (\<lambda>x. x = v) xs"

definition memchrn_pos :: "'a list \<Rightarrow> 'a \<Rightarrow> nat option" where
  "memchrn_pos xs v = find_pos (\<lambda>x. x \<noteq> v) xs"

lemma find_pos_Some:
  "find_pos P xs = Some i \<longleftrightarrow> i < length xs \<and> P (xs ! i) \<and> (\<forall>j<i. \<not> P (xs ! j))"
proof (induction xs arbitrary: i)
  case (Cons y ys)
  show ?case by (cases i) (auto simp: All_less_Suc2 less_Suc_eq_0_disj Cons.IH)
qed simp

lemma find_pos_None: "find_pos P xs = None \<longleftrightarrow> (\<forall>x\<in>set xs. \<not> P x)"
  by (induction xs) auto

lemma memchr_pos_Some:
  "memchr_pos xs v = Some i \<longleftrightarrow> i < length xs \<and> xs ! i = v \<and> (\<forall>j<i. xs ! j \<noteq> v)"
  by (simp add: memchr_pos_def find_pos_Some)

lemma memchr_pos_None: "memchr_pos xs v = None \<longleftrightarrow> v \<notin> set xs"
  by (auto simp: memchr_pos_def find_pos_None)

lemma memchrn_pos_None: "memchrn_pos xs v = None \<longleftrightarrow> (\<forall>x\<in>set xs. x = v)"
  by (auto simp: memchrn_pos_def find_pos_None)

end
