(* ===== verification/CTime.thy ===== *)
theory CTime
  imports QsPrelude "HOL-Library.Signed_Division"
begin

text \<open>The calendar of the runtime library (\<open>start/misc/time.c\<close>): the Julian day number, the week
  day, packed DOS time and UNIX time. \<open>int\<close> values keep C's truncating division (\<open>sdiv\<close>, \<open>smod\<close>);
  the 16-bit parameters and the 32-bit \<open>time_t\<close> wrap around.\<close>

unbundle bit_operations_syntax

section \<open>The code\<close>

definition u16 :: "int \<Rightarrow> int" where "u16 x = x mod 65536"
definition to_time_t :: "int \<Rightarrow> int" where "to_time_t x = x mod 4294967296"

abbreviation CONST_DATE_D0 :: int where "CONST_DATE_D0 \<equiv> 1461"
abbreviation CONST_DATE_D1 :: int where "CONST_DATE_D1 \<equiv> 146097"
abbreviation CONST_DATE_D2 :: int where "CONST_DATE_D2 \<equiv> 1721119"
abbreviation CONST_SECINDAY :: int where "CONST_SECINDAY \<equiv> 86400"

definition GregorianToJulian :: "int \<Rightarrow> int \<Rightarrow> int \<Rightarrow> int" where
  "GregorianToJulian year month day =
     (let y = u16 (if u16 month \<le> 2 then u16 year - 1 else year);
          m = u16 ((if u16 month \<le> 2 then u16 month + 12 else u16 month) - 3);
          century = ((y sdiv 100) * CONST_DATE_D1) div 4;
          xyear = ((y smod 100) * CONST_DATE_D0) div 4
      in (m * 153 + 2) sdiv 5 + u16 day + CONST_DATE_D2 + xyear + century)"

definition JulianToGregorian :: "int \<Rightarrow> int \<times> int \<times> int" where
  "JulianToGregorian julian =
     (let temp = (julian - CONST_DATE_D2) * 4 - 1;
          xyear = (temp smod CONST_DATE_D1) OR 3;
          century = temp sdiv CONST_DATE_D1;
          yyear = xyear sdiv CONST_DATE_D0;
          temp2 = ((xyear smod CONST_DATE_D0 + 4) div 4) * 5 - 3;
          ymonth = temp2 sdiv 153;
          yyear2 = (if 10 \<le> ymonth then yyear + 1 else yyear);
          ymonth2 = (if 10 \<le> ymonth then ymonth - 12 else ymonth) + 3;
          yday = (temp2 smod 153 + 5) sdiv 5
      in (yyear2 + century * 100, ymonth2, yday))"

definition GetWeekDay :: "int \<Rightarrow> int \<Rightarrow> int \<Rightarrow> int" where
  "GetWeekDay year month day =
     (3 * year - (7 * (year + (month + 9) sdiv 12)) sdiv 4 + (23 * month) sdiv 9 + day + 2
      + (((year - (if month < 3 then 1 else 0)) sdiv 100 + 1) * 3) sdiv 4 - 15) smod 7"

record tm =
  tm_sec :: int
  tm_min :: int
  tm_hour :: int
  tm_mday :: int
  tm_mon :: int
  tm_year :: int
  tm_wday :: int
  tm_yday :: int
  tm_isdst :: int

definition UnPackUnixTime :: "int \<Rightarrow> tm" where
  "UnPackUnixTime uts =
     (let temp = uts div CONST_SECINDAY;
          j1970 = GregorianToJulian 1970 1 1;
          secs = uts mod CONST_SECINDAY
      in case JulianToGregorian (j1970 + temp) of (y, mo, d) \<Rightarrow>
        \<lparr>tm_sec = secs smod 60, tm_min = (secs smod 3600) sdiv 60, tm_hour = secs sdiv 3600,
         tm_mday = d, tm_mon = mo - 1, tm_year = y - 1900, tm_wday = GetWeekDay y mo d,
         tm_yday = 0, tm_isdst = 0\<rparr>)"

definition mktime :: "tm \<Rightarrow> int" where
  "mktime dt =
     (let j1970 = GregorianToJulian 1970 1 1;
          jnow = GregorianToJulian (tm_year dt + 1900) (tm_mon dt + 1) (tm_mday dt)
      in to_time_t ((jnow - j1970) * CONST_SECINDAY + (tm_hour dt * 3600 + tm_min dt * 60 + tm_sec dt)))"

text \<open>Packed DOS time: seconds/2, minutes, hours, day, month, year since 1980.\<close>

definition dos_sec2 :: "int \<Rightarrow> int" where "dos_sec2 t = t mod 32"
definition dos_min :: "int \<Rightarrow> int" where "dos_min t = t div 32 mod 64"
definition dos_hour :: "int \<Rightarrow> int" where "dos_hour t = t div 2048 mod 32"
definition dos_day :: "int \<Rightarrow> int" where "dos_day t = t div 65536 mod 32"
definition dos_mon :: "int \<Rightarrow> int" where "dos_mon t = t div 2097152 mod 16"
definition dos_year :: "int \<Rightarrow> int" where "dos_year t = t div 33554432"

definition dostimetotm :: "int \<Rightarrow> tm" where
  "dostimetotm dostime =
     (let y = dos_year dostime + 80; mo = dos_mon dostime - 1; d = dos_day dostime;
          jyear = GregorianToJulian (y + 1900) 1 1;
          jnow = GregorianToJulian (y + 1900) (mo + 1) d
      in \<lparr>tm_sec = dos_sec2 dostime * 2, tm_min = dos_min dostime, tm_hour = dos_hour dostime,
          tm_mday = d, tm_mon = mo, tm_year = y, tm_wday = GetWeekDay (y + 1900) (mo + 1) d,
          tm_yday = (jnow - jyear) sdiv CONST_SECINDAY, tm_isdst = 0\<rparr>)"

definition timetodostime :: "int \<Rightarrow> int" where
  "timetodostime t =
     (let tmi = UnPackUnixTime t
      in to_time_t (tm_sec tmi div 2 + tm_min tmi * 32 + tm_hour tmi * 2048 + tm_mday tmi * 65536
         + (tm_mon tmi + 1) * 2097152 + (tm_year tmi - 80) * 33554432))"

definition dostimetotime :: "int \<Rightarrow> int" where
  "dostimetotime dostime =
     (let j1970 = GregorianToJulian 1970 1 1;
          jnow = GregorianToJulian (dos_year dostime + 1980) (dos_mon dostime) (dos_day dostime)
      in to_time_t ((jnow - j1970) * CONST_SECINDAY
           + (dos_hour dostime * 3600 + dos_min dostime * 60 + dos_sec2 dostime * 2)))"

text \<open>\<open>time\<close>: the clock chip gives DOS time and the odd second.\<close>

definition time_now :: "int \<Rightarrow> bool \<Rightarrow> int" where
  "time_now tm_getdate onesec =
     (let dt = dostimetotm tm_getdate in mktime (dt\<lparr>tm_sec := tm_sec dt + (if onesec then 1 else 0)\<rparr>))"

section \<open>The Gregorian calendar\<close>

definition leap :: "int \<Rightarrow> bool" where
  "leap y \<longleftrightarrow> y mod 4 = 0 \<and> (y mod 100 \<noteq> 0 \<or> y mod 400 = 0)"

definition days_in_month :: "int \<Rightarrow> int \<Rightarrow> int" where
  "days_in_month y m = (if m = 2 then (if leap y then 29 else 28)
     else if m = 4 \<or> m = 6 \<or> m = 9 \<or> m = 11 then 30 else 31)"

fun valid_date :: "int \<times> int \<times> int \<Rightarrow> bool" where
  "valid_date (y, m, d) \<longleftrightarrow> 1 \<le> y \<and> y \<le> 65535 \<and> 1 \<le> m \<and> m \<le> 12 \<and> 1 \<le> d \<and> d \<le> days_in_month y m"

fun next_date :: "int \<times> int \<times> int \<Rightarrow> int \<times> int \<times> int" where
  "next_date (y, m, d) =
     (if d < days_in_month y m then (y, m, d + 1)
      else if m < 12 then (y, m + 1, 1) else (y + 1, 1, 1))"

fun julian :: "int \<times> int \<times> int \<Rightarrow> int" where
  "julian (y, m, d) = GregorianToJulian y m d"

section \<open>Normal forms\<close>

lemma cdiv [simp]: "0 \<le> a \<Longrightarrow> 0 < b \<Longrightarrow> a sdiv b = a div b" "0 \<le> a \<Longrightarrow> 0 < b \<Longrightarrow> a smod b = a mod b" for a b :: int
  by (cases "a = 0"; simp add: signed_divide_int_def signed_modulo_int_def sgn_if)+

text \<open>The year that starts in March, and its month.\<close>

definition yr3 :: "int \<Rightarrow> int \<Rightarrow> int" where "yr3 y m = (if m \<le> 2 then y - 1 else y)"
definition mo3 :: "int \<Rightarrow> int" where "mo3 m = (if m \<le> 2 then m + 9 else m - 3)"

definition ydays :: "int \<Rightarrow> int" where
  "ydays y = 365 * y + y div 4 - y div 100 + y div 400"

lemma ydays_cent: "(y div 100 * 146097) div 4 + (y mod 100 * 1461) div 4 = ydays y"
proof -
  define c x where "c = y div 100" and "x = y mod 100"
  have y: "y = 100 * c + x" "0 \<le> x" "x < 100" by (auto simp: c_def x_def)
  have 1: "(c * 146097) div 4 = 36524 * c + c div 4"
    using div_mult_self1 [of 4 c "36524 * c"] by (simp add: algebra_simps)
  have 2: "(x * 1461) div 4 = 365 * x + x div 4"
    using div_mult_self1 [of 4 x "365 * x"] by (simp add: algebra_simps)
  have 3: "y div 4 = 25 * c + x div 4"
    using div_mult_self1 [of 4 x "25 * c"] y(1) by (simp add: algebra_simps)
  have 4: "y div 100 = c" "y div 400 = c div 4" using zdiv_zmult2_eq [of 4 y 100] by (auto simp: c_def)
  show ?thesis
    unfolding ydays_def c_def [symmetric] x_def [symmetric] 1 2 3 4(2) using y(1) by linarith
qed

lemma g2j_eq:
  assumes "1 \<le> y" "y \<le> 65535" "1 \<le> m" "m \<le> 12" "0 \<le> d" "d \<le> 31"
  shows "GregorianToJulian y m d = (mo3 m * 153 + 2) div 5 + d + 1721119 + ydays (yr3 y m)"
proof -
  have "u16 m = m" "u16 d = d" using assms by (auto simp: u16_def)
  moreover have "u16 (if u16 m \<le> 2 then u16 y - 1 else y) = yr3 y m" using assms by (auto simp: u16_def yr3_def)
  moreover have "u16 ((if u16 m \<le> 2 then u16 m + 12 else u16 m) - 3) = mo3 m" using assms by (auto simp: u16_def mo3_def)
  moreover have "0 \<le> mo3 m" "0 \<le> yr3 y m" using assms by (auto simp: mo3_def yr3_def)
  ultimately show ?thesis
    unfolding GregorianToJulian_def Let_def by (simp only: ydays_cent [symmetric] cdiv)
qed

lemma div_between: "(k::int) * q \<le> a \<Longrightarrow> a < k * q + k \<Longrightarrow> a div k = q"
  by (rule int_div_pos_eq [of a k q "a - k * q"]) auto

lemma ydays_step: "ydays y = ydays (y - 1) + (if leap y then 366 else 365)"
proof -
  have s: "y div k = (y - 1) div k + (if y mod k = 0 then 1 else 0)" if "0 < k" for k
  proof -
    define q r where "q = y div k" and "r = y mod k"
    have y: "y = k * q + r" "0 \<le> r" "r < k" using that by (auto simp: q_def r_def)
    have "(y - 1) div k = (if r = 0 then q - 1 else q)"
      using y that by (cases "r = 0") (auto intro!: div_between simp: right_diff_distrib)
    then show ?thesis by (simp add: q_def [symmetric] r_def [symmetric])
  qed
  have imp: "y mod 400 = 0 \<Longrightarrow> y mod 100 = 0" "y mod 100 = 0 \<Longrightarrow> y mod 4 = 0"
    using dvd_trans [of 100 400 y] dvd_trans [of 4 100 y] by (auto simp: mod_eq_0_iff_dvd)
  have "365 * y + a - b + c = 365 * (y - 1) + a' - b' + c' + (if P4 \<and> (\<not> P100 \<or> P400) then 366 else 365)"
    if "a = a' + (if P4 then 1 else 0)" "b = b' + (if P100 then 1 else 0)" "c = c' + (if P400 then 1 else 0)"
      "P400 \<Longrightarrow> P100" "P100 \<Longrightarrow> P4" for a a' b b' c c' :: int and P4 P100 P400
    using that by (cases P4; cases P100; cases P400; simp)
  note gen = this
  show ?thesis
    unfolding ydays_def leap_def
    by (rule gen [OF s s s]) (simp_all add: imp)
qed


section \<open>Day numbers count days\<close>

lemma julian_epoch: "julian (1970, 1, 1) = 2440588"
  by (simp add: g2j_eq ydays_def yr3_def mo3_def)

lemma month_cases:
  assumes "1 \<le> (m::int)" "m \<le> 12"
  shows "m \<in> {1, 2, 3, 4, 5, 6, 7, 8, 9, 10, 11, 12}"
proof -
  have "m \<in> set [1..12]" using assms by simp
  then show ?thesis by (simp add: upto_rec1)
qed

lemma next_valid: "valid_date x \<Longrightarrow> fst (next_date x) \<le> 65535 \<Longrightarrow> valid_date (next_date x)"
  by (cases x) (auto simp: days_in_month_def split: if_splits)

lemma dim_bounds: "28 \<le> days_in_month y m" "days_in_month y m \<le> 31"
  by (auto simp: days_in_month_def)

lemma julian_next:
  assumes v: "valid_date x" and y: "fst (next_date x) \<le> 65535"
  shows "julian (next_date x) = julian x + 1"
proof -
  obtain yy m d where x: "x = (yy, m, d)" by (cases x)
  have b: "1 \<le> yy" "yy \<le> 65535" "1 \<le> m" "m \<le> 12" "1 \<le> d" "d \<le> 31"
    using v dim_bounds(2) [of yy m] by (auto simp: x)
  show ?thesis
  proof (cases "d < days_in_month yy m")
    case True
    then show ?thesis using b dim_bounds(2) [of yy m] by (simp add: x g2j_eq)
  next
    case False
    then have d: "d = days_in_month yy m" using v by (simp add: x)
    show ?thesis
    proof (cases "m = 2")
      case True
      then show ?thesis using b d ydays_step [of yy]
        by (simp add: x g2j_eq yr3_def mo3_def days_in_month_def split: if_splits)
    next
      case False
      then show ?thesis using b d y month_cases [OF b(3,4)]
        by (elim insertE emptyE; simp add: x g2j_eq yr3_def mo3_def days_in_month_def)
    qed
  qed
qed

section \<open>And back\<close>

lemma ymonth_days:
  assumes "1 \<le> m" "m \<le> 12" "1 \<le> d" "d \<le> days_in_month y m"
  shows "(mo3 m * 153 + 2) div 5 + d \<le> 366"
    and "(mo3 m * 153 + 2) div 5 + d = 366 \<Longrightarrow> leap y \<and> m = 2"
    and "5 * ((mo3 m * 153 + 2) div 5 + d) - 3 = 153 * mo3 m + (5 * d - 1 - (mo3 m * 153 + 2) mod 5)"
    and "0 \<le> 5 * d - 1 - (mo3 m * 153 + 2) mod 5" and "5 * d - 1 - (mo3 m * 153 + 2) mod 5 < 153"
    and "(5 * d - 1 - (mo3 m * 153 + 2) mod 5 + 5) div 5 = d"
proof -
  have m: "m \<in> {1, 2, 3, 4, 5, 6, 7, 8, 9, 10, 11, 12}" using assms(1,2) by (rule month_cases)
  show "(mo3 m * 153 + 2) div 5 + d \<le> 366"
    using m assms(4) by (elim insertE emptyE; simp add: mo3_def days_in_month_def split: if_splits)
  show "(mo3 m * 153 + 2) div 5 + d = 366 \<Longrightarrow> leap y \<and> m = 2"
    using m assms(4) by (elim insertE emptyE; simp add: mo3_def days_in_month_def split: if_splits)
  show "5 * ((mo3 m * 153 + 2) div 5 + d) - 3 = 153 * mo3 m + (5 * d - 1 - (mo3 m * 153 + 2) mod 5)"
    using m by (elim insertE emptyE; simp add: mo3_def)
  show "0 \<le> 5 * d - 1 - (mo3 m * 153 + 2) mod 5"
    using m assms(3) by (elim insertE emptyE; simp add: mo3_def)
  show "5 * d - 1 - (mo3 m * 153 + 2) mod 5 < 153"
    using m assms(4) by (elim insertE emptyE; simp add: mo3_def days_in_month_def split: if_splits)
  show "(5 * d - 1 - (mo3 m * 153 + 2) mod 5 + 5) div 5 = d"
    using m by (elim insertE emptyE; simp add: mo3_def)
qed

lemma or3: "(4 * (k::int) + r) OR 3 = 4 * k + 3" if "0 \<le> r" "r < 4" for r
proof -
  have "(4 * k + r) OR 3 = 1 + 2 * (((4 * k + r) div 2) OR 1)" by (subst or_rec) simp
  also have "((4 * k + r) div 2) OR 1 = 1 + 2 * ((4 * k + r) div 2 div 2)" by (subst or_rec) simp
  also have "(4 * k + r) div 2 div 2 = k" using that by simp
  finally show ?thesis by simp
qed

lemma j2g_split:
  fixes x c n :: int
  assumes x: "0 \<le> x" "x < 100" and c: "0 \<le> c" and n: "1 \<le> n" "n \<le> 366"
    and n366: "n = 366 \<Longrightarrow> x mod 4 = 3 \<and> (x = 99 \<longrightarrow> c mod 4 = 3)"
  defines "t \<equiv> 4 * ((c * 146097) div 4 + (x * 1461) div 4 + n) - 1"
  shows "t div 146097 = c" "(t mod 146097 OR 3) div 1461 = x" "((t mod 146097 OR 3) mod 1461 + 4) div 4 = n"
proof -
  have e1: "4 * ((c * 146097) div 4) = c * 146097 - c mod 4"
    using div_mult_self1 [of 4 c "36524 * c"] by (simp add: algebra_simps; simp add: minus_mod_eq_mult_div [symmetric])
  have e2: "4 * ((x * 1461) div 4) = x * 1461 - x mod 4"
    using div_mult_self1 [of 4 x "365 * x"] by (simp add: algebra_simps; simp add: minus_mod_eq_mult_div [symmetric])
  define r where "r = x * 1461 - x mod 4 - c mod 4 + 4 * n - 1"
  have cm: "0 \<le> c mod 4" "c mod 4 \<le> 3" "0 \<le> x mod 4" "x mod 4 \<le> 3" "x mod 4 \<le> x" using x by (auto simp: zmod_le_nonneg_dividend)
  have t: "t = 146097 * c + r" unfolding t_def r_def using e1 e2 by (simp add: algebra_simps)
  have r0: "0 \<le> r" using cm n x unfolding r_def by linarith
  have r1: "r < 146097"
  proof (cases "n = 366 \<and> x = 99")
    case True
    then show ?thesis using n366 unfolding r_def by simp
  next
    case False
    then have "4 * n + x * 1461 - x mod 4 \<le> 146097" using n x cm by (cases "x = 99") auto
    then show ?thesis using cm unfolding r_def by linarith
  qed
  show tc: "t div 146097 = c" using r0 r1 by (intro div_between) (auto simp: t)
  have tm: "t mod 146097 = r" using r0 r1 unfolding t by simp
  have "r = 4 * ((x * 1461) div 4 + n - 1) + (3 - c mod 4)" unfolding r_def using e2 by simp
  then have o: "r OR 3 = 4 * ((x * 1461) div 4 + n - 1) + 3"
    using or3 [of "3 - c mod 4" "(x * 1461) div 4 + n - 1"] cm(1,2) by (simp only:)
  have q: "r OR 3 = 1461 * x + (4 * n - 1 - x mod 4)" unfolding o using e2 by (simp add: algebra_simps)
  have b1: "0 \<le> 4 * n - 1 - x mod 4" using cm(4) n(1) by linarith
  have b2: "4 * n - 1 - x mod 4 < 1461"
  proof (cases "n = 366")
    case True
    then have "x mod 4 = 3" using n366 by blast
    then show ?thesis using True by linarith
  next
    case False
    then show ?thesis using cm(3) n(2) by linarith
  qed
  note b = b1 b2
  show "(t mod 146097 OR 3) div 1461 = x" unfolding tm q using b by (intro div_between) auto
  have "(r OR 3) mod 1461 = 4 * n - 1 - x mod 4" unfolding q using b by simp
  then show "((t mod 146097 OR 3) mod 1461 + 4) div 4 = n"
    unfolding tm using cm by (simp; intro div_between; linarith)
qed

lemma j2g_julian:
  assumes v: "valid_date (y, m, d)"
  shows "JulianToGregorian (julian (y, m, d)) = (y, m, d)"
proof -
  have b: "1 \<le> y" "y \<le> 65535" "1 \<le> m" "m \<le> 12" "1 \<le> d" "d \<le> 31" "d \<le> days_in_month y m"
    using v dim_bounds(2) [of y m] by auto
  define c x n where "c = yr3 y m div 100" and "x = yr3 y m mod 100" and "n = (mo3 m * 153 + 2) div 5 + d"
  note md = ymonth_days [OF b(3,4,5,7), folded n_def]
  have y0: "0 \<le> yr3 y m" using b by (simp add: yr3_def)
  have cx: "0 \<le> x" "x < 100" "0 \<le> c" using y0 by (auto simp: c_def x_def pos_imp_zdiv_nonneg_iff)
  have m0: "0 \<le> (mo3 m * 153 + 2) div 5" using b by (simp add: mo3_def pos_imp_zdiv_nonneg_iff)
  have n: "1 \<le> n" "n \<le> 366" using md(1) b m0 by (auto simp: n_def)
  have nl: "x mod 4 = 3 \<and> (x = 99 \<longrightarrow> c mod 4 = 3)" if "n = 366"
  proof -
    have l: "leap (yr3 y m + 1)" using md(2) that by (simp add: yr3_def)
    have e: "yr3 y m = 100 * c + x" by (simp add: c_def x_def)
    have "(yr3 y m + 1) mod 4 = (x + 1) mod 4"
      unfolding e using mod_mult_self2 [of "x + 1" 4 "25 * c"] by (simp add: ac_simps)
    then have "(x + 1) mod 4 = 0" using l unfolding leap_def by (elim conjE) (simp only:)
    then have x3: "x mod 4 = 3" by presburger
    moreover have "c mod 4 = 3" if "x = 99"
    proof -
      have y1: "yr3 y m + 1 = 100 * (c + 1)" using e that by simp
      then have "(100 * (c + 1)) mod (100 * 4) = 0" using l by (simp add: leap_def ac_simps)
      then have "(c + 1) mod 4 = 0" by (subst (asm) mult_mod_right [symmetric]) simp
      then show ?thesis by presburger
    qed
    ultimately show ?thesis by blast
  qed
  define t where "t = 4 * ((c * 146097) div 4 + (x * 1461) div 4 + n) - 1"
  have j: "(julian (y, m, d) - CONST_DATE_D2) * 4 - 1 = t"
    using g2j_eq [OF b(1-4) _ b(6)] b(5) ydays_cent [of "yr3 y m", folded c_def x_def]
    by (simp add: t_def n_def)
  note sp = j2g_split [OF cx n nl, folded t_def]
  have "0 \<le> (c * 146097) div 4" "0 \<le> (x * 1461) div 4" using cx by (simp_all add: pos_imp_zdiv_nonneg_iff)
  moreover have "0 \<le> a \<Longrightarrow> 0 \<le> b \<Longrightarrow> 0 \<le> 4 * (a + b + n) - 1" for a b using n by simp
  ultimately have t0: "0 \<le> t" unfolding t_def by blast
  define q where "q = 5 * d - 1 - (mo3 m * 153 + 2) mod 5"
  have q: "0 \<le> q" "q < 153" "(q + 5) div 5 = d" using md by (auto simp: q_def)
  have t2: "n * 5 - 3 = 153 * mo3 m + q" using md(3) by (simp add: q_def)
  have mo: "0 \<le> mo3 m" using b by (simp add: mo3_def)
  have qd: "(n * 5 - 3) div 153 = mo3 m" "(n * 5 - 3) mod 153 = q" "0 \<le> n * 5 - 3" unfolding t2 using q mo by auto
  have xor0: "0 \<le> t mod 146097 OR 3" by simp
  have yc: "yr3 y m = x + c * 100" by (simp add: c_def x_def)
  have sp3: "((t mod 146097 OR 3) mod 1461 + 4) div 4 = n" by (rule sp(3))
  have s1: "t sdiv 146097 = c" "t smod 146097 = t mod 146097" using t0 sp(1) by simp_all
  have s2: "(t mod 146097 OR 3) sdiv 1461 = x" "(t mod 146097 OR 3) smod 1461 = (t mod 146097 OR 3) mod 1461"
    using cdiv [OF xor0, of 1461] sp(2) by simp_all
  have s3: "(n * 5 - 3) sdiv 153 = mo3 m" "(n * 5 - 3) smod 153 = q" "(q + 5) sdiv 5 = d"
    using qd q by simp_all
  show ?thesis
  proof (cases "m \<le> 2")
    case True
    then have "mo3 m = m + 9" "x + 1 + c * 100 = y" "10 \<le> mo3 m" using yc b(3) by (simp_all add: mo3_def yr3_def)
    then show ?thesis
      unfolding JulianToGregorian_def Let_def by (simp only: j s1 s2 sp3 s3) simp
  next
    case False
    then have "mo3 m = m - 3" "x + c * 100 = y" "\<not> 10 \<le> mo3 m" using yc b(4) by (simp_all add: mo3_def yr3_def)
    then show ?thesis
      unfolding JulianToGregorian_def Let_def by (simp only: j s1 s2 sp3 s3) simp
  qed
qed

section \<open>Every day has a date\<close>

lemma ydays_lower: "0 \<le> z \<Longrightarrow> 365 * z \<le> ydays z"
proof -
  assume z: "0 \<le> z"
  have "z div 100 \<le> z div 4" using z by (rule zdiv_mono2) simp_all
  moreover have "0 \<le> z div 400" using z by (simp add: pos_imp_zdiv_nonneg_iff)
  ultimately show ?thesis by (simp add: ydays_def)
qed

lemma julian_year:
  assumes v: "valid_date x"
  shows "365 * (fst x - 1) \<le> julian x - 1721120"
proof -
  obtain y m d where x: "x = (y, m, d)" by (cases x)
  have b: "1 \<le> y" "y \<le> 65535" "1 \<le> m" "m \<le> 12" "1 \<le> d" "d \<le> 31"
    using v dim_bounds(2) [of y m] by (auto simp: x)
  have "365 * yr3 y m \<le> ydays (yr3 y m)" using b by (intro ydays_lower) (simp add: yr3_def)
  moreover have "0 \<le> (mo3 m * 153 + 2) div 5" using b by (simp add: mo3_def pos_imp_zdiv_nonneg_iff)
  moreover have "y - 1 \<le> yr3 y m" by (simp add: yr3_def)
  ultimately show ?thesis using b g2j_eq [OF b(1-4) _ b(6)] by (simp add: x)
qed

definition day_at :: "nat \<Rightarrow> int \<times> int \<times> int" where
  "day_at n = (next_date ^^ n) (1970, 1, 1)"

lemma day_at_julian:
  "n \<le> 20000000 \<Longrightarrow> valid_date (day_at n) \<and> julian (day_at n) = 2440588 + int n \<and> 1970 \<le> fst (day_at n)"
proof (induction n)
  case 0
  then show ?case by (simp only: day_at_def funpow_0 julian_epoch) (simp add: days_in_month_def)
next
  case (Suc n)
  then have ih: "valid_date (day_at n)" "julian (day_at n) = 2440588 + int n" "1970 \<le> fst (day_at n)" by auto
  have s: "day_at (Suc n) = next_date (day_at n)" by (simp add: day_at_def)
  have f: "fst (next_date x) \<le> fst x + 1" "fst x \<le> fst (next_date x)" for x by (cases x; simp)+
  have "int n \<le> 20000000" using Suc.prems by linarith
  moreover have "365 * (f - 1) \<le> j - 1721120 \<Longrightarrow> j = 2440588 + k \<Longrightarrow> k \<le> 20000000 \<Longrightarrow> f \<le> 60000" for f j k :: int
    by simp
  ultimately have "fst (day_at n) \<le> 60000" using julian_year [OF ih(1)] ih(2) by blast
  then have y: "fst (next_date (day_at n)) \<le> 65535" using f(1) [of "day_at n"] by linarith
  show ?case unfolding s
    using next_valid [OF ih(1) y] julian_next [OF ih(1) y] ih(2) ih(3) f(2) [of "day_at n"] by linarith
qed

lemma ydays_mono: "w \<le> z \<Longrightarrow> ydays w \<le> ydays z"
proof (induction z rule: int_ge_induct)
  case (step i)
  then show ?case using ydays_step [of "i + 1"] by simp
qed simp

lemma julian_lower:
  assumes v: "valid_date (y, m, d)"
  shows "ydays (y - 1) + 1721426 \<le> julian (y, m, d)"
proof -
  have b: "1 \<le> y" "y \<le> 65535" "1 \<le> m" "m \<le> 12" "1 \<le> d" "d \<le> 31"
    using v dim_bounds(2) [of y m] by auto
  have g: "julian (y, m, d) = (mo3 m * 153 + 2) div 5 + d + 1721119 + ydays (yr3 y m)"
    using g2j_eq [OF b(1-4) _ b(6)] b(5) by simp
  show ?thesis
  proof (cases "m \<le> 2")
    case True
    then have "306 \<le> (mo3 m * 153 + 2) div 5" using b(3) by (auto simp: mo3_def)
    then show ?thesis using g b(5) True by (simp add: yr3_def)
  next
    case False
    then have "0 \<le> (mo3 m * 153 + 2) div 5" by (simp add: mo3_def pos_imp_zdiv_nonneg_iff)
    then show ?thesis using g b(5) False ydays_step [of y] by (simp add: yr3_def split: if_splits)
  qed
qed

lemma julian_from_1970:
  assumes v: "valid_date (y, m, d)" and y: "1970 \<le> y"
  shows "2440588 \<le> julian (y, m, d)"
  using julian_lower [OF v] ydays_mono [of 1969 "y - 1"] y by (simp add: ydays_def [of 1969])

lemma julian_from_2108:
  assumes v: "valid_date (y, m, d)" and y: "2108 \<le> y"
  shows "2490991 \<le> julian (y, m, d)"
  using julian_lower [OF v] ydays_mono [of 2107 "y - 1"] y by (simp add: ydays_def [of 2107])

lemma julian_to_1979:
  assumes v: "valid_date (y, m, d)" and y: "y \<le> 1979"
  shows "julian (y, m, d) \<le> 2444239"
proof -
  have b: "1 \<le> y" "y \<le> 65535" "1 \<le> m" "m \<le> 12" "1 \<le> d" "d \<le> 31" "d \<le> days_in_month y m"
    using v dim_bounds(2) [of y m] by auto
  have g: "julian (y, m, d) = (mo3 m * 153 + 2) div 5 + d + 1721119 + ydays (yr3 y m)"
    using g2j_eq [OF b(1-4) _ b(6)] b(5) by simp
  show ?thesis
  proof (cases "m \<le> 2")
    case True
    then have "ydays (yr3 y m) \<le> ydays 1978" using y by (intro ydays_mono) (simp add: yr3_def)
    moreover have "ydays 1978 = 722449" by (simp add: ydays_def)
    ultimately show ?thesis using g b(7) ymonth_days(1) [OF b(3,4,5,7)] by linarith
  next
    case False
    then have "ydays (yr3 y m) \<le> ydays 1979" using y by (intro ydays_mono) (simp add: yr3_def)
    moreover have "ydays 1979 = 722814" by (simp add: ydays_def)
    moreover have "(mo3 m * 153 + 2) div 5 + d \<le> 306"
      using month_cases [OF b(3,4)] b(7) False
      by (elim insertE emptyE; simp add: mo3_def days_in_month_def split: if_splits)
    ultimately show ?thesis using g by linarith
  qed
qed

section \<open>UNIX time\<close>

definition tm_ok :: "tm \<Rightarrow> bool" where
  "tm_ok dt \<longleftrightarrow> valid_date (tm_year dt + 1900, tm_mon dt + 1, tm_mday dt) \<and> 1970 \<le> tm_year dt + 1900
     \<and> 0 \<le> tm_sec dt \<and> tm_sec dt < 60 \<and> 0 \<le> tm_min dt \<and> tm_min dt < 60 \<and> 0 \<le> tm_hour dt \<and> tm_hour dt < 24"

definition tm_seconds :: "tm \<Rightarrow> int" where
  "tm_seconds dt = (julian (tm_year dt + 1900, tm_mon dt + 1, tm_mday dt) - 2440588) * 86400
     + tm_hour dt * 3600 + tm_min dt * 60 + tm_sec dt"

lemma mktime_eq: "mktime dt = tm_seconds dt mod 4294967296"
  using julian_epoch by (simp add: mktime_def tm_seconds_def to_time_t_def algebra_simps)

lemma hms_of:
  assumes "0 \<le> h" "h < 24" "0 \<le> mi" "mi < 60" "0 \<le> s" "s < (60::int)"
  shows "(h * 3600 + mi * 60 + s) sdiv 3600 = h" "((h * 3600 + mi * 60 + s) smod 3600) sdiv 60 = mi"
    "(h * 3600 + mi * 60 + s) smod 60 = s" "h * 3600 + mi * 60 + s < 86400" "0 \<le> h * 3600 + mi * 60 + s"
proof -
  let ?t = "h * 3600 + mi * 60 + s"
  show p: "0 \<le> ?t" "?t < 86400" using assms by auto
  have d: "?t div 3600 = h" using assms by (intro div_between) auto
  have r: "?t mod 3600 = mi * 60 + s" using d by (simp add: minus_div_mult_eq_mod [symmetric])
  have e: "(mi * 60 + s) div 60 = mi" using assms by (intro div_between) auto
  have "?t = s + 60 * (h * 60 + mi)" by simp
  then have "?t mod 60 = s mod 60" by (metis mod_mult_self2)
  then show "?t smod 60 = s" using p assms by simp
  show "?t sdiv 3600 = h" "(?t smod 3600) sdiv 60 = mi" using p d r e assms by simp_all
qed

lemma unix_time:
  assumes "0 \<le> t" "t < 4294967296"
  shows "tm_ok (UnPackUnixTime t)" "tm_seconds (UnPackUnixTime t) = t"
proof -
  define n where "n = nat (t div 86400)"
  have n: "int n = t div 86400" "n \<le> 20000000" using assms by (auto simp: n_def pos_imp_zdiv_nonneg_iff)
  obtain y m d where x: "day_at n = (y, m, d)" by (cases "day_at n")
  have v: "valid_date (y, m, d)" "julian (y, m, d) = 2440588 + int n" "1970 \<le> y" using day_at_julian [OF n(2)] x by auto
  have j: "JulianToGregorian (GregorianToJulian 1970 1 1 + t div 86400) = (y, m, d)"
    using j2g_julian [OF v(1)] v(2) julian_epoch n(1) by simp
  define s where "s = t mod 86400"
  have s: "0 \<le> s" "s < 86400" by (simp_all add: s_def)
  have m: "(s smod 3600) sdiv 60 = (s mod 3600) div 60" "s sdiv 3600 = s div 3600" "s smod 60 = s mod 60"
    using s by simp_all
  have hms: "0 \<le> s div 3600" "s div 3600 < 24" "0 \<le> (s mod 3600) div 60" "(s mod 3600) div 60 < 60"
    using s by (auto simp: pos_imp_zdiv_nonneg_iff div_less_iff_less_mult intro: order.strict_trans2)
  have f: "UnPackUnixTime t = \<lparr>tm_sec = s mod 60, tm_min = (s mod 3600) div 60, tm_hour = s div 3600, tm_mday = d,
      tm_mon = m - 1, tm_year = y - 1900, tm_wday = GetWeekDay y m d, tm_yday = 0, tm_isdst = 0\<rparr>"
    unfolding UnPackUnixTime_def Let_def j s_def [symmetric] m prod.case ..
  show "tm_ok (UnPackUnixTime t)" unfolding f tm_ok_def using hms v by (simp only: tm.simps diff_add_cancel) (simp del: valid_date.simps)
  have "s mod 3600 mod 60 = s mod 60" using mod_mod_cancel [of 60 3600 s] by simp
  then have "s = s div 3600 * 3600 + (s mod 3600) div 60 * 60 + s mod 60"
    using div_mult_mod_eq [of s 3600] div_mult_mod_eq [of "s mod 3600" 60] by linarith
  moreover have "t = int n * 86400 + s" using n(1) by (simp add: s_def)
  ultimately show "tm_seconds (UnPackUnixTime t) = t" using f v(2) by (simp add: tm_seconds_def)
qed

lemma unix_back:
  assumes ok: "tm_ok dt" and b: "tm_seconds dt < 4294967296"
  shows "UnPackUnixTime (tm_seconds dt) = dt\<lparr>tm_wday := GetWeekDay (tm_year dt + 1900) (tm_mon dt + 1) (tm_mday dt),
      tm_yday := 0, tm_isdst := 0\<rparr>"
    and "0 \<le> tm_seconds dt"
proof -
  define s where "s = tm_hour dt * 3600 + tm_min dt * 60 + tm_sec dt"
  define k where "k = julian (tm_year dt + 1900, tm_mon dt + 1, tm_mday dt) - 2440588"
  have v: "valid_date (tm_year dt + 1900, tm_mon dt + 1, tm_mday dt)" using ok by (simp add: tm_ok_def)
  have h: "0 \<le> tm_hour dt" "tm_hour dt < 24" "0 \<le> tm_min dt" "tm_min dt < 60" "0 \<le> tm_sec dt" "tm_sec dt < 60"
    using ok by (auto simp: tm_ok_def)
  note hs = hms_of [OF h, folded s_def]
  have t: "tm_seconds dt = 86400 * k + s" by (simp add: tm_seconds_def k_def s_def)
  have d: "tm_seconds dt div 86400 = k" using hs t by (intro div_between) auto
  have m: "tm_seconds dt mod 86400 = s" using d t by (simp add: minus_div_mult_eq_mod [symmetric])
  have j: "JulianToGregorian (GregorianToJulian 1970 1 1 + k) = (tm_year dt + 1900, tm_mon dt + 1, tm_mday dt)"
    using j2g_julian [OF v] julian_epoch by (simp add: k_def)
  show "UnPackUnixTime (tm_seconds dt) = dt\<lparr>tm_wday := GetWeekDay (tm_year dt + 1900) (tm_mon dt + 1) (tm_mday dt),
      tm_yday := 0, tm_isdst := 0\<rparr>"
    unfolding UnPackUnixTime_def Let_def d m j using hs by simp
  have "0 \<le> k" using julian_from_1970 [OF v] ok by (simp add: k_def tm_ok_def)
  then show "0 \<le> tm_seconds dt" using t hs by simp
qed

section \<open>DOS time\<close>

lemma dos_fields:
  assumes "0 \<le> a" "a < 32" "0 \<le> mi" "mi < 64" "0 \<le> h" "h < 32" "0 \<le> d" "d < 32" "0 \<le> mo" "mo < 16" "0 \<le> y" "y < 128"
  defines "t \<equiv> a + mi * 32 + h * 2048 + d * 65536 + mo * 2097152 + y * 33554432"
  shows "dos_sec2 t = a" "dos_min t = mi" "dos_hour t = h" "dos_day t = d" "dos_mon t = mo" "dos_year t = y"
    "0 \<le> t" "t < 4294967296"
proof -
  define t5 t4 t3 t2 t1 where "t5 = mo + y * 16" and "t4 = d + t5 * 32" and "t3 = h + t4 * 32"
    and "t2 = mi + t3 * 64" and "t1 = a + t2 * 32"
  note ts = t5_def t4_def t3_def t2_def t1_def
  have t: "t = t1" unfolding t_def ts by simp
  have d1: "t1 div 32 = t2" "t1 mod 32 = a" using assms unfolding t1_def by auto
  have d2: "t2 div 64 = t3" "t2 mod 64 = mi" using assms unfolding t2_def by auto
  have d3: "t3 div 32 = t4" "t3 mod 32 = h" using assms unfolding t3_def by auto
  have d4: "t4 div 32 = t5" "t4 mod 32 = d" using assms unfolding t4_def by auto
  have d5: "t5 div 16 = y" "t5 mod 16 = mo" using assms unfolding t5_def by auto
  have e1: "t1 div 2048 = t3" using zdiv_zmult2_eq [of 64 t1 32] d1 d2 by simp
  have e2: "t1 div 65536 = t4" using zdiv_zmult2_eq [of 32 t1 2048] e1 d3 by simp
  have e3: "t1 div 2097152 = t5" using zdiv_zmult2_eq [of 32 t1 65536] e2 d4 by simp
  have e4: "t1 div 33554432 = y" using zdiv_zmult2_eq [of 16 t1 2097152] e3 d5 by simp
  show "dos_sec2 t = a" "dos_min t = mi" "dos_hour t = h" "dos_day t = d" "dos_mon t = mo" "dos_year t = y"
    unfolding t dos_sec2_def dos_min_def dos_hour_def dos_day_def dos_mon_def dos_year_def
    by (simp_all only: d1 d2 d3 d4 d5 e1 e2 e3 e4)
  show "0 \<le> t" "t < 4294967296" using assms unfolding t_def by auto
qed

lemma dos_of_unix:
  assumes t: "315532800 \<le> t" "t < 4294967296"
  defines "u \<equiv> UnPackUnixTime t"
  shows "dos_sec2 (timetodostime t) = tm_sec u div 2" "dos_min (timetodostime t) = tm_min u"
    "dos_hour (timetodostime t) = tm_hour u" "dos_day (timetodostime t) = tm_mday u"
    "dos_mon (timetodostime t) = tm_mon u + 1" "dos_year (timetodostime t) = tm_year u - 80"
proof -
  have ok: "tm_ok u" and sec: "tm_seconds u = t" using unix_time [of t] t by (simp_all add: u_def)
  have v: "valid_date (tm_year u + 1900, tm_mon u + 1, tm_mday u)" using ok by (simp add: tm_ok_def)
  then have v': "0 \<le> tm_mon u + 1" "tm_mon u + 1 < 16" "0 \<le> tm_mday u" "tm_mday u < 32"
    using dim_bounds(2) [of "tm_year u + 1900" "tm_mon u + 1"] by auto
  have h: "0 \<le> tm_hour u" "tm_hour u < 24" "0 \<le> tm_min u" "tm_min u < 60" "0 \<le> tm_sec u" "tm_sec u < 60"
    using ok by (auto simp: tm_ok_def)
  note hs = hms_of [OF h]
  define j where "j = julian (tm_year u + 1900, tm_mon u + 1, tm_mday u)"
  have jt: "(j - 2440588) * 86400 + (tm_hour u * 3600 + tm_min u * 60 + tm_sec u) = t"
    using sec by (simp add: tm_seconds_def j_def)
  have "j \<le> 2490298" using jt hs(5) t by simp
  then have y2: "tm_year u - 80 < 128"
    using julian_from_2108 [OF v, folded j_def] by (cases "tm_year u < 208") simp_all
  have y1: "0 \<le> tm_year u - 80"
  proof (rule ccontr)
    assume "\<not> 0 \<le> tm_year u - 80"
    then have y: "tm_year u + 1900 \<le> 1979" by simp
    have "j \<le> 2444239" using julian_to_1979 [OF v y] by (simp add: j_def)
    then show False using jt hs(4) t by simp
  qed
  have p: "timetodostime t = to_time_t (tm_sec u div 2 + tm_min u * 32 + tm_hour u * 2048 + tm_mday u * 65536
         + (tm_mon u + 1) * 2097152 + (tm_year u - 80) * 33554432)"
    by (simp add: timetodostime_def u_def Let_def)
  have b: "0 \<le> tm_sec u div 2" "tm_sec u div 2 < 32" "tm_min u < 64" "tm_hour u < 32" using h by auto
  note f = dos_fields [OF b(1,2) h(3) b(3) h(1) b(4) v'(3,4,1,2) y1 y2]
  show "dos_sec2 (timetodostime t) = tm_sec u div 2" "dos_min (timetodostime t) = tm_min u"
    "dos_hour (timetodostime t) = tm_hour u" "dos_day (timetodostime t) = tm_mday u"
    "dos_mon (timetodostime t) = tm_mon u + 1" "dos_year (timetodostime t) = tm_year u - 80"
    unfolding p to_time_t_def using f by (simp_all only: mod_pos_pos_trivial)
qed

lemma dos_time_roundtrip:
  assumes t: "315532800 \<le> t" "t < 4294967296"
  shows "dostimetotime (timetodostime t) = t - t mod 2"
proof -
  let ?u = "UnPackUnixTime t"
  have ok: "tm_ok ?u" and sec: "tm_seconds ?u = t" using unix_time [of t] t by simp_all
  have "dostimetotime (timetodostime t) = to_time_t (tm_seconds ?u - tm_sec ?u mod 2)"
    unfolding dostimetotime_def Let_def dos_of_unix [OF t]
    using julian_epoch by (simp add: tm_seconds_def algebra_simps minus_mod_eq_mult_div [symmetric])
  moreover have "tm_seconds ?u mod 2 = tm_sec ?u mod 2"
    unfolding tm_seconds_def by presburger
  ultimately show ?thesis using sec t by (simp add: to_time_t_def)
qed

section \<open>Week days\<close>

definition wk_code :: "int \<Rightarrow> int \<Rightarrow> int" where
  "wk_code y m = 3 * y - (7 * (y + (m + 9) div 12)) div 4 + (23 * m) div 9 + 2
      + (((y - (if m < 3 then 1 else 0)) div 100 + 1) * 3) div 4 - 15"

definition wk_ref :: "int \<Rightarrow> int \<Rightarrow> int" where
  "wk_ref y m = (mo3 m * 153 + 2) div 5 + 1721120 + ydays (yr3 y m)"

lemma wk_identities:
  "3 * y - (7 * (y + 1)) div 4 = y + y div 4 - (1::int)"
  "3 * y - (7 * y) div 4 = (y - 1) + (y - 1) div 4 + (2::int)"
proof -
  define q r where "q = y div 4" and "r = y mod 4"
  have y: "y = 4 * q + r" "0 \<le> r" "r < 4" by (auto simp: q_def r_def)
  then have "r \<in> set [0..3]" by simp
  then have r: "r = 0 \<or> r = 1 \<or> r = 2 \<or> r = 3" by (simp add: upto_rec1)
  have 1: "(7 * (y + 1)) div 4 = 7 * q + (7 * (r + 1)) div 4"
    using div_mult_self1 [of 4 "7 * (r + 1)" "7 * q"] y(1) by (simp add: algebra_simps)
  have 2: "(7 * y) div 4 = 7 * q + (7 * r) div 4"
    using div_mult_self1 [of 4 "7 * r" "7 * q"] y(1) by (simp add: algebra_simps)
  have 3: "(y - 1) div 4 = q + (r - 1) div 4"
    using div_mult_self1 [of 4 "r - 1" q] y(1) by (simp add: algebra_simps)
  show "3 * y - (7 * (y + 1)) div 4 = y + y div 4 - (1::int)"
    unfolding 1 q_def [symmetric] using r y(1) by (elim disjE) simp_all
  show "3 * y - (7 * y) div 4 = (y - 1) + (y - 1) div 4 + (2::int)"
    unfolding 2 3 using r y(1) by (elim disjE) simp_all
qed

lemma weekday_codes:
  assumes m: "1 \<le> m" "m \<le> 12" and r: "1900 \<le> yr3 y m" "yr3 y m \<le> 2099"
  shows "wk_ref y m mod 7 = wk_code y m mod 7" "0 \<le> wk_code y m"
proof -
  let ?z = "yr3 y m"
  have y1: "y - (if m < 3 then 1 else 0) = ?z" by (simp add: yr3_def)
  have k: "3 * y - (7 * (y + (m + 9) div 12)) div 4 = ?z + ?z div 4 + (if m < 3 then 2 else - 1)"
  proof (cases "m < 3")
    case True
    then have "(m + 9) div 12 = 0" using m by simp
    then show ?thesis using True wk_identities(2) [of y] by (simp add: yr3_def)
  next
    case False
    then have "(m + 9) div 12 = 1" using m by (intro div_between) auto
    then show ?thesis using False wk_identities(1) [of y] by (simp add: yr3_def)
  qed
  have "?z div 100 = 19 \<and> ?z div 400 = 4 \<or> ?z div 100 = 20 \<and> ?z div 400 = 5"
  proof (cases "?z < 2000")
    case True then have "?z div 100 = 19" "?z div 400 = 4" using r by (auto intro!: div_between) then show ?thesis by simp
  next
    case False then have "?z div 100 = 20" "?z div 400 = 5" using r by (auto intro!: div_between) then show ?thesis by simp
  qed
  then have c: "((?z div 100 + 1) * 3) div 4 = 15" "?z div 100 - ?z div 400 = 15" by auto
  have code: "wk_code y m = ?z + ?z div 4 + (if m < 3 then 2 else - 1) + (23 * m) div 9 + 2"
    unfolding wk_code_def y1 k c(1) by linarith
  have q: "0 \<le> ?z div 4" using r by (simp add: pos_imp_zdiv_nonneg_iff)
  have "0 \<le> (23 * m) div 9" using m by (simp add: pos_imp_zdiv_nonneg_iff)
  then show "0 \<le> wk_code y m" unfolding code using r q by simp
  have "\<exists>e. wk_ref y m = wk_code y m + 7 * e"
  proof -
    have "\<exists>e. (mo3 m * 153 + 2) div 5 + 1721105 = (if m < 3 then 2 else - 1) + (23 * m) div 9 + 2 + 7 * e"
      using month_cases [OF m]
      by (intro exI [of _ "((mo3 m * 153 + 2) div 5 + 1721105 - ((if m < 3 then 2 else - 1) + (23 * m) div 9 + 2)) div 7"])
         (elim insertE emptyE; simp add: mo3_def)
    then obtain e where "(mo3 m * 153 + 2) div 5 + 1721105 = (if m < 3 then 2 else - 1) + (23 * m) div 9 + 2 + 7 * e" ..
    then have "wk_ref y m = wk_code y m + 7 * (e + 52 * ?z)"
      unfolding code wk_ref_def ydays_def using c(2) by (simp add: algebra_simps)
    then show ?thesis ..
  qed
  then obtain e where "wk_ref y m = wk_code y m + 7 * e" ..
  then show "wk_ref y m mod 7 = wk_code y m mod 7" by (simp only: mod_mult_self2)
qed

lemma weekday:
  assumes v: "valid_date (y, m, d)" and r: "1900 \<le> yr3 y m" "yr3 y m \<le> 2099"
  shows "GetWeekDay y m d = (julian (y, m, d) + 1) mod 7"
proof -
  have b: "1900 \<le> y" "y \<le> 2100" "y \<le> 65535" "1 \<le> m" "m \<le> 12" "1 \<le> d" "d \<le> 31"
    using v r dim_bounds(2) [of y m] by (auto simp: yr3_def split: if_splits)
  note w = weekday_codes [OF b(4,5) r]
  let ?z = "y - (if m < 3 then 1 else 0)"
  have k: "0 \<le> (m + 9) div 12" using b by (simp add: pos_imp_zdiv_nonneg_iff)
  have z: "0 \<le> ?z" using b by simp
  then have zd: "0 \<le> ?z div 100" by (simp add: pos_imp_zdiv_nonneg_iff)
  have s: "(m + 9) sdiv 12 = (m + 9) div 12" "(23 * m) sdiv 9 = (23 * m) div 9" "?z sdiv 100 = ?z div 100"
    using b z by (intro cdiv; simp)+
  have s2: "(7 * (y + (m + 9) div 12)) sdiv 4 = (7 * (y + (m + 9) div 12)) div 4"
    using b k by (intro cdiv) auto
  have s3: "((?z div 100 + 1) * 3) sdiv 4 = ((?z div 100 + 1) * 3) div 4"
    using zd by (intro cdiv) auto
  have i: "a + b + d + 2 + c - 15 = a + b + 2 + c - 15 + d" for a b c :: int by simp
  have "GetWeekDay y m d = (wk_code y m + d) smod 7"
    unfolding GetWeekDay_def wk_code_def s s2 s3 by (simp only: i)
  also have "\<dots> = (wk_code y m + d) mod 7" using w(2) b by simp
  also have "\<dots> = (wk_ref y m + d) mod 7" using w(1) by (metis mod_add_left_eq)
  also have "wk_ref y m + d = julian (y, m, d) + 1" using b g2j_eq [of y m d] by (simp add: wk_ref_def)
  finally show ?thesis .
qed

section \<open>Properties\<close>

text \<open>C13: the day numbers are the Gregorian calendar: the date \<open>n\<close> days after 1 January 1970 is a valid
  date, has the day number of the epoch plus \<open>n\<close>, and is what that number is converted back to. The week day
  formula agrees with them from 1 March 1900 to 28 February 2100, and does not one day later.\<close>

theorem calendar_correct:
  assumes "n \<le> 20000000"
  shows "valid_date ((next_date ^^ n) (1970, 1, 1))
    \<and> julian ((next_date ^^ n) (1970, 1, 1)) = GregorianToJulian 1970 1 1 + int n
    \<and> JulianToGregorian (GregorianToJulian 1970 1 1 + int n) = (next_date ^^ n) (1970, 1, 1)
    \<and> (\<forall>y m d. valid_date (y, m, d) \<and> 1900 \<le> yr3 y m \<and> yr3 y m \<le> 2099 \<longrightarrow> GetWeekDay y m d = (julian (y, m, d) + 1) mod 7)
    \<and> GetWeekDay 2100 3 1 \<noteq> (julian (2100, 3, 1) + 1) mod 7"
proof -
  obtain y m d where x: "(next_date ^^ n) (1970, 1, 1) = (y, m, d)" by (cases "(next_date ^^ n) (1970, 1, 1)")
  have e: "GregorianToJulian 1970 1 1 = 2440588" using julian_epoch by simp
  have d: "valid_date (y, m, d)" "julian (y, m, d) = 2440588 + int n"
    using day_at_julian [OF assms] unfolding day_at_def x by blast+
  have w: "GetWeekDay 2100 3 1 \<noteq> (julian (2100, 3, 1) + 1) mod 7"
    by (simp add: GetWeekDay_def g2j_eq yr3_def mo3_def ydays_def)
  show ?thesis unfolding x e using d j2g_julian [OF d(1)] w weekday by simp
qed

theorem calendar_correct_witness:
  "julian ((next_date ^^ 31) (1970, 1, 1)) = GregorianToJulian 1970 1 1 + 31 \<and>
   GetWeekDay 2000 2 29 = (julian (2000, 2, 29) + 1) mod 7"
  using calendar_correct [of 31] by (simp add: days_in_month_def leap_def yr3_def)

definition demo_tm :: tm where
  "demo_tm = \<lparr>tm_sec = 59, tm_min = 58, tm_hour = 23, tm_mday = 29, tm_mon = 1, tm_year = 104, tm_wday = 0, tm_yday = 0, tm_isdst = 0\<rparr>"

text \<open>C14: Every \<open>time_t\<close> survives the way to broken-down time and back, every broken-down time
  from 1970 on whose seconds fit \<open>time_t\<close> survives the way to \<open>time_t\<close> and back, and DOS time keeps every second
  from 1980 on up to its resolution of two seconds, with the fields of the broken-down time.\<close>

theorem time_roundtrips:
  assumes "0 \<le> t" "t < 4294967296" "tm_ok dt" "tm_seconds dt < 4294967296"
  shows "tm_ok (UnPackUnixTime t) \<and> mktime (UnPackUnixTime t) = t
    \<and> UnPackUnixTime (mktime dt) = dt\<lparr>tm_wday := GetWeekDay (tm_year dt + 1900) (tm_mon dt + 1) (tm_mday dt),
        tm_yday := 0, tm_isdst := 0\<rparr>
    \<and> (315532800 \<le> t \<longrightarrow> dostimetotime (timetodostime t) = t - t mod 2
      \<and> tm_mday (dostimetotm (timetodostime t)) = tm_mday (UnPackUnixTime t)
      \<and> tm_mon (dostimetotm (timetodostime t)) = tm_mon (UnPackUnixTime t)
      \<and> tm_year (dostimetotm (timetodostime t)) = tm_year (UnPackUnixTime t)
      \<and> tm_hour (dostimetotm (timetodostime t)) = tm_hour (UnPackUnixTime t)
      \<and> tm_min (dostimetotm (timetodostime t)) = tm_min (UnPackUnixTime t))"
  (is "?ok \<and> ?there \<and> ?again \<and> (?late \<longrightarrow> ?dos)")
proof -
  have ?there using unix_time [OF assms(1,2)] assms(1,2) by (simp add: mktime_eq)
  moreover have "mktime dt = tm_seconds dt" using unix_back(2) [OF assms(3,4)] assms(4) by (simp add: mktime_eq)
  then have ?again using unix_back(1) [OF assms(3,4)] by simp
  moreover have ?dos if ?late
    using dos_time_roundtrip [OF that assms(2)] dos_of_unix [OF that assms(2)] by (simp add: dostimetotm_def Let_def)
  ultimately show ?thesis using unix_time(1) [OF assms(1,2)] by blast
qed

theorem time_roundtrips_witness:
  "mktime (UnPackUnixTime 1078099139) = 1078099139 \<and> UnPackUnixTime (mktime demo_tm) = demo_tm \<and>
   dostimetotime (timetodostime 1078099139) = 1078099138"
proof -
  have ok: "tm_ok demo_tm" by (simp add: tm_ok_def demo_tm_def days_in_month_def leap_def)
  have s: "tm_seconds demo_tm < 4294967296"
    by (simp add: tm_seconds_def demo_tm_def g2j_eq yr3_def mo3_def ydays_def)
  have w: "GetWeekDay 2004 2 29 = 0" by (simp add: GetWeekDay_def)
  show ?thesis using time_roundtrips [OF _ _ ok s, of 1078099139] w by (simp add: demo_tm_def)
qed

end
