(* ===== verification/CStrftime.thy ===== *)
theory CStrftime
  imports CTime
begin

text \<open>Times as text: \<open>asctime_r\<close> and \<open>strftime\<close> (\<open>start/misc/time.c\<close>). The destination is a map from
  offsets to the characters written there, so that writes outside the buffer are visible.\<close>

section \<open>Numbers and names\<close>

fun udig :: "nat \<Rightarrow> string" where
  "udig n = (if n < 10 then [char_of (48 + n)] else udig (n div 10) @ [char_of (48 + n mod 10)])"

declare udig.simps [simp del]

definition pad_left :: "char \<Rightarrow> nat \<Rightarrow> string \<Rightarrow> string" where
  "pad_left c w s = replicate (w - length s) c @ s"

text \<open>\<open>%02u\<close>, \<open>%2u\<close>, \<open>%03u\<close>, \<open>%4u\<close>: an \<open>int\<close> read as 32-bit unsigned value.\<close>

definition fmt_u :: "char \<Rightarrow> nat \<Rightarrow> int \<Rightarrow> string" where
  "fmt_u c w x = pad_left c w (udig (nat (x mod 4294967296)))"

text \<open>\<open>%02d\<close>, \<open>%4d\<close>.\<close>

definition fmt_d :: "char \<Rightarrow> nat \<Rightarrow> int \<Rightarrow> string" where
  "fmt_d c w x = (if 0 \<le> x then pad_left c w (udig (nat x))
     else if c = CHR ''0'' then ''-'' @ pad_left c (w - 1) (udig (nat (- x)))
     else pad_left c w (''-'' @ udig (nat (- x))))"

definition mtitle :: "string list" where
  "mtitle = [''Jan'', ''Feb'', ''Mar'', ''Apr'', ''May'', ''Jun'', ''Jul'', ''Aug'', ''Sep'', ''Oct'', ''Nov'', ''Dec'']"
definition dtitle :: "string list" where
  "dtitle = [''Sun'', ''Mon'', ''Tue'', ''Wed'', ''Thu'', ''Fri'', ''Sat'']"
definition dtitle_f :: "string list" where
  "dtitle_f = [''Sunday'', ''Monday'', ''Tuesday'', ''Wednesday'', ''Thursday'', ''Friday'', ''Saturday'']"
definition mtitle_f :: "string list" where
  "mtitle_f = [''January'', ''February'', ''March'', ''April'', ''May'', ''June'', ''July'', ''August'', ''September'',
     ''October'', ''November'', ''December'']"
definition ampm :: "int list" where
  "ampm = [12, 1, 2, 3, 4, 5, 6, 7, 8, 9, 10, 11, 12, 1, 2, 3, 4, 5, 6, 7, 8, 9, 10, 11]"

definition nl :: string where "nl = [CHR 0x0A]"

text \<open>\<open>asctime_r\<close>; \<open>snprintf\<close> with 32 bytes keeps 31 characters.\<close>

definition asctime_r :: "tm \<Rightarrow> string" where
  "asctime_r dt = take 31 (dtitle ! nat (tm_wday dt) @ '' '' @ mtitle ! nat (tm_mon dt) @ '' '' @ fmt_d CHR ''0'' 2 (tm_mday dt)
     @ '' '' @ fmt_d CHR ''0'' 2 (tm_hour dt) @ '':'' @ fmt_d CHR ''0'' 2 (tm_min dt) @ '':'' @ fmt_d CHR ''0'' 2 (tm_sec dt)
     @ '' '' @ fmt_d CHR '' '' 4 (tm_year dt + 1900) @ nl)"

definition ctime_r :: "int \<Rightarrow> string" where
  "ctime_r timer = asctime_r (UnPackUnixTime timer)"

section \<open>Conversions\<close>

text \<open>\<open>dec\<close>: two digits, as characters whatever the value.\<close>

definition dec :: "int \<Rightarrow> string" where
  "dec x = [char_of (nat ((x sdiv 10 + 48) mod 256)), char_of (nat ((x smod 10 + 48) mod 256))]"

abbreviation u02 :: "int \<Rightarrow> string" where "u02 \<equiv> fmt_u CHR ''0'' 2"

text \<open>The day of the week of 1 January, as \<open>%U\<close> and \<open>%W\<close> compute it.\<close>

definition week_days :: "int \<Rightarrow> bool \<Rightarrow> int" where
  "week_days year sunday =
     (let d = 365 * year + (if year \<noteq> 0 then (year - 1) sdiv 4 - (year - 1) sdiv 100 else 0) + (if sunday then 1 else 0)
      in (d mod 4294967296) mod 7)"

datatype conv = Copy string | Skip | Invalid

definition convert :: "char \<Rightarrow> tm \<Rightarrow> conv" where
  "convert ch tmv =
     (if ch = CHR ''a'' then Copy (dtitle ! nat (tm_wday tmv))
      else if ch = CHR ''A'' then Copy (dtitle_f ! nat (tm_wday tmv))
      else if ch = CHR ''h'' \<or> ch = CHR ''b'' then Copy (mtitle ! nat (tm_mon tmv))
      else if ch = CHR ''B'' then Copy (mtitle_f ! nat (tm_mon tmv))
      else if ch = CHR ''c'' then Copy (u02 (tm_mday tmv) @ ''/'' @ u02 (tm_mon tmv + 1) @ ''/'' @ u02 (tm_year tmv smod 100)
         @ '' '' @ u02 (tm_hour tmv) @ '':'' @ u02 (tm_min tmv) @ '':'' @ u02 (tm_sec tmv))
      else if ch = CHR ''C'' then Copy (dec (tm_year tmv sdiv 100 + 19))
      else if ch = CHR ''d'' then Copy (dec (tm_mday tmv))
      else if ch = CHR ''D'' then Copy (u02 (tm_mon tmv + 1) @ ''/'' @ u02 (tm_mday tmv) @ ''/'' @ u02 (tm_year tmv smod 100))
      else if ch = CHR ''e'' then Copy (fmt_u CHR '' '' 2 (tm_mday tmv))
      else if ch = CHR ''F'' then Copy (fmt_u CHR '' '' 4 (tm_year tmv + 1900) @ ''-'' @ u02 (tm_mon tmv + 1) @ ''-'' @ u02 (tm_mday tmv))
      else if ch = CHR ''H'' then Copy (dec (tm_hour tmv))
      else if ch = CHR ''I'' then Copy (dec (ampm ! nat (tm_hour tmv)))
      else if ch = CHR ''j'' then Copy (fmt_u CHR ''0'' 3 (tm_yday tmv))
      else if ch = CHR ''k'' then Copy (fmt_u CHR '' '' 2 (tm_hour tmv))
      else if ch = CHR ''l'' then Copy (fmt_u CHR '' '' 2 (ampm ! nat (tm_hour tmv)))
      else if ch = CHR ''m'' then Copy (dec (tm_mon tmv + 1))
      else if ch = CHR ''M'' then Copy (dec (tm_min tmv))
      else if ch = CHR ''n'' then Copy nl
      else if ch = CHR ''p'' then Copy (if tm_hour tmv < 12 then ''AM'' else ''PM'')
      else if ch = CHR ''r'' then Copy (u02 (ampm ! nat (tm_hour tmv)) @ '':'' @ u02 (tm_min tmv) @ '':'' @ u02 (tm_sec tmv)
         @ '' '' @ (if tm_hour tmv < 12 then ''AM'' else ''PM''))
      else if ch = CHR ''R'' then Copy (u02 (tm_hour tmv) @ '':'' @ u02 (tm_min tmv))
      else if ch = CHR ''s'' then Copy (udig (nat (mktime tmv)))
      else if ch = CHR ''S'' then Copy (dec (tm_sec tmv))
      else if ch = CHR ''t'' then Copy [CHR 0x09]
      else if ch = CHR ''T'' \<or> ch = CHR ''X'' then Copy (u02 (tm_hour tmv) @ '':'' @ u02 (tm_min tmv) @ '':'' @ u02 (tm_sec tmv))
      else if ch = CHR ''U'' \<or> ch = CHR ''W'' then
        (let days = week_days (tm_year tmv) (ch = CHR ''U'')
         in Copy (dec (((tm_yday tmv + (if days \<noteq> 0 then days else 7)) mod 4294967296) div 7)))
      else if ch = CHR ''w'' then Copy [char_of (nat ((tm_wday tmv + 48) mod 256))]
      else if ch = CHR ''x'' then Copy (u02 (tm_mday tmv) @ ''/'' @ u02 (tm_mon tmv + 1) @ ''/'' @ u02 (tm_year tmv smod 100))
      else if ch = CHR ''y'' then Copy (dec (tm_year tmv smod 100))
      else if ch = CHR ''Y'' then Copy (fmt_u CHR '' '' 4 (tm_year tmv + 1900))
      else if ch = CHR ''Z'' \<or> ch = CHR ''z'' then Skip
      else if ch = CHR ''%'' then Copy ''%''
      else Invalid)"

section \<open>strftime\<close>

datatype sf_error = EINVAL | EOVERFLOW

type_synonym outbuf = "nat \<Rightarrow> char option"

text \<open>\<open>lcopy\<close>: copies up to the terminating zero, which is copied too; \<open>None\<close> is -1.\<close>

fun lcopy :: "outbuf \<Rightarrow> nat \<Rightarrow> string \<Rightarrow> nat \<Rightarrow> outbuf \<times> nat option" where
  "lcopy mem pos src 0 = (mem, None)"
| "lcopy mem pos [] (Suc k) = (mem(pos \<mapsto> CHR 0x00), Some 0)"
| "lcopy mem pos (c # cs) (Suc k) = (case lcopy (mem(pos \<mapsto> c)) (pos + 1) cs k of (m, r) \<Rightarrow> (m, map_option Suc r))"

fun strftime_loop :: "tm \<Rightarrow> string \<Rightarrow> outbuf \<Rightarrow> nat \<Rightarrow> nat \<Rightarrow> outbuf \<times> (sf_error + nat)" where
  "strftime_loop tmv [] mem pos len = (mem, Inr pos)"
| "strftime_loop tmv (ch # fmt) mem pos len =
     (if ch \<noteq> CHR ''%'' then
        (if len = 0 then (mem(pos \<mapsto> ch), Inl EOVERFLOW)
         else strftime_loop tmv fmt (mem(pos \<mapsto> ch)) (pos + 1) (len - 1))
      else case fmt of [] \<Rightarrow> (mem, Inl EINVAL)
      | c # fmt' \<Rightarrow>
          (case convert c tmv of Invalid \<Rightarrow> (mem, Inl EINVAL)
           | Skip \<Rightarrow> strftime_loop tmv fmt' mem pos len
           | Copy s \<Rightarrow>
               (case lcopy mem pos s len of (m, None) \<Rightarrow> (m, Inl EOVERFLOW)
                | (m, Some n) \<Rightarrow> strftime_loop tmv fmt' m (pos + n) (len - n))))"

text \<open>The value 0 is returned with \<open>errno\<close> set for an error.\<close>

definition strftime :: "nat \<Rightarrow> string \<Rightarrow> tm \<Rightarrow> outbuf \<times> (sf_error + nat)" where
  "strftime len fmt tmv = strftime_loop tmv fmt (\<lambda>_. None) 0 len"

section \<open>What it writes\<close>

text \<open>The text a format stands for.\<close>

fun format_text :: "tm \<Rightarrow> string \<Rightarrow> string option" where
  "format_text tmv [] = Some []"
| "format_text tmv (ch # fmt) =
     (if ch \<noteq> CHR ''%'' then map_option ((#) ch) (format_text tmv fmt)
      else case fmt of [] \<Rightarrow> None
      | c # fmt' \<Rightarrow>
          (case convert c tmv of Invalid \<Rightarrow> None
           | Skip \<Rightarrow> format_text tmv fmt'
           | Copy s \<Rightarrow> map_option ((@) s) (format_text tmv fmt')))"

definition holds_text :: "outbuf \<Rightarrow> nat \<Rightarrow> string \<Rightarrow> bool" where
  "holds_text mem pos s \<longleftrightarrow> (\<forall>i<length s. mem (pos + i) = Some (s ! i))"

lemma holds_Nil [simp]: "holds_text mem pos []"
  by (simp add: holds_text_def)

lemma holds_Cons: "holds_text mem pos (c # s) \<longleftrightarrow> mem pos = Some c \<and> holds_text mem (pos + 1) s"
  by (auto simp: holds_text_def less_Suc_eq_0_disj nth_Cons split: nat.splits)

lemma holds_append: "holds_text mem pos (s @ t) \<longleftrightarrow> holds_text mem pos s \<and> holds_text mem (pos + length s) t"
  by (induction s arbitrary: pos) (auto simp: holds_Cons)

lemma lcopy_result: "snd (lcopy mem pos s len) = (if length s < len then Some (length s) else None)"
  by (induction mem pos s len rule: lcopy.induct) (auto simp: fun_upd_def split: prod.splits)

lemma lcopy_frame: "i < pos \<or> pos + len \<le> i \<Longrightarrow> fst (lcopy mem pos s len) i = mem i"
  by (induction mem pos s len rule: lcopy.induct) (auto simp: fun_upd_def split: prod.splits)

lemma lcopy_text: "length s < len \<Longrightarrow> holds_text (fst (lcopy mem pos s len)) pos s"
proof (induction mem pos s len rule: lcopy.induct)
  case (3 mem pos c cs k)
  have "fst (lcopy (mem(pos \<mapsto> c)) (pos + 1) cs k) pos = Some c" by (subst lcopy_frame) auto
  then show ?case using 3 by (auto simp: holds_Cons fun_upd_def split: prod.splits)
qed auto

lemmas lcopy_facts = lcopy_result lcopy_frame lcopy_text

lemma loop_plain:
  "ch \<noteq> CHR ''%'' \<Longrightarrow> strftime_loop tmv (ch # fmt) mem pos len =
     (if len = 0 then (mem(pos \<mapsto> ch), Inl EOVERFLOW) else strftime_loop tmv fmt (mem(pos \<mapsto> ch)) (pos + 1) (len - 1))"
  by simp

lemma loop_copy:
  assumes "convert c tmv = Copy t"
  shows "strftime_loop tmv (CHR ''%'' # c # fmt) mem pos len =
     (if length t < len then strftime_loop tmv fmt (fst (lcopy mem pos t len)) (pos + length t) (len - length t)
      else (fst (lcopy mem pos t len), Inl EOVERFLOW))"
  using assms lcopy_result [of mem pos t len] by (cases "lcopy mem pos t len") (auto split: if_splits)

lemma loop_other:
  "strftime_loop tmv [CHR ''%''] mem pos len = (mem, Inl EINVAL)"
  "convert c tmv = Invalid \<Longrightarrow> strftime_loop tmv (CHR ''%'' # c # fmt) mem pos len = (mem, Inl EINVAL)"
  "convert c tmv = Skip \<Longrightarrow> strftime_loop tmv (CHR ''%'' # c # fmt) mem pos len = strftime_loop tmv fmt mem pos len"
  by simp_all

lemmas loop_steps = loop_plain loop_copy loop_other

declare strftime_loop.simps(2) [simp del]

text \<open>Induction over a format, one conversion at a time.\<close>

lemma format_induct [case_names Nil Plain Alone Invalid Skip Copy]:
  assumes "P []"
    and "\<And>ch fmt. ch \<noteq> CHR ''%'' \<Longrightarrow> P fmt \<Longrightarrow> P (ch # fmt)"
    and "P [CHR ''%'']"
    and "\<And>c fmt. convert c tmv = Invalid \<Longrightarrow> P (CHR ''%'' # c # fmt)"
    and "\<And>c fmt. convert c tmv = Skip \<Longrightarrow> P fmt \<Longrightarrow> P (CHR ''%'' # c # fmt)"
    and "\<And>c fmt t. convert c tmv = Copy t \<Longrightarrow> P fmt \<Longrightarrow> P (CHR ''%'' # c # fmt)"
  shows "P fmt"
proof (induction fmt rule: length_induct)
  case (1 fmt)
  show ?case
  proof (cases fmt)
    case (Cons ch fmt1)
    show ?thesis
    proof (cases "ch = CHR ''%''")
      case True
      show ?thesis
      proof (cases fmt1)
        case (Cons c fmt2)
        then show ?thesis using 1 \<open>fmt = ch # fmt1\<close> True assms(4-6) by (cases "convert c tmv") auto
      qed (use True Cons assms(3) in simp)
    qed (use 1 Cons assms(2) in simp)
  qed (use assms(1) in simp)
qed

lemma strftime_loop_frame:
  "i < pos \<or> pos + len < i \<Longrightarrow> fst (strftime_loop tmv fmt mem pos len) i = mem i"
proof (induction fmt arbitrary: mem pos len rule: format_induct [of _ tmv])
  case (Plain ch fmt)
  then show ?case by (cases "len = 0") (auto simp: loop_plain)
next
  case (Copy c fmt t)
  then show ?case by (auto simp: loop_copy lcopy_frame)
qed (auto simp: loop_other)

lemma strftime_loop_text:
  "snd (strftime_loop tmv fmt mem pos len) = Inr n \<Longrightarrow>
     \<exists>s. format_text tmv fmt = Some s \<and> n = pos + length s \<and> length s \<le> len
       \<and> holds_text (fst (strftime_loop tmv fmt mem pos len)) pos s"
proof (induction fmt arbitrary: mem pos len rule: format_induct [of _ tmv])
  case (Plain ch fmt)
  then obtain l where l: "len = Suc l" by (cases len) (auto simp: loop_plain)
  let ?m = "mem(pos \<mapsto> ch)"
  obtain s where s: "format_text tmv fmt = Some s" "n = pos + 1 + length s" "length s \<le> l"
    "holds_text (fst (strftime_loop tmv fmt ?m (pos + 1) l)) (pos + 1) s"
    using Plain l by (force simp: loop_plain)
  have "fst (strftime_loop tmv fmt ?m (pos + 1) l) pos = ?m pos" by (rule strftime_loop_frame) simp
  then show ?case using s l Plain(1) by (simp add: loop_plain holds_Cons)
next
  case (Copy c fmt t)
  then have l: "length t < len" by (auto simp: loop_copy split: if_splits)
  let ?m = "fst (lcopy mem pos t len)" and ?p = "pos + length t" and ?l = "len - length t"
  obtain s where s: "format_text tmv fmt = Some s" "n = ?p + length s" "length s \<le> ?l"
    "holds_text (fst (strftime_loop tmv fmt ?m ?p ?l)) ?p s"
    using Copy l by (force simp: loop_copy)
  have "fst (strftime_loop tmv fmt ?m ?p ?l) i = ?m i" if "i < ?p" for i
    using that by (intro strftime_loop_frame) simp
  then have "holds_text (fst (strftime_loop tmv fmt ?m ?p ?l)) pos t"
    using lcopy_text [OF l, of mem pos] by (simp add: holds_text_def)
  then show ?case using s l Copy(1) by (auto simp: loop_copy holds_append)
qed (auto simp: loop_other)

lemma strftime_loop_fits:
  "format_text tmv fmt = Some s \<Longrightarrow> length s < len \<Longrightarrow> snd (strftime_loop tmv fmt mem pos len) = Inr (pos + length s)"
proof (induction fmt arbitrary: mem pos len s rule: format_induct [of _ tmv])
  case (Plain ch fmt)
  then show ?case by (cases len) (auto simp: loop_plain)
next
  case (Copy c fmt t)
  then show ?case by (force simp: loop_copy)
qed (auto simp: loop_other)

section \<open>Properties\<close>



lemma week_of_2001: "week_days 101 False = 6 \<and> (julian (2001, 1, 1)) mod 7 = 0"
  by (simp add: week_days_def g2j_eq yr3_def mo3_def ydays_def)

end
