(* ===== verification/BitStore.thy ===== *)
theory BitStore
  imports QsPrelude
begin

text \<open>
  Bit arrays of the START module: \<open>setbits\<close> (ldrapps/start/misc/clib.c) on arrays of dwords and on
  bit streams, and the view of both as functions from positions to bits. Dword arrays are lists of
  \<open>u32\<close>, bit streams lists of \<open>u8\<close>; positions and counts are numbers.
\<close>

section \<open>setbits\<close>

text \<open>\<open>FFFF\<close>, \<open>0xFF\<close>: all bits set.\<close>

definition ALL1 :: "'a::len word" where
  "ALL1 = -1"

lemma bit_ALL1 [simp]: "bit (ALL1 :: 'a::len word) n = (n < LENGTH('a))"
  by (simp add: ALL1_def)

definition set_or_clear :: "bool \<Rightarrow> 'a::len word \<Rightarrow> 'a word \<Rightarrow> 'a word" where
  "set_or_clear on v mk = (if on then v OR mk else v AND NOT mk)"

text \<open>The default mode: dwords in Intel byte order.\<close>

text \<open>First step: a part of the first cell. The result is the array, the next cell and the bits left.\<close>

definition dword_head :: "u32 list \<Rightarrow> nat \<Rightarrow> nat \<Rightarrow> bool \<Rightarrow> u32 list \<times> nat \<times> nat" where
  "dword_head ws pos cnt on =
     (let mcnt = pos mod 32 in
      if mcnt \<noteq> 0 then
        (let mk = (if cnt < 31 then drop_bit (32 - cnt) ALL1 else ALL1) in
         (ws[pos div 32 := set_or_clear on (ws ! (pos div 32)) (push_bit mcnt mk)],
          pos div 32 + 1, if cnt < 32 - mcnt then 0 else cnt - (32 - mcnt)))
      else (ws, pos div 32, cnt))"

text \<open>Then whole cells, and a part of the last one.\<close>

definition dword_rest :: "u32 list \<Rightarrow> nat \<Rightarrow> nat \<Rightarrow> bool \<Rightarrow> u32 list" where
  "dword_rest ws p cnt on =
     (let ws2 = fill ws p (cnt div 32) (if on then ALL1 else 0);
          p2 = p + cnt div 32; m = cnt mod 32 in
      if m \<noteq> 0 then ws2[p2 := set_or_clear on (ws2 ! p2) (drop_bit (32 - m) ALL1)] else ws2)"

definition setbits_dword :: "u32 list \<Rightarrow> nat \<Rightarrow> nat \<Rightarrow> bool \<Rightarrow> u32 list" where
  "setbits_dword ws pos cnt on =
     (if cnt = 0 then ws
      else case dword_head ws pos cnt on of (ws1, p1, cnt1) \<Rightarrow> dword_rest ws1 p1 cnt1 on)"

text \<open>\<open>SBIT_STREAM\<close>: position 0 is bit 7 of the first byte.\<close>

definition stream_head :: "u8 list \<Rightarrow> nat \<Rightarrow> nat \<Rightarrow> bool \<Rightarrow> u8 list \<times> nat \<times> nat" where
  "stream_head bs pos cnt on =
     (let mcnt = pos mod 8 in
      if mcnt \<noteq> 0 then
        (let mk = (if cnt < 8 then push_bit (8 - cnt) ALL1 else ALL1) in
         (bs[pos div 8 := set_or_clear on (bs ! (pos div 8)) (drop_bit mcnt mk)],
          pos div 8 + 1, if cnt < 8 - mcnt then 0 else cnt - (8 - mcnt)))
      else (bs, pos div 8, cnt))"

definition stream_rest :: "u8 list \<Rightarrow> nat \<Rightarrow> nat \<Rightarrow> bool \<Rightarrow> u8 list" where
  "stream_rest bs p cnt on =
     (let bs2 = fill bs p (cnt div 8) (if on then ALL1 else 0);
          p2 = p + cnt div 8; m = cnt mod 8 in
      if m \<noteq> 0 then bs2[p2 := set_or_clear on (bs2 ! p2) (push_bit (8 - m) ALL1)] else bs2)"

definition setbits_stream :: "u8 list \<Rightarrow> nat \<Rightarrow> nat \<Rightarrow> bool \<Rightarrow> u8 list" where
  "setbits_stream bs pos cnt on =
     (if cnt = 0 then bs
      else case stream_head bs pos cnt on of (bs1, p1, cnt1) \<Rightarrow> stream_rest bs1 p1 cnt1 on)"

section \<open>The view as bits\<close>

definition dbit :: "u32 list \<Rightarrow> nat \<Rightarrow> bool" where
  "dbit ws i = bit (ws ! (i div 32)) (i mod 32)"

definition sbit :: "u8 list \<Rightarrow> nat \<Rightarrow> bool" where
  "sbit bs i = bit (bs ! (i div 8)) (7 - i mod 8)"

lemma bit_set_or_clear: "n < LENGTH('a) \<Longrightarrow>
    bit (set_or_clear on (v::'a::len word) mk) n = (if bit mk n then on else bit v n)"
  by (auto simp: set_or_clear_def bit_simps)

lemma length_dword_rest: "length (dword_rest ws p cnt on) = length ws"
  unfolding dword_rest_def Let_def by (simp only: length_fill length_list_update if_cancel split: if_split) simp

lemma length_stream_rest: "length (stream_rest ws p cnt on) = length ws"
  unfolding stream_rest_def Let_def by (simp only: length_fill length_list_update if_cancel split: if_split) simp

lemma length_dword_head: "length (fst (dword_head ws p cnt on)) = length ws"
  unfolding dword_head_def Let_def by (simp only: fst_conv length_list_update split: if_split) simp

lemma length_stream_head: "length (fst (stream_head ws p cnt on)) = length ws"
  unfolding stream_head_def Let_def by (simp only: fst_conv length_list_update split: if_split) simp

lemma length_setbits_dword [simp]: "length (setbits_dword ws pos cnt on) = length ws"
  using length_dword_head [of ws pos cnt on]
  by (auto simp: setbits_dword_def length_dword_rest split: prod.split)

lemma length_setbits_stream [simp]: "length (setbits_stream bs pos cnt on) = length bs"
  using length_stream_head [of bs pos cnt on]
  by (auto simp: setbits_stream_def length_stream_rest split: prod.split)

section \<open>Arrays of cells\<close>

text \<open>
  Both modes write the same way: a part of the first cell, whole cells, a part of the last one.
  The contract of the cells (\<open>cb v n\<close> is bit \<open>n\<close> of a cell in array order; masks for the low \<open>m\<close>
  bits and for \<open>c\<close> bits from \<open>b\<close>) is enough for the effect on the array.
\<close>

locale bit_cells =
  fixes W :: nat
    and cb :: "'c \<Rightarrow> nat \<Rightarrow> bool"
    and put :: "bool \<Rightarrow> 'c \<Rightarrow> 'c \<Rightarrow> 'c"
    and full :: 'c and zero :: 'c
    and lowm :: "nat \<Rightarrow> 'c"
    and midm :: "nat \<Rightarrow> nat \<Rightarrow> 'c"
  assumes W: "0 < W"
    and cb_put: "n < W \<Longrightarrow> cb (put on v mk) n = (if cb mk n then on else cb v n)"
    and cb_full: "n < W \<Longrightarrow> cb full n"
    and cb_zero: "\<not> cb zero n"
    and cb_low: "n < W \<Longrightarrow> m \<le> W \<Longrightarrow> cb (lowm m) n = (n < m)"
    and cb_mid: "n < W \<Longrightarrow> b < W \<Longrightarrow> 0 < b \<Longrightarrow> cb (midm b c) n = (b \<le> n \<and> n < b + c)"
begin

definition abit :: "'c list \<Rightarrow> nat \<Rightarrow> bool" where
  "abit xs i = cb (xs ! (i div W)) (i mod W)"

definition cells_rest :: "'c list \<Rightarrow> nat \<Rightarrow> nat \<Rightarrow> bool \<Rightarrow> 'c list" where
  "cells_rest xs p cnt on =
     (let xs2 = fill xs p (cnt div W) (if on then full else zero);
          p2 = p + cnt div W; m = cnt mod W in
      if m \<noteq> 0 then xs2[p2 := put on (xs2 ! p2) (lowm m)] else xs2)"

definition cells_set :: "'c list \<Rightarrow> nat \<Rightarrow> nat \<Rightarrow> bool \<Rightarrow> 'c list" where
  "cells_set xs pos cnt on =
     (let b = pos mod W; p = pos div W in
      if cnt = 0 then xs
      else if b = 0 then cells_rest xs p cnt on
      else cells_rest (xs[p := put on (xs ! p) (midm b cnt)]) (p + 1) (if cnt < W - b then 0 else cnt - (W - b)) on)"

lemma abit_update: "i < W * length xs \<Longrightarrow> p < length xs \<Longrightarrow>
    abit (xs[p := v]) i = (if i div W = p then cb v (i mod W) else abit xs i)"
  by (auto simp: abit_def nth_list_update)

lemma abit_fill: "i < W * length xs \<Longrightarrow>
    abit (fill xs p n (if on then full else zero)) i = (if W * p \<le> i \<and> i < W * (p + n) then on else abit xs i)"
proof -
  assume i: "i < W * length xs"
  then have "i div W < length xs" by (simp add: less_mult_imp_div_less mult.commute)
  moreover have "(p \<le> i div W \<and> i div W < p + n) = (W * p \<le> i \<and> i < W * (p + n))"
    using W by (simp add: less_eq_div_iff_mult_less_eq div_less_iff_less_mult mult.commute)
  ultimately show ?thesis using cb_full [of "i mod W"] cb_zero W by (auto simp: abit_def)
qed

text \<open>A write under a mask into the cell \<open>p\<close>, when the mask covers the bits from \<open>lo\<close> to \<open>hi\<close>.\<close>

lemma abit_masked:
  assumes p: "p < length xs" and i: "i < W * length xs"
    and mk: "\<And>n. n < W \<Longrightarrow> cb mk n = (lo \<le> W * p + n \<and> W * p + n < hi)"
    and inside: "lo < hi \<Longrightarrow> W * p \<le> lo \<and> hi \<le> W * p + W"
  shows "abit (xs[p := put on (xs ! p) mk]) i = (if lo \<le> i \<and> i < hi then on else abit xs i)"
proof -
  define q a where "q = i div W" and "a = i mod W"
  have e: "i = W * q + a" "a < W" using W by (auto simp: q_def a_def)
  have d: "abit (xs[p := v]) i = (if q = p then cb v a else abit xs i)" for v
    unfolding abit_update [OF i p] q_def a_def ..
  show ?thesis
  proof (cases "q = p")
    case True
    then show ?thesis using mk [OF e(2)] e cb_put [OF e(2), of on "xs ! p" mk] unfolding d
      by (auto simp: abit_def simp flip: q_def a_def)
  next
    case False
    then have "Suc q \<le> p \<or> Suc p \<le> q" by linarith
    then have "W * q + W \<le> W * p \<or> W * p + W \<le> W * q" by (metis mult_Suc_right add.commute mult_le_mono2)
    then have "\<not> (lo \<le> i \<and> i < hi)" using e inside by linarith
    then show ?thesis using False unfolding d by auto
  qed
qed

lemma abit_rest:
  assumes "W * p + cnt \<le> W * length xs" and "i < W * length xs"
  shows "abit (cells_rest xs p cnt on) i = (if W * p \<le> i \<and> i < W * p + cnt then on else abit xs i)"
proof -
  define n m where "n = cnt div W" and "m = cnt mod W"
  have e: "cnt = W * n + m" "m < W" using W by (auto simp: n_def m_def)
  let ?xs2 = "fill xs p n (if on then full else zero)"
  have f: "abit ?xs2 i = (if W * p \<le> i \<and> i < W * (p + n) then on else abit xs i)"
    by (rule abit_fill [OF assms(2)])
  have r: "cells_rest xs p cnt on = (if m \<noteq> 0 then ?xs2[p + n := put on (?xs2 ! (p + n)) (lowm m)] else ?xs2)"
    unfolding cells_rest_def Let_def n_def m_def ..
  show ?thesis
  proof (cases "m = 0")
    case True
    then show ?thesis using r f e by (simp add: distrib_left)
  next
    case False
    have "W * (p + n) < W * length xs" using assms(1) e False by (simp add: distrib_left)
    then have pn: "p + n < length ?xs2" by simp
    have "abit (?xs2[p + n := put on (?xs2 ! (p + n)) (lowm m)]) i
        = (if W * (p + n) \<le> i \<and> i < W * (p + n) + m then on else abit ?xs2 i)"
      by (rule abit_masked [OF pn]) (use assms(2) e(2) cb_low in auto)
    moreover have "cells_rest xs p cnt on = ?xs2[p + n := put on (?xs2 ! (p + n)) (lowm m)]"
      using False r by simp
    ultimately show ?thesis using f e(1) by (auto simp: distrib_left)
  qed
qed

lemma abit_cells_set:
  assumes "pos + cnt \<le> W * length xs" and "i < W * length xs"
  shows "abit (cells_set xs pos cnt on) i = (if pos \<le> i \<and> i < pos + cnt then on else abit xs i)"
proof -
  define p b where "p = pos div W" and "b = pos mod W"
  have e: "pos = W * p + b" "b < W" using W by (auto simp: p_def b_def)
  consider "cnt = 0" | "cnt \<noteq> 0" "b = 0" | "cnt \<noteq> 0" "b \<noteq> 0" by blast
  then show ?thesis
  proof cases
    case 1
    then show ?thesis by (auto simp: cells_set_def)
  next
    case 2
    then have "cells_set xs pos cnt on = cells_rest xs p cnt on"
      unfolding cells_set_def Let_def p_def b_def by simp
    then show ?thesis using abit_rest [of p cnt xs i on] assms e 2 by simp
  next
    case 3
    define xs1 where "xs1 = xs[p := put on (xs ! p) (midm b cnt)]"
    define c1 where "c1 = (if cnt < W - b then 0 else cnt - (W - b))"
    have s: "cells_set xs pos cnt on = cells_rest xs1 (p + 1) c1 on"
      using 3 unfolding cells_set_def Let_def xs1_def c1_def p_def b_def by simp
    have "W * p < W * length xs" using assms(1) e 3 by linarith
    then have p: "p < length xs" by simp
    have h: "abit xs1 i = (if pos \<le> i \<and> i < pos + min cnt (W - b) then on else abit xs i)"
      unfolding xs1_def
      by (rule abit_masked [OF p assms(2)]) (use e 3 cb_mid in auto)
    have l: "length xs1 = length xs" by (simp add: xs1_def)
    have "W * (p + 1) + c1 \<le> W * length xs1"
    proof (cases "c1 = 0")
      case True
      have "p + 1 \<le> length xs" using p by simp
      then have "W * (p + 1) \<le> W * length xs" by (rule mult_le_mono2)
      then show ?thesis using True l by simp
    next
      case False
      then show ?thesis using assms(1) e l by (auto simp: c1_def split: if_splits)
    qed
    then have "abit (cells_rest xs1 (p + 1) c1 on) i
        = (if W * (p + 1) \<le> i \<and> i < W * (p + 1) + c1 then on else abit xs1 i)"
      using assms(2) l by (intro abit_rest) auto
    then show ?thesis unfolding s h using e 3 by (auto simp: c1_def split: if_splits)
  qed
qed

end

section \<open>The two modes\<close>

lemma bit_low_mask: "n < 32 \<Longrightarrow> m \<le> 32 \<Longrightarrow> bit (drop_bit (32 - m) (ALL1::u32)) n = (n < m)"
  by (auto simp: bit_simps)

lemma bit_mid_mask: "n < 32 \<Longrightarrow> k < 32 \<Longrightarrow>
    bit (push_bit k (if c < 31 then drop_bit (32 - c) ALL1 else (ALL1::u32))) n = (k \<le> n \<and> (n < k + c \<or> 31 \<le> c))"
  by (auto simp: bit_simps)

lemma bit_stream_mask: "n < 8 \<Longrightarrow> m \<le> 8 \<Longrightarrow> bit (push_bit (8 - m) (ALL1::u8)) (7 - n) = (n < m)"
  by (auto simp: bit_simps)

lemma bit_stream_mid: "n < 8 \<Longrightarrow> k < 8 \<Longrightarrow>
    bit (drop_bit k (if c < 8 then push_bit (8 - c) ALL1 else (ALL1::u8))) (7 - n) = (k \<le> n \<and> n < k + c)"
  by (auto simp: bit_simps)

interpretation dw: bit_cells 32 bit "set_or_clear :: bool \<Rightarrow> u32 \<Rightarrow> u32 \<Rightarrow> u32" ALL1 0
  "\<lambda>m. drop_bit (32 - m) ALL1" "\<lambda>b c. push_bit b (if c < 31 then drop_bit (32 - c) ALL1 else ALL1)"
proof (unfold_locales, goal_cases)
  case (2 n on v mk)
  then show ?case by (intro bit_set_or_clear) simp
next
  case (6 n b c)
  then show ?case using bit_mid_mask [of n b c] by auto
qed (auto simp: bit_low_mask)

interpretation st: bit_cells 8 "\<lambda>v n. bit v (7 - n)" "set_or_clear :: bool \<Rightarrow> u8 \<Rightarrow> u8 \<Rightarrow> u8" ALL1 0
  "\<lambda>m. push_bit (8 - m) ALL1" "\<lambda>b c. drop_bit b (if c < 8 then push_bit (8 - c) ALL1 else ALL1)"
proof (unfold_locales, goal_cases)
  case (2 n on v mk)
  then show ?case by (intro bit_set_or_clear) simp
next
  case (6 n b c)
  then show ?case using bit_stream_mid [of n b c] by auto
qed (auto simp: bit_stream_mask)

lemma dbit_abit: "dbit = dw.abit"
  by (simp add: dbit_def dw.abit_def fun_eq_iff)

lemma sbit_abit: "sbit = st.abit"
  by (simp add: sbit_def st.abit_def fun_eq_iff)

lemma setbits_dword_cells: "setbits_dword ws pos cnt on = dw.cells_set ws pos cnt on"
  unfolding setbits_dword_def dw.cells_set_def dword_head_def Let_def dword_rest_def dw.cells_rest_def
  by (cases "pos mod 32 = 0") (simp_all only: if_True if_False prod.case not_False_eq_True not_True_eq_False simp_thms)

lemma setbits_stream_cells: "setbits_stream ws pos cnt on = st.cells_set ws pos cnt on"
  unfolding setbits_stream_def st.cells_set_def stream_head_def Let_def stream_rest_def st.cells_rest_def
  by (cases "pos mod 8 = 0") (simp_all only: if_True if_False prod.case not_False_eq_True not_True_eq_False simp_thms)

lemma dbit_setbits:
  "pos + cnt \<le> 32 * length ws \<Longrightarrow> i < 32 * length ws \<Longrightarrow>
   dbit (setbits_dword ws pos cnt on) i = (if pos \<le> i \<and> i < pos + cnt then on else dbit ws i)"
  unfolding dbit_abit setbits_dword_cells by (rule dw.abit_cells_set)

lemma sbit_setbits:
  "pos + cnt \<le> 8 * length bs \<Longrightarrow> i < 8 * length bs \<Longrightarrow>
   sbit (setbits_stream bs pos cnt on) i = (if pos \<le> i \<and> i < pos + cnt then on else sbit bs i)"
  unfolding sbit_abit setbits_stream_cells by (rule st.abit_cells_set)

end
