(* ===== verification/BitMap.thy ===== *)
theory BitMap
  imports BitStore
begin

text \<open>
  The shared class \<open>bit_map\<close>, ldrapps/start/misc/bitmap.c: state and methods. The buffer is a list
  of dwords, its bytes are read through \<open>byte_at\<close>; sizes and positions are numbers with the 32-bit
  sums of the code written out. \<open>FFFF\<close> as a result of a search is \<open>None\<close>.
\<close>

section \<open>Bytes of the buffer\<close>

definition byte_at :: "u32 list \<Rightarrow> nat \<Rightarrow> u8" where
  "byte_at ws k = ucast (drop_bit (8 * (k mod 4)) (ws ! (k div 4)))"

definition put_byte :: "u32 list \<Rightarrow> nat \<Rightarrow> u8 \<Rightarrow> u32 list" where
  "put_byte ws k v = ws[k div 4 := (ws ! (k div 4) AND NOT (push_bit (8 * (k mod 4)) 255))
     OR push_bit (8 * (k mod 4)) (ucast v)]"

definition w32 :: "nat \<Rightarrow> nat" where
  "w32 n = n mod 4294967296"

definition round8 :: "nat \<Rightarrow> nat" where
  "round8 n = w32 (n + 7) div 8"

definition round32 :: "nat \<Rightarrow> nat" where
  "round32 n = w32 (n + 31) div 32"

section \<open>Tables\<close>

text \<open>Number of clear bits at the low and at the high end (\<open>bsf\<close>, \<open>bsr\<close>).\<close>

definition bit_c_low :: "u8 \<Rightarrow> nat" where
  "bit_c_low b = length (takeWhile (\<lambda>i. \<not> bit b i) [0..<8])"

definition bit_c_hi :: "u8 \<Rightarrow> nat" where
  "bit_c_hi b = length (takeWhile (\<lambda>i. \<not> bit b (7 - i)) [0..<8])"

definition setmask :: "u8 list" where
  "setmask = [0, 1, 3, 7, 15, 31, 63, 127, 255]"

definition clbits4 :: "nat list" where
  "clbits4 = [4,3,3,2,3,2,2,1,3,2,2,1,2,1,1,0]"

text \<open>Position times 16 plus length of a longest run of clear bits in a byte.\<close>

definition clbits_cont :: "int list" where
  "clbits_cont =
  [8, 23, 38, 38, 53, 53, 53, 53, 68, 68, 68, 68, 68, 68, 68, 68,
   4, 19, 83, 83, 83, 83, 83, 83, 3, 83, 83, 83, 83, 83, 83, 83,
   5, 20, 35, 35, 2, 50, 50, 50, 3, 18, 98, 98, 2, 98, 98, 98,
   4, 19, 34, 34, 2, 98, 98, 98, 3, 18, 98, 98, 2, 98, 98, 98,
   6, 21, 36, 36, 51, 51, 51, 51, 3, 18, 66, 66, 2, 66, 66, 66,
   4, 19, 34, 34, 2, 17, 1, 49, 3, 18, 1, 33, 2, 17, 1, 81,
   5, 20, 35, 35, 2, 50, 50, 50, 3, 18, 1, 33, 2, 17, 1, 65,
   4, 19, 34, 34, 2, 17, 1, 49, 3, 18, 1, 33, 2, 17, 1, 113,
   7, 22, 37, 37, 52, 52, 52, 52, 3, 67, 67, 67, 67, 67, 67, 67,
   4, 19, 34, 34, 2, 82, 82, 82, 3, 18, 82, 82, 2, 82, 82, 82,
   5, 20, 35, 35, 2, 50, 50, 50, 3, 18, 1, 33, 2, 17, 1, 65,
   4, 19, 34, 34, 2, 17, 1, 49, 3, 18, 1, 33, 2, 17, 1, 97,
   6, 21, 36, 36, 51, 51, 51, 51, 3, 18, 66, 66, 2, 66, 66, 66,
   4, 19, 34, 34, 2, 17, 1, 49, 3, 18, 1, 33, 2, 17, 1, 81,
   5, 20, 35, 35, 2, 50, 50, 50, 3, 18, 1, 33, 2, 17, 1, 65,
   4, 19, 34, 34, 2, 17, 1, 49, 3, 18, 1, 33, 2, 17, 1, 0]"

definition bit_c :: "u8 \<Rightarrow> nat" where
  "bit_c b = nat (clbits_cont ! unat b mod 16)"

definition bit_c_pos :: "u8 \<Rightarrow> nat" where
  "bit_c_pos b = nat (clbits_cont ! unat b div 16)"

section \<open>State\<close>

record bitmap =
  bm_signed :: bool
  bm_buf :: "u32 list option"
  bm_bits :: nat
  bm_extmem :: bool

text \<open>\<open>init\<close>: the caller's buffer; both arguments or none.\<close>

definition bm_init :: "bitmap \<Rightarrow> u32 list option \<Rightarrow> nat \<Rightarrow> bitmap \<times> nat" where
  "bm_init bm bmp sz =
     (if \<not> bm_signed bm then (bm, 0)
      else if (bmp \<noteq> None) \<noteq> (sz \<noteq> 0) then (bm, 0)
      else (bm\<lparr>bm_buf := (if sz \<noteq> 0 then bmp else None), bm_bits := sz, bm_extmem := True\<rparr>, 1))"

text \<open>\<open>realloc\<close> of the heap is a parameter: the old buffer (or null) and the new number of dwords.\<close>

definition bm_alloc :: "(u32 list option \<Rightarrow> nat \<Rightarrow> u32 list option) \<Rightarrow> bitmap \<Rightarrow> nat \<Rightarrow> bitmap \<times> nat" where
  "bm_alloc ra bm sz =
     (if \<not> bm_signed bm then (bm, 0)
      else if sz = 0 then (bm\<lparr>bm_buf := None, bm_bits := 0, bm_extmem := False\<rparr>, 1)
      else
        case ra (if bm_extmem bm then None else bm_buf bm) (round32 sz) of
          None \<Rightarrow> (bm\<lparr>bm_buf := None, bm_bits := 0\<rparr>, 0)
        | Some ws \<Rightarrow> (bm\<lparr>bm_buf := Some (fill ws 0 (round32 sz) 0), bm_bits := sz, bm_extmem := False\<rparr>, 1))"

text \<open>\<open>set\<close>: the number of bits changed; the sum \<open>pos+length\<close> is a 32-bit one.\<close>

definition bm_set :: "bitmap \<Rightarrow> bool \<Rightarrow> nat \<Rightarrow> nat \<Rightarrow> bitmap \<times> nat" where
  "bm_set bm on pos len0 =
     (if \<not> bm_signed bm then (bm, 0)
      else if len0 = 0 \<or> bm_bits bm \<le> pos then (bm, 0)
      else
        let len = (if bm_bits bm \<le> w32 (pos + len0) then bm_bits bm - pos else len0) in
        (bm\<lparr>bm_buf := map_option (\<lambda>ws. setbits_dword ws pos len on) (bm_buf bm)\<rparr>, len))"

definition bm_resize :: "(u32 list option \<Rightarrow> nat \<Rightarrow> u32 list option) \<Rightarrow> bitmap \<Rightarrow> nat \<Rightarrow> bool \<Rightarrow> bitmap \<times> nat" where
  "bm_resize ra bm sz on =
     (if \<not> bm_signed bm then (bm, 0)
      else if sz = bm_bits bm then (bm, 1)
      else if bm_extmem bm then
        (if bm_bits bm < sz then (bm, 0)
         else (bm\<lparr>bm_bits := sz, bm_buf := (if sz = 0 then None else bm_buf bm)\<rparr>, 1))
      else if sz = 0 then (bm\<lparr>bm_buf := None, bm_bits := 0\<rparr>, 1)
      else
        let old = bm_bits bm in
        case (if round32 sz \<noteq> round32 old then ra (bm_buf bm) (round32 sz) else bm_buf bm) of
          None \<Rightarrow> (bm, 0)
        | Some ws \<Rightarrow>
            let bm1 = bm\<lparr>bm_buf := Some ws, bm_bits := sz\<rparr> in
            (if old < sz then fst (bm_set bm1 on old (sz - old)) else bm1, 1))"

definition bm_setall :: "bitmap \<Rightarrow> bool \<Rightarrow> bitmap" where
  "bm_setall bm on =
     (if bm_signed bm \<and> bm_bits bm \<noteq> 0
      then bm\<lparr>bm_buf := map_option (\<lambda>ws. fill ws 0 (round32 (bm_bits bm)) (if on then ALL1 else 0)) (bm_buf bm)\<rparr>
      else bm)"

definition bm_state :: "bitmap \<Rightarrow> bool \<times> bool" where
  "bm_state bm = (if \<not> bm_signed bm then (False, False) else (bm_buf bm = None, bm_extmem bm))"

section \<open>Checking and searching\<close>

definition next_byte :: "bool \<Rightarrow> u32 list \<Rightarrow> nat \<Rightarrow> u8" where
  "next_byte on ws k = (if on then NOT (byte_at ws k) else byte_at ws k)"

definition bm_check :: "bitmap \<Rightarrow> bool \<Rightarrow> nat \<Rightarrow> nat \<Rightarrow> bool" where
  "bm_check bm on start len =
     (case bm_buf bm of None \<Rightarrow> False | Some ws \<Rightarrow>
      if \<not> bm_signed bm \<or> len = 0 \<or> bm_bits bm < w32 (start + len) then False
      else
        let e = w32 (start + len) - 1; sby = start div 8; eby = e div 8;
            m1 = NOT (setmask ! (start mod 8)); m2 = setmask ! (e mod 8 + 1) in
        if sby = eby then m1 AND m2 AND next_byte on ws sby = 0
        else m1 AND next_byte on ws sby = 0
           \<and> list_all (\<lambda>k. next_byte on ws k = 0) [sby + 1..<eby]
           \<and> m2 AND next_byte on ws eby = 0)"

text \<open>The unused bits of the last byte are made to differ from the searched value.\<close>

definition fix_tail :: "bool \<Rightarrow> nat \<Rightarrow> u32 list \<Rightarrow> u32 list" where
  "fix_tail on sz ws =
     (if sz mod 8 \<noteq> 0 then
        let k = round8 sz - 1; m = setmask ! (sz mod 8) in
        put_byte ws k (if on then byte_at ws k AND m else byte_at ws k OR NOT m)
      else ws)"

text \<open>The loop over the bytes of an area: a check that may leave the search, then the update of the
  state. \<open>c\<close> is the number of the byte.\<close>

fun bscan :: "('s \<Rightarrow> u8 \<Rightarrow> nat \<Rightarrow> nat option) \<Rightarrow> ('s \<Rightarrow> u8 \<Rightarrow> nat \<Rightarrow> 's) \<Rightarrow> 's \<Rightarrow> nat \<Rightarrow> u8 list \<Rightarrow> nat option" where
  "bscan chk upd st c [] = None"
| "bscan chk upd st c (bb # bs) =
     (case chk st bb c of Some r \<Rightarrow> Some r | None \<Rightarrow> bscan chk upd (upd st bb c) (Suc c) bs)"

text \<open>Up to 9 bits: the state is the previous byte.\<close>

definition chk9 :: "nat \<Rightarrow> nat \<Rightarrow> u8 \<Rightarrow> u8 \<Rightarrow> nat \<Rightarrow> nat option" where
  "chk9 sz len pbb bb c =
     (let rcpos = 8 * c - bit_c_hi pbb in
      if len \<le> bit_c_hi pbb + bit_c_low bb \<and> w32 (rcpos + len) \<le> sz then Some rcpos
      else if len \<le> bit_c bb then Some (8 * c + bit_c_pos bb) else None)"

text \<open>10 to 14 bits: the two previous bytes.\<close>

definition chk14 :: "nat \<Rightarrow> nat \<Rightarrow> u8 \<times> u8 \<Rightarrow> u8 \<Rightarrow> nat \<Rightarrow> nat option" where
  "chk14 sz len st bb c =
     (let ppbb = fst st; pbb = snd st; r1 = 8 * c - bit_c_hi pbb; r2 = 8 * c - 8 - bit_c_hi ppbb in
      if len \<le> bit_c_hi pbb + bit_c_low bb \<and> w32 (r1 + len) \<le> sz then Some r1
      else if pbb = 0 \<and> len \<le> bit_c_hi ppbb + 8 + bit_c_low bb \<and> w32 (r2 + len) \<le> sz then Some r2
      else None)"

text \<open>15 bits and more: the last byte that is not zero, its number, the zero bytes after it.\<close>

definition chk_big :: "nat \<Rightarrow> nat \<Rightarrow> u8 \<times> int \<times> nat \<Rightarrow> u8 \<Rightarrow> nat \<Rightarrow> nat option" where
  "chk_big sz len st bb c =
     (case st of (startbb, start, nfound) \<Rightarrow>
      let rcpos = nat ((start * 8 + (8 - int (bit_c_hi startbb))) mod 4294967296) in
      if (len - 7) div 8 \<le> nfound \<and> len \<le> bit_c_hi startbb + nfound * 8 + bit_c_low bb
         \<and> w32 (rcpos + len) \<le> sz then Some rcpos else None)"

definition upd_big :: "u8 \<times> int \<times> nat \<Rightarrow> u8 \<Rightarrow> nat \<Rightarrow> u8 \<times> int \<times> nat" where
  "upd_big st bb c = (case st of (startbb, start, nfound) \<Rightarrow>
     if bb = 0 then (startbb, start, nfound + 1) else (bb, int c, 0))"

definition find_range :: "nat \<Rightarrow> nat \<Rightarrow> nat \<Rightarrow> u8 list \<Rightarrow> nat option" where
  "find_range sz len sidx xs =
     (if len \<le> 9 then bscan (chk9 sz len) (\<lambda>st bb c. bb) 255 sidx xs
      else if len < 15 then bscan (chk14 sz len) (\<lambda>st bb c. (snd st, bb)) (255, 255) sidx xs
      else bscan (chk_big sz len) upd_big (255, int sidx - 1, 0) sidx xs)"

text \<open>The bytes of one of the two passes; the first byte is read even when \<open>eidx\<close> is not behind it.\<close>

definition range_bytes :: "bool \<Rightarrow> u32 list \<Rightarrow> nat \<Rightarrow> nat \<Rightarrow> nat \<Rightarrow> u8 list" where
  "range_bytes on ws sidx eidx bidx =
     (next_byte on ws sidx OR setmask ! bidx) # map (next_byte on ws) [sidx + 1..<eidx]"

definition find_pass2 :: "nat \<Rightarrow> nat \<Rightarrow> nat \<Rightarrow> nat" where
  "find_pass2 sbyte len hint =
     (if len < 2 then hint div 8 else min sbyte (hint div 8 + (len - 2) div 8 + 2))"

definition bm_find_ws :: "u32 list \<Rightarrow> nat \<Rightarrow> bool \<Rightarrow> nat \<Rightarrow> nat \<Rightarrow> nat option" where
  "bm_find_ws ws sz on len hint =
     (case find_range sz len (hint div 8) (range_bytes on ws (hint div 8) (round8 sz) (hint mod 8)) of
        Some r \<Rightarrow> Some r
      | None \<Rightarrow>
          if hint = 0 then None
          else find_range sz len 0 (range_bytes on ws 0 (find_pass2 (round8 sz) len hint) 0))"

definition bm_find :: "bitmap \<Rightarrow> bool \<Rightarrow> nat \<Rightarrow> nat \<Rightarrow> bitmap \<times> nat option" where
  "bm_find bm on len hint0 =
     (case bm_buf bm of None \<Rightarrow> (bm, None) | Some ws0 \<Rightarrow>
      if \<not> bm_signed bm \<or> bm_bits bm < len then (bm, None)
      else
        let hint = (if bm_bits bm \<le> hint0 then 0 else hint0);
            ws = fix_tail on (bm_bits bm) ws0 in
        (bm\<lparr>bm_buf := Some ws\<rparr>, bm_find_ws ws (bm_bits bm) on len hint))"

definition findbits :: "u32 list \<Rightarrow> nat \<Rightarrow> bool \<Rightarrow> nat \<Rightarrow> nat \<Rightarrow> nat option" where
  "findbits bmp bmplen on len hint =
     snd (bm_find \<lparr>bm_signed = True, bm_buf = Some bmp, bm_bits = bmplen, bm_extmem = True\<rparr> on len hint)"

definition bm_findset :: "bitmap \<Rightarrow> bool \<Rightarrow> nat \<Rightarrow> nat \<Rightarrow> bitmap \<times> nat option" where
  "bm_findset bm on len hint =
     (case bm_find bm on len hint of
        (bm1, None) \<Rightarrow> (bm1, None)
      | (bm1, Some pos) \<Rightarrow> (fst (bm_set bm1 (\<not> on) pos len), Some pos))"

section \<open>The longest run and the total\<close>

fun longest_step :: "nat \<times> nat \<times> nat \<times> nat \<Rightarrow> nat \<times> u8 \<Rightarrow> nat \<times> nat \<times> nat \<times> nat" where
  "longest_step (lsize, lindex, csize, cindex) (idx, bb) =
     (if bb \<noteq> 0 then
        let c1 = csize + bit_c_low bb;
            (l1, li1) = (if lsize < c1 then (c1, cindex) else (lsize, lindex));
            c2 = bit_c_hi bb; ci2 = idx * 8 + (8 - c2) in
        if l1 < 8 \<and> c2 < 8 \<and> l1 < bit_c bb \<and> c2 < bit_c bb
        then (bit_c bb, idx * 8 + bit_c_pos bb, c2, ci2) else (l1, li1, c2, ci2)
      else (lsize, lindex, csize + 8, cindex))"

definition bm_longest :: "bitmap \<Rightarrow> bool \<Rightarrow> bitmap \<times> nat \<times> nat" where
  "bm_longest bm on =
     (case bm_buf bm of None \<Rightarrow> (bm, 0, 0) | Some ws0 \<Rightarrow>
      if \<not> bm_signed bm \<or> bm_bits bm = 0 then (bm, 0, 0)
      else
        let ws = fix_tail on (bm_bits bm) ws0;
            (lsize, lindex, csize, cindex) = foldl longest_step (0, 0, 0, 0)
               (map (\<lambda>k. (k, next_byte on ws k)) [0..<round8 (bm_bits bm)]) in
        (bm\<lparr>bm_buf := Some ws\<rparr>, if lsize < csize then (csize, cindex) else (lsize, lindex)))"

definition bm_total :: "bitmap \<Rightarrow> bool \<Rightarrow> bitmap \<times> nat" where
  "bm_total bm on =
     (case bm_buf bm of None \<Rightarrow> (bm, 0) | Some ws0 \<Rightarrow>
      if \<not> bm_signed bm \<or> bm_bits bm = 0 then (bm, 0)
      else
        let ws = fix_tail on (bm_bits bm) ws0 in
        (bm\<lparr>bm_buf := Some ws\<rparr>,
         sum_list (map (\<lambda>k. let bb = next_byte on ws k in
             clbits4 ! unat (bb AND 15) + clbits4 ! unat (drop_bit 4 bb)) [0..<round8 (bm_bits bm)])))"

end
