(* ===== verification/Cache.thy ===== *)
theory Cache
  imports QsPrelude
begin

text \<open>
  The sector cache, ldrapps/cache/cproc.c: blocks of 32k, linked in a ring in the order in which they
  may be dropped, found by an index of the 256k groups of the disks, and chained (\<open>snext\<close>) when
  they belong to the same group. The arrays of the module are functions of the index; a sector is
  a value of any type, and a block holds \<open>sin32k\<close> of them. The two bit arrays of a disk share one piece
  of memory, the bits of \<open>prio\<close> first; \<open>setbits\<close> sets a range of it (BitStore). Walks along a chain that
  may not end make a result \<open>None\<close>. Numbers of sectors and blocks are natural numbers: no disk has
  \<open>3 * 2 ^ 32\<close> sectors or more. The dump to the log is left out.
\<close>

section \<open>State\<close>

record diskinfo =
  sectors :: nat
  s32shift :: nat
  enabled :: bool
  valid :: bool
  disk :: u32
  bits :: "nat \<Rightarrow> bool"
  bm_ofs :: nat

record blockinfo =
  b_prev :: nat
  b_next :: nat
  snext :: nat
  bi_prio :: bool
  loc :: nat
  pdi :: "nat option"

record 'a cache_state =
  cdi :: "nat \<Rightarrow> diskinfo"
  cdi_hdds :: nat
  cdi_fdds :: nat
  cache_on :: bool
  cdata :: "nat \<Rightarrow> nat \<Rightarrow> 'a"
  cidxa :: "nat \<Rightarrow> u32"
  freehead :: nat
  cachehead :: nat
  bi :: "nat \<Rightarrow> blockinfo"
  a_shift :: nat
  dn_bits :: nat
  blocks_total :: nat
  free_total :: nat
  cache_hits :: nat
  cache_total :: nat

definition FFFF_key :: u32 where "FFFF_key = - 1"
definition QDSK_FLOPPY :: u32 where "QDSK_FLOPPY = 0x80"
definition QDSK_DISKMASK :: u32 where "QDSK_DISKMASK = 0x7F"
definition QDSK_DIRECT :: u32 where "QDSK_DIRECT = 0x20000"
definition QDSK_IAMCACHE :: u32 where "QDSK_IAMCACHE = 0x40000"
definition QDSK_IGNACCESS :: u32 where "QDSK_IGNACCESS = 0x80000"

definition sin32k :: "diskinfo \<Rightarrow> nat" where "sin32k di = 2 ^ s32shift di"

abbreviation upd_bi :: "nat \<Rightarrow> (blockinfo \<Rightarrow> blockinfo) \<Rightarrow> 'a cache_state \<Rightarrow> 'a cache_state" where
  "upd_bi b f st \<equiv> st\<lparr>bi := (bi st)(b := f (bi st b))\<rparr>"

definition prio_bit :: "diskinfo \<Rightarrow> nat \<Rightarrow> bool" where "prio_bit di p = bits di p"
definition bitmap_bit :: "diskinfo \<Rightarrow> nat \<Rightarrow> bool" where "bitmap_bit di p = bits di (bm_ofs di + p)"

text \<open>\<open>setbits(array, pos, count, on)\<close>, \<open>first\<close> the number of the first bit in the shared memory.\<close>

definition set_range :: "nat \<Rightarrow> nat \<Rightarrow> bool \<Rightarrow> diskinfo \<Rightarrow> diskinfo" where
  "set_range first n on di = di\<lparr>bits := (\<lambda>i. if first \<le> i \<and> i < first + n then on else bits di i)\<rparr>"

definition set_bitmap :: "nat \<Rightarrow> nat \<Rightarrow> bool \<Rightarrow> 'a cache_state \<Rightarrow> 'a cache_state" where
  "set_bitmap d pos on st =
    st\<lparr>cdi := (cdi st)(d := set_range (bm_ofs (cdi st d) + pos) 1 on (cdi st d))\<rparr>"

section \<open>The index\<close>

text \<open>\<open>diskidx|posbm\<close>\<close>

definition idx_key :: "'a cache_state \<Rightarrow> nat \<Rightarrow> nat \<Rightarrow> u32" where
  "idx_key st d posbm = (push_bit (32 - dn_bits st) (of_nat d) OR of_nat posbm)"

text \<open>\<open>memrchrd(mem + ofs, key, n)\<close>: the last cell with the key.\<close>

fun memrchrd :: "(nat \<Rightarrow> u32) \<Rightarrow> u32 \<Rightarrow> nat \<Rightarrow> nat \<Rightarrow> nat option" where
  "memrchrd mem key ofs 0 = None"
| "memrchrd mem key ofs (Suc n) = (if mem (ofs + n) = key then Some (ofs + n) else memrchrd mem key ofs n)"

definition find_group :: "'a cache_state \<Rightarrow> u32 \<Rightarrow> nat" where
  "find_group st key =
    (case memrchrd (cidxa st) key 0 (cachehead st) of Some p \<Rightarrow> p
     | None \<Rightarrow> (case memrchrd (cidxa st) key (cachehead st) (blocks_total st - cachehead st) of Some p \<Rightarrow> p | None \<Rightarrow> 0))"

partial_function (option) chain_walk :: "'a cache_state \<Rightarrow> nat \<Rightarrow> nat \<Rightarrow> nat \<Rightarrow> nat option" where
  "chain_walk st pos32k slblock block =
    (if loc (bi st block) \<noteq> pos32k \<and> snext (bi st block) \<noteq> slblock
     then chain_walk st pos32k slblock (snext (bi st block)) else Some block)"

text \<open>The result is \<open>slblock\<close> and \<open>block\<close>, 0 for none.\<close>

definition lookup_block :: "'a cache_state \<Rightarrow> nat \<Rightarrow> nat \<Rightarrow> (nat \<times> nat) option" where
  "lookup_block st d pos32k =
    (let posbm = drop_bit (a_shift st) pos32k in
     if bitmap_bit (cdi st d) posbm
     then let slblock = find_group st (idx_key st d posbm) in
       if slblock \<noteq> 0
       then (case (if snext (bi st slblock) \<noteq> 0 then chain_walk st pos32k slblock slblock else Some slblock) of
               None \<Rightarrow> None
             | Some block \<Rightarrow> Some (slblock, if loc (bi st block) \<noteq> pos32k then 0 else block))
       else Some (0, 0)
     else Some (0, 0))"

section \<open>Freeing blocks\<close>

text \<open>\<open>while (bi[pb].snext!=index) pb = bi[pb].snext\<close>\<close>

partial_function (option) chain_pred :: "'a cache_state \<Rightarrow> nat \<Rightarrow> nat \<Rightarrow> nat option" where
  "chain_pred st index pb =
    (if snext (bi st pb) \<noteq> index then chain_pred st index (snext (bi st pb)) else Some pb)"

definition relink_ring :: "nat \<Rightarrow> 'a cache_state \<Rightarrow> 'a cache_state" where
  "relink_ring index st =
    (let st1 = upd_bi (b_prev (bi st index)) (\<lambda>b. b\<lparr>b_next := b_next (bi st index)\<rparr>) st;
         st2 = upd_bi (b_next (bi st1 index)) (\<lambda>b. b\<lparr>b_prev := b_prev (bi st1 index)\<rparr>) st1
     in if index = cachehead st2
        then (let h = b_next (bi st2 index) in st2\<lparr>cachehead := (if index = h then 0 else h)\<rparr>)
        else st2)"

definition chain_remove :: "nat \<Rightarrow> 'a cache_state \<Rightarrow> 'a cache_state option" where
  "chain_remove index st =
    (if snext (bi st index) \<noteq> 0
     then (case chain_pred st index index of None \<Rightarrow> None
           | Some pb \<Rightarrow>
              Some (upd_bi pb (\<lambda>b. b\<lparr>snext := (if snext (bi st index) = pb then 0 else snext (bi st index))\<rparr>) st))
     else Some (set_bitmap (the (pdi (bi st index))) (drop_bit (a_shift st) (loc (bi st index))) False st))"

definition free_bi_entry :: "nat \<Rightarrow> bool \<Rightarrow> 'a cache_state \<Rightarrow> 'a cache_state option" where
  "free_bi_entry index ignore_snext st =
    (if pdi (bi st index) \<noteq> None
     then (let st1 = relink_ring index (st\<lparr>cidxa := (cidxa st)(index := FFFF_key)\<rparr>) in
       (case (if \<not> ignore_snext then chain_remove index st1 else Some st1) of None \<Rightarrow> None
        | Some st2 \<Rightarrow>
           Some ((upd_bi index (\<lambda>b. b\<lparr>b_next := freehead st2, pdi := None\<rparr>) st2)
                   \<lparr>freehead := index, free_total := free_total st2 + 1\<rparr>)))
     else Some st)"

partial_function (option) free_until :: "nat \<Rightarrow> 'a cache_state \<Rightarrow> 'a cache_state option" where
  "free_until cnt st =
    (if free_total st < cnt
     then (if bi_prio (bi st (cachehead st))
           then free_until cnt
             ((upd_bi (cachehead st) (\<lambda>b. b\<lparr>bi_prio := False\<rparr>) st)\<lparr>cachehead := b_next (bi st (cachehead st))\<rparr>)
           else Option.bind (free_bi_entry (cachehead st) False st) (free_until cnt))
     else Some st)"

text \<open>The return code of \<open>expand_free\<close> is not used by its caller.\<close>

definition expand_free :: "nat \<Rightarrow> 'a cache_state \<Rightarrow> 'a cache_state option" where
  "expand_free cnt st =
    (if blocks_total st div 2 < cnt then Some st
     else if free_total st < cnt
     then (if cachehead st = 0 then Some st else free_until cnt st)
     else Some st)"

section \<open>cache_io\<close>

text \<open>The disks: contents, and how many sectors of a read succeed.\<close>

record 'a device =
  medium :: "u32 \<Rightarrow> nat \<Rightarrow> 'a"
  readable :: "u32 \<Rightarrow> nat \<Rightarrow> nat \<Rightarrow> nat"

definition read_block :: "'a device \<Rightarrow> nat \<Rightarrow> nat \<Rightarrow> nat \<Rightarrow> 'a cache_state \<Rightarrow> 'a cache_state \<times> bool" where
  "read_block dev d block pos32k st =
    (let di = cdi st d;
         rpos = push_bit (s32shift di) pos32k;
         rcnt = (if rpos + sin32k di > sectors di then sectors di - rpos else sin32k di);
         got = readable dev (disk di) rpos rcnt
     in (st\<lparr>cdata := (cdata st)(block := (\<lambda>i. if i < got then medium dev (disk di) (rpos + i) else cdata st block i))\<rparr>,
         got = rcnt))"

definition ring_insert :: "nat \<Rightarrow> 'a cache_state \<Rightarrow> 'a cache_state" where
  "ring_insert block st =
    (if cachehead st = 0
     then (upd_bi block (\<lambda>b. b\<lparr>b_next := block, b_prev := block\<rparr>) st)\<lparr>cachehead := block\<rparr>
     else (let tail = b_prev (bi st (cachehead st));
               st1 = upd_bi block (\<lambda>b. b\<lparr>b_next := cachehead st, b_prev := tail\<rparr>) st;
               st2 = upd_bi tail (\<lambda>b. b\<lparr>b_next := block\<rparr>) st1
           in upd_bi (cachehead st) (\<lambda>b. b\<lparr>b_prev := block\<rparr>) st2))"

definition chain_insert :: "nat \<Rightarrow> nat \<Rightarrow> nat \<Rightarrow> nat \<Rightarrow> 'a cache_state \<Rightarrow> 'a cache_state option" where
  "chain_insert d posbm block slblock st =
    (if slblock = 0 then Some (upd_bi block (\<lambda>b. b\<lparr>snext := 0\<rparr>) (set_bitmap d posbm True st))
     else (let st1 = upd_bi block (\<lambda>b. b\<lparr>snext := slblock\<rparr>) st in
       if snext (bi st1 slblock) = 0 then Some (upd_bi slblock (\<lambda>b. b\<lparr>snext := block\<rparr>) st1)
       else (case chain_pred st1 slblock slblock of None \<Rightarrow> None
             | Some pb \<Rightarrow> Some (upd_bi pb (\<lambda>b. b\<lparr>snext := block\<rparr>) st1))))"

text \<open>``readed - add entry to cache''\<close>

definition add_entry :: "nat \<Rightarrow> nat \<Rightarrow> nat \<Rightarrow> nat \<Rightarrow> 'a cache_state \<Rightarrow> 'a cache_state option" where
  "add_entry d pos32k block slblock st =
    (let posbm = drop_bit (a_shift st) pos32k;
         st1 = ring_insert block (st\<lparr>freehead := b_next (bi st block), free_total := free_total st - 1\<rparr>);
         st2 = upd_bi block (\<lambda>b. b\<lparr>loc := pos32k, pdi := Some d, bi_prio := False\<rparr>) st1
     in chain_insert d posbm block slblock (st2\<lparr>cidxa := (cidxa st2)(block := idx_key st2 d posbm)\<rparr>))"

text \<open>``move block to the end of remove queue''\<close>

definition touch_block :: "nat \<Rightarrow> 'a cache_state \<Rightarrow> 'a cache_state" where
  "touch_block block st =
    (if b_prev (bi st (cachehead st)) \<noteq> block
     then if block = cachehead st then st\<lparr>cachehead := b_next (bi st block)\<rparr>
          else (let st1 = upd_bi (b_next (bi st block)) (\<lambda>b. b\<lparr>b_prev := b_prev (bi st block)\<rparr>) st;
                    st2 = upd_bi (b_prev (bi st1 block)) (\<lambda>b. b\<lparr>b_next := b_next (bi st1 block)\<rparr>) st1;
                    tail = b_prev (bi st2 (cachehead st2));
                    st3 = upd_bi block (\<lambda>b. b\<lparr>b_next := cachehead st2, b_prev := tail\<rparr>) st2;
                    st4 = upd_bi tail (\<lambda>b. b\<lparr>b_next := block\<rparr>) st3
                in upd_bi (cachehead st4) (\<lambda>b. b\<lparr>b_prev := block\<rparr>) st4)
     else st)"

text \<open>One round of the loop finds, makes or skips a block: \<open>Stop\<close> is \<open>break\<close>, \<open>Use\<close> the block to copy
  from or to, \<open>Pass\<close> a round that leaves the cache alone.\<close>

datatype 'a round = Stop "'a cache_state" | Use nat "'a cache_state" | Pass "'a cache_state"

definition new_block :: "'a device \<Rightarrow> nat \<Rightarrow> nat \<Rightarrow> nat \<Rightarrow> nat \<Rightarrow> 'a cache_state \<Rightarrow> 'a round option" where
  "new_block dev d pos32k write slblock st =
    (case expand_free 1 st of None \<Rightarrow> None
     | Some st1 \<Rightarrow>
        if free_total st1 \<noteq> 0
        then (let block = freehead st1;
                  r = (if write = 0 then read_block dev d block pos32k st1 else (st1, True))
              in if snd r then map_option (Use block) (add_entry d pos32k block slblock (fst r))
                 else Some (Stop (fst r)))
        else Some (if write = 0 then Stop st1 else Pass st1))"

definition io_round :: "'a device \<Rightarrow> nat \<Rightarrow> nat \<Rightarrow> nat \<Rightarrow> nat \<Rightarrow> 'a cache_state \<Rightarrow> 'a round option" where
  "io_round dev d pos32k sbleft write st =
    (case lookup_block st d pos32k of None \<Rightarrow> None
     | Some (slblock, block) \<Rightarrow>
        if block \<noteq> 0 \<or> write = 0 \<or> sbleft = sin32k (cdi st d) \<and> write < 2
        then if block = 0 then new_block dev d pos32k write slblock st
             else Some (Use block (let st1 = touch_block block st in
                    if write = 0 then st1\<lparr>cache_hits := cache_hits st1 + sbleft\<rparr> else st1))
        else Some (Pass st))"

definition mark_prio :: "nat \<Rightarrow> nat \<Rightarrow> nat \<Rightarrow> 'a cache_state \<Rightarrow> 'a cache_state" where
  "mark_prio d pos32k block st =
    (if prio_bit (cdi st d) (drop_bit (a_shift st) pos32k) then upd_bi block (\<lambda>b. b\<lparr>bi_prio := True\<rparr>) st else st)"

definition copy_in :: "nat \<Rightarrow> nat \<Rightarrow> nat \<Rightarrow> 'a list \<Rightarrow> 'a cache_state \<Rightarrow> 'a cache_state" where
  "copy_in block cpos n buf st =
    st\<lparr>cdata := (cdata st)(block := (\<lambda>i. if cpos \<le> i \<and> i < cpos + n then buf ! (i - cpos) else cdata st block i))\<rparr>"

definition copy_out :: "nat \<Rightarrow> nat \<Rightarrow> nat \<Rightarrow> 'a cache_state \<Rightarrow> 'a list" where
  "copy_out block cpos n st = map (\<lambda>i. cdata st block (cpos + i)) [0..<n]"

text \<open>The loop; \<open>buf\<close> is what is left to write, and the result of a read is collected in \<open>out\<close>, whose length
  is \<open>rc\<close>.\<close>

function io_loop :: "'a device \<Rightarrow> nat \<Rightarrow> nat \<Rightarrow> nat \<Rightarrow> nat \<Rightarrow> nat \<Rightarrow> nat \<Rightarrow> 'a list \<Rightarrow> 'a list \<Rightarrow> 'a cache_state
    \<Rightarrow> ('a list \<times> 'a cache_state) option" where
  "io_loop dev d write pos32k cpos sbleft0 ssize buf out st =
    (if ssize = 0 then Some (out, st)
     else (let sbleft1 = (if sbleft0 = 0 then sin32k (cdi st d) else sbleft0);
               sbleft = (if ssize < sbleft1 then ssize else sbleft1)
           in case io_round dev d pos32k sbleft write st of None \<Rightarrow> None
              | Some (Stop st1) \<Rightarrow> Some (out, st1)
              | Some (Pass st1) \<Rightarrow> io_loop dev d write (pos32k + 1) 0 0 (ssize - sbleft) (drop sbleft buf) out st1
              | Some (Use block st1) \<Rightarrow>
                 (let st2 = mark_prio d pos32k block st1;
                      st3 = (if write \<noteq> 0 then copy_in block cpos sbleft buf st2 else st2)
                  in io_loop dev d write (pos32k + 1) 0 0 (ssize - sbleft) (drop sbleft buf)
                       (if write \<noteq> 0 then out else out @ copy_out block cpos sbleft st3) st3)))"
  by pat_completeness auto
termination
  by (relation "measure (\<lambda>(_, _, _, _, _, _, ssize, _). ssize)") (auto simp: sin32k_def Let_def)

text \<open>\<open>((u32t)pos+di->sin32k-1 & ~((1<<di->s32shift)-1)) - (u32t)pos\<close>\<close>

definition first_left :: "nat \<Rightarrow> nat \<Rightarrow> nat" where
  "first_left sh pos =
    unat (((of_nat pos + push_bit sh 1 - 1 AND NOT (push_bit sh 1 - 1)) - of_nat pos) :: u32)"

definition cache_io :: "'a device \<Rightarrow> nat \<Rightarrow> nat \<Rightarrow> nat \<Rightarrow> 'a list \<Rightarrow> nat \<Rightarrow> 'a cache_state \<Rightarrow> ('a list \<times> 'a cache_state) option" where
  "cache_io dev d pos ssize buf write st =
    (let sh = s32shift (cdi st d);
         st1 = (if write = 0 then st\<lparr>cache_total := cache_total st + ssize\<rparr> else st)
     in io_loop dev d write (drop_bit sh pos) (take_bit sh pos) (first_left sh pos) ssize buf [] st1)"

declare chain_walk.simps [code] chain_pred.simps [code] free_until.simps [code]
declare io_loop.simps [simp del]

section \<open>Disks and the operations of the module\<close>

text \<open>\<open>get_di\<close>; a disk is known by its place in the list.\<close>

definition get_di :: "'a cache_state \<Rightarrow> u32 \<Rightarrow> nat option" where
  "get_di st dsk0 =
    (let dsk = dsk0 AND NOT (QDSK_DIRECT OR QDSK_IGNACCESS) in
     if dsk AND NOT QDSK_FLOPPY > QDSK_DISKMASK then None
     else let num = unat (dsk AND QDSK_DISKMASK) in
       if dsk AND QDSK_FLOPPY \<noteq> 0
       then (if cdi_fdds st \<le> num then None else Some (cdi_hdds st + num))
       else (if cdi_hdds st \<le> num then None else Some num))"

text \<open>The loops \<open>while (ii--)\<close> over the blocks.\<close>

fun free_where :: "nat \<Rightarrow> (blockinfo \<Rightarrow> bool) \<Rightarrow> bool \<Rightarrow> 'a cache_state \<Rightarrow> 'a cache_state option" where
  "free_where 0 P ignore_snext st = Some st"
| "free_where (Suc ii) P ignore_snext st =
    (case (if P (bi st ii) then free_bi_entry ii ignore_snext st else Some st) of None \<Rightarrow> None
     | Some st1 \<Rightarrow> free_where ii P ignore_snext st1)"

definition block_of :: "'a cache_state \<Rightarrow> u32 \<Rightarrow> blockinfo \<Rightarrow> bool" where
  "block_of st dsk b \<longleftrightarrow> (case pdi b of None \<Rightarrow> False | Some d \<Rightarrow> disk (cdi st d) = dsk)"

definition last_loc :: "nat \<Rightarrow> nat \<Rightarrow> nat \<Rightarrow> nat" where
  "last_loc sh start n = drop_bit sh (if start + n = 0 then 2 ^ 64 - 1 else start + n - 1)"

definition cc_invalidate :: "u32 \<Rightarrow> nat \<Rightarrow> nat \<Rightarrow> 'a cache_state \<Rightarrow> 'a cache_state option" where
  "cc_invalidate dsk start sz0 st =
    (case get_di st dsk of None \<Rightarrow> Some st
     | Some d \<Rightarrow>
        (let di = cdi st d in
         if cache_on st \<and> valid di \<and> start \<le> sectors di
         then let sz = (if start + sz0 > sectors di then sectors di - start else sz0) in
           if start = 0 \<and> sz = sectors di
           then map_option (\<lambda>st1. st1\<lparr>cdi := (cdi st1)(d := (cdi st1 d)\<lparr>bits := (\<lambda>_. False)\<rparr>)\<rparr>)
                  (free_where (blocks_total st) (block_of st dsk) True st)
           else free_where (blocks_total st)
                  (\<lambda>b. block_of st dsk b \<and> drop_bit (s32shift di) start \<le> loc b \<and> loc b \<le> last_loc (s32shift di) start sz)
                  False st
         else Some st))"

definition cache_read :: "'a device \<Rightarrow> u32 \<Rightarrow> nat \<Rightarrow> nat \<Rightarrow> 'a cache_state \<Rightarrow> ('a list \<times> 'a cache_state) option" where
  "cache_read dev dsk pos ssize st =
    (case (if cache_on st then get_di st dsk else None) of None \<Rightarrow> Some ([], st)
     | Some d \<Rightarrow>
        if \<not> enabled (cdi st d) \<or> ssize = 0 \<or> sectors (cdi st d) \<le> pos \<or> sectors (cdi st d) < pos + ssize
        then Some ([], st)
        else if drop_bit (s32shift (cdi st d)) ssize > blocks_total st div 2 then Some ([], st)
        else cache_io dev d pos ssize [] 0 st)"

text \<open>\<open>hlp_diskwrite\<close> writes \<open>rc\<close> sectors, at most as many as it was given; the result is \<open>rc\<close>, the disks and the state.\<close>

definition disk_write :: "u32 \<Rightarrow> nat \<Rightarrow> nat \<Rightarrow> 'a list \<Rightarrow> 'a device \<Rightarrow> 'a device" where
  "disk_write dsk pos rc buf dev =
    dev\<lparr>medium := (medium dev)(dsk := (\<lambda>i. if pos \<le> i \<and> i < pos + rc then buf ! (i - pos) else medium dev dsk i))\<rparr>"

definition cache_write :: "(nat \<Rightarrow> nat) \<Rightarrow> u32 \<Rightarrow> nat \<Rightarrow> 'a list \<Rightarrow> 'a device \<Rightarrow> 'a cache_state
    \<Rightarrow> (nat \<times> 'a device \<times> 'a cache_state) option" where
  "cache_write written dsk pos buf dev st =
    (let ssize = length buf in
     case (if cache_on st then get_di st dsk else None) of None \<Rightarrow> Some (0, dev, st)
     | Some d \<Rightarrow>
        if \<not> enabled (cdi st d) \<or> ssize = 0 \<or> sectors (cdi st d) \<le> pos \<or> sectors (cdi st d) < pos + ssize
        then Some (0, dev, st)
        else if drop_bit (s32shift (cdi st d)) ssize > blocks_total st div 2
        then map_option (\<lambda>st1. (0, dev, st1)) (cc_invalidate dsk pos ssize st)
        else let rc = min (written ssize) ssize; dev1 = disk_write (disk (cdi st d)) pos rc buf dev in
          if rc \<noteq> 0
          then map_option (\<lambda>r. (rc, dev1, snd r))
                 (cache_io dev1 d pos rc buf (if dsk AND QDSK_DIRECT \<noteq> 0 then 2 else 1) st)
          else Some (rc, dev1, st))"

definition cc_setprio :: "nat \<Rightarrow> u32 \<Rightarrow> nat \<Rightarrow> nat \<Rightarrow> bool \<Rightarrow> 'a cache_state \<Rightarrow> 'a cache_state" where
  "cc_setprio step dsk start sz0 on st =
    (case get_di st dsk of None \<Rightarrow> st
     | Some d \<Rightarrow>
        (let di = cdi st d; sshift = 15 - s32shift di in
         if valid di \<and> start < sectors di
         then let sz = (if start + sz0 \<ge> sectors di then sectors di - start else sz0);
                  szb = push_bit sshift sz mod 2 ^ 32;
                  ep = (push_bit sshift start + szb + step - 1) div step;
                  sp = push_bit sshift start div step
              in st\<lparr>cdi := (cdi st)(d := set_range sp (ep - sp + 1) on di)\<rparr>
         else st))"

definition cc_enable :: "u32 \<Rightarrow> int \<Rightarrow> 'a cache_state \<Rightarrow> (int \<times> 'a cache_state) option" where
  "cc_enable dsk en st =
    (case get_di st dsk of None \<Rightarrow> Some (- 1, st)
     | Some d \<Rightarrow>
        if \<not> valid (cdi st d) then Some (- 1, st)
        else (let result = (if enabled (cdi st d) then 1 else 0) in
          if 0 \<le> en
          then (let st1 = st\<lparr>cdi := (cdi st)(d := (cdi st d)\<lparr>enabled := (en \<noteq> 0)\<rparr>)\<rparr> in
                if cache_on st1 \<and> en = 0
                then map_option (Pair result) (cc_invalidate dsk 0 (2 ^ 64 - 1) st1) else Some (result, st1))
          else Some (result, st)))"

definition cc_stat :: "u32 \<Rightarrow> 'a cache_state \<Rightarrow> nat \<times> nat" where
  "cc_stat dsk st =
    (case get_di st dsk of None \<Rightarrow> (0, 0)
     | Some d \<Rightarrow>
        if cache_on st \<and> valid (cdi st d)
        then (let bs = filter (\<lambda>ii. block_of st dsk (bi st ii)) [0..<blocks_total st]
              in (length bs, length (filter (\<lambda>ii. bi_prio (bi st ii)) bs)))
        else (0, 0))"

text \<open>The part of \<open>cc_setsize\<close> that fills the tables.\<close>

definition init_blocks :: "nat \<Rightarrow> 'a cache_state \<Rightarrow> 'a cache_state" where
  "init_blocks blks st =
    st\<lparr>cache_on := True, blocks_total := blks, cidxa := (\<lambda>_. FFFF_key),
       bi := (\<lambda>ii. \<lparr>b_prev = 0, b_next = (if ii = 0 \<or> ii = blks - 1 then 0 else ii + 1), snext = 0, bi_prio = False,
                   loc = 0, pdi = None\<rparr>),
       freehead := 1, free_total := blks - 1, cachehead := 0\<rparr>"

definition cache_off :: "'a cache_state \<Rightarrow> 'a cache_state" where
  "cache_off st = st\<lparr>cache_on := False, blocks_total := 0, free_total := 0, freehead := 0, cachehead := 0,
     cache_hits := 0, cache_total := 0\<rparr>"

text \<open>\<open>size_mb\<close> and \<open>availmax\<close> in MBytes and bytes; \<open>mem\<close> tells whether the memory is given.\<close>

definition cc_setsize :: "nat \<Rightarrow> nat \<Rightarrow> bool \<Rightarrow> 'a cache_state \<Rightarrow> 'a cache_state" where
  "cc_setsize size_mb availmax mem st =
    (if size_mb = 0 then cache_off st
     else (let st1 = (if blocks_total st \<noteq> 0 \<or> cache_on st then cache_off st else st)\<lparr>a_shift := 3\<rparr>;
               n1 = size_mb * 16 mod 2 ^ 32; n2 = min n1 (drop_bit 16 availmax div 2); n = min n2 16384
           in if mem then init_blocks (n * 2) st1 else st1))"

end
