(* ===== verification/DiskTab.thy ===== *)
theory DiskTab
  imports BitMap Cache
begin

text \<open>
  The table of the disks, \<open>qd_array\<close> of init/fat/diskio.c: two places for floppies, fourteen for hard disks, some
  of which are emulated and come and go. A disk is known by its number, a hard disk by its place less two, a
  floppy by its place and the bit \<open>QDSK_FLOPPY\<close>. Access behind the table is \<open>None\<close>. Locks and log messages are left
  out; the second module, which lends its functions on bits, is present.
\<close>

section \<open>The table\<close>

record qs_diskinfo =
  qd_sectors :: nat
  qd_cyls :: nat
  qd_heads :: nat
  qd_spt :: nat
  qd_chsheads :: nat
  qd_chsspt :: nat
  qd_extread :: nat
  qd_extwrite :: nat
  qd_extptr :: nat
  qd_sectorsize :: nat
  qd_sectorshift :: nat
  qd_biosdisk :: nat
  qd_mediatype :: nat
  qd_flags :: u8

definition MAX_QS_DISK :: nat where "MAX_QS_DISK = 16"
definition MAX_QS_FLOPPY :: nat where "MAX_QS_FLOPPY = 2"
definition HDDF_LBAON :: u8 where "HDDF_LBAON = 1"
definition HDDF_PRESENT :: u8 where "HDDF_PRESENT = 2"
definition HDDF_LBAPRESENT :: u8 where "HDDF_LBAPRESENT = 4"
definition HDDF_HOTSWAP :: u8 where "HDDF_HOTSWAP = 8"
definition HDM_USELBA :: u8 where "HDM_USELBA = 1"
definition HDM_QUERY :: u8 where "HDM_QUERY = 2"
definition HDM_EMULATED :: u8 where "HDM_EMULATED = 4"

abbreviation is_set :: "u8 \<Rightarrow> u8 \<Rightarrow> bool" where "is_set v f \<equiv> v AND f \<noteq> 0"
abbreviation all_set :: "u8 \<Rightarrow> u8 \<Rightarrow> bool" where "all_set v f \<equiv> v AND f = f"

definition zero_qd :: qs_diskinfo where
  "zero_qd = \<lparr>qd_sectors = 0, qd_cyls = 0, qd_heads = 0, qd_spt = 0, qd_chsheads = 0, qd_chsspt = 0, qd_extread = 0,
     qd_extwrite = 0, qd_extptr = 0, qd_sectorsize = 0, qd_sectorshift = 0, qd_biosdisk = 0, qd_mediatype = 0, qd_flags = 0\<rparr>"

section \<open>Queries\<close>

definition hlp_diskcount :: "qs_diskinfo list \<Rightarrow> nat" where
  "hlp_diskcount qd =
    fold (\<lambda>ii rc. if is_set (qd_flags (qd ! ii)) HDDF_PRESENT then ii + 1 - MAX_QS_FLOPPY else rc) [MAX_QS_FLOPPY..<MAX_QS_DISK] 0"

record disk_geo_data =
  TotalSectors :: nat
  SectorSize :: nat
  Cylinders :: nat
  Heads :: nat
  SectOnTrack :: nat

definition geo_zero :: disk_geo_data where
  "geo_zero = \<lparr>TotalSectors = 0, SectorSize = 0, Cylinders = 0, Heads = 0, SectOnTrack = 0\<rparr>"

text \<open>The part of \<open>vol_data\<close> that takes part in i/o.\<close>

record vol_data =
  v_flags :: u32
  v_disk :: u32
  v_start :: nat
  v_length :: nat
  v_sectorsize :: nat

definition QDSK_VOLUME :: u32 where "QDSK_VOLUME = 0x100"
definition DISK_COUNT :: nat where "DISK_COUNT = 10"
definition VDTA_ON :: u32 where "VDTA_ON = 0x001"
definition VDTA_VFS :: u32 where "VDTA_VFS = 0x020"
definition VDTA_RO :: u32 where "VDTA_RO = 0x040"

definition disk_idx :: "u32 \<Rightarrow> nat" where "disk_idx dsk = unat (dsk AND QDSK_DISKMASK)"

definition geo_of :: "qs_diskinfo \<Rightarrow> nat \<Rightarrow> disk_geo_data" where
  "geo_of qe secs = \<lparr>TotalSectors = secs, SectorSize = qd_sectorsize qe, Cylinders = qd_cyls qe, Heads = qd_heads qe,
     SectOnTrack = qd_spt qe\<rparr>"

definition hlp_disksize :: "vol_data list \<Rightarrow> qs_diskinfo list \<Rightarrow> u32 \<Rightarrow> nat \<times> disk_geo_data" where
  "hlp_disksize extvol qd dsk =
    (let idx = disk_idx dsk in
     if dsk AND QDSK_VOLUME \<noteq> 0
     then if DISK_COUNT \<le> idx then (0, geo_zero)
          else if v_flags (extvol ! idx) AND VDTA_ON \<noteq> 0
          then (v_length (extvol ! idx), geo_zero\<lparr>SectorSize := v_sectorsize (extvol ! idx), TotalSectors := v_length (extvol ! idx)\<rparr>)
          else (0, geo_zero)
     else if dsk AND QDSK_FLOPPY \<noteq> 0
     then if idx < MAX_QS_FLOPPY
          then (let qe = qd ! idx; result = qd_sectors qe mod 2 ^ 32 in (result, geo_of qe result)) else (0, geo_zero)
     else if dsk AND NOT QDSK_DISKMASK = 0
     then if idx < MAX_QS_DISK - MAX_QS_FLOPPY \<and> is_set (qd_flags (qd ! (idx + MAX_QS_FLOPPY))) HDDF_PRESENT
          then (let qe = qd ! (idx + MAX_QS_FLOPPY); result = qd_sectors qe mod 2 ^ 32
                in (result, geo_of qe (if \<not> is_set (qd_flags qe) HDDF_HOTSWAP \<and> qd_sectors qe > 2 ^ 32 * 12 then result
                                       else qd_sectors qe)))
          else (0, geo_zero)
     else (0, geo_zero))"

text \<open>Only the low bits of the flags are looked at.\<close>

definition hlp_diskmode :: "u32 \<Rightarrow> u32 \<Rightarrow> qs_diskinfo list \<Rightarrow> u8 \<times> qs_diskinfo list" where
  "hlp_diskmode dsk flags0 qd =
    (let flags = ucast flags0 in if dsk AND NOT QDSK_DISKMASK \<noteq> 0 \<or> MAX_QS_DISK - MAX_QS_FLOPPY \<le> unat dsk then (0, qd)
     else (let ii = unat dsk + MAX_QS_FLOPPY; qe = qd ! ii; fldc = qd_flags qe in
       if \<not> is_set fldc HDDF_PRESENT then (0, qd)
       else if is_set fldc HDDF_HOTSWAP then (HDM_QUERY OR HDM_EMULATED, qd)
       else if is_set flags HDM_USELBA \<and> \<not> is_set fldc HDDF_LBAPRESENT then (0, qd)
       else (let qe1 = (if \<not> is_set flags HDM_QUERY \<and> (fldc AND HDM_USELBA) XOR (flags AND HDM_USELBA) \<noteq> 0
                        then qe\<lparr>qd_flags := (if is_set flags HDM_USELBA then qd_flags qe OR HDM_USELBA
                                             else qd_flags qe AND NOT HDM_USELBA)\<rparr>
                        else qe)
             in (HDM_QUERY OR (qd_flags qe1 AND HDM_USELBA), qd[ii := qe1]))))"

section \<open>Changes\<close>

text \<open>\<open>1<<qd_sectorshift\<close> for a shift below 32, the only one the language defines.\<close>

definition check_diskinfo :: "qs_diskinfo \<Rightarrow> bool \<Rightarrow> bool" where
  "check_diskinfo qdi bioschs \<longleftrightarrow>
    \<not> (2 ^ qd_sectorshift qdi \<noteq> qd_sectorsize qdi \<or> qd_sectors qdi = 0 \<or> qd_heads qdi = 0 \<or> qd_spt qdi = 0) \<and>
    \<not> (bioschs \<and> (qd_chsheads qdi = 0 \<or> qd_chsspt qdi = 0))"

definition slot_empty :: "qs_diskinfo \<Rightarrow> bool" where
  "slot_empty q \<longleftrightarrow>
    (if qd_flags q AND (HDDF_PRESENT OR HDDF_HOTSWAP) = HDDF_PRESENT OR HDDF_HOTSWAP then qd_sectorsize q = 0
     else \<not> is_set (qd_flags q) HDDF_PRESENT)"

text \<open>One round of the loop of \<open>hlp_diskadd\<close> over the hard disks: the map of free BIOS numbers and the first empty place.\<close>

definition add_scan :: "qs_diskinfo list \<Rightarrow> nat \<Rightarrow> u32 list \<times> nat option \<Rightarrow> u32 list \<times> nat option" where
  "add_scan qd ii acc =
    (case acc of (bmused, rdn) \<Rightarrow>
       let q = qd ! ii in
       if \<not> slot_empty q
       then ((if 0x80 \<le> qd_biosdisk q \<and> qd_biosdisk q < 0xFF then setbits_dword bmused (qd_biosdisk q - 0x80) 1 False else bmused), rdn)
       else (bmused, case rdn of None \<Rightarrow> Some ii | Some r \<Rightarrow> Some r))"

definition hlp_diskadd :: "qs_diskinfo \<Rightarrow> bool \<Rightarrow> qs_diskinfo list \<Rightarrow> nat option \<times> qs_diskinfo list" where
  "hlp_diskadd qdi biosnum qd =
    (case fold (add_scan qd) [MAX_QS_FLOPPY..<MAX_QS_DISK] (replicate 4 (- 1), None) of
       (bmused, rdn) \<Rightarrow>
         (case rdn of None \<Rightarrow> (None, qd)
          | Some r \<Rightarrow>
              if check_diskinfo qdi False
              then (let bn = (if biosnum then (case findbits bmused 128 True 1 0 of None \<Rightarrow> 0xFF | Some n \<Rightarrow> n + 0x80) else 0xFF)
                    in (Some (r - MAX_QS_FLOPPY),
                        qd[r := qdi\<lparr>qd_biosdisk := bn,
                             qd_flags := HDDF_LBAPRESENT OR HDDF_PRESENT OR HDDF_HOTSWAP OR HDDF_LBAON, qd_mediatype := 3\<rparr>]))
              else (None, qd)))"

text \<open>\<open>hlp_diskstruct\<close>: the place of the disk, after the update when one is asked for.\<close>

definition diskstruct_place :: "u32 \<Rightarrow> nat option" where
  "diskstruct_place dsk =
    (if dsk AND QDSK_FLOPPY \<noteq> 0 then if disk_idx dsk < MAX_QS_FLOPPY then Some (disk_idx dsk) else None
     else if unat dsk < MAX_QS_DISK - MAX_QS_FLOPPY then Some (unat dsk + MAX_QS_FLOPPY) else None)"

definition hlp_diskstruct :: "u32 \<Rightarrow> qs_diskinfo option \<Rightarrow> qs_diskinfo list \<Rightarrow> nat option \<times> qs_diskinfo list" where
  "hlp_diskstruct dsk upd qd =
    (case diskstruct_place dsk of None \<Rightarrow> (None, qd)
     | Some ii \<Rightarrow>
        (let qe = qd ! ii in
         if \<not> is_set (qd_flags qe) HDDF_PRESENT \<or> qd_sectorsize qe = 0 then (None, qd)
         else (case upd of None \<Rightarrow> (Some ii, qd)
               | Some qdi \<Rightarrow>
                  (let fv = qd_flags qe;
                       chs = (\<not> is_set fv HDDF_HOTSWAP \<and> fv AND (HDDF_LBAPRESENT OR HDDF_LBAON) \<noteq> HDDF_LBAPRESENT OR HDDF_LBAON)
                   in if check_diskinfo qdi chs = False then (Some ii, qd[ii := qdi\<lparr>qd_flags := fv\<rparr>]) else (None, qd)))))"

definition hlp_diskremove :: "nat \<Rightarrow> qs_diskinfo list \<Rightarrow> (nat \<times> qs_diskinfo list) option" where
  "hlp_diskremove dsk qd =
    (if MAX_QS_DISK - MAX_QS_FLOPPY \<le> dsk then Some (0, qd)
     else (let ii = dsk + MAX_QS_FLOPPY in
       if qd_flags (qd ! ii) AND (HDDF_PRESENT OR HDDF_HOTSWAP) = HDDF_PRESENT OR HDDF_HOTSWAP
       then (let qd1 = qd[ii := zero_qd] in
             if MAX_QS_DISK \<le> dsk + 1 then Some (1, qd1[ii := zero_qd])
             else if length qd \<le> ii + 1 then None
             else if \<not> is_set (qd_flags (qd1 ! (ii + 1))) HDDF_PRESENT then Some (1, qd1[ii := zero_qd])
             else Some (1, qd1[ii := (qd1 ! ii)\<lparr>qd_sectorsize := 0, qd_extwrite := 0, qd_extread := 0, qd_sectors := 0,
                    qd_biosdisk := 0xFF\<rparr>]))
       else Some (0, qd)))"

definition hlp_diskbios :: "u32 \<Rightarrow> bool \<Rightarrow> qs_diskinfo list \<Rightarrow> u32" where
  "hlp_diskbios dsk qs2bios qd =
    (if qs2bios
     then (case fst (hlp_diskstruct dsk None qd) of None \<Rightarrow> - 1
           | Some ii \<Rightarrow> if qd_biosdisk (qd ! ii) \<noteq> 0xFF then of_nat (qd_biosdisk (qd ! ii)) else - 1)
     else if dsk < 0xFF
     then (case List.find (\<lambda>ii. qd_flags (qd ! ii) \<noteq> 0 \<and> qd_biosdisk (qd ! ii) = unat dsk) [0..<MAX_QS_DISK] of None \<Rightarrow> - 1
           | Some ii \<Rightarrow> if ii < MAX_QS_FLOPPY then of_nat ii OR QDSK_FLOPPY else of_nat (ii - MAX_QS_FLOPPY))
     else - 1)"

end
