(* ===== verification/DiskIo.thy ===== *)
theory DiskIo
  imports DiskTab Cache
begin

text \<open>
  Reading and writing disks, hlp_diskread and hlp_diskwrite of init/fat/diskio.c: volumes are mapped to their disk, a
  sector cache may serve the request, the rest goes to the driver of an emulated disk or in parts of 32 Kb to the BIOS.
  The BIOS and the drivers are arguments: they read and write the sectors of their disk and may fail. The result of
  a read is the number it returns and what it has put into the buffer; after a failure the buffer is left out.
  \<open>None\<close> is a call that does not end. The sector cache of the repository can be plugged in.
\<close>

section \<open>The system\<close>

type_synonym 'a store = "nat \<Rightarrow> nat \<Rightarrow> 'a"

text \<open>The exported functions of a cache module, \<open>cache_extptr\<close>; a read returns its sectors, a write their number.\<close>

record ('a, 'c) cache_ext =
  c_read :: "u32 \<Rightarrow> nat \<Rightarrow> nat \<Rightarrow> 'a store \<Rightarrow> 'c \<Rightarrow> ('a list \<times> 'c) option"
  c_write :: "u32 \<Rightarrow> nat \<Rightarrow> 'a list \<Rightarrow> 'a store \<Rightarrow> 'c \<Rightarrow> (nat \<times> 'a store \<times> 'c) option"

text \<open>How many sectors the BIOS (for a place of the table) and the drivers (by their function) read and write.\<close>

record disk_hw =
  bios_reads :: "nat \<Rightarrow> nat \<Rightarrow> nat \<Rightarrow> nat"
  bios_writes :: "nat \<Rightarrow> nat \<Rightarrow> nat \<Rightarrow> nat"
  drv_reads :: "nat \<Rightarrow> u32 \<Rightarrow> nat \<Rightarrow> nat \<Rightarrow> nat"
  drv_writes :: "nat \<Rightarrow> u32 \<Rightarrow> nat \<Rightarrow> nat \<Rightarrow> nat"

record ('a, 'c) disk_sys =
  qd_array :: "qs_diskinfo list"
  extvol :: "vol_data list"
  bootio_avail :: bool
  dd_bootdisk :: nat
  cache_eproc :: "('a, 'c) cache_ext option"
  dsk_canread :: "(u32 \<Rightarrow> nat \<Rightarrow> nat \<Rightarrow> nat) option"
  dsk_canwrite :: "(u32 \<Rightarrow> nat \<Rightarrow> nat \<Rightarrow> nat) option"
  hw :: disk_hw

definition put_sectors :: "nat \<Rightarrow> nat \<Rightarrow> 'a list \<Rightarrow> 'a store \<Rightarrow> 'a store" where
  "put_sectors ii pos xs s = s(ii := (\<lambda>i. if pos \<le> i \<and> i < pos + length xs then xs ! (i - pos) else s ii i))"

definition get_sectors :: "nat \<Rightarrow> nat \<Rightarrow> nat \<Rightarrow> 'a store \<Rightarrow> 'a list" where
  "get_sectors ii pos n s = map (s ii) [pos..<pos + n]"

definition QDSK_VALID :: u32 where
  "QDSK_VALID = QDSK_FLOPPY OR QDSK_VOLUME OR QDSK_DISKMASK OR QDSK_DIRECT OR QDSK_IAMCACHE OR QDSK_IGNACCESS"

definition w64 :: "nat \<Rightarrow> nat" where "w64 n = n mod 2 ^ 64"

section \<open>action\<close>

datatype target = No_disk | Emulated nat | Real nat

definition io_target :: "qs_diskinfo list \<Rightarrow> u32 \<Rightarrow> target" where
  "io_target qd dsk =
    (let idx = disk_idx dsk in
     if dsk AND QDSK_FLOPPY \<noteq> 0 then if idx < MAX_QS_FLOPPY then Real idx else No_disk
     else if idx < MAX_QS_DISK - MAX_QS_FLOPPY \<and> is_set (qd_flags (qd ! (idx + MAX_QS_FLOPPY))) HDDF_PRESENT
     then if is_set (qd_flags (qd ! (idx + MAX_QS_FLOPPY))) HDDF_HOTSWAP then Emulated (idx + MAX_QS_FLOPPY)
          else Real (idx + MAX_QS_FLOPPY)
     else No_disk)"

definition DISKBUF_SIZE :: nat where "DISKBUF_SIZE = 0x8000"

text \<open>The size a request is checked with.\<close>

definition io_size :: "('a, 'c) disk_sys \<Rightarrow> nat \<Rightarrow> nat" where
  "io_size sys ii =
    (let qe = qd_array sys ! ii in
     if qd_sectors qe = 0
     then if qd_biosdisk qe = dd_bootdisk sys then w64 (v_start (extvol sys ! 0) + v_length (extvol sys ! 0)) else 1
     else qd_sectors qe)"

text \<open>The loop over parts of 32 Kb; the inner result \<open>None\<close> is an error. A sector above 32 Kb would never be passed.\<close>

function raw_read :: "disk_hw \<Rightarrow> nat \<Rightarrow> nat \<Rightarrow> nat \<Rightarrow> nat \<Rightarrow> nat \<Rightarrow> 'a store \<Rightarrow> 'a list option option" where
  "raw_read h ii dsksize s32k sector cnt s =
    (let actsize = min cnt s32k in
     if w64 (sector + actsize) > dsksize \<or> bios_reads h ii sector actsize \<noteq> actsize then Some None
     else if cnt - actsize = 0 then Some (Some (get_sectors ii sector actsize s))
     else if s32k = 0 then None
     else map_option (map_option (\<lambda>xs. get_sectors ii sector actsize s @ xs))
            (raw_read h ii dsksize s32k (w64 (sector + actsize)) (cnt - actsize) s))"
  by pat_completeness auto
termination by (relation "measure (\<lambda>(h, ii, dsksize, s32k, sector, cnt, s). cnt)") auto

function raw_write :: "disk_hw \<Rightarrow> nat \<Rightarrow> nat \<Rightarrow> nat \<Rightarrow> nat \<Rightarrow> 'a list \<Rightarrow> 'a store \<Rightarrow> (bool \<times> 'a store) option" where
  "raw_write h ii dsksize s32k sector xs s =
    (let actsize = min (length xs) s32k in
     if w64 (sector + actsize) > dsksize then Some (False, s)
     else let n = min actsize (bios_writes h ii sector actsize); s1 = put_sectors ii sector (take n xs) s in
       if bios_writes h ii sector actsize \<noteq> actsize then Some (False, s1)
       else if length xs - actsize = 0 then Some (True, s1)
       else if s32k = 0 then None
       else raw_write h ii dsksize s32k (w64 (sector + actsize)) (drop actsize xs) s1)"
  by pat_completeness auto
termination by (relation "measure (\<lambda>(h, ii, dsksize, s32k, sector, xs, s). length xs)") auto

declare raw_read.simps [simp del] raw_write.simps [simp del]

definition io_s32k :: "('a, 'c) disk_sys \<Rightarrow> nat \<Rightarrow> nat" where
  "io_s32k sys ii = drop_bit (qd_sectorshift (qd_array sys ! ii)) DISKBUF_SIZE"

definition action_read :: "('a, 'c) disk_sys \<Rightarrow> u32 \<Rightarrow> nat \<Rightarrow> nat \<Rightarrow> 'a store \<Rightarrow> 'c \<Rightarrow> (nat \<times> 'a list \<times> 'c) option" where
  "action_read sys dsk sector cnt s c =
    (case (case cache_eproc sys of None \<Rightarrow> Some ([], c)
           | Some e \<Rightarrow> if dsk AND QDSK_IAMCACHE = 0 \<and> dsk AND QDSK_DIRECT = 0 then c_read e dsk sector cnt s c else Some ([], c)) of
       None \<Rightarrow> None
     | Some (got, c1) \<Rightarrow>
         let rc = length got in
         if cnt \<le> rc then Some (rc, got, c1)
         else (case io_target (qd_array sys) dsk of No_disk \<Rightarrow> Some (rc, got, c1)
           | Emulated ii \<Rightarrow>
               let fp = qd_extread (qd_array sys ! ii); n = (if fp = 0 then 0 else min cnt (drv_reads (hw sys) fp dsk sector cnt))
               in Some (n, get_sectors ii sector n s, c1)
           | Real ii \<Rightarrow>
               (case raw_read (hw sys) ii (io_size sys ii) (io_s32k sys ii) (w64 (sector + rc)) (cnt - rc) s of
                  None \<Rightarrow> None
                | Some None \<Rightarrow> Some (0, [], c1)
                | Some (Some xs) \<Rightarrow> Some (cnt - rc, got @ xs, c1))))"

definition action_write :: "('a, 'c) disk_sys \<Rightarrow> u32 \<Rightarrow> nat \<Rightarrow> 'a list \<Rightarrow> 'a store \<Rightarrow> 'c \<Rightarrow> (nat \<times> 'a store \<times> 'c) option" where
  "action_write sys dsk sector xs s c =
    (case (case cache_eproc sys of None \<Rightarrow> Some (0, s, c)
           | Some e \<Rightarrow> if dsk AND QDSK_IAMCACHE = 0 then c_write e dsk sector xs s c else Some (0, s, c)) of
       None \<Rightarrow> None
     | Some (rc, s1, c1) \<Rightarrow>
         if length xs \<le> rc then Some (rc, s1, c1)
         else (case io_target (qd_array sys) dsk of No_disk \<Rightarrow> Some (rc, s1, c1)
           | Emulated ii \<Rightarrow>
               let fp = qd_extwrite (qd_array sys ! ii);
                   n = (if fp = 0 then 0 else min (length xs) (drv_writes (hw sys) fp dsk sector (length xs)))
               in Some (n, put_sectors ii sector (take n xs) s1, c1)
           | Real ii \<Rightarrow>
               (case raw_write (hw sys) ii (io_size sys ii) (io_s32k sys ii) (w64 (sector + rc)) (drop rc xs) s1 of
                  None \<Rightarrow> None
                | Some (ok, s2) \<Rightarrow> Some (if ok then length xs - rc else 0, s2, c1))))"

section \<open>hlp_diskread and hlp_diskwrite\<close>

definition may_access :: "(u32 \<Rightarrow> nat \<Rightarrow> nat \<Rightarrow> nat) option \<Rightarrow> u32 \<Rightarrow> nat \<Rightarrow> nat \<Rightarrow> nat option" where
  "may_access f dsk sector cnt =
    (case f of None \<Rightarrow> Some cnt
     | Some g \<Rightarrow> if dsk AND (QDSK_IAMCACHE OR QDSK_IGNACCESS) = 0
                 then if g dsk sector cnt = 0 then None else Some (g dsk sector cnt) else Some cnt)"

text \<open>A volume may name a volume again, so the calls need not end.\<close>

partial_function (option) hlp_diskread ::
    "('a, 'c) disk_sys \<Rightarrow> u32 \<Rightarrow> nat \<Rightarrow> nat \<Rightarrow> 'a store \<Rightarrow> 'c \<Rightarrow> (nat \<times> 'a list \<times> 'c) option" where
  "hlp_diskread sys dsk sector cnt0 s c =
    (if dsk AND NOT QDSK_VALID \<noteq> 0 then Some (0, [], c)
     else case may_access (dsk_canread sys) dsk sector cnt0 of None \<Rightarrow> Some (0, [], c)
     | Some cnt \<Rightarrow>
         if dsk AND QDSK_VOLUME \<noteq> 0
         then let drv = disk_idx dsk; vdta = extvol sys ! drv in
           if drv = 0 \<and> \<not> bootio_avail sys \<or> DISK_COUNT \<le> drv then Some (0, [], c)
           else if v_flags vdta AND VDTA_VFS \<noteq> 0 \<or> v_flags vdta AND VDTA_ON = 0 then Some (0, [], c)
           else hlp_diskread sys (v_disk vdta OR QDSK_IGNACCESS) (w64 (v_start vdta + sector)) cnt s c
         else action_read sys dsk sector cnt s c)"

partial_function (option) hlp_diskwrite ::
    "('a, 'c) disk_sys \<Rightarrow> u32 \<Rightarrow> nat \<Rightarrow> 'a list \<Rightarrow> 'a store \<Rightarrow> 'c \<Rightarrow> (nat \<times> 'a store \<times> 'c) option" where
  "hlp_diskwrite sys dsk sector xs0 s c =
    (if dsk AND NOT QDSK_VALID \<noteq> 0 then Some (0, s, c)
     else case may_access (dsk_canwrite sys) dsk sector (length xs0) of None \<Rightarrow> Some (0, s, c)
     | Some cnt \<Rightarrow>
         let xs = take cnt xs0 in
         if dsk AND QDSK_VOLUME \<noteq> 0
         then let drv = disk_idx dsk; vdta = extvol sys ! drv in
           if drv = 0 \<and> \<not> bootio_avail sys \<or> DISK_COUNT \<le> drv then Some (0, s, c)
           else if v_flags vdta AND (VDTA_VFS OR VDTA_RO) \<noteq> 0 \<or> v_flags vdta AND VDTA_ON = 0 then Some (0, s, c)
           else hlp_diskwrite sys (v_disk vdta OR QDSK_IGNACCESS) (w64 (v_start vdta + sector)) xs s c
         else action_write sys dsk sector xs s c)"

section \<open>With the sector cache\<close>

text \<open>The place of a disk, whether or not there is one.\<close>

definition place_of :: "u32 \<Rightarrow> nat" where
  "place_of dsk = (if dsk AND QDSK_FLOPPY \<noteq> 0 then disk_idx dsk else disk_idx dsk + MAX_QS_FLOPPY)"

text \<open>The calls of the cache, which carry the flag \<open>QDSK_IAMCACHE\<close>: the disks as the cache sees them.\<close>

definition plain_dev :: "('a, unit) disk_sys \<Rightarrow> 'a store \<Rightarrow> 'a device" where
  "plain_dev sys s = \<lparr>medium = (\<lambda>dsk i. s (place_of dsk) i),
     readable = (\<lambda>dsk pos n. case hlp_diskread sys (dsk OR QDSK_IAMCACHE) pos n s () of None \<Rightarrow> 0 | Some (rc, _, _) \<Rightarrow> rc)\<rparr>"

text \<open>The requests \<open>cache_write\<close> passes on to the disk.\<close>

definition cache_takes :: "'a cache_state \<Rightarrow> u32 \<Rightarrow> nat \<Rightarrow> nat \<Rightarrow> bool" where
  "cache_takes c dsk pos n \<longleftrightarrow>
    (case (if cache_on c then get_di c dsk else None) of None \<Rightarrow> False
     | Some d \<Rightarrow> enabled (cdi c d) \<and> n \<noteq> 0 \<and> pos < sectors (cdi c d) \<and> pos + n \<le> sectors (cdi c d) \<and>
         drop_bit (s32shift (cdi c d)) n \<le> blocks_total c div 2)"

definition cproc :: "('a, unit) disk_sys \<Rightarrow> ('a, 'a cache_state) cache_ext" where
  "cproc sys =
    \<lparr>c_read = (\<lambda>dsk pos n s c. cache_read (plain_dev sys s) dsk pos n c),
     c_write = (\<lambda>dsk pos xs s c.
       case (if cache_takes c dsk pos (length xs) then hlp_diskwrite sys (dsk OR QDSK_IAMCACHE) pos xs s () else Some (0, s, ())) of
         None \<Rightarrow> None
       | Some (rc, s1, _) \<Rightarrow>
           map_option (\<lambda>(rc1, _, c1). (rc1, s1, c1)) (cache_write (\<lambda>_. rc) dsk pos xs (plain_dev sys s) c))\<rparr>"

definition with_cache :: "('a, 'c) cache_ext \<Rightarrow> ('a, 'b) disk_sys \<Rightarrow> ('a, 'c) disk_sys" where
  "with_cache e sys = \<lparr>qd_array = qd_array sys, extvol = extvol sys, bootio_avail = bootio_avail sys,
     dd_bootdisk = dd_bootdisk sys, cache_eproc = Some e, dsk_canread = dsk_canread sys, dsk_canwrite = dsk_canwrite sys, hw = hw sys\<rparr>"

end
