(* ===== verification/CacheInv.thy ===== *)
theory CacheInv
  imports Cache
begin

text \<open>
  The invariant of the cache and the steps that keep it: the ring, the free list, the index, the
  chains of the groups, the places of the blocks and their data.
\<close>

section \<open>The invariant\<close>

definition used :: "'a cache_state \<Rightarrow> nat \<Rightarrow> bool" where
  "used st b \<longleftrightarrow> pdi (bi st b) \<noteq> None"

definition block_place :: "'a cache_state \<Rightarrow> nat \<Rightarrow> (nat \<times> nat) option" where
  "block_place st b = map_option (\<lambda>d. (d, loc (bi st b))) (pdi (bi st b))"

text \<open>The ring: the used blocks in the order in which they may be dropped, \<open>cachehead\<close> first.\<close>

definition cycle :: "(nat \<Rightarrow> nat) \<Rightarrow> (nat \<Rightarrow> nat) \<Rightarrow> nat list \<Rightarrow> bool" where
  "cycle f p r \<longleftrightarrow> distinct r \<and> map f r = rotate1 r \<and> map p (rotate1 r) = r"

definition ring :: "'a cache_state \<Rightarrow> nat list \<Rightarrow> bool" where
  "ring st r \<longleftrightarrow> cycle (\<lambda>b. b_next (bi st b)) (\<lambda>b. b_prev (bi st b)) r \<and> set r = {b. used st b} \<and>
    cachehead st = (case r of [] \<Rightarrow> 0 | b # _ \<Rightarrow> b)"

fun free_seg :: "(nat \<Rightarrow> nat) \<Rightarrow> nat \<Rightarrow> nat list \<Rightarrow> bool" where
  "free_seg f p [] \<longleftrightarrow> p = 0"
| "free_seg f p (x # xs) \<longleftrightarrow> p = x \<and> x \<noteq> 0 \<and> free_seg f (f x) xs"

definition free_queue :: "'a cache_state \<Rightarrow> nat list \<Rightarrow> bool" where
  "free_queue st fl \<longleftrightarrow> distinct fl \<and> set fl = {b. 0 < b \<and> b < blocks_total st \<and> \<not> used st b} \<and>
    free_seg (\<lambda>b. b_next (bi st b)) (freehead st) fl \<and> length fl = free_total st"

definition index_ok :: "'a cache_state \<Rightarrow> bool" where
  "index_ok st \<longleftrightarrow> (\<forall>b. used st b \<longrightarrow> 0 < b \<and> b < blocks_total st) \<and>
    (\<forall>b. cidxa st b = (case block_place st b of None \<Rightarrow> FFFF_key | Some p \<Rightarrow> idx_key st (fst p) (drop_bit (a_shift st) (snd p))))"

definition disks :: "'a cache_state \<Rightarrow> nat" where "disks st = cdi_hdds st + cdi_fdds st"

definition places_ok :: "'a cache_state \<Rightarrow> bool" where
  "places_ok st \<longleftrightarrow>
    (\<forall>b d l. block_place st b = Some (d, l) \<longrightarrow> d < disks st \<and> push_bit (s32shift (cdi st d)) l < sectors (cdi st d)) \<and>
    (\<forall>b b'. block_place st b \<noteq> None \<and> block_place st b = block_place st b' \<longrightarrow> b = b')"

text \<open>Group and chain: \<open>snext\<close> is 0 on a group of one block and a cycle on a larger one.\<close>

definition group_of :: "'a cache_state \<Rightarrow> nat \<Rightarrow> nat \<Rightarrow> nat set" where
  "group_of st d g = {b. \<exists>l. block_place st b = Some (d, l) \<and> drop_bit (a_shift st) l = g}"

definition cyc :: "(nat \<Rightarrow> nat) \<Rightarrow> nat list \<Rightarrow> bool" where
  "cyc f c \<longleftrightarrow> distinct c \<and> (case c of [] \<Rightarrow> True | [b] \<Rightarrow> f b = 0 | _ \<Rightarrow> map f c = rotate1 c)"

definition group_chain :: "'a cache_state \<Rightarrow> nat \<Rightarrow> nat \<Rightarrow> nat list \<Rightarrow> bool" where
  "group_chain st d g c \<longleftrightarrow> cyc (\<lambda>b. snext (bi st b)) c \<and> set c = group_of st d g \<and>
    (c \<noteq> [] \<longrightarrow> bitmap_bit (cdi st d) g)"

definition geometry :: "'a cache_state \<Rightarrow> bool" where
  "geometry st \<longleftrightarrow> dn_bits st < 32 \<and> disks st < 2 ^ dn_bits st \<and> (\<forall>d < disks st. s32shift (cdi st d) \<le> 15) \<and>
    (\<forall>d < disks st. drop_bit (a_shift st) (drop_bit (s32shift (cdi st d)) (sectors (cdi st d))) < 2 ^ (32 - dn_bits st)) \<and>
    (\<forall>d < disks st. valid (cdi st d) \<longrightarrow> 0 < sectors (cdi st d)) \<and>
    (\<forall>d < disks st. \<forall>e < disks st. 0 < sectors (cdi st d) \<and> 0 < sectors (cdi st e) \<and>
       disk (cdi st d) = disk (cdi st e) \<longrightarrow> d = e)"

definition cache_inv :: "'a cache_state \<Rightarrow> bool" where
  "cache_inv st \<longleftrightarrow> (\<exists>r. ring st r) \<and> (\<exists>fl. free_queue st fl) \<and> index_ok st \<and> places_ok st \<and>
    (\<forall>d g. \<exists>c. group_chain st d g c) \<and> geometry st"

text \<open>Cached data agree with the disks, outside a set of sectors a write has not reached yet.\<close>

definition data_ok :: "(u32 \<Rightarrow> nat \<Rightarrow> 'a) \<Rightarrow> (nat \<times> nat) set \<Rightarrow> 'a cache_state \<Rightarrow> bool" where
  "data_ok m X st \<longleftrightarrow>
    (\<forall>b d l i. block_place st b = Some (d, l) \<and> i < sin32k (cdi st d) \<and>
       push_bit (s32shift (cdi st d)) l + i < sectors (cdi st d) \<and> (d, push_bit (s32shift (cdi st d)) l + i) \<notin> X \<longrightarrow>
       cdata st b i = m (disk (cdi st d)) (push_bit (s32shift (cdi st d)) l + i))"

section \<open>Cycles\<close>

lemma cyc_long: "2 \<le> length c \<Longrightarrow> cyc f c \<longleftrightarrow> distinct c \<and> map f c = rotate1 c"
  by (auto simp: cyc_def split: list.split)

lemma cyc_rotate1: "cyc f (x # w) \<Longrightarrow> cyc f (w @ [x])"
  by (cases w) (auto simp: cyc_long)

lemma cyc_rotate: "cyc f (xs @ ys) \<Longrightarrow> cyc f (ys @ xs)"
proof (induction xs arbitrary: ys)
  case (Cons x xs)
  then show ?case using cyc_rotate1 [of f x "xs @ ys"] Cons.IH [of "ys @ [x]"] by simp
qed simp

lemma cyc_from:
  assumes "cyc f c" "b \<in> set c"
  obtains t where "cyc f (b # t)" "set (b # t) = set c" "length (b # t) = length c"
proof -
  obtain xs ys where c: "c = xs @ b # ys" using split_list [OF assms(2)] by blast
  have "cyc f (b # ys @ xs)" using cyc_rotate [of f xs "b # ys"] assms(1) c by simp
  then show thesis using that [of "ys @ xs"] c by auto
qed

lemma cyc_snext_ne_0:
  assumes "cyc f c" "0 \<notin> set c" "b \<in> set c"
  shows "f b = 0 \<longleftrightarrow> c = [b]"
proof -
  obtain t where t: "cyc f (b # t)" "set (b # t) = set c" "length (b # t) = length c"
    using cyc_from [OF assms(1,3)] by blast
  show ?thesis
  proof (cases t)
    case Nil
    then have "c = [b]" using t assms(3) by (cases c) auto
    then show ?thesis using t(1) Nil by (simp add: cyc_def)
  next
    case (Cons y ys)
    then have "f b = y" "y \<in> set c" using t by (auto simp: cyc_def)
    then show ?thesis using assms(2) t(3) Cons by auto
  qed
qed

lemma cyc_step:
  assumes "cyc f (xs @ y # z # zs)"
  shows "f y = z"
proof -
  have "cyc f (y # z # zs @ xs)" using cyc_rotate [of f xs "y # z # zs"] assms by simp
  then show ?thesis by (simp add: cyc_def)
qed

lemma cyc_last:
  assumes "cyc f (x # t)" "t \<noteq> []"
  shows "f (last t) = x"
proof -
  obtain u z where t: "t = u @ [z]" using assms(2) by (metis append_butlast_last_id)
  have "cyc f ([z] @ x # u)" using cyc_rotate [of f "x # u" "[z]"] assms(1) t by simp
  then show ?thesis by (simp add: cyc_def t)
qed

text \<open>The two walks over a chain.\<close>

lemma chain_pred_walk:
  assumes "cyc (\<lambda>b. snext (bi st b)) (xs @ y # zs)" "xs @ y # zs = x # t" "t \<noteq> []"
  shows "chain_pred st x y = Some (last (y # zs))"
  using assms
proof (induction zs arbitrary: xs y)
  case Nil
  then have "snext (bi st y) = x" using cyc_last [of _ x t] by (metis last_ConsR last_snoc)
  then show ?case by (simp add: chain_pred.simps)
next
  case (Cons z zs)
  have s: "snext (bi st y) = z" using cyc_step [OF Cons.prems(1)] .
  have "z \<noteq> x"
  proof -
    have "distinct (xs @ y # z # zs)" using Cons.prems(1) by (simp add: cyc_def)
    then show ?thesis using Cons.prems(2) by (cases xs) auto
  qed
  then show ?case using s Cons.IH [of "xs @ [y]" z] Cons.prems by (simp add: chain_pred.simps)
qed

lemma chain_walk_finds:
  assumes "cyc (\<lambda>b. snext (bi st b)) (xs @ y # zs)" "xs @ y # zs = x # t" "t \<noteq> []"
  shows "chain_walk st p x y = Some (case find (\<lambda>b. loc (bi st b) = p) (y # zs) of Some b \<Rightarrow> b | None \<Rightarrow> last (y # zs))"
  using assms
proof (induction zs arbitrary: xs y)
  case Nil
  then have "snext (bi st y) = x" using cyc_last [of _ x t] by (metis last_ConsR last_snoc)
  then show ?case by (simp add: chain_walk.simps)
next
  case (Cons z zs)
  have s: "snext (bi st y) = z" using cyc_step [OF Cons.prems(1)] .
  have "z \<noteq> x"
  proof -
    have "distinct (xs @ y # z # zs)" using Cons.prems(1) by (simp add: cyc_def)
    then show ?thesis using Cons.prems(2) by (cases xs) auto
  qed
  then show ?case using s Cons.IH [of "xs @ [y]" z] Cons.prems by (simp add: chain_walk.simps [of st p x y] split: option.split)
qed


section \<open>The index\<close>

lemma memrchrd_Some: "memrchrd mem key ofs n = Some p \<Longrightarrow> mem p = key \<and> ofs \<le> p \<and> p < ofs + n"
  by (induction n) (auto split: if_splits)

lemma memrchrd_None: "memrchrd mem key ofs n = None \<longleftrightarrow> (\<forall>i. ofs \<le> i \<and> i < ofs + n \<longrightarrow> mem i \<noteq> key)"
proof (induction n)
  case (Suc n)
  have "ofs \<le> i \<and> i < ofs + Suc n \<longleftrightarrow> ofs \<le> i \<and> i < ofs + n \<or> i = ofs + n" for i by arith
  then show ?case using Suc by (simp only: memrchrd.simps) auto
next
  case 0
  then show ?case by (simp only: memrchrd.simps) auto
qed

lemma find_group_hit: "find_group st key \<noteq> 0 \<Longrightarrow> cidxa st (find_group st key) = key"
  by (auto simp: find_group_def split: option.splits dest: memrchrd_Some)

lemma find_group_miss:
  assumes "find_group st key = 0" "cidxa st 0 \<noteq> key" "b < blocks_total st"
  shows "cidxa st b \<noteq> key"
proof (cases "memrchrd (cidxa st) key 0 (cachehead st)")
  case None
  then have second: "memrchrd (cidxa st) key (cachehead st) (blocks_total st - cachehead st) = None"
    using assms(1,2) by (auto simp: find_group_def split: option.splits dest: memrchrd_Some)
  show ?thesis
  proof (cases "b < cachehead st")
    case True
    then show ?thesis using None unfolding memrchrd_None by auto
  next
    case False
    then show ?thesis using second assms(3) unfolding memrchrd_None by auto
  qed
next
  case (Some p)
  then show ?thesis using assms(1,2) memrchrd_Some [OF Some] by (auto simp: find_group_def)
qed

lemma idx_key_unat:
  assumes "dn_bits st < 32" "d < 2 ^ dn_bits st" "g < 2 ^ (32 - dn_bits st)"
  shows "unat (idx_key st d g) = d * 2 ^ (32 - dn_bits st) + g"
proof -
  let ?k = "32 - dn_bits st"
  have split: "(2::nat) ^ dn_bits st * 2 ^ ?k = 2 ^ 32" using assms(1) by (simp flip: power_add)
  have "d * 2 ^ ?k + g < (d + 1) * 2 ^ ?k" using assms(3) by simp
  also have "\<dots> \<le> 2 ^ dn_bits st * 2 ^ ?k" using assms(2) by (intro mult_right_mono) auto
  finally have lt: "d * 2 ^ ?k + g < 2 ^ 32" by (simp only: split)
  have "push_bit ?k d OR g = push_bit ?k d + g"
  proof (intro disjunctive_add [symmetric])
    fix n
    have "take_bit ?k g = g" using assms(3) by (simp add: take_bit_nat_eq_self_iff)
    then have "bit g n \<Longrightarrow> n < ?k" by (metis bit_take_bit_iff)
    then show "\<not> bit (push_bit ?k d) n \<or> \<not> bit g n" by (auto simp: bit_push_bit_iff_nat)
  qed
  moreover have "idx_key st d g = of_nat (push_bit ?k d OR g)"
    unfolding idx_key_def by (simp only: of_nat_or_eq push_bit_of_nat)
  ultimately have key: "idx_key st d g = of_nat (d * 2 ^ ?k + g)"
    by (simp only: push_bit_eq_mult)
  have small: "n < 2 ^ 32 \<Longrightarrow> unat (of_nat n :: u32) = n" for n
    by (simp add: unat_of_nat take_bit_eq_mod)
  show ?thesis unfolding key using lt by (rule small)
qed


lemma geometry_key:
  assumes "geometry st" "d < disks st" "push_bit (s32shift (cdi st d)) l < sectors (cdi st d)"
  shows "unat (idx_key st d (drop_bit (a_shift st) l)) = d * 2 ^ (32 - dn_bits st) + drop_bit (a_shift st) l"
    and "drop_bit (a_shift st) l < 2 ^ (32 - dn_bits st)" "d < 2 ^ dn_bits st - 1"
proof -
  have "l \<le> drop_bit (s32shift (cdi st d)) (sectors (cdi st d))"
    using assms(3) by (simp add: drop_bit_eq_div push_bit_eq_mult less_eq_div_iff_mult_less_eq)
  then have "drop_bit (a_shift st) l \<le> drop_bit (a_shift st) (drop_bit (s32shift (cdi st d)) (sectors (cdi st d)))"
    by (simp add: drop_bit_eq_div div_le_mono)
  also have "\<dots> < 2 ^ (32 - dn_bits st)" using assms(1,2) by (simp add: geometry_def)
  finally show g: "drop_bit (a_shift st) l < 2 ^ (32 - dn_bits st)" .
  show d: "d < 2 ^ dn_bits st - 1" using assms(1,2) by (auto simp: geometry_def)
  have "dn_bits st < 32" "d < 2 ^ dn_bits st" using assms(1) d by (auto simp: geometry_def)
  then show "unat (idx_key st d (drop_bit (a_shift st) l)) = d * 2 ^ (32 - dn_bits st) + drop_bit (a_shift st) l"
    using idx_key_unat g by blast
qed

lemma key_not_FFFF:
  assumes "geometry st" "d < disks st" "push_bit (s32shift (cdi st d)) l < sectors (cdi st d)"
  shows "idx_key st d (drop_bit (a_shift st) l) \<noteq> FFFF_key"
proof
  let ?k = "32 - dn_bits st"
  assume "idx_key st d (drop_bit (a_shift st) l) = FFFF_key"
  then have u: "d * 2 ^ ?k + drop_bit (a_shift st) l = 2 ^ 32 - 1"
    using geometry_key(1) [OF assms] by (simp add: FFFF_key_def unsigned_minus_1_eq_mask mask_eq_exp_minus_1)
  have "dn_bits st < 32" using assms(1) by (simp add: geometry_def)
  then have split: "(2::nat) ^ dn_bits st * 2 ^ ?k = 2 ^ 32" by (simp flip: power_add)
  have "(d + 1) * 2 ^ ?k \<le> (2 ^ dn_bits st - 1) * 2 ^ ?k"
    using geometry_key(3) [OF assms] by (intro mult_right_mono) auto
  then have "d * 2 ^ ?k + 2 ^ ?k + 2 ^ ?k \<le> 2 ^ 32"
    using split by (simp add: algebra_simps diff_mult_distrib)
  moreover have "(1::nat) \<le> 2 ^ ?k" by simp
  ultimately show False using u geometry_key(2) [OF assms] by linarith
qed

lemma key_inj:
  assumes "geometry st" "d < disks st" "push_bit (s32shift (cdi st d)) l < sectors (cdi st d)"
    and "e < disks st" "push_bit (s32shift (cdi st e)) k < sectors (cdi st e)"
    and "idx_key st d (drop_bit (a_shift st) l) = idx_key st e (drop_bit (a_shift st) k)"
  shows "d = e \<and> drop_bit (a_shift st) l = drop_bit (a_shift st) k"
proof -
  let ?n = "2 ^ (32 - dn_bits st) :: nat"
  note a = geometry_key [OF assms(1-3)] and b = geometry_key [OF assms(1,4,5)]
  have eq: "d * ?n + drop_bit (a_shift st) l = e * ?n + drop_bit (a_shift st) k"
    using a(1) b(1) assms(6) by simp
  have "(d * ?n + drop_bit (a_shift st) l) div ?n = d" using a(2) by simp
  moreover have "(e * ?n + drop_bit (a_shift st) k) div ?n = e" using b(2) by simp
  ultimately have "d = e" by (simp only: eq)
  then show ?thesis using eq by simp
qed


section \<open>Looking up a block\<close>

lemma place_used: "block_place st b = Some p \<Longrightarrow> used st b"
  by (auto simp: block_place_def used_def)

lemma place_loc: "block_place st b = Some (d, l) \<Longrightarrow> loc (bi st b) = l"
  by (auto simp: block_place_def)

lemma inv_place:
  assumes "cache_inv st" "block_place st b = Some (d, l)"
  shows "0 < b" "b < blocks_total st" "cidxa st b = idx_key st d (drop_bit (a_shift st) l)"
    "d < disks st" "push_bit (s32shift (cdi st d)) l < sectors (cdi st d)"
proof -
  have i: "index_ok st" "places_ok st" using assms(1) by (auto simp: cache_inv_def)
  show "0 < b" "b < blocks_total st" using i(1) place_used [OF assms(2)] by (auto simp: index_ok_def)
  have "cidxa st b = (case block_place st b of None \<Rightarrow> FFFF_key | Some p \<Rightarrow> idx_key st (fst p) (drop_bit (a_shift st) (snd p)))"
    using i(1) unfolding index_ok_def by blast
  then show "cidxa st b = idx_key st d (drop_bit (a_shift st) l)" using assms(2) by simp
  show "d < disks st" "push_bit (s32shift (cdi st d)) l < sectors (cdi st d)"
    using i(2) assms(2) unfolding places_ok_def by blast+
qed

lemma inv_unused: "cache_inv st \<Longrightarrow> block_place st b = None \<Longrightarrow> cidxa st b = FFFF_key"
  unfolding cache_inv_def index_ok_def by (metis option.simps(4))

lemma inv_zero: "cache_inv st \<Longrightarrow> block_place st 0 = None"
  using inv_place(1) [of st 0] by (cases "block_place st 0") auto

definition in_range :: "'a cache_state \<Rightarrow> nat \<Rightarrow> nat \<Rightarrow> bool" where
  "in_range st d l \<longleftrightarrow> d < disks st \<and> push_bit (s32shift (cdi st d)) l < sectors (cdi st d)"

lemma find_group_in:
  assumes inv: "cache_inv st" and rng: "in_range st d l"
    and hit: "cidxa st b = idx_key st d (drop_bit (a_shift st) l)"
  shows "b \<in> group_of st d (drop_bit (a_shift st) l)"
proof -
  have geo: "geometry st" using inv by (simp add: cache_inv_def)
  have nF: "idx_key st d (drop_bit (a_shift st) l) \<noteq> FFFF_key" using key_not_FFFF [OF geo] rng by (simp add: in_range_def)
  then obtain e k where e: "block_place st b = Some (e, k)"
    using inv_unused [OF inv, of b] hit by (cases "block_place st b") auto
  have "idx_key st d (drop_bit (a_shift st) l) = idx_key st e (drop_bit (a_shift st) k)"
    using inv_place(3) [OF inv e] hit by simp
  then have "d = e \<and> drop_bit (a_shift st) l = drop_bit (a_shift st) k"
    using key_inj [OF geo _ _ inv_place(4,5) [OF inv e]] rng unfolding in_range_def by blast
  then show ?thesis using e by (auto simp: group_of_def)
qed

lemma find_group_none:
  assumes "cache_inv st" "in_range st d l" "group_of st d (drop_bit (a_shift st) l) = {}"
  shows "find_group st (idx_key st d (drop_bit (a_shift st) l)) = 0"
  using find_group_in [OF assms(1,2)] find_group_hit [of st] assms(3) by blast

lemma find_group_ok:
  assumes inv: "cache_inv st" and rng: "in_range st d l" and grp: "group_of st d (drop_bit (a_shift st) l) \<noteq> {}"
  shows "find_group st (idx_key st d (drop_bit (a_shift st) l)) \<in> group_of st d (drop_bit (a_shift st) l)"
proof -
  let ?key = "idx_key st d (drop_bit (a_shift st) l)"
  have geo: "geometry st" using inv by (simp add: cache_inv_def)
  have nF: "?key \<noteq> FFFF_key" using key_not_FFFF [OF geo] rng by (simp add: in_range_def)
  obtain b l0 where b: "block_place st b = Some (d, l0)" "drop_bit (a_shift st) l0 = drop_bit (a_shift st) l"
    using grp by (auto simp: group_of_def)
  have "find_group st ?key \<noteq> 0"
  proof
    assume "find_group st ?key = 0"
    moreover have "cidxa st 0 \<noteq> ?key" using inv_unused [OF inv inv_zero [OF inv]] nF by simp
    ultimately have "cidxa st b \<noteq> ?key" using inv_place(2) [OF inv b(1)] by (rule find_group_miss)
    then show False using inv_place(3) [OF inv b(1)] b(2) by simp
  qed
  then show ?thesis using find_group_hit find_group_in [OF inv rng] by blast
qed

lemma lookup_ok:
  assumes inv: "cache_inv st" and rng: "in_range st d l"
  shows "\<exists>sl b. lookup_block st d l = Some (sl, b) \<and>
    (if b = 0 then \<forall>x. block_place st x \<noteq> Some (d, l) else block_place st b = Some (d, l)) \<and>
    (if sl = 0 then group_of st d (drop_bit (a_shift st) l) = {} else sl \<in> group_of st d (drop_bit (a_shift st) l))"
proof -
  let ?g = "drop_bit (a_shift st) l"
  obtain c where c: "cyc (\<lambda>b. snext (bi st b)) c" "set c = group_of st d ?g" "c \<noteq> [] \<longrightarrow> bitmap_bit (cdi st d) ?g"
    using inv unfolding cache_inv_def group_chain_def by blast
  have none: "x \<in> group_of st d ?g" if "block_place st x = Some (d, l)" for x using that by (auto simp: group_of_def)
  show ?thesis
  proof (cases "c = []")
    case True
    then have e: "group_of st d ?g = {}" using c(2) by simp
    then have "lookup_block st d l = Some (0, 0)" using find_group_none [OF inv rng] by (simp add: lookup_block_def Let_def)
    then show ?thesis using none e by auto
  next
    case False
    then have "group_of st d ?g \<noteq> {}" using c(2) by auto
    from find_group_ok [OF inv rng this]
    have sl: "find_group st (idx_key st d ?g) \<in> group_of st d ?g" (is "?sl \<in> _") .
    have zero: "0 \<notin> group_of st d ?g" using inv_zero [OF inv] by (auto simp: group_of_def)
    obtain t where t: "cyc (\<lambda>b. snext (bi st b)) (?sl # t)" "set (?sl # t) = group_of st d ?g"
      using cyc_from [OF c(1)] sl c(2) by metis
    have sl0: "?sl \<noteq> 0" using sl zero by metis
    have walk: "(if snext (bi st ?sl) \<noteq> 0 then chain_walk st l ?sl ?sl else Some ?sl) =
      Some (case find (\<lambda>b. loc (bi st b) = l) (?sl # t) of Some b \<Rightarrow> b | None \<Rightarrow> last (?sl # t))"
    proof (cases "t = []")
      case True
      then show ?thesis using t(1) by (simp add: cyc_def split: option.split)
    next
      case False
      have "0 \<notin> set (?sl # t)" using zero t(2) by metis
      then have "snext (bi st ?sl) \<noteq> 0"
        using cyc_snext_ne_0 [OF t(1), of ?sl] False by simp
      then show ?thesis using chain_walk_finds [of st "[]" ?sl t ?sl t l] t(1) False by simp
    qed
    have grp: "\<exists>k. block_place st b = Some (d, k)" if "b \<in> group_of st d ?g" for b using that by (auto simp: group_of_def)
    show ?thesis
    proof (cases "find (\<lambda>b. loc (bi st b) = l) (?sl # t)")
      case None
      then have no: "\<forall>b \<in> group_of st d ?g. loc (bi st b) \<noteq> l" using t(2) unfolding find_None_iff by metis
      moreover have "last (?sl # t) \<in> group_of st d ?g" using t(2) last_in_set [of "?sl # t"] by simp
      ultimately have "lookup_block st d l = Some (?sl, 0)"
        using walk None c(3) False sl0 by (simp add: lookup_block_def Let_def)
      moreover have "\<forall>x. block_place st x \<noteq> Some (d, l)" using no none place_loc by metis
      ultimately show ?thesis using sl sl0 by (intro exI [of _ ?sl] exI [of _ 0]) simp
    next
      case (Some b)
      then have b: "b \<in> set (?sl # t)" "loc (bi st b) = l" unfolding find_Some_iff by (metis nth_mem)+
      then have p: "block_place st b = Some (d, l)" using grp [of b] t(2) place_loc [of st b d] by auto
      then have "b \<noteq> 0" using inv_zero [OF inv] by (metis option.distinct(1))
      moreover have "lookup_block st d l = Some (?sl, b)"
        using walk Some c(3) False sl0 b(2) by (simp add: lookup_block_def Let_def)
      ultimately show ?thesis using sl sl0 p by auto
    qed
  qed
qed


section \<open>Steps on the ring\<close>

lemma cycle_Nil [simp]: "cycle f p []"
  by (simp add: cycle_def)

lemma cycle_cong:
  "cycle f p r \<Longrightarrow> (\<And>b. b \<in> set r \<Longrightarrow> f b = g b) \<Longrightarrow> (\<And>b. b \<in> set r \<Longrightarrow> p b = q b) \<Longrightarrow> cycle g q r"
  unfolding cycle_def by (metis map_cong set_rotate1)

lemma cycle_rotate1: "cycle f p (x # w) \<Longrightarrow> cycle f p (w @ [x])"
  by (cases w) (auto simp: cycle_def)

lemma cycle_rotate: "cycle f p (xs @ ys) \<Longrightarrow> cycle f p (ys @ xs)"
proof (induction xs arbitrary: ys)
  case (Cons x xs)
  then show ?case using cycle_rotate1 [of f p x "xs @ ys"] Cons.IH [of "ys @ [x]"] by simp
qed simp

lemma cycle_unfold:
  "cycle f p (x # w) \<longleftrightarrow> distinct (x # w) \<and> map f (x # w) = w @ [x] \<and> map p (w @ [x]) = x # w"
  by (simp add: cycle_def)

lemma cycle_ends:
  assumes "cycle f p (x # w)"
  shows "p x = last (x # w)" "f (last (x # w)) = x" "f x = hd (w @ [x])"
proof -
  obtain u z where u: "x # w = u @ [z]" by (metis append_butlast_last_id list.distinct(1))
  have m: "map f (x # w) = w @ [x]" "map p (w @ [x]) = x # w" using assms unfolding cycle_unfold by blast+
  have "map f (u @ [z]) = w @ [x]" "map p (w @ [x]) = u @ [z]" using m unfolding u by blast+
  then have "f z = x" "p x = z" by auto
  then show "p x = last (x # w)" "f (last (x # w)) = x" using u by (metis last_snoc)+
  show "f x = hd (w @ [x])" using m(1) by (metis list.sel(1) list.simps(9))
qed

lemma cycle_insert:
  assumes "cycle f p (h # w)" "x \<notin> set (h # w)"
  shows "cycle ((f(x := h))(last (h # w) := x)) ((p(x := last (h # w)))(h := x)) (h # w @ [x])"
proof -
  obtain u z where u: "h # w = u @ [z]" by (metis append_butlast_last_id list.distinct(1))
  have m0: "map f (h # w) = w @ [h]" "map p (w @ [h]) = h # w" "distinct (h # w)"
    using assms(1) unfolding cycle_unfold by blast+
  have "map f (u @ [z]) = w @ [h]" "map p (w @ [h]) = u @ [z]" using m0 unfolding u by blast+
  then have m: "map f u = w" "f z = h" "map p w = u" "p h = z" by auto
  have d: "z \<notin> set u" "x \<notin> set u" "x \<noteq> z" using m0(3) assms(2) unfolding u by auto
  have e: "x \<noteq> h" "x \<notin> set w" "h \<notin> set w" using m0(3) assms(2) by auto
  have l: "last (h # w) = z" using u by (metis last_snoc)
  have "map ((f(x := h))(z := x)) (u @ [z, x]) = w @ [x, h]" using m(1) d by auto
  then have "map ((f(x := h))(z := x)) (h # w @ [x]) = (w @ [x]) @ [h]" using u by (metis append_Cons append_assoc append_Nil)
  moreover have "map ((p(x := z))(h := x)) (w @ [x, h]) = u @ [z, x]" using m(3) e d by auto
  then have "map ((p(x := z))(h := x)) ((w @ [x]) @ [h]) = h # w @ [x]" using u by (metis append_Cons append_assoc append_Nil)
  moreover have "distinct (h # w @ [x])" using m0(3) e by auto
  ultimately show ?thesis unfolding l cycle_unfold by blast
qed

lemma cycle_remove:
  assumes "cycle f p (x # y # w)"
  shows "cycle (f(last (y # w) := y)) (p(y := last (y # w))) (y # w)"
proof -
  obtain v z where v: "y # w = v @ [z]" by (metis append_butlast_last_id list.distinct(1))
  have m: "map f (y # w) = w @ [x]" "map p (w @ [x]) = y # w" "distinct (y # w)"
    using assms unfolding cycle_unfold by auto
  have "map f (v @ [z]) = w @ [x]" "map p (w @ [x]) = v @ [z]" using m(1,2) unfolding v by blast+
  then have n: "map f v = w" "map p w = v" by auto
  have "distinct (v @ [z])" using m(3) unfolding v .
  then have d: "z \<notin> set v" "y \<notin> set w" using m(3) by auto
  have "map (f(z := y)) (v @ [z]) = w @ [y]" "map (p(y := z)) (w @ [y]) = v @ [z]" using n d by auto
  then have "map (f(z := y)) (y # w) = w @ [y]" "map (p(y := z)) (w @ [y]) = y # w" unfolding v by blast+
  moreover have l: "last (y # w) = z" using v by (metis last_snoc)
  ultimately show ?thesis using m(3) unfolding l cycle_unfold by blast
qed

end
