(* ===== verification/CacheOps.thy ===== *)
theory CacheOps
  imports CacheInv
begin

text \<open>Every step of the cache keeps the invariant, and what it does to the places and the data of the blocks.\<close>

section \<open>Steps that only move blocks in the ring\<close>

definition same_body :: "'a cache_state \<Rightarrow> 'a cache_state \<Rightarrow> bool" where
  "same_body st st' \<longleftrightarrow>
    (\<forall>b. pdi (bi st' b) = pdi (bi st b) \<and> loc (bi st' b) = loc (bi st b) \<and> snext (bi st' b) = snext (bi st b)) \<and>
    cidxa st' = cidxa st \<and> cdi st' = cdi st \<and> cdi_hdds st' = cdi_hdds st \<and> cdi_fdds st' = cdi_fdds st \<and>
    a_shift st' = a_shift st \<and> dn_bits st' = dn_bits st \<and> blocks_total st' = blocks_total st \<and>
    cache_on st' = cache_on st"

definition same_free :: "'a cache_state \<Rightarrow> 'a cache_state \<Rightarrow> bool" where
  "same_free st st' \<longleftrightarrow> (\<forall>b. \<not> used st b \<longrightarrow> b_next (bi st' b) = b_next (bi st b)) \<and>
    freehead st' = freehead st \<and> free_total st' = free_total st"

definition body_ok :: "'a cache_state \<Rightarrow> bool" where
  "body_ok st \<longleftrightarrow> index_ok st \<and> places_ok st \<and> (\<forall>d g. \<exists>c. group_chain st d g c) \<and> geometry st"

lemma cache_inv_parts: "cache_inv st \<longleftrightarrow> (\<exists>r. ring st r) \<and> (\<exists>fl. free_queue st fl) \<and> body_ok st"
  by (auto simp: cache_inv_def body_ok_def)

lemma same_body_place:
  assumes "same_body st st'"
  shows "block_place st' = block_place st" "used st' = used st" "group_of st' = group_of st" "idx_key st' = idx_key st"
    "disks st' = disks st" "cdi st' = cdi st" "sin32k = sin32k"
  using assms by (auto simp: same_body_def block_place_def used_def group_of_def idx_key_def disks_def fun_eq_iff)

lemma same_body_ok:
  assumes "same_body st st'"
  shows "body_ok st' = body_ok st"
proof -
  have f: "cidxa st' = cidxa st" "a_shift st' = a_shift st" "dn_bits st' = dn_bits st" "blocks_total st' = blocks_total st"
    "\<And>b. snext (bi st' b) = snext (bi st b)"
    using assms by (auto simp: same_body_def)
  show ?thesis
    unfolding body_ok_def index_ok_def places_ok_def group_chain_def geometry_def same_body_place [OF assms] f ..
qed

lemma same_body_range: "same_body st st' \<Longrightarrow> in_range st' = in_range st"
  using same_body_place [of st st'] by (simp add: in_range_def fun_eq_iff)

lemma free_seg_cong: "(\<And>b. b \<in> set fl \<Longrightarrow> f b = g b) \<Longrightarrow> free_seg f p fl = free_seg g p fl"
  by (induction fl arbitrary: p) auto

lemma same_free_list:
  assumes "same_body st st'" "same_free st st'"
  shows "free_queue st' fl = free_queue st fl"
proof -
  note p = same_body_place [OF assms(1)]
  have t: "blocks_total st' = blocks_total st" using assms(1) by (simp add: same_body_def)
  show ?thesis
  proof (cases "set fl = {b. 0 < b \<and> b < blocks_total st \<and> \<not> used st b}")
    case True
    then have "free_seg (\<lambda>b. b_next (bi st' b)) q fl = free_seg (\<lambda>b. b_next (bi st b)) q fl" for q
      using assms(2) by (intro free_seg_cong) (auto simp: same_free_def)
    then show ?thesis using assms(2) by (simp add: free_queue_def p t same_free_def)
  qed (simp add: free_queue_def p t)
qed

lemma same_inv:
  assumes "cache_inv st" "same_body st st'" "same_free st st'" "ring st' r"
  shows "cache_inv st'"
  using assms same_body_ok [OF assms(2)] same_free_list [OF assms(2,3)] by (auto simp: cache_inv_parts)

lemma same_data:
  assumes "same_body st st'" "cdata st' = cdata st"
  shows "data_ok m X st' = data_ok m X st"
  using same_body_place [OF assms(1)] assms(2) by (simp add: data_ok_def)

lemma ring_rotate:
  assumes "ring st r" "used st b"
  obtains w where "cycle (\<lambda>b. b_next (bi st b)) (\<lambda>b. b_prev (bi st b)) (b # w)" "set (b # w) = {b. used st b}"
proof -
  have "b \<in> set r" using assms by (auto simp: ring_def)
  then obtain xs ys where r: "r = xs @ b # ys" by (meson split_list)
  then have "cycle (\<lambda>b. b_next (bi st b)) (\<lambda>b. b_prev (bi st b)) (b # ys @ xs)"
    using assms(1) cycle_rotate [of _ _ xs "b # ys"] by (simp add: ring_def)
  then show thesis using that [of "ys @ xs"] assms(1) r by (auto simp: ring_def)
qed

lemma ring_neighbours:
  assumes "ring st r" "used st b"
  shows "used st (b_next (bi st b))" "used st (b_prev (bi st b))"
proof -
  obtain w where w: "cycle (\<lambda>b. b_next (bi st b)) (\<lambda>b. b_prev (bi st b)) (b # w)" "set (b # w) = {b. used st b}"
    using ring_rotate [OF assms] by blast
  have "b_prev (bi st b) \<in> set (b # w)" using cycle_ends(1) [OF w(1)] last_in_set [of "b # w"] by simp
  then show "used st (b_prev (bi st b))" using w(2) by blast
  have "b_next (bi st b) \<in> set (w @ [b])" using cycle_ends(3) [OF w(1)] hd_in_set [of "w @ [b]"] by simp
  then show "used st (b_next (bi st b))" using w(2) by auto
qed

lemma ring_head: "ring st r \<Longrightarrow> used st b \<Longrightarrow> used st (cachehead st)"
  by (cases r) (auto simp: ring_def)

definition ring_only :: "'a cache_state \<Rightarrow> 'a cache_state \<Rightarrow> bool" where
  "ring_only st st' \<longleftrightarrow> same_body st st' \<and> same_free st st' \<and> cdata st' = cdata st"

lemma ring_only_refl: "ring_only st st"
  by (simp add: ring_only_def same_body_def same_free_def)

lemma ring_only_used: "ring_only st st' \<Longrightarrow> used st' = used st"
  by (simp add: ring_only_def same_body_place)

lemma ring_only_trans [trans]: "ring_only st st1 \<Longrightarrow> ring_only st1 st2 \<Longrightarrow> ring_only st st2"
  using same_body_place(2) [of st st1] by (simp add: ring_only_def same_body_def same_free_def)

lemma ring_only_steps:
  "ring_only st (upd_bi x (\<lambda>b. b\<lparr>b_prev := v\<rparr>) st)"
  "ring_only st (st\<lparr>cachehead := h\<rparr>)"
  "used st x \<Longrightarrow> ring_only st (upd_bi x (\<lambda>b. b\<lparr>b_next := n\<rparr>) st)"
  "used st x \<Longrightarrow> ring_only st (upd_bi x (\<lambda>b. b\<lparr>b_next := n, b_prev := v\<rparr>) st)"
  by (auto simp: ring_only_def same_body_def same_free_def)

lemma touch_block_only:
  assumes ring: "ring st r" and b: "used st b"
  shows "ring_only st (touch_block b st)"
proof -
  let ?h = "cachehead st"
  have h: "used st ?h" using ring_head [OF ring b] .
  note nb = ring_neighbours [OF ring b] ring_neighbours [OF ring h]
  define st1 where "st1 = upd_bi (b_next (bi st b)) (\<lambda>c. c\<lparr>b_prev := b_prev (bi st b)\<rparr>) st"
  define st2 where "st2 = upd_bi (b_prev (bi st1 b)) (\<lambda>c. c\<lparr>b_next := b_next (bi st1 b)\<rparr>) st1"
  define tail where "tail = b_prev (bi st2 (cachehead st2))"
  define st3 where "st3 = upd_bi b (\<lambda>c. c\<lparr>b_next := cachehead st2, b_prev := tail\<rparr>) st2"
  define st4 where "st4 = upd_bi tail (\<lambda>c. c\<lparr>b_next := b\<rparr>) st3"
  have o1: "ring_only st st1" unfolding st1_def by (rule ring_only_steps)
  have p1: "b_prev (bi st1 x) = (if x = b_next (bi st b) then b_prev (bi st b) else b_prev (bi st x))" for x
    by (simp add: st1_def)
  have o2: "ring_only st1 st2"
    unfolding st2_def using nb ring_only_used [OF o1] by (intro ring_only_steps(3)) (simp add: p1)
  have "tail = b_prev (bi st1 ?h)" by (simp add: tail_def st2_def st1_def)
  then have t: "used st tail" using nb by (simp add: p1)
  have u2: "used st2 = used st" using ring_only_used [OF o1] ring_only_used [OF o2] by simp
  have o3: "ring_only st2 st3" unfolding st3_def using b u2 by (intro ring_only_steps(4)) simp
  have o4: "ring_only st3 st4"
    unfolding st4_def using t u2 ring_only_used [OF o3] by (intro ring_only_steps(3)) simp
  have "ring_only st4 (upd_bi (cachehead st4) (\<lambda>c. c\<lparr>b_prev := b\<rparr>) st4)" by (rule ring_only_steps)
  with o1 o2 o3 o4 have "ring_only st (upd_bi (cachehead st4) (\<lambda>c. c\<lparr>b_prev := b\<rparr>) st4)"
    by (blast intro: ring_only_trans)
  moreover have "touch_block b st =
    (if b_prev (bi st ?h) \<noteq> b
     then if b = ?h then st\<lparr>cachehead := b_next (bi st b)\<rparr> else upd_bi (cachehead st4) (\<lambda>c. c\<lparr>b_prev := b\<rparr>) st4
     else st)"
    unfolding touch_block_def Let_def st4_def st3_def tail_def st2_def st1_def by (rule refl)
  ultimately show ?thesis using ring_only_refl [of st] ring_only_steps(2) [of st] by presburger
qed

lemma touch_block_links:
  assumes "b_prev (bi st (cachehead st)) \<noteq> b" "b \<noteq> cachehead st"
  defines "f \<equiv> \<lambda>x. b_next (bi st x)" and "p \<equiv> \<lambda>x. b_prev (bi st x)"
  defines "f1 \<equiv> f(p b := f b)" and "p1 \<equiv> p(f b := p b)"
  shows "(\<lambda>x. b_next (bi (touch_block b st) x)) = (f1(b := cachehead st))(p1 (cachehead st) := b)"
    and "(\<lambda>x. b_prev (bi (touch_block b st) x)) = (p1(b := p1 (cachehead st)))(cachehead st := b)"
    and "cachehead (touch_block b st) = cachehead st"
proof -
  define st1 where "st1 = upd_bi (b_next (bi st b)) (\<lambda>c. c\<lparr>b_prev := b_prev (bi st b)\<rparr>) st"
  define st2 where "st2 = upd_bi (b_prev (bi st1 b)) (\<lambda>c. c\<lparr>b_next := b_next (bi st1 b)\<rparr>) st1"
  define tail where "tail = b_prev (bi st2 (cachehead st2))"
  define st3 where "st3 = upd_bi b (\<lambda>c. c\<lparr>b_next := cachehead st2, b_prev := tail\<rparr>) st2"
  define st4 where "st4 = upd_bi tail (\<lambda>c. c\<lparr>b_next := b\<rparr>) st3"
  have e: "touch_block b st = upd_bi (cachehead st4) (\<lambda>c. c\<lparr>b_prev := b\<rparr>) st4"
    using assms(1,2) unfolding touch_block_def Let_def st4_def st3_def tail_def st2_def st1_def by simp
  have 1: "(\<lambda>x. b_next (bi st1 x)) = f" "(\<lambda>x. b_prev (bi st1 x)) = p1" "cachehead st1 = cachehead st"
    by (auto simp: st1_def fun_eq_iff f_def p_def p1_def)
  have "p1 b = p b" by (simp add: p1_def)
  then have 2: "(\<lambda>x. b_next (bi st2 x)) = f1" "(\<lambda>x. b_prev (bi st2 x)) = p1" "cachehead st2 = cachehead st"
    using 1 by (auto simp: st2_def fun_eq_iff f1_def)
  then have t: "tail = p1 (cachehead st)" by (auto simp: tail_def fun_eq_iff)
  have 3: "(\<lambda>x. b_next (bi st3 x)) = f1(b := cachehead st)" "(\<lambda>x. b_prev (bi st3 x)) = p1(b := tail)" "cachehead st3 = cachehead st"
    using 2 by (auto simp: st3_def fun_eq_iff)
  have 4: "(\<lambda>x. b_next (bi st4 x)) = (f1(b := cachehead st))(tail := b)" "(\<lambda>x. b_prev (bi st4 x)) = p1(b := tail)"
    "cachehead st4 = cachehead st"
    using 3 by (auto simp: st4_def fun_eq_iff)
  show "(\<lambda>x. b_next (bi (touch_block b st) x)) = (f1(b := cachehead st))(p1 (cachehead st) := b)"
    "(\<lambda>x. b_prev (bi (touch_block b st) x)) = (p1(b := p1 (cachehead st)))(cachehead st := b)"
    "cachehead (touch_block b st) = cachehead st"
    using 4 unfolding e t by (auto simp: fun_eq_iff)
qed

lemma touch_block_ring:
  assumes ring: "ring st r" and b: "used st b"
  shows "\<exists>r'. ring (touch_block b st) r'"
proof -
  let ?f = "\<lambda>b. b_next (bi st b)" and ?p = "\<lambda>b. b_prev (bi st b)" and ?h = "cachehead st"
  have h: "used st ?h" using ring_head [OF ring b] .
  obtain w where r: "r = ?h # w" using ring b by (cases r) (auto simp: ring_def)
  have cyc: "cycle ?f ?p (?h # w)" and sr: "set (?h # w) = {b. used st b}" using ring r by (auto simp: ring_def)
  have us: "used (touch_block b st) = used st"
    by (rule ring_only_used [OF touch_block_only [OF ring b]])
  show "\<exists>r'. ring (touch_block b st) r'"
  proof (cases "b_prev (bi st ?h) = b")
    case True
    then show ?thesis using ring by (auto simp: touch_block_def)
  next
    case notlast: False
    show ?thesis
    proof (cases "b = ?h")
      case True
      then obtain y v where w: "w = y # v" using notlast cycle_ends(1) [OF cyc] by (cases w) auto
      have "?f ?h = y" using cycle_ends(3) [OF cyc] w by simp
      then have "ring (touch_block b st) (w @ [?h])"
        using cycle_rotate1 [OF cyc] sr us notlast True w
        by (auto simp: touch_block_def ring_def used_def)
      then show ?thesis by blast
    next
      case False
      then obtain u v where w: "w = u @ b # v" using b sr by (metis mem_Collect_eq set_ConsD split_list)
      have c1: "cycle ?f ?p (b # v @ ?h # u)"
        using cycle_rotate [of ?f ?p "?h # u" "b # v"] cyc w by simp
      obtain y z where yz: "v @ ?h # u = y # z" by (cases v) auto
      have n: "?f b = y" "?p b = last (y # z)" using cycle_ends(1,3) [OF c1] yz by auto
      define f1 p1 where "f1 = ?f(?p b := ?f b)" and "p1 = ?p(?f b := ?p b)"
      have "cycle f1 p1 (v @ ?h # u)"
        using cycle_remove [of ?f ?p b y z] c1 unfolding yz f1_def p1_def n by simp
      then have c2: "cycle f1 p1 (?h # u @ v)" using cycle_rotate [of f1 p1 v "?h # u"] by simp
      have bn: "b \<notin> set (?h # u @ v)" using cyc w by (auto simp: cycle_def)
      have c3: "cycle ((f1(b := ?h))(p1 ?h := b)) ((p1(b := p1 ?h))(?h := b)) (?h # (u @ v) @ [b])"
        using cycle_insert [OF c2 bn] cycle_ends(1) [OF c2] by simp
      note links = touch_block_links [OF notlast False, folded f1_def p1_def]
      have "set (?h # (u @ v) @ [b]) = {b. used st b}" using sr w by auto
      then have "ring (touch_block b st) (?h # (u @ v) @ [b])"
        using c3 unfolding ring_def links by (simp add: us)
      then show ?thesis by blast
    qed
  qed
qed

end
