(* ===== verification/CacheFree.thy ===== *)
theory CacheFree
  imports CacheOps
begin

text \<open>
  Freeing a block takes it out of the ring, the index and the chain of its group, and keeps the
  invariant; with that the calls of the module that free many blocks.
\<close>

section \<open>What stays\<close>

abbreviation nx :: "'a cache_state \<Rightarrow> nat \<Rightarrow> nat" where "nx st \<equiv> \<lambda>b. b_next (bi st b)"
abbreviation pv :: "'a cache_state \<Rightarrow> nat \<Rightarrow> nat" where "pv st \<equiv> \<lambda>b. b_prev (bi st b)"
abbreviation sn :: "'a cache_state \<Rightarrow> nat \<Rightarrow> nat" where "sn st \<equiv> \<lambda>b. snext (bi st b)"

definition same_setup :: "'a cache_state \<Rightarrow> 'a cache_state \<Rightarrow> bool" where
  "same_setup st st' \<longleftrightarrow>
    (\<forall>d. sectors (cdi st' d) = sectors (cdi st d) \<and> s32shift (cdi st' d) = s32shift (cdi st d) \<and>
       disk (cdi st' d) = disk (cdi st d) \<and> enabled (cdi st' d) = enabled (cdi st d) \<and> valid (cdi st' d) = valid (cdi st d)) \<and>
    cdi_hdds st' = cdi_hdds st \<and> cdi_fdds st' = cdi_fdds st \<and> a_shift st' = a_shift st \<and> dn_bits st' = dn_bits st \<and>
    blocks_total st' = blocks_total st \<and> cache_on st' = cache_on st"

lemma same_setup_refl [simp]: "same_setup st st"
  by (simp add: same_setup_def)

lemma same_setup_trans: "same_setup st st1 \<Longrightarrow> same_setup st1 st2 \<Longrightarrow> same_setup st st2"
  by (simp add: same_setup_def)

lemma same_setup_eqs:
  assumes "same_setup st st'"
  shows "disks st' = disks st" "geometry st' = geometry st" "idx_key st' = idx_key st" "in_range st' = in_range st"
    "sin32k (cdi st' d) = sin32k (cdi st d)"
  using assms by (auto simp: same_setup_def disks_def geometry_def idx_key_def in_range_def sin32k_def fun_eq_iff)

lemma data_ok_less:
  assumes "data_ok m X st" "same_setup st st'" "cdata st' = cdata st"
    and "\<And>b p. block_place st' b = Some p \<Longrightarrow> block_place st b = Some p"
  shows "data_ok m X st'"
  using assms(1) unfolding data_ok_def
  using assms(2,3) assms(4) by (simp add: same_setup_def sin32k_def)

text \<open>The group of a place, and the chains as a whole.\<close>

definition group_at :: "nat \<Rightarrow> (nat \<Rightarrow> (nat \<times> nat) option) \<Rightarrow> nat \<Rightarrow> nat \<Rightarrow> nat set" where
  "group_at a pl d g = {b. \<exists>l. pl b = Some (d, l) \<and> drop_bit a l = g}"

definition chains :: "(nat \<Rightarrow> nat) \<Rightarrow> nat \<Rightarrow> (nat \<Rightarrow> (nat \<times> nat) option) \<Rightarrow> (nat \<Rightarrow> nat \<Rightarrow> bool) \<Rightarrow> bool" where
  "chains f a pl bm \<longleftrightarrow> (\<forall>d g. \<exists>c. cyc f c \<and> set c = group_at a pl d g \<and> (c \<noteq> [] \<longrightarrow> bm d g))"

lemma group_of_at: "group_of st d g = group_at (a_shift st) (block_place st) d g"
  by (simp add: group_of_def group_at_def)

lemma chains_of: "(\<forall>d g. \<exists>c. group_chain st d g c) \<longleftrightarrow> chains (sn st) (a_shift st) (block_place st) (\<lambda>d. bitmap_bit (cdi st d))"
  by (simp add: chains_def group_chain_def group_of_at)

lemma cyc_cong:
  assumes "cyc f c" "\<And>b. b \<in> set c \<Longrightarrow> f b = g b"
  shows "cyc g c"
proof -
  have m: "map g c = map f c" using assms(2) by simp
  show ?thesis
  proof (cases "2 \<le> length c")
    case True
    then show ?thesis using assms(1) by (simp only: cyc_long m)
  next
    case False
    then have "c = [] \<or> (\<exists>b. c = [b])" by (cases c rule: remdups_adj.cases) auto
    then show ?thesis using assms by (auto simp: cyc_def)
  qed
qed

lemma cyc_remove:
  assumes "cyc f (i # t)" "t \<noteq> []"
  shows "cyc (f(last t := (if f i = last t then 0 else f i))) t"
proof (cases t)
  case (Cons y w)
  show ?thesis
  proof (cases "w = []")
    case True
    then show ?thesis using assms Cons by (simp add: cyc_def)
  next
    case False
    then obtain v z where w: "w = v @ [z]" by (metis append_butlast_last_id)
    then have e: "f i = y" "y \<noteq> z" "map f (y # v) = v @ [z]" "distinct t" "z \<notin> set (y # v)"
      using assms Cons by (auto simp: cyc_def)
    have "map (f(z := y)) (y # v) = v @ [z]" using e(3) by (simp only: map_fun_upd [OF e(5)])
    then have "map (f(z := y)) t = rotate1 t" using Cons w by auto
    moreover have "last t = z" using Cons w by simp
    ultimately show ?thesis using e Cons w by (simp add: cyc_long)
  qed
qed (use assms in simp)

lemma cyc_insert:
  assumes "cyc f (x # t)" "b \<notin> set (x # t)"
  shows "cyc (f(b := x, last (x # t) := b)) (x # t @ [b])"
proof (cases t)
  case Nil
  then show ?thesis using assms by (simp add: cyc_def)
next
  case (Cons y w)
  then obtain v z where w: "t = v @ [z]" by (metis append_butlast_last_id list.distinct(1))
  have e: "map f (x # v) = v @ [z]" "distinct (x # t)" "z \<notin> set (x # v)"
    using assms w by (auto simp: cyc_def split: list.splits)
  have "map (f(b := x, z := b)) (x # v) = v @ [z]" using e assms(2) w by auto
  then have "map (f(b := x, z := b)) (x # t @ [b]) = rotate1 (x # t @ [b])" using w e(3) assms(2) by auto
  then show ?thesis using e(2) assms(2) w by (simp add: cyc_long)
qed


section \<open>The group_chain of the group\<close>

text \<open>Steps that change the links of the chains and the bits only.\<close>

definition chain_only :: "'a cache_state \<Rightarrow> 'a cache_state \<Rightarrow> bool" where
  "chain_only st st' \<longleftrightarrow> same_setup st st' \<and> nx st' = nx st \<and> pv st' = pv st \<and> cidxa st' = cidxa st \<and> cdata st' = cdata st \<and>
    (\<forall>b. pdi (bi st' b) = pdi (bi st b) \<and> loc (bi st' b) = loc (bi st b) \<and> bi_prio (bi st' b) = bi_prio (bi st b)) \<and>
    freehead st' = freehead st \<and> cachehead st' = cachehead st \<and> free_total st' = free_total st"

lemma chain_only_snext: "chain_only st (upd_bi b (\<lambda>x. x\<lparr>snext := v\<rparr>) st)"
  by (auto simp: chain_only_def same_setup_def)

lemma chain_only_bitmap: "chain_only st (set_bitmap d g on st)"
  by (auto simp: chain_only_def same_setup_def set_bitmap_def set_range_def)

lemma chain_only_trans: "chain_only st st1 \<Longrightarrow> chain_only st1 st2 \<Longrightarrow> chain_only st st2"
  by (auto simp: chain_only_def same_setup_def)

lemma chain_only_place: "chain_only st st' \<Longrightarrow> block_place st' = block_place st \<and> used st' = used st"
  by (auto simp: chain_only_def block_place_def used_def fun_eq_iff)

lemma set_bitmap_bit:
  "bitmap_bit (cdi (set_bitmap d g on st) d') g' = (if d' = d \<and> g' = g then on else bitmap_bit (cdi st d') g')"
  by (auto simp: set_bitmap_def set_range_def bitmap_bit_def)

lemma set_bitmap_bi [simp]: "bi (set_bitmap d g on st) = bi st"
  by (simp add: set_bitmap_def)

lemma chainsD: "chains f a pl bm \<Longrightarrow> \<exists>c. cyc f c \<and> set c = group_at a pl d g \<and> (c \<noteq> [] \<longrightarrow> bm d g)"
  unfolding chains_def by blast

text \<open>Changing one group, the links inside it and its bit, leaves the other chains alone.\<close>

lemma chains_update:
  assumes "chains f a pl bm"
    and "cyc f' c" "set c = group_at a pl' d g" "c \<noteq> [] \<longrightarrow> bm' d g"
    and other: "\<And>d' g'. (d', g') \<noteq> (d, g) \<Longrightarrow>
      group_at a pl' d' g' = group_at a pl d' g' \<and> bm' d' g' = bm d' g' \<and> (\<forall>b \<in> group_at a pl d' g'. f' b = f b)"
  shows "chains f' a pl' bm'"
  unfolding chains_def
proof (intro allI)
  fix d' g'
  show "\<exists>c. cyc f' c \<and> set c = group_at a pl' d' g' \<and> (c \<noteq> [] \<longrightarrow> bm' d' g')"
  proof (cases "(d', g') = (d, g)")
    case True
    then show ?thesis using assms(2-4) by blast
  next
    case False
    obtain e where e: "cyc f e" "set e = group_at a pl d' g'" "e \<noteq> [] \<longrightarrow> bm d' g'"
      using chainsD [OF assms(1)] by blast
    have "cyc f' e" using e other [OF False] by (intro cyc_cong [OF e(1)]) auto
    then show ?thesis using e other [OF False] by auto
  qed
qed

lemma chain_of_group:
  assumes "chains f a pl bm" "i \<in> group_at a pl d g"
  obtains t where "cyc f (i # t)" "set (i # t) = group_at a pl d g" "bm d g" "f i = 0 \<longleftrightarrow> t = [] \<or> 0 \<in> set (i # t) \<and> f i = 0"
proof -
  obtain c where c: "cyc f c" "set c = group_at a pl d g" "c \<noteq> [] \<longrightarrow> bm d g" using chainsD [OF assms(1)] by blast
  have i: "i \<in> set c" using c(2) assms(2) by simp
  obtain t where t: "cyc f (i # t)" "set (i # t) = set c" using cyc_from [OF c(1) i] by metis
  have "f i = 0 \<longleftrightarrow> t = []" if "0 \<notin> set (i # t)" using cyc_snext_ne_0 [OF t(1) that, of i] by simp
  moreover have "f i = 0" if "t = []" using t(1) that by (simp add: cyc_def)
  ultimately show thesis using that [of t] t c i by (metis empty_iff list.set(1))
qed

lemma chain_remove_ok:
  assumes ch: "chains (sn st) (a_shift st) (block_place st) (\<lambda>d. bitmap_bit (cdi st d))"
    and pl: "block_place st i = Some (d, l)" and z: "block_place st 0 = None"
  shows "\<exists>st'. chain_remove i st = Some st' \<and> chain_only st st' \<and>
    chains (sn st') (a_shift st) ((block_place st)(i := None)) (\<lambda>d. bitmap_bit (cdi st' d))"
proof -
  let ?g = "drop_bit (a_shift st) l" and ?pl' = "(block_place st)(i := None)" and ?G = "group_at (a_shift st)"
  have ig: "i \<in> ?G (block_place st) d ?g" using pl by (auto simp: group_at_def)
  obtain t where t: "cyc (sn st) (i # t)" "set (i # t) = ?G (block_place st) d ?g" "bitmap_bit (cdi st d) ?g"
    "sn st i = 0 \<longleftrightarrow> t = [] \<or> 0 \<in> set (i # t) \<and> sn st i = 0"
    using chain_of_group [OF ch ig] by blast
  have "0 \<notin> set (i # t)" unfolding t(2) using z by (auto simp: group_at_def)
  then have s0: "sn st i = 0 \<longleftrightarrow> t = []" using t(4) by blast
  have it: "i \<notin> set t" using t(1) by (simp add: cyc_def)
  have set_t: "set t = ?G ?pl' d ?g" using t(2) it by (auto simp: group_at_def)
  have rest: "?G ?pl' d' g' = ?G (block_place st) d' g'" if "(d', g') \<noteq> (d, ?g)" for d' g'
    using that pl by (auto simp: group_at_def)
  have apart: "b \<notin> ?G (block_place st) d' g'" if "(d', g') \<noteq> (d, ?g)" "b \<in> set (i # t)" for b d' g'
    using that(1) that(2) [unfolded t(2)] by (auto simp: group_at_def)
  have pd: "pdi (bi st i) = Some d" "loc (bi st i) = l" using pl by (auto simp: block_place_def)
  show ?thesis
  proof (cases "t = []")
    case True
    let ?st' = "set_bitmap d ?g False st"
    have e: "chain_remove i st = Some ?st'" using True s0 pd by (simp add: chain_remove_def)
    have "chains (sn ?st') (a_shift st) ?pl' (\<lambda>d. bitmap_bit (cdi ?st' d))"
      by (rule chains_update [OF ch, of _ "[]" _ d ?g]) (use rest True set_t in \<open>auto simp: set_bitmap_bit cyc_def\<close>)
    then show ?thesis using e chain_only_bitmap by blast
  next
    case False
    have "chain_pred st i i = Some (last (i # t))"
      using chain_pred_walk [of st "[]" i t i t] t(1) False by simp
    then have cp: "chain_pred st i i = Some (last t)" using False by simp
    let ?st' = "upd_bi (last t) (\<lambda>b. b\<lparr>snext := (if snext (bi st i) = last t then 0 else snext (bi st i))\<rparr>) st"
    have e: "chain_remove i st = Some ?st'" using False s0 cp by (simp add: chain_remove_def)
    have f: "sn ?st' = (sn st)(last t := (if sn st i = last t then 0 else sn st i))" by (auto simp: fun_eq_iff)
    have "cyc (sn ?st') t" unfolding f using cyc_remove [OF t(1) False] .
    moreover have "\<forall>b \<in> ?G (block_place st) d' g'. sn ?st' b = sn st b" if "(d', g') \<noteq> (d, ?g)" for d' g'
      using apart [OF that, of "last t"] False by (auto simp: f)
    ultimately have "chains (sn ?st') (a_shift st) ?pl' (\<lambda>d. bitmap_bit (cdi ?st' d))"
      using rest False set_t t(3) by (intro chains_update [OF ch, of _ t _ d ?g]) auto
    then show ?thesis using e chain_only_snext by blast
  qed
qed


section \<open>The ring\<close>

lemma relink_links:
  "nx (relink_ring i st) = (nx st)(pv st i := nx st i)"
  "pv (relink_ring i st) = (pv st)(nx st i := pv st i)"
  "cachehead (relink_ring i st) = (if i = cachehead st then (if i = nx st i then 0 else nx st i) else cachehead st)"
proof -
  define st1 where "st1 = upd_bi (b_prev (bi st i)) (\<lambda>b. b\<lparr>b_next := b_next (bi st i)\<rparr>) st"
  define st2 where "st2 = upd_bi (b_next (bi st1 i)) (\<lambda>b. b\<lparr>b_prev := b_prev (bi st1 i)\<rparr>) st1"
  have e: "relink_ring i st =
    (if i = cachehead st2 then (let h = b_next (bi st2 i) in st2\<lparr>cachehead := (if i = h then 0 else h)\<rparr>) else st2)"
    unfolding relink_ring_def Let_def st2_def st1_def by (rule refl)
  have 1: "nx st1 = (nx st)(pv st i := nx st i)" "pv st1 = pv st" "cachehead st1 = cachehead st"
    by (auto simp: st1_def fun_eq_iff)
  have n: "b_next (bi st1 i) = nx st i" by (simp add: st1_def)
  have "b_prev (bi st1 i) = pv st i" by (simp add: st1_def)
  then have 2: "nx st2 = (nx st)(pv st i := nx st i)" "pv st2 = (pv st)(nx st i := pv st i)" "cachehead st2 = cachehead st"
    using 1 n by (auto simp: st2_def fun_eq_iff)
  have "b_next (bi st2 i) = nx st i" using fun_cong [OF 2(1), of i] by auto
  then show "nx (relink_ring i st) = (nx st)(pv st i := nx st i)"
    "pv (relink_ring i st) = (pv st)(nx st i := pv st i)"
    "cachehead (relink_ring i st) = (if i = cachehead st then (if i = nx st i then 0 else nx st i) else cachehead st)"
    unfolding e Let_def using 2 by auto
qed

definition body_only :: "'a cache_state \<Rightarrow> 'a cache_state \<Rightarrow> bool" where
  "body_only st st' \<longleftrightarrow>
    (\<forall>b. pdi (bi st' b) = pdi (bi st b) \<and> loc (bi st' b) = loc (bi st b) \<and> snext (bi st' b) = snext (bi st b) \<and>
       bi_prio (bi st' b) = bi_prio (bi st b)) \<and>
    cidxa st' = cidxa st \<and> cdi st' = cdi st \<and> same_setup st st' \<and> cdata st' = cdata st \<and>
    freehead st' = freehead st \<and> free_total st' = free_total st"

lemma body_only_steps:
  "body_only st (upd_bi x (\<lambda>b. b\<lparr>b_prev := v\<rparr>) st)" "body_only st (upd_bi x (\<lambda>b. b\<lparr>b_next := v\<rparr>) st)"
  "body_only st (upd_bi x (\<lambda>b. b\<lparr>b_next := n, b_prev := v\<rparr>) st)"
  "body_only st (st\<lparr>cachehead := h\<rparr>)" "body_only st st"
  by (auto simp: body_only_def same_setup_def)

lemma body_only_trans: "body_only st st1 \<Longrightarrow> body_only st1 st2 \<Longrightarrow> body_only st st2"
  by (simp add: body_only_def same_setup_def)

lemma body_only_place: "body_only st st' \<Longrightarrow> block_place st' = block_place st \<and> used st' = used st \<and> sn st' = sn st"
  by (auto simp: body_only_def block_place_def used_def fun_eq_iff)

lemma relink_body: "body_only st (relink_ring i st)"
proof -
  define st1 where "st1 = upd_bi (b_prev (bi st i)) (\<lambda>b. b\<lparr>b_next := b_next (bi st i)\<rparr>) st"
  define st2 where "st2 = upd_bi (b_next (bi st1 i)) (\<lambda>b. b\<lparr>b_prev := b_prev (bi st1 i)\<rparr>) st1"
  have e: "relink_ring i st =
    (if i = cachehead st2 then (let h = b_next (bi st2 i) in st2\<lparr>cachehead := (if i = h then 0 else h)\<rparr>) else st2)"
    unfolding relink_ring_def Let_def st2_def st1_def by (rule refl)
  have "body_only st st2"
    unfolding st2_def by (rule body_only_trans [OF _ body_only_steps(1)]) (simp only: st1_def body_only_steps)
  then show ?thesis
    unfolding e Let_def using body_only_trans [OF _ body_only_steps(4) [of st2]] by simp
qed

text \<open>What is left of the ring without \<open>i\<close>.\<close>

lemma ring_without:
  assumes ring: "ring st r" and i: "used st i"
  shows "\<exists>r'. cycle ((nx st)(pv st i := nx st i)) ((pv st)(nx st i := pv st i)) r' \<and> set r' = {b. used st b} - {i} \<and>
    (if i = cachehead st then (if i = nx st i then 0 else nx st i) else cachehead st) = (case r' of [] \<Rightarrow> 0 | b # _ \<Rightarrow> b)"
proof -
  have i_r: "i \<in> set r" using assms by (auto simp: ring_def)
  then obtain h w where r: "r = h # w" by (cases r) auto
  have cyc: "cycle (nx st) (pv st) (h # w)" "set (h # w) = {b. used st b}" "cachehead st = h"
    using ring r by (auto simp: ring_def)
  obtain u v where uv: "h # w = u @ i # v" using i_r r by (metis split_list)
  have c1: "cycle (nx st) (pv st) (i # v @ u)" using cycle_rotate [of _ _ u "i # v"] cyc(1) uv by simp
  have in_vu: "set (v @ u) = {b. used st b} - {i}" using cyc(2) c1 uv unfolding cycle_def by auto
  show ?thesis
  proof (cases "v @ u")
    case Nil
    then have "nx st i = i" "i = h" using cycle_ends(3) [OF c1] uv by auto
    then show ?thesis using in_vu Nil cyc(3) by (intro exI [of _ "[]"]) auto
  next
    case (Cons y z)
    have n: "nx st i = y" "pv st i = last (y # z)" using cycle_ends(1,3) [OF c1] Cons by auto
    have c2: "cycle ((nx st)(pv st i := nx st i)) ((pv st)(nx st i := pv st i)) (v @ u)"
      unfolding n unfolding Cons by (rule cycle_remove) (use c1 Cons in simp)
    show ?thesis
    proof (cases "i = h")
      case True
      then have "u = []" using c1 uv by (cases u) (auto simp: cycle_def)
      moreover have "y \<noteq> i" using in_vu Cons by auto
      ultimately show ?thesis using c2 in_vu True cyc(3) n Cons by (intro exI [of _ "v @ u"]) auto
    next
      case False
      then obtain u' where u: "u = h # u'" using uv by (cases u) auto
      have "cycle ((nx st)(pv st i := nx st i)) ((pv st)(nx st i := pv st i)) (u @ v)" using cycle_rotate [OF c2] .
      then show ?thesis using in_vu False cyc(3) u by (intro exI [of _ "u @ v"]) auto
    qed
  qed
qed


section \<open>Freeing one block\<close>

definition drop_place :: "nat set \<Rightarrow> 'a cache_state \<Rightarrow> nat \<Rightarrow> (nat \<times> nat) option" where
  "drop_place S st = (\<lambda>b. if b \<in> S then None else block_place st b)"

text \<open>The state after the blocks of \<open>S\<close> were freed, and no others.\<close>

definition dropped :: "nat set \<Rightarrow> 'a cache_state \<Rightarrow> 'a cache_state \<Rightarrow> bool" where
  "dropped S st st' \<longleftrightarrow> cache_inv st' \<and> same_setup st st' \<and> block_place st' = drop_place S st \<and> cdata st' = cdata st \<and>
    (\<forall>b. bi_prio (bi st' b) \<longrightarrow> bi_prio (bi st b)) \<and> free_total st \<le> free_total st'"

lemma dropped_refl: "cache_inv st \<Longrightarrow> dropped {} st st"
  by (simp add: dropped_def drop_place_def)

lemma dropped_trans: "dropped S st st1 \<Longrightarrow> dropped T st1 st2 \<Longrightarrow> dropped (S \<union> T) st st2"
  using same_setup_trans [of st st1 st2] by (auto simp: dropped_def drop_place_def fun_eq_iff)

lemma dropped_data: "dropped S st st' \<Longrightarrow> data_ok m X st \<Longrightarrow> data_ok m X st'"
  by (rule data_ok_less) (auto simp: dropped_def drop_place_def split: if_splits)

lemma cache_inv_views:
  "cache_inv st \<longleftrightarrow> (\<exists>r. ring st r) \<and> (\<exists>fl. free_queue st fl) \<and> index_ok st \<and> places_ok st \<and>
    chains (sn st) (a_shift st) (block_place st) (\<lambda>d. bitmap_bit (cdi st d)) \<and> geometry st"
  by (simp add: cache_inv_def chains_of)

lemma places_ok_less:
  assumes "places_ok st" "same_setup st st'" "\<And>b. block_place st' b = None \<or> block_place st' b = block_place st b"
  shows "places_ok st'"
proof -
  have sub: "block_place st b = Some p" if "block_place st' b = Some p" for b p using assms(3) [of b] that by auto
  have e: "disks st' = disks st" "\<And>d. s32shift (cdi st' d) = s32shift (cdi st d) \<and> sectors (cdi st' d) = sectors (cdi st d)"
    using assms(2) by (auto simp: same_setup_def disks_def)
  have one: "d < disks st \<and> push_bit (s32shift (cdi st d)) l < sectors (cdi st d)" if "block_place st b = Some (d, l)" for b d l
    using assms(1) that unfolding places_ok_def by blast
  have two: "b = b'" if "block_place st b \<noteq> None" "block_place st b = block_place st b'" for b b'
    using assms(1) that unfolding places_ok_def by blast
  show ?thesis unfolding places_ok_def
  proof (intro conjI allI impI)
    fix b d l assume "block_place st' b = Some (d, l)"
    then show "d < disks st'" "push_bit (s32shift (cdi st' d)) l < sectors (cdi st' d)" using sub one e by metis+
  next
    fix b b' assume a: "block_place st' b \<noteq> None \<and> block_place st' b = block_place st' b'"
    then obtain p where p: "block_place st' b = Some p" by (metis not_None_eq)
    then have "block_place st b = Some p" "block_place st b' = Some p" using sub a by metis+
    then show "b = b'" using two by simp
  qed
qed

definition base_inv :: "'a cache_state \<Rightarrow> bool" where
  "base_inv st \<longleftrightarrow> (\<exists>r. ring st r) \<and> (\<exists>fl. free_queue st fl) \<and> index_ok st \<and> places_ok st \<and> geometry st"

lemma cache_inv_base:
  "cache_inv st \<longleftrightarrow> base_inv st \<and> chains (sn st) (a_shift st) (block_place st) (\<lambda>d. bitmap_bit (cdi st d))"
  by (auto simp: cache_inv_views base_inv_def)

lemma base_used: "base_inv st \<Longrightarrow> used st b \<Longrightarrow> 0 < b \<and> b < blocks_total st"
  by (auto simp: base_inv_def index_ok_def)

definition taken_out :: "nat \<Rightarrow> 'a cache_state \<Rightarrow> 'a cache_state" where
  "taken_out i st = relink_ring i (st\<lparr>cidxa := (cidxa st)(i := FFFF_key)\<rparr>)"

definition push_free :: "nat \<Rightarrow> 'a cache_state \<Rightarrow> 'a cache_state" where
  "push_free i st = (upd_bi i (\<lambda>b. b\<lparr>b_next := freehead st, pdi := None\<rparr>) st)\<lparr>freehead := i, free_total := free_total st + 1\<rparr>"

lemma unlinked_views:
  "block_place (taken_out i st) = block_place st" "used (taken_out i st) = used st" "sn (taken_out i st) = sn st" "cdi (taken_out i st) = cdi st"
  "a_shift (taken_out i st) = a_shift st" "cidxa (taken_out i st) = (cidxa st)(i := FFFF_key)" "cdata (taken_out i st) = cdata st"
  "same_setup st (taken_out i st)" "freehead (taken_out i st) = freehead st" "free_total (taken_out i st) = free_total st"
  "bi_prio (bi (taken_out i st) b) = bi_prio (bi st b)"
proof -
  define st0 where "st0 = st\<lparr>cidxa := (cidxa st)(i := FFFF_key)\<rparr>"
  have v0: "sn st0 = sn st" "block_place st0 = block_place st" "used st0 = used st" by (auto simp: st0_def block_place_def used_def fun_eq_iff)
  have b1: "body_only st0 (taken_out i st)" unfolding taken_out_def st0_def by (rule relink_body)
  show "block_place (taken_out i st) = block_place st" "used (taken_out i st) = used st" "sn (taken_out i st) = sn st"
    using body_only_place [OF b1] v0 by auto
  show "cdi (taken_out i st) = cdi st" "a_shift (taken_out i st) = a_shift st" "cidxa (taken_out i st) = (cidxa st)(i := FFFF_key)"
    "cdata (taken_out i st) = cdata st" "same_setup st (taken_out i st)" "freehead (taken_out i st) = freehead st"
    "free_total (taken_out i st) = free_total st" "bi_prio (bi (taken_out i st) b) = bi_prio (bi st b)"
    using b1 by (auto simp: body_only_def st0_def same_setup_def)
qed

lemma push_free_views:
  "nx (push_free i st) = (nx st)(i := freehead st)" "pv (push_free i st) = pv st" "sn (push_free i st) = sn st"
  "block_place (push_free i st) = (block_place st)(i := None)" "used (push_free i st) b \<longleftrightarrow> used st b \<and> b \<noteq> i"
  "cdi (push_free i st) = cdi st" "same_setup st (push_free i st)"
  by (auto simp: push_free_def block_place_def used_def same_setup_def fun_eq_iff)

lemma unlinked_ring:
  assumes "ring st r" "used st i"
  shows "\<exists>r'. cycle (nx (taken_out i st)) (pv (taken_out i st)) r' \<and> set r' = {b. used st b} - {i} \<and>
      cachehead (taken_out i st) = (case r' of [] \<Rightarrow> 0 | b # _ \<Rightarrow> b)"
    and "nx (taken_out i st) = (nx st)(pv st i := nx st i)"
proof -
  define st0 where "st0 = st\<lparr>cidxa := (cidxa st)(i := FFFF_key)\<rparr>"
  have v0: "bi st0 = bi st" "cachehead st0 = cachehead st" by (auto simp: st0_def)
  note c = relink_links [of i st0, unfolded v0, folded taken_out_def st0_def, unfolded st0_def, folded taken_out_def]
  show "\<exists>r'. cycle (nx (taken_out i st)) (pv (taken_out i st)) r' \<and> set r' = {b. used st b} - {i} \<and>
      cachehead (taken_out i st) = (case r' of [] \<Rightarrow> 0 | b # _ \<Rightarrow> b)"
    using ring_without [OF assms] unfolding c by blast
  show "nx (taken_out i st) = (nx st)(pv st i := nx st i)" by (rule c)
qed

text \<open>Taking a block out, whatever is done to the chains meanwhile.\<close>

lemma free_entry_base:
  assumes inv: "base_inv st" and i: "used st i" and st2: "chain_only (taken_out i st) st2"
  defines "st' \<equiv> push_free i st2"
  shows "base_inv st'" "same_setup st st'" "block_place st' = (block_place st)(i := None)" "cdata st' = cdata st"
    "free_total st' = Suc (free_total st)" "sn st' = sn st2" "cdi st' = cdi st2" "a_shift st' = a_shift st"
    "bi_prio (bi st' b) = bi_prio (bi st b)"
proof -
  note v1 = unlinked_views [where i = i and st = st]
  have c2: "nx st2 = nx (taken_out i st)" "pv st2 = pv (taken_out i st)" "cachehead st2 = cachehead (taken_out i st)"
    "cidxa st2 = (cidxa st)(i := FFFF_key)" "freehead st2 = freehead st" "free_total st2 = free_total st" "cdata st2 = cdata st"
    "\<And>b. bi_prio (bi st2 b) = bi_prio (bi st b)"
    using st2 v1 by (auto simp: chain_only_def)
  have v2: "block_place st2 = block_place st" "used st2 = used st" using chain_only_place [OF st2] v1 by auto
  note w = push_free_views [where i = i and st = st2, folded st'_def, unfolded v2]
  have x: "cachehead st' = cachehead st2" "cidxa st' = cidxa st2" "freehead st' = i" by (simp_all add: st'_def push_free_def)
  show frame: "same_setup st st'"
    using same_setup_trans [OF same_setup_trans [OF v1(8)] w(7)] st2 by (simp add: chain_only_def)
  then show a: "a_shift st' = a_shift st" by (simp add: same_setup_def)
  show "block_place st' = (block_place st)(i := None)" by (rule w)
  show "cdata st' = cdata st" "sn st' = sn st2" "cdi st' = cdi st2" using c2(7) by (auto simp: st'_def push_free_def)
  show ft: "free_total st' = Suc (free_total st)" using c2(6) by (simp add: st'_def push_free_def)
  show "bi_prio (bi st' b) = bi_prio (bi st b)" using c2(8) by (simp add: st'_def push_free_def)
  note range = base_used [OF inv i]
  note ic = inv [unfolded base_inv_def]
  obtain r where r: "ring st r" using ic by blast
  have "\<exists>r. ring st' r"
  proof -
    obtain r' where r': "cycle (nx st2) (pv st2) r'" "set r' = {b. used st b} - {i}"
      "cachehead st2 = (case r' of [] \<Rightarrow> 0 | b # _ \<Rightarrow> b)"
      using unlinked_ring(1) [OF r i] unfolding c2 by blast
    have n: "nx st2 b = nx st' b" if "b \<in> set r'" for b using that r'(2) fun_cong [OF w(1), of b] by auto
    have "cycle (nx st') (pv st') r'" unfolding w(2) by (rule cycle_cong [OF r'(1) n refl])
    moreover have "set r' = {b. used st' b}" unfolding r'(2) w(5) by blast
    ultimately have "ring st' r'" unfolding ring_def x(1) using r'(3) by blast
    then show ?thesis ..
  qed
  moreover have "\<exists>fl. free_queue st' fl"
  proof -
    obtain fl where fl: "free_queue st fl" using ic by blast
    have f: "i \<notin> set fl" "pv st i \<notin> set fl" using fl i ring_neighbours(2) [OF r i] by (auto simp: free_queue_def)
    then have "free_seg (nx st') q fl = free_seg (nx st) q fl" for q
      using w(1) [unfolded c2 unlinked_ring(2) [OF r i], THEN fun_cong] by (intro free_seg_cong) auto
    then have "free_seg (nx st') i (i # fl)"
      using fl range fun_cong [OF w(1), of i] c2(5) by (simp add: free_queue_def)
    moreover have "blocks_total st' = blocks_total st" using frame by (simp add: same_setup_def)
    ultimately have "free_queue st' (i # fl)" using fl f range by (auto simp: free_queue_def x ft w(5))
    then show ?thesis ..
  qed
  moreover have "index_ok st'"
  proof -
    have k: "idx_key st' = idx_key st" "blocks_total st' = blocks_total st"
      using same_setup_eqs(3) [OF frame] frame by (auto simp: same_setup_def)
    have "index_ok st" using ic by blast
    then show ?thesis unfolding index_ok_def w(4) x(2) a k c2(4) by (simp add: w(5))
  qed
  moreover have "places_ok st'" by (rule places_ok_less [OF _ frame]) (use ic w(4) in auto)
  moreover have "geometry st'" using ic same_setup_eqs(2) [OF frame] by simp
  ultimately show "base_inv st'" unfolding base_inv_def by blast
qed

lemma free_bi_entry_used:
  "used st i \<Longrightarrow> free_bi_entry i ign st =
    map_option (push_free i) (if ign then Some (taken_out i st) else chain_remove i (taken_out i st))"
  by (cases ign) (auto simp: free_bi_entry_def used_def Let_def push_free_def taken_out_def split: option.split)

lemma free_entry_ok:
  assumes inv: "cache_inv st" and i: "used st i"
  shows "\<exists>st'. free_bi_entry i False st = Some st' \<and> dropped {i} st st' \<and> free_total st' = Suc (free_total st)"
proof -
  obtain d l where pl: "block_place st i = Some (d, l)" using i by (auto simp: used_def block_place_def)
  note v1 = unlinked_views [where i = i and st = st]
  have base: "base_inv st" and ch: "chains (sn st) (a_shift st) (block_place st) (\<lambda>d. bitmap_bit (cdi st d))"
    using inv by (auto simp: cache_inv_base)
  obtain st2 where st2: "chain_remove i (taken_out i st) = Some st2" "chain_only (taken_out i st) st2"
    "chains (sn st2) (a_shift st) ((block_place st)(i := None)) (\<lambda>d. bitmap_bit (cdi st2 d))"
    using chain_remove_ok [of "taken_out i st" i d l] ch pl inv_zero [OF inv] unfolding v1 by auto
  note b = free_entry_base [OF base i st2(2)]
  have "cache_inv (push_free i st2)" using b(1) st2(3) unfolding cache_inv_base b(3,6-8) by blast
  moreover have "block_place (push_free i st2) = drop_place {i} st" by (auto simp: b(3) drop_place_def)
  ultimately have "dropped {i} st (push_free i st2)" using b(2,4,5,9) by (simp add: dropped_def)
  then show ?thesis using free_bi_entry_used [OF i, of False] st2(1) b(5) by simp
qed

section \<open>Making room\<close>

lemma used_place: "used st b \<longleftrightarrow> block_place st b \<noteq> None"
  by (simp add: used_def block_place_def)

lemma dropped_used: "dropped S st st' \<Longrightarrow> used st' b \<longleftrightarrow> used st b \<and> b \<notin> S"
  by (simp add: dropped_def used_place drop_place_def)

lemma used_obtain:
  assumes "used st b"
  obtains d l where "block_place st b = Some (d, l)"
  using assms by (auto simp: used_def block_place_def)

lemma used_finite:
  assumes "cache_inv st"
  shows "finite {b. used st b}"
proof (rule finite_subset)
  show "{b. used st b} \<subseteq> {..<blocks_total st}"
  proof
    fix b assume "b \<in> {b. used st b}"
    then obtain d l where "block_place st b = Some (d, l)" using used_obtain by blast
    then show "b \<in> {..<blocks_total st}" using inv_place(2) [OF assms] by simp
  qed
qed simp

lemma some_used:
  assumes inv: "cache_inv st" and lt: "free_total st < blocks_total st - 1"
  obtains b where "used st b"
proof -
  obtain fl where fl: "free_queue st fl" using inv by (auto simp: cache_inv_def)
  have "\<exists>b. used st b"
  proof (rule ccontr)
    assume "\<not> ?thesis"
    then have "set fl = {1..<blocks_total st}" using fl by (auto simp: free_queue_def)
    then have "card (set fl) = blocks_total st - 1" by simp
    moreover have "card (set fl) = free_total st" using fl distinct_card [of fl] unfolding free_queue_def by metis
    ultimately show False using lt by simp
  qed
  then show thesis using that by blast
qed

definition skip_head :: "'a cache_state \<Rightarrow> 'a cache_state" where
  "skip_head st = (upd_bi (cachehead st) (\<lambda>b. b\<lparr>bi_prio := False\<rparr>) st)\<lparr>cachehead := b_next (bi st (cachehead st))\<rparr>"

lemma skip_head_ok:
  assumes inv: "cache_inv st" and h: "used st (cachehead st)"
  shows "dropped {} st (skip_head st)" "free_total (skip_head st) = free_total st"
proof -
  obtain r where r: "ring st r" using inv by (auto simp: cache_inv_def)
  then obtain w where w: "r = cachehead st # w" using h by (cases r) (auto simp: ring_def)
  have s: "same_body st (skip_head st)" "same_free st (skip_head st)"
    by (auto simp: same_body_def same_free_def skip_head_def)
  have l: "nx (skip_head st) = nx st" "pv (skip_head st) = pv st" by (auto simp: skip_head_def fun_eq_iff)
  have c: "cycle (nx st) (pv st) (cachehead st # w)" using r w by (simp add: ring_def)
  have "cachehead (skip_head st) = hd (w @ [cachehead st])" using cycle_ends(3) [OF c] by (simp add: skip_head_def)
  then have "cachehead (skip_head st) = (case w @ [cachehead st] of [] \<Rightarrow> 0 | b # _ \<Rightarrow> b)" by (cases w) auto
  moreover have "set (w @ [cachehead st]) = {b. used st b}" using r w by (auto simp: ring_def)
  ultimately have "ring (skip_head st) (w @ [cachehead st])"
    unfolding ring_def l same_body_place(2) [OF s(1)] using cycle_rotate1 [OF c] by blast
  then have "cache_inv (skip_head st)" by (rule same_inv [OF inv s])
  then show "dropped {} st (skip_head st)" "free_total (skip_head st) = free_total st"
    using same_body_place(1) [OF s(1)] by (auto simp: dropped_def drop_place_def skip_head_def same_setup_def)
qed

lemma free_until_unfold:
  "free_until cnt st =
    (if free_total st < cnt
     then if bi_prio (bi st (cachehead st)) then free_until cnt (skip_head st)
          else Option.bind (free_bi_entry (cachehead st) False st) (free_until cnt)
     else Some st)"
  unfolding skip_head_def by (rule free_until.simps)

lemma free_until_ok:
  assumes "cache_inv st" "cnt < blocks_total st"
  shows "\<exists>st' S. free_until cnt st = Some st' \<and> dropped S st st' \<and> cnt \<le> free_total st'"
  using assms
proof (induction "card {b. used st b} + card {b. used st b \<and> bi_prio (bi st b)}" arbitrary: st rule: less_induct)
  case less
  note inv = less.prems(1)
  let ?h = "cachehead st"
  show ?case
  proof (cases "free_total st < cnt")
    case False
    then show ?thesis using dropped_refl [OF inv] by (subst free_until_unfold) auto
  next
    case True
    obtain r where r: "ring st r" using inv by (auto simp: cache_inv_def)
    have "free_total st < blocks_total st - 1" using True less.prems(2) by simp
    from some_used [OF inv this] have h: "used st ?h" using ring_head [OF r] by blast
    have fin: "finite {b. used st b}" using used_finite [OF inv] .
    show ?thesis
    proof (cases "bi_prio (bi st ?h)")
      case prio: True
      note s = skip_head_ok [OF inv h]
      have u: "used (skip_head st) b \<longleftrightarrow> used st b" for b using dropped_used [OF s(1)] by simp
      have "{b. used (skip_head st) b \<and> bi_prio (bi (skip_head st) b)} = {b. used st b \<and> bi_prio (bi st b)} - {?h}"
        unfolding u by (auto simp: skip_head_def)
      moreover have "?h \<in> {b. used st b \<and> bi_prio (bi st b)}" using h prio by simp
      moreover have "finite {b. used st b \<and> bi_prio (bi st b)}" using fin by simp
      ultimately have "card {b. used (skip_head st) b \<and> bi_prio (bi (skip_head st) b)} < card {b. used st b \<and> bi_prio (bi st b)}"
        using card_Diff1_less by metis
      then have lt: "card {b. used (skip_head st) b} + card {b. used (skip_head st) b \<and> bi_prio (bi (skip_head st) b)}
        < card {b. used st b} + card {b. used st b \<and> bi_prio (bi st b)}" unfolding u by simp
      have "cache_inv (skip_head st)" "cnt < blocks_total (skip_head st)"
        using s(1) less.prems(2) by (simp_all add: dropped_def same_setup_def)
      from less.hyps [OF lt this]
      obtain st' S where "free_until cnt (skip_head st) = Some st'" "dropped S (skip_head st) st'" "cnt \<le> free_total st'"
        by blast
      then show ?thesis using True prio dropped_trans [OF s(1)] by (subst free_until_unfold) auto
    next
      case False
      obtain st1 where st1: "free_bi_entry ?h False st = Some st1" "dropped {?h} st st1"
        using free_entry_ok [OF inv h] by blast
      have "{b. used st1 b} = {b. used st b} - {?h}" using dropped_used [OF st1(2)] by auto
      then have c1: "card {b. used st1 b} < card {b. used st b}" using fin h by (metis card_Diff1_less mem_Collect_eq)
      have sub: "{b. used st1 b \<and> bi_prio (bi st1 b)} \<subseteq> {b. used st b \<and> bi_prio (bi st b)}"
        using dropped_used [OF st1(2)] st1(2) by (auto simp: dropped_def)
      have "finite {b. used st b \<and> bi_prio (bi st b)}" using fin by simp
      from card_mono [OF this sub] c1
      have lt: "card {b. used st1 b} + card {b. used st1 b \<and> bi_prio (bi st1 b)}
        < card {b. used st b} + card {b. used st b \<and> bi_prio (bi st b)}" by linarith
      have "cache_inv st1" "cnt < blocks_total st1"
        using st1(2) less.prems(2) by (simp_all add: dropped_def same_setup_def)
      from less.hyps [OF lt this]
      obtain st' S where "free_until cnt st1 = Some st'" "dropped S st1 st'" "cnt \<le> free_total st'" by blast
      then show ?thesis using True False st1 dropped_trans [OF st1(2)] by (subst free_until_unfold) auto
    qed
  qed
qed

lemma expand_free_ok:
  assumes inv: "cache_inv st" and "cnt \<le> blocks_total st div 2" "1 \<le> cnt"
  shows "\<exists>st' S. expand_free cnt st = Some st' \<and> dropped S st st' \<and> cnt \<le> free_total st' \<and> (cnt \<le> free_total st \<longrightarrow> st' = st)"
proof (cases "free_total st < cnt")
  case True
  have lt: "cnt < blocks_total st" using assms(2,3) by linarith
  have "free_total st < blocks_total st - 1" using True lt by simp
  from some_used [OF inv this] obtain b where b: "used st b" .
  obtain r where r: "ring st r" using inv by (auto simp: cache_inv_def)
  obtain d l where "block_place st (cachehead st) = Some (d, l)" using ring_head [OF r b] by (auto simp: used_place)
  then have "cachehead st \<noteq> 0" using inv_place(1) [OF inv] by fastforce
  moreover have "free_total st < blocks_total st" using lt True by simp
  ultimately show ?thesis using free_until_ok [OF inv lt] True assms(2) by (auto simp: expand_free_def)
next
  case False
  then show ?thesis using dropped_refl [OF inv] assms by (auto simp: expand_free_def)
qed

end
