(* ===== verification/CacheAdd.thy ===== *)
theory CacheAdd
  imports CacheFree
begin

text \<open>A new block for a place that is not cached yet: taken from the free list, put at the end of the ring, into
  the index and into the chain of its group.\<close>

lemma ring_insert_links:
  "nx (ring_insert b st) =
    (if cachehead st = 0 then (nx st)(b := b) else (nx st)(b := cachehead st, pv st (cachehead st) := b))"
  "pv (ring_insert b st) =
    (if cachehead st = 0 then (pv st)(b := b) else (pv st)(b := pv st (cachehead st), cachehead st := b))"
  "cachehead (ring_insert b st) = (if cachehead st = 0 then b else cachehead st)"
proof -
  show "cachehead (ring_insert b st) = (if cachehead st = 0 then b else cachehead st)"
    by (simp add: ring_insert_def Let_def)
  show "pv (ring_insert b st) =
    (if cachehead st = 0 then (pv st)(b := b) else (pv st)(b := pv st (cachehead st), cachehead st := b))"
    by (auto simp: ring_insert_def Let_def fun_eq_iff)
  show "nx (ring_insert b st) =
    (if cachehead st = 0 then (nx st)(b := b) else (nx st)(b := cachehead st, pv st (cachehead st) := b))"
    by (auto simp: ring_insert_def Let_def fun_eq_iff)
qed

lemma ring_insert_body: "body_only st (ring_insert b st)"
  by (simp add: ring_insert_def Let_def body_only_def same_setup_def)

lemma ring_with:
  assumes ring: "ring st r" and b: "\<not> used st b" and z: "\<not> used st 0"
  shows "\<exists>r'. cycle (nx (ring_insert b st)) (pv (ring_insert b st)) r' \<and> set r' = insert b {x. used st x} \<and>
    cachehead (ring_insert b st) = (case r' of [] \<Rightarrow> 0 | x # _ \<Rightarrow> x) \<and> (\<forall>x \<in> {x. \<not> used st x} - {b}. nx (ring_insert b st) x = nx st x)"
proof (cases r)
  case Nil
  then have h: "cachehead st = 0" "{x. used st x} = {}" using ring by (auto simp: ring_def)
  then have e: "nx (ring_insert b st) = (nx st)(b := b)" "pv (ring_insert b st) = (pv st)(b := b)"
    by (simp_all add: ring_insert_links)
  have "cycle (nx (ring_insert b st)) (pv (ring_insert b st)) [b]" unfolding e by (simp add: cycle_def)
  moreover have "cachehead (ring_insert b st) = b" using h by (simp add: ring_insert_links)
  ultimately show ?thesis using h fun_cong [OF e(1)] by (intro exI [of _ "[b]"]) auto
next
  case (Cons h w)
  then have c: "cycle (nx st) (pv st) (h # w)" "set (h # w) = {x. used st x}" "cachehead st = h"
    using ring by (auto simp: ring_def)
  then have h: "used st h" by auto
  then have h0: "cachehead st \<noteq> 0" "h \<noteq> b" using z b c(3) by metis+
  have bn: "b \<notin> set (h # w)" using c(2) b by auto
  have e: "nx (ring_insert b st) = (nx st)(b := h, pv st h := b)" "pv (ring_insert b st) = (pv st)(b := pv st h, h := b)"
    using h0 unfolding ring_insert_links c(3) by auto
  have "cycle (nx (ring_insert b st)) (pv (ring_insert b st)) (h # w @ [b])"
    unfolding e using cycle_insert [OF c(1) bn] cycle_ends(1) [OF c(1)] by simp
  moreover have "set (h # w @ [b]) = insert b {x. used st x}" using c(2) by auto
  moreover have "cachehead (ring_insert b st) = h" using h0 c(3) by (simp add: ring_insert_links)
  moreover have "used st (pv st h)" using ring_neighbours(2) [OF ring h] .
  ultimately show ?thesis using fun_cong [OF e(1)] by (intro exI [of _ "h # w @ [b]"]) auto
qed

lemma chain_insert_ok:
  assumes ch: "chains (sn st) (a_shift st) pl (\<lambda>d. bitmap_bit (cdi st d))"
    and b: "pl b = None" "b \<noteq> 0" and z: "pl 0 = None"
    and sl: "if sl = 0 then group_at (a_shift st) pl d (drop_bit (a_shift st) l) = {}
      else sl \<in> group_at (a_shift st) pl d (drop_bit (a_shift st) l)"
  shows "\<exists>st'. chain_insert d (drop_bit (a_shift st) l) b sl st = Some st' \<and> chain_only st st' \<and>
    chains (sn st') (a_shift st) (pl(b := Some (d, l))) (\<lambda>d. bitmap_bit (cdi st' d))"
proof -
  let ?g = "drop_bit (a_shift st) l" and ?pl' = "pl(b := Some (d, l))" and ?G = "group_at (a_shift st)"
  have grp: "?G ?pl' d ?g = insert b (?G pl d ?g)" using b by (auto simp: group_at_def)
  have rest: "?G ?pl' d' g' = ?G pl d' g'" if "(d', g') \<noteq> (d, ?g)" for d' g'
    using that b by (auto simp: group_at_def)
  have bG: "b \<notin> ?G pl d' g'" for d' g' using b by (auto simp: group_at_def)
  have apart: "x \<notin> ?G pl d' g'" if "(d', g') \<noteq> (d, ?g)" "x \<in> ?G pl d ?g" for x d' g'
    using that by (auto simp: group_at_def)
  show ?thesis
  proof (cases "sl = 0")
    case True
    let ?st' = "upd_bi b (\<lambda>x. x\<lparr>snext := 0\<rparr>) (set_bitmap d ?g True st)"
    have f: "sn ?st' = (sn st)(b := 0)" by (auto simp: fun_eq_iff)
    have only: "chain_only st ?st'" using chain_only_trans [OF chain_only_bitmap chain_only_snext] .
    have e: "chain_insert d ?g b sl st = Some ?st'" using True by (simp add: chain_insert_def)
    have none: "?G pl d ?g = {}" using sl True by simp
    have "chains (sn ?st') (a_shift st) ?pl' (\<lambda>d. bitmap_bit (cdi ?st' d))"
    proof (rule chains_update [OF ch, of _ "[b]" _ d ?g])
      show "cyc (sn ?st') [b]" by (simp add: cyc_def)
      show "set [b] = ?G ?pl' d ?g" using grp none by simp
      show "[b] \<noteq> [] \<longrightarrow> bitmap_bit (cdi ?st' d) ?g" by (simp add: set_bitmap_bit)
      show "?G ?pl' d' g' = ?G pl d' g' \<and> bitmap_bit (cdi ?st' d') g' = bitmap_bit (cdi st d') g' \<and>
          (\<forall>x \<in> ?G pl d' g'. sn ?st' x = sn st x)" if "(d', g') \<noteq> (d, ?g)" for d' g'
        using rest [OF that] bG [of d' g'] that by (auto simp: set_bitmap_bit)
    qed
    then show ?thesis using e only by blast
  next
    case False
    then have slG: "sl \<in> ?G pl d ?g" using sl by simp
    obtain t where t: "cyc (sn st) (sl # t)" "set (sl # t) = ?G pl d ?g" "bitmap_bit (cdi st d) ?g"
      "sn st sl = 0 \<longleftrightarrow> t = [] \<or> 0 \<in> set (sl # t) \<and> sn st sl = 0"
      using chain_of_group [OF ch slG] by blast
    have "0 \<notin> set (sl # t)" unfolding t(2) using z by (auto simp: group_at_def)
    then have s0: "sn st sl = 0 \<longleftrightarrow> t = []" using t(4) by blast
    have bn: "b \<notin> set (sl # t)" unfolding t(2) using bG .
    define st1 where "st1 = upd_bi b (\<lambda>x. x\<lparr>snext := sl\<rparr>) st"
    have s1: "sn st1 = (sn st)(b := sl)" by (auto simp: st1_def fun_eq_iff)
    have c1: "cyc (sn st1) (sl # t)" by (rule cyc_cong [OF t(1)]) (use bn in \<open>auto simp: s1 fun_cong [OF s1]\<close>)
    define pb where "pb = last (sl # t)"
    define st' where "st' = upd_bi pb (\<lambda>x. x\<lparr>snext := b\<rparr>) st1"
    have e: "chain_insert d ?g b sl st = Some st'"
    proof (cases "t = []")
      case True
      then have "snext (bi st1 sl) = 0" using s0 bn by (simp add: st1_def)
      then show ?thesis using False True by (simp add: chain_insert_def st'_def pb_def Let_def flip: st1_def)
    next
      case False
      then have "snext (bi st1 sl) \<noteq> 0" using s0 bn by (simp add: st1_def)
      moreover have "chain_pred st1 sl sl = Some pb"
        using chain_pred_walk [of st1 "[]" sl t sl t] c1 False by (simp add: pb_def)
      ultimately show ?thesis using \<open>sl \<noteq> 0\<close> by (simp add: chain_insert_def st'_def Let_def flip: st1_def)
    qed
    have only: "chain_only st st'" unfolding st'_def st1_def using chain_only_trans [OF chain_only_snext chain_only_snext] .
    have s2: "sn st' = (sn st)(b := sl, pb := b)" by (auto simp: st'_def st1_def fun_eq_iff)
    have pbG: "pb \<in> ?G pl d ?g" unfolding t(2) [symmetric] pb_def by (rule last_in_set) simp
    have bit: "cdi st' = cdi st" by (simp add: st'_def st1_def)
    have "chains (sn st') (a_shift st) ?pl' (\<lambda>d. bitmap_bit (cdi st' d))"
    proof (rule chains_update [OF ch, of _ "sl # t @ [b]" _ d ?g])
      show "cyc (sn st') (sl # t @ [b])" unfolding s2 pb_def using cyc_insert [OF t(1) bn] .
      show "set (sl # t @ [b]) = ?G ?pl' d ?g" using t(2) grp by auto
      show "sl # t @ [b] \<noteq> [] \<longrightarrow> bitmap_bit (cdi st' d) ?g" using t(3) bit by simp
      show "?G ?pl' d' g' = ?G pl d' g' \<and> bitmap_bit (cdi st' d') g' = bitmap_bit (cdi st d') g' \<and>
          (\<forall>x \<in> ?G pl d' g'. sn st' x = sn st x)" if "(d', g') \<noteq> (d, ?g)" for d' g'
        using rest [OF that] bG [of d' g'] apart [OF that pbG] unfolding bit by (auto simp: fun_cong [OF s2])
    qed
    then show ?thesis using e only by blast
  qed
qed


text \<open>What \<open>lookup_block\<close> says of the group of a place (\<open>lookup_ok\<close>).\<close>

definition first_of :: "'a cache_state \<Rightarrow> nat \<Rightarrow> nat \<Rightarrow> nat \<Rightarrow> bool" where
  "first_of st d l sl \<longleftrightarrow> (if sl = 0 then group_of st d (drop_bit (a_shift st) l) = {}
     else sl \<in> group_of st d (drop_bit (a_shift st) l))"

lemma free_head:
  assumes "cache_inv st" "free_total st \<noteq> 0"
  shows "\<not> used st (freehead st)" "0 < freehead st" "freehead st < blocks_total st"
    "\<exists>fl. free_queue st (freehead st # fl)"
proof -
  obtain fl where fl: "free_queue st fl" using assms(1) by (auto simp: cache_inv_def)
  then obtain x w where x: "fl = x # w" using assms(2) by (cases fl) (auto simp: free_queue_def)
  then have e: "freehead st = x" using fl by (simp add: free_queue_def)
  have "x \<in> {b. 0 < b \<and> b < blocks_total st \<and> \<not> used st b}" using fl x by (auto simp: free_queue_def)
  then show "\<not> used st (freehead st)" "0 < freehead st" "freehead st < blocks_total st"
    "\<exists>fl. free_queue st (freehead st # fl)"
    using e fl x by auto
qed

lemma places_ok_more:
  assumes ok: "places_ok st" and frame: "same_setup st st'" and pl: "block_place st' = (block_place st)(b := Some (d, l))"
    and rng: "in_range st d l" and new: "\<forall>x. block_place st x \<noteq> Some (d, l)" and b: "block_place st b = None"
  shows "places_ok st'"
proof -
  have e: "disks st' = disks st" "\<And>d. s32shift (cdi st' d) = s32shift (cdi st d) \<and> sectors (cdi st' d) = sectors (cdi st d)"
    using frame by (auto simp: same_setup_def disks_def)
  have one: "e < disks st \<and> push_bit (s32shift (cdi st e)) k < sectors (cdi st e)" if "block_place st' x = Some (e, k)" for x e k
    using ok that rng unfolding places_ok_def pl in_range_def by (auto split: if_splits)
  have two: "x = y" if "block_place st x \<noteq> None" "block_place st x = block_place st y" for x y
    using ok that unfolding places_ok_def by blast
  have three: "x = y" if "block_place st' x \<noteq> None" "block_place st' x = block_place st' y" for x y
  proof -
    consider "x = b" "y = b" | "x = b" "y \<noteq> b" | "x \<noteq> b" "y = b" | "x \<noteq> b" "y \<noteq> b" by blast
    then show ?thesis
    proof cases
      case 2 then show ?thesis using that new [rule_format, of y] by (simp add: pl)
    next
      case 3 then show ?thesis using that new [rule_format, of x] by (simp add: pl)
    next
      case 4 then show ?thesis using that two by (simp add: pl)
    qed simp
  qed
  show ?thesis unfolding places_ok_def using one three e by metis
qed

definition added :: "nat \<Rightarrow> nat \<Rightarrow> nat \<Rightarrow> 'a cache_state \<Rightarrow> 'a cache_state \<Rightarrow> bool" where
  "added d l b st st' \<longleftrightarrow> cache_inv st' \<and> same_setup st st' \<and> block_place st' = (block_place st)(b := Some (d, l)) \<and>
    cdata st' = cdata st \<and> free_total st = Suc (free_total st')"

lemma add_entry_ok:
  assumes inv: "cache_inv st" and free: "free_total st \<noteq> 0" and b: "b = freehead st"
    and rng: "in_range st d l" and new: "\<forall>x. block_place st x \<noteq> Some (d, l)" and sl: "first_of st d l sl"
  shows "\<exists>st'. add_entry d l b sl st = Some st' \<and> added d l b st st'"
proof -
  let ?g = "drop_bit (a_shift st) l"
  note fh = free_head [OF inv free, folded b]
  have pb: "block_place st b = None" using fh(1) unfolding used_place by blast
  define st0 where "st0 = st\<lparr>freehead := b_next (bi st b), free_total := free_total st - 1\<rparr>"
  define st1 where "st1 = ring_insert b st0"
  define st2 where "st2 = upd_bi b (\<lambda>x. x\<lparr>loc := l, pdi := Some d, bi_prio := False\<rparr>) st1"
  define st3 where "st3 = st2\<lparr>cidxa := (cidxa st2)(b := idx_key st2 d ?g)\<rparr>"
  have e: "add_entry d l b sl st = chain_insert d ?g b sl st3"
    unfolding add_entry_def Let_def st3_def st2_def st1_def st0_def by (rule refl)
  have v0: "bi st0 = bi st" "cdi st0 = cdi st" "same_setup st st0" "cidxa st0 = cidxa st" "cdata st0 = cdata st"
    "block_place st0 = block_place st" "used st0 = used st" "cachehead st0 = cachehead st"
    by (auto simp: st0_def same_setup_def block_place_def used_def fun_eq_iff)
  have body: "body_only st0 st1" unfolding st1_def by (rule ring_insert_body)
  have setup3: "same_setup st st3"
    using v0(3) body by (simp add: st3_def st2_def body_only_def same_setup_def)
  have c3: "cdi st3 = cdi st" "sn st3 = sn st" "cdata st3 = cdata st" "freehead st3 = b_next (bi st b)"
    "free_total st3 = free_total st - 1" "a_shift st3 = a_shift st"
    using body v0 setup3 by (auto simp: st3_def st2_def body_only_def st0_def same_setup_def fun_eq_iff)
  have pl3: "block_place st3 = (block_place st)(b := Some (d, l))"
    using body_only_place [OF body] v0(6) by (auto simp: st3_def st2_def block_place_def fun_eq_iff)
  have k: "idx_key st2 = idx_key st"
    using setup3 by (auto simp: st3_def same_setup_def idx_key_def fun_eq_iff)
  have x3: "cidxa st3 = (cidxa st)(b := idx_key st d ?g)"
    using body v0(4) by (simp add: st3_def k) (simp add: st2_def body_only_def)
  have r3: "nx st3 = nx st1" "pv st3 = pv st1" "cachehead st3 = cachehead st1"
    by (auto simp: st3_def st2_def fun_eq_iff)
  note ic = inv [unfolded cache_inv_views]
  have ch: "chains (sn st3) (a_shift st3) (block_place st) (\<lambda>d. bitmap_bit (cdi st3 d))" unfolding c3 using ic by blast
  have "if sl = 0 then group_at (a_shift st3) (block_place st) d (drop_bit (a_shift st3) l) = {}
      else sl \<in> group_at (a_shift st3) (block_place st) d (drop_bit (a_shift st3) l)"
    using sl unfolding first_of_def group_of_at c3 .
  from chain_insert_ok [OF ch pb _ inv_zero [OF inv] this] fh(2)
  obtain st' where st': "chain_insert d ?g b sl st3 = Some st'" "chain_only st3 st'"
    "chains (sn st') (a_shift st) (block_place st3) (\<lambda>d. bitmap_bit (cdi st' d))"
    unfolding c3 pl3 by auto
  have frame: "same_setup st st'"
    using same_setup_trans [OF setup3] st'(2) by (simp add: chain_only_def)
  have w: "nx st' = nx st1" "pv st' = pv st1" "cachehead st' = cachehead st1" "block_place st' = (block_place st)(b := Some (d, l))"
    "cidxa st' = (cidxa st)(b := idx_key st d ?g)" "freehead st' = b_next (bi st b)" "free_total st' = free_total st - 1"
    "cdata st' = cdata st" "a_shift st' = a_shift st"
    using st'(2) r3 x3 c3 chain_only_place [OF st'(2)] pl3 frame by (auto simp: chain_only_def same_setup_def)
  have us: "used st' x \<longleftrightarrow> used st x \<or> x = b" for x by (simp add: used_place w(4))
  obtain r where r: "ring st0 r" using ic v0(1,7,8) by (auto simp: ring_def)
  have nb: "\<not> used st0 b" "\<not> used st0 0"
    using pb inv_zero [OF inv] unfolding v0(7) used_place by blast+
  obtain r' where r': "cycle (nx st1) (pv st1) r'" "set r' = insert b {x. used st x}"
    "cachehead st1 = (case r' of [] \<Rightarrow> 0 | x # _ \<Rightarrow> x)" "\<forall>x \<in> {x. \<not> used st x} - {b}. nx st1 x = nx st x"
    using ring_with [OF r nb] unfolding st1_def v0(1,7) by blast
  have "ring st' r'"
  proof -
    have "set r' = {x. used st' x}" unfolding r'(2) us by blast
    then show ?thesis using r' unfolding ring_def w(1-3) by blast
  qed
  moreover have "\<exists>fl. free_queue st' fl"
  proof -
    obtain fl where fl: "free_queue st (b # fl)" using fh(4) by blast
    have g: "distinct (b # fl)" "set (b # fl) = {x. 0 < x \<and> x < blocks_total st \<and> \<not> used st x}"
      "free_seg (nx st) (freehead st) (b # fl)" "length (b # fl) = free_total st"
      using fl unfolding free_queue_def by blast+
    have "set fl = set (b # fl) - {b}" using g(1) by simp
    then have f: "set fl = {x. 0 < x \<and> x < blocks_total st \<and> \<not> used st x} - {b}" unfolding g(2) .
    have g': "distinct fl" "free_seg (nx st) (nx st b) fl" "length fl = free_total st - 1" using g by simp_all
    have "nx st' x = nx st x" if "x \<in> set fl" for x using that r'(4) f fun_cong [OF w(1), of x] by simp
    then have "free_seg (nx st') (nx st b) fl" using g'(2) free_seg_cong [of fl "nx st'" "nx st"] by blast
    moreover have "blocks_total st' = blocks_total st" using frame by (simp add: same_setup_def)
    ultimately have "free_queue st' fl"
      using f g' unfolding free_queue_def w(6,7) us by auto
    then show ?thesis ..
  qed
  moreover have "index_ok st'"
  proof -
    have k': "idx_key st' = idx_key st" "blocks_total st' = blocks_total st"
      using same_setup_eqs(3) [OF frame] frame by (auto simp: same_setup_def)
    have "index_ok st" using ic by blast
    then show ?thesis unfolding index_ok_def w(4,5,9) k' using fh(2,3) by (simp add: us)
  qed
  moreover have "places_ok st'" by (rule places_ok_more [OF _ frame w(4) rng new pb]) (use ic in blast)
  moreover have "chains (sn st') (a_shift st') (block_place st') (\<lambda>d. bitmap_bit (cdi st' d))"
    using st'(3) unfolding w(4,9) pl3 .
  moreover have "geometry st'" using ic same_setup_eqs(2) [OF frame] by simp
  ultimately have "cache_inv st'" unfolding cache_inv_views by blast
  then show ?thesis using e st'(1) frame w(4,7,8) free by (simp add: added_def)
qed

end
