(* ===== verification/CacheIo.thy ===== *)
theory CacheIo
  imports CacheAdd
begin

text \<open>
  The loop of \<open>cache_io\<close>: every round keeps the invariant and the agreement of the cached data with the
  disks, as long as the room for a new block is not made by dropping the first block of its own group.
\<close>

section \<open>Agreement of data\<close>

abbreviation sector_of :: "'a cache_state \<Rightarrow> nat \<Rightarrow> nat \<Rightarrow> nat \<Rightarrow> nat" where
  "sector_of st d l i \<equiv> push_bit (s32shift (cdi st d)) l + i"

definition block_ok :: "(u32 \<Rightarrow> nat \<Rightarrow> 'a) \<Rightarrow> (nat \<times> nat) set \<Rightarrow> 'a cache_state \<Rightarrow> nat \<Rightarrow> nat \<Rightarrow> nat \<Rightarrow> bool" where
  "block_ok m X st b d l \<longleftrightarrow> (\<forall>i < sin32k (cdi st d). sector_of st d l i < sectors (cdi st d) \<and> (d, sector_of st d l i) \<notin> X \<longrightarrow>
     cdata st b i = m (disk (cdi st d)) (sector_of st d l i))"

lemma data_ok_blocks: "data_ok m X st \<longleftrightarrow> (\<forall>b d l. block_place st b = Some (d, l) \<longrightarrow> block_ok m X st b d l)"
  by (auto simp: data_ok_def block_ok_def)

lemma data_ok_mono: "data_ok m X st \<Longrightarrow> X \<subseteq> Y \<Longrightarrow> data_ok m Y st"
  unfolding data_ok_def by (meson subsetD)

lemma block_ok_frame:
  "same_setup st st' \<Longrightarrow> cdata st' b = cdata st b \<Longrightarrow> block_ok m X st' b d l = block_ok m X st b d l"
  by (simp add: block_ok_def same_setup_def sin32k_def)

definition kept_true :: "(u32 \<Rightarrow> nat \<Rightarrow> 'a) \<Rightarrow> (nat \<times> nat) set \<Rightarrow> 'a cache_state \<Rightarrow> 'a cache_state \<Rightarrow> bool" where
  "kept_true m X st st' \<longleftrightarrow> cache_inv st' \<and> same_setup st st' \<and> data_ok m X st'"

lemma sound_trans: "kept_true m X st st1 \<Longrightarrow> kept_true m Y st1 st2 \<Longrightarrow> kept_true m Y st st2"
  using same_setup_trans [of st st1 st2] by (simp add: kept_true_def)

text \<open>Steps that leave the places and the data of the blocks alone.\<close>

definition quiet :: "'a cache_state \<Rightarrow> 'a cache_state \<Rightarrow> bool" where
  "quiet st st' \<longleftrightarrow> cache_inv st' \<and> same_setup st st' \<and> block_place st' = block_place st \<and> cdata st' = cdata st \<and>
    free_total st' = free_total st"

lemma quiet_refl: "cache_inv st \<Longrightarrow> quiet st st"
  by (simp add: quiet_def)

lemma quiet_sound:
  assumes "quiet st st'" "data_ok m X st"
  shows "kept_true m X st st'"
proof -
  have "data_ok m X st'" by (rule data_ok_less [OF assms(2)]) (use assms(1) in \<open>auto simp: quiet_def\<close>)
  then show ?thesis using assms(1) by (simp add: kept_true_def quiet_def)
qed

lemma ring_only_quiet:
  assumes "cache_inv st" "ring_only st st'" "ring st' r"
  shows "quiet st st'"
proof -
  have s: "same_body st st'" "same_free st st'" "cdata st' = cdata st" using assms(2) by (auto simp: ring_only_def)
  have "same_setup st st'" using s(1) by (simp add: same_body_def same_setup_def)
  then show ?thesis
    using same_inv [OF assms(1) s(1,2) assms(3)] same_body_place(1) [OF s(1)] s(2,3) by (simp add: quiet_def same_free_def)
qed

lemma touch_block_quiet:
  assumes inv: "cache_inv st" and b: "used st b"
  shows "quiet st (touch_block b st)"
proof -
  obtain r where r: "ring st r" using inv by (auto simp: cache_inv_def)
  obtain r' where "ring (touch_block b st) r'" using touch_block_ring [OF r b] by blast
  then show ?thesis using ring_only_quiet [OF inv touch_block_only [OF r b]] by blast
qed

lemma same_ring:
  assumes "ring st r" "nx st' = nx st" "pv st' = pv st" "cachehead st' = cachehead st" "used st' = used st"
  shows "ring st' r"
  using assms(1) unfolding ring_def assms(2-5) .

lemma mark_prio_quiet:
  assumes "cache_inv st"
  shows "quiet st (mark_prio d l b st)"
proof -
  have o: "ring_only st (mark_prio d l b st)" by (auto simp: mark_prio_def ring_only_def same_body_def same_free_def)
  obtain r where r: "ring st r" using assms by (auto simp: cache_inv_def)
  have "ring (mark_prio d l b st) r"
    by (rule same_ring [OF r]) (auto simp: mark_prio_def fun_eq_iff used_def)
  then show ?thesis by (rule ring_only_quiet [OF assms o])
qed

lemma cdata_only:
  assumes "cache_inv st"
  shows "cache_inv (st\<lparr>cdata := f\<rparr>)" "block_place (st\<lparr>cdata := f\<rparr>) = block_place st" "same_setup st (st\<lparr>cdata := f\<rparr>)"
proof -
  let ?st' = "st\<lparr>cdata := f\<rparr>"
  have s: "same_body st ?st'" "same_free st ?st'" by (auto simp: same_body_def same_free_def)
  obtain r where r: "ring st r" using assms by (auto simp: cache_inv_def)
  have "ring ?st' r" by (rule same_ring [OF r]) (auto simp: used_def fun_eq_iff)
  then show "cache_inv ?st'" by (rule same_inv [OF assms s])
  show "block_place ?st' = block_place st" by (rule same_body_place(1) [OF s(1)])
  show "same_setup st ?st'" by (simp add: same_setup_def)
qed

lemma hits_quiet:
  assumes "cache_inv st"
  shows "quiet st (st\<lparr>cache_hits := h\<rparr>)" "quiet st (st\<lparr>cache_total := h\<rparr>)"
proof -
  obtain r where r: "ring st r" using assms by (auto simp: cache_inv_def)
  have "ring_only st (st\<lparr>cache_hits := h\<rparr>)" "ring_only st (st\<lparr>cache_total := h\<rparr>)"
    by (auto simp: ring_only_def same_body_def same_free_def)
  moreover have "ring (st\<lparr>cache_hits := h\<rparr>) r" "ring (st\<lparr>cache_total := h\<rparr>) r"
    by (rule same_ring [OF r]; auto simp: used_def fun_eq_iff)+
  ultimately show "quiet st (st\<lparr>cache_hits := h\<rparr>)" "quiet st (st\<lparr>cache_total := h\<rparr>)"
    using ring_only_quiet [OF assms] by blast+
qed

section \<open>A new block\<close>

definition full_device :: "'a device \<Rightarrow> diskinfo \<Rightarrow> bool" where
  "full_device dev di \<longleftrightarrow> (\<forall>pos n. pos + n \<le> sectors di \<longrightarrow> readable dev (disk di) pos n = n)"

lemma full_device_setup: "same_setup st st' \<Longrightarrow> full_device dev (cdi st' d) \<longleftrightarrow> full_device dev (cdi st d)"
  by (simp add: full_device_def same_setup_def)

definition keeps_first :: "'a cache_state \<Rightarrow> nat \<Rightarrow> bool" where
  "keeps_first st sl \<longleftrightarrow> (case expand_free 1 st of None \<Rightarrow> True | Some st1 \<Rightarrow> sl = 0 \<or> pdi (bi st1 sl) \<noteq> None)"

definition block_sectors :: "'a cache_state \<Rightarrow> nat \<Rightarrow> nat \<Rightarrow> (nat \<times> nat) set" where
  "block_sectors st d l = {(d, sector_of st d l i) | i. i < sin32k (cdi st d)}"

lemma read_block_ok:
  fixes dev :: "'a device" and d l :: nat
  assumes inv: "cache_inv st" and b: "\<not> used st b" and data: "data_ok (medium dev) X st"
  defines "st' \<equiv> fst (read_block dev d b l st)"
  shows "cache_inv st'" "block_place st' = block_place st" "same_setup st st'" "data_ok (medium dev) X st'"
    "free_total st' = free_total st" "freehead st' = freehead st"
    "snd (read_block dev d b l st) \<Longrightarrow> block_ok (medium dev) {} st' b d l"
    "full_device dev (cdi st d) \<Longrightarrow> in_range st d l \<Longrightarrow> snd (read_block dev d b l st)"
proof -
  obtain f where f: "st' = st\<lparr>cdata := f\<rparr>" "\<And>c. c \<noteq> b \<Longrightarrow> f c = cdata st c"
    unfolding st'_def read_block_def Let_def by auto
  note c = cdata_only [OF inv, of f, folded f(1)]
  show "cache_inv st'" "block_place st' = block_place st" "same_setup st st'" using c .
  show "free_total st' = free_total st" "freehead st' = freehead st" by (simp_all add: f(1))
  show "data_ok (medium dev) X st'"
    unfolding data_ok_blocks c(2)
  proof (intro allI impI)
    fix c' e k assume p: "block_place st c' = Some (e, k)"
    then have "c' \<noteq> b" using b by (auto simp: used_place)
    then have "cdata st' c' = cdata st c'" using f by simp
    then show "block_ok (medium dev) X st' c' e k"
      using block_ok_frame [OF c(3)] data p unfolding data_ok_blocks by blast
  qed
  show "block_ok (medium dev) {} st' b d l" if "snd (read_block dev d b l st)"
    using that by (auto simp: block_ok_def st'_def read_block_def Let_def split: if_splits)
  show "snd (read_block dev d b l st)" if "full_device dev (cdi st d)" "in_range st d l"
    using that by (auto simp: read_block_def Let_def full_device_def in_range_def)
qed


lemma dropped_first:
  assumes "dropped S st st1" "first_of st d l sl" "sl = 0 \<or> used st1 sl"
  shows "first_of st1 d l sl"
proof -
  have p: "block_place st1 = drop_place S st" "a_shift st1 = a_shift st" using assms(1) by (auto simp: dropped_def same_setup_def)
  have "group_of st1 d g = group_of st d g - S" for g
    by (auto simp: group_of_def p drop_place_def split: if_splits)
  moreover have "sl \<notin> S" if "sl \<noteq> 0" using assms(3) dropped_used [OF assms(1)] that by blast
  ultimately show ?thesis using assms(2) by (simp add: first_of_def p(2))
qed

text \<open>What a round comes to; \<open>Y\<close> are the sectors of a new block that are still to be written.\<close>

definition round_ok :: "'a device \<Rightarrow> (nat \<times> nat) set \<Rightarrow> (nat \<times> nat) set \<Rightarrow> nat \<Rightarrow> nat \<Rightarrow> nat \<Rightarrow> 'a cache_state \<Rightarrow> 'a round \<Rightarrow> bool" where
  "round_ok dev X Y d l write st r \<longleftrightarrow>
    (case r of Stop st' \<Rightarrow> write = 0 \<and> \<not> full_device dev (cdi st d) \<and> kept_true (medium dev) X st st'
     | Pass st' \<Rightarrow> write \<noteq> 0 \<and> kept_true (medium dev) X st st' \<and> (\<forall>x. block_place st' x \<noteq> Some (d, l)) \<and> free_total st \<le> free_total st'
     | Use b st' \<Rightarrow> kept_true (medium dev) (X \<union> Y) st st' \<and> block_place st' b = Some (d, l) \<and> free_total st \<le> Suc (free_total st'))"

lemma added_sound:
  assumes a: "added d l b st st'" and data: "data_ok m X st" and b: "block_place st b = None"
    and new: "block_ok m X' st b d l"  and sub: "X \<subseteq> X'"
  shows "kept_true m X' st st'" "block_place st' b = Some (d, l)"
proof -
  have f: "cache_inv st'" "same_setup st st'" "block_place st' = (block_place st)(b := Some (d, l))" "cdata st' = cdata st"
    using a by (auto simp: added_def)
  show "block_place st' b = Some (d, l)" by (simp add: f(3))
  have "block_ok m X' st' c e k" if p: "block_place st' c = Some (e, k)" for c e k
  proof (cases "c = b")
    case True
    then show ?thesis using p new block_ok_frame [OF f(2)] f(3,4) by simp
  next
    case False
    then have "block_place st c = Some (e, k)" using p f(3) by simp
    then show ?thesis
      using data_ok_mono [OF data sub] block_ok_frame [OF f(2)] f(4) unfolding data_ok_blocks by simp
  qed
  then show "kept_true m X' st st'" using f by (simp add: kept_true_def data_ok_blocks)
qed

lemma new_block_ok:
  assumes inv: "cache_inv st" and rng: "in_range st d l" and new: "\<forall>x. block_place st x \<noteq> Some (d, l)"
    and data: "data_ok (medium dev) X st" and sl: "first_of st d l sl" and keep: "keeps_first st sl"
    and tot: "2 \<le> blocks_total st"
  shows "\<exists>r. new_block dev d l write sl st = Some r \<and>
    round_ok dev X (if write = 0 then {} else block_sectors st d l) d l write st r"
proof -
  obtain st1 S where st1: "expand_free 1 st = Some st1" "dropped S st st1" "1 \<le> free_total st1"
  proof -
    have "1 \<le> blocks_total st div 2" using tot by linarith
    then show thesis using expand_free_ok [OF inv _ le_refl] that by blast
  qed
  have sl1: "first_of st1 d l sl"
    using dropped_first [OF st1(2) sl] keep st1(1) by (simp add: keeps_first_def used_def)
  have inv1: "cache_inv st1" and frame1: "same_setup st st1" using st1(2) by (auto simp: dropped_def)
  have data1: "data_ok (medium dev) X st1" using dropped_data [OF st1(2) data] .
  have ft: "free_total st1 \<noteq> 0" using st1(3) by simp
  have new1: "\<forall>x. block_place st1 x \<noteq> Some (d, l)" using st1(2) new by (auto simp: dropped_def drop_place_def)
  have rng1: "in_range st1 d l" using rng same_setup_eqs(4) [OF frame1] by simp
  define b where "b = freehead st1"
  have fb: "\<not> used st1 b" using free_head(1) [OF inv1 ft] by (simp add: b_def)
  have pb: "block_place st1 b = None" using fb unfolding used_place by blast
  have bs: "block_sectors st1 d l = block_sectors st d l"
    using frame1 by (simp add: block_sectors_def same_setup_def sin32k_def)
  show ?thesis
  proof (cases "write = 0")
    case True
    let ?r = "read_block dev d b l st1"
    note rb = read_block_ok [OF inv1 fb data1, of d l]
    have nb: "new_block dev d l write sl st =
      (if snd ?r then map_option (Use b) (add_entry d l b sl (fst ?r)) else Some (Stop (fst ?r)))"
      using st1(1) ft True by (simp add: new_block_def Let_def b_def)
    have keep1: "kept_true (medium dev) X st (fst ?r)"
      using rb(1,3,4) same_setup_trans [OF frame1] by (simp add: kept_true_def)
    show ?thesis
    proof (cases "snd ?r")
      case False
      then have "\<not> full_device dev (cdi st d)" using rb(8) rng1 full_device_setup [OF frame1] by blast
      then show ?thesis using nb False True keep1 by (simp add: round_ok_def)
    next
      case read: True
      have a: "a_shift (fst ?r) = a_shift st1" using rb(3) by (simp add: same_setup_def)
      have "group_of (fst ?r) = group_of st1" by (intro ext) (simp only: group_of_at a rb(2))
      with a have sl2: "first_of (fst ?r) d l sl" using sl1 by (simp only: first_of_def)
      have "\<exists>st'. add_entry d l b sl (fst ?r) = Some st' \<and> added d l b (fst ?r) st'"
        by (rule add_entry_ok [OF rb(1)])
          (use ft rb(2,3,5,6) rng1 new1 sl2 same_setup_eqs(4) [OF rb(3)] in \<open>auto simp: b_def\<close>)
      then obtain st' where st': "add_entry d l b sl (fst ?r) = Some st'" "added d l b (fst ?r) st'" by blast
      have "block_ok (medium dev) X (fst ?r) b d l" using rb(7) [OF read] by (simp add: block_ok_def)
      then have "kept_true (medium dev) X (fst ?r) st'" "block_place st' b = Some (d, l)"
        using added_sound [OF st'(2) rb(4)] pb rb(2) by auto
      moreover have "free_total st \<le> Suc (free_total st')" using st1(2) rb(5) st'(2) by (simp add: dropped_def added_def)
      ultimately show ?thesis using nb read st'(1) True sound_trans [OF keep1] by (simp add: round_ok_def)
    qed
  next
    case False
    have nb: "new_block dev d l write sl st = map_option (Use b) (add_entry d l b sl st1)"
      using st1(1) ft False by (simp add: new_block_def Let_def b_def)
    obtain st' where st': "add_entry d l b sl st1 = Some st'" "added d l b st1 st'"
      using add_entry_ok [OF inv1 ft b_def rng1 new1 sl1] by blast
    have "block_ok (medium dev) (X \<union> block_sectors st d l) st1 b d l"
      unfolding bs [symmetric] by (auto simp: block_ok_def block_sectors_def)
    from added_sound [OF st'(2) data1 pb this]
    have "kept_true (medium dev) (X \<union> block_sectors st d l) st1 st'" "block_place st' b = Some (d, l)" by auto
    moreover have "kept_true (medium dev) X st st1" using inv1 frame1 data1 by (simp add: kept_true_def)
    moreover have "free_total st \<le> Suc (free_total st')" using st1(2) st'(2) by (simp add: dropped_def added_def)
    ultimately show ?thesis using nb st'(1) False sound_trans [of _ X st st1] by (auto simp: round_ok_def)
  qed
qed

section \<open>A round\<close>

definition round_safe :: "'a cache_state \<Rightarrow> nat \<Rightarrow> nat \<Rightarrow> nat \<Rightarrow> nat \<Rightarrow> bool" where
  "round_safe st d l sb write \<longleftrightarrow>
    (case lookup_block st d l of None \<Rightarrow> True
     | Some (sl, b) \<Rightarrow> b = 0 \<and> (write = 0 \<or> sb = sin32k (cdi st d) \<and> write < 2) \<longrightarrow> keeps_first st sl)"

lemma io_round_ok:
  assumes inv: "cache_inv st" and rng: "in_range st d l" and data: "data_ok (medium dev) X st"
    and safe: "round_safe st d l sb write" and tot: "2 \<le> blocks_total st"
  shows "\<exists>r. io_round dev d l sb write st = Some r \<and>
    round_ok dev X (if write \<noteq> 0 \<and> sb = sin32k (cdi st d) then block_sectors st d l else {}) d l write st r"
proof -
  obtain sl b where lb: "lookup_block st d l = Some (sl, b)"
    "if b = 0 then \<forall>x. block_place st x \<noteq> Some (d, l) else block_place st b = Some (d, l)" "first_of st d l sl"
    using lookup_ok [OF inv rng] unfolding first_of_def by blast
  show ?thesis
  proof (cases "b = 0")
    case True
    then have new: "\<forall>x. block_place st x \<noteq> Some (d, l)" using lb(2) by simp
    show ?thesis
    proof (cases "write = 0 \<or> sb = sin32k (cdi st d) \<and> write < 2")
      case usable: True
      have "keeps_first st sl" using safe lb(1) True usable by (simp add: round_safe_def)
      note nb = new_block_ok [OF inv rng new data lb(3) this tot, of "write"]
      have e: "io_round dev d l sb write st = new_block dev d l write sl st"
        using lb(1) True usable by (auto simp: io_round_def)
      have "(if write = 0 then {} else block_sectors st d l) =
        (if write \<noteq> 0 \<and> sb = sin32k (cdi st d) then block_sectors st d l else {})"
        using usable by auto
      then show ?thesis using nb unfolding e by (simp only:)
    next
      case False
      have "kept_true (medium dev) X st st" using inv data by (simp add: kept_true_def)
      then show ?thesis using lb(1) True False new by (auto simp: io_round_def round_ok_def)
    qed
  next
    case False
    then have p: "block_place st b = Some (d, l)" using lb(2) by simp
    then have u: "used st b" by (simp add: used_place)
    define st1 where "st1 = touch_block b st"
    define st2 where "st2 = (if write = 0 then st1\<lparr>cache_hits := cache_hits st1 + sb\<rparr> else st1)"
    have q1: "quiet st st1" unfolding st1_def by (rule touch_block_quiet [OF inv u])
    have q2: "quiet st1 st2" unfolding st2_def using q1 hits_quiet(1) [of st1] quiet_refl [of st1] by (simp add: quiet_def)
    have "kept_true (medium dev) X st st2" using quiet_sound [OF q1 data] quiet_sound [OF q2] sound_trans by (metis kept_true_def)
    then have "kept_true (medium dev) (X \<union> Y) st st2" for Y using data_ok_mono [of _ X st2 "X \<union> Y"] by (auto simp: kept_true_def)
    moreover have "block_place st2 b = Some (d, l)" using p q1 q2 by (simp add: quiet_def)
    moreover have "io_round dev d l sb write st = Some (Use b st2)"
      using lb(1) False by (simp add: io_round_def st2_def st1_def Let_def)
    moreover have "free_total st2 = free_total st" using q1 q2 by (simp add: quiet_def)
    ultimately show ?thesis by (simp add: round_ok_def)
  qed
qed


section \<open>The copy\<close>

lemma inv_one_block:
  assumes "cache_inv st" "block_place st b = Some p" "block_place st c = Some p"
  shows "b = c"
proof -
  have "places_ok st" using assms(1) by (simp add: cache_inv_def)
  then show ?thesis using assms(2,3) unfolding places_ok_def by (metis option.distinct(1))
qed

lemma sector_block:
  assumes "push_bit s l + i = push_bit s k + j" "i < 2 ^ s" "j < 2 ^ s"
  shows "l = k \<and> i = (j :: nat)"
proof -
  have e: "l * 2 ^ s + i = k * 2 ^ s + j" using assms(1) by (simp add: push_bit_eq_mult)
  have "(l * 2 ^ s + i) div 2 ^ s = l" "(k * 2 ^ s + j) div 2 ^ s = k" using assms(2,3) by simp_all
  then have "l = k" by (simp only: e)
  then show ?thesis using e by simp
qed

lemma copy_in_ok:
  assumes inv: "cache_inv st" and data: "data_ok m X st" and b: "block_place st b = Some (d, l)"
    and n: "cpos + n \<le> sin32k (cdi st d)"
    and buf: "\<And>i. i < n \<Longrightarrow> buf ! i = m (disk (cdi st d)) (sector_of st d l (cpos + i))"
  shows "kept_true m (X - {(d, s) | s. sector_of st d l cpos \<le> s \<and> s < sector_of st d l cpos + n}) st (copy_in b cpos n buf st)"
    (is "kept_true m ?X st ?st'")
proof -
  obtain f where f: "?st' = st\<lparr>cdata := f\<rparr>" unfolding copy_in_def by blast
  note c = cdata_only [OF inv, of f, folded f]
  have cd: "cdata ?st' c i = (if c = b \<and> cpos \<le> i \<and> i < cpos + n then buf ! (i - cpos) else cdata st c i)" for c i
    by (simp add: copy_in_def)
  have old: "cdata st c i = m (disk (cdi st e)) (sector_of st e k i)"
    if "block_place st c = Some (e, k)" "i < sin32k (cdi st e)" "sector_of st e k i < sectors (cdi st e)" "(e, sector_of st e k i) \<notin> X" for c e k i
    using data that unfolding data_ok_def by blast
  have "block_ok m ?X ?st' c e k" if p: "block_place st c = Some (e, k)" for c e k
  proof -
    have eq: "cdi ?st' = cdi st" by (simp add: f)
    show ?thesis unfolding block_ok_def eq
    proof (intro allI impI)
      fix i assume i: "i < sin32k (cdi st e)" and s: "sector_of st e k i < sectors (cdi st e) \<and> (e, sector_of st e k i) \<notin> ?X"
      show "cdata ?st' c i = m (disk (cdi st e)) (sector_of st e k i)"
      proof (cases "c = b \<and> cpos \<le> i \<and> i < cpos + n")
        case True
        then have "e = d" "k = l" using p b by auto
        moreover have "i - cpos < n" using True by auto
        ultimately show ?thesis using buf [of "i - cpos"] True by (simp add: cd)
      next
        case False
        have "(e, sector_of st e k i) \<notin> X"
        proof
          assume "(e, sector_of st e k i) \<in> X"
          then have z: "e = d" "sector_of st d l cpos \<le> sector_of st e k i" "sector_of st e k i < sector_of st d l cpos + n"
            using s by auto
          then obtain j where j: "sector_of st e k i = sector_of st d l (cpos + j)" "j < n"
            by (metis add.assoc add_less_cancel_left le_Suc_ex)
          have "k = l \<and> i = cpos + j"
            using sector_block [of "s32shift (cdi st d)" k i l "cpos + j"] i j z(1) n by (simp add: sin32k_def)
          then have "c = b" using inv_one_block [OF inv] p b z(1) by blast
          then show False using False \<open>k = l \<and> i = cpos + j\<close> j(2) by simp
        qed
        then show ?thesis using old [OF p i] s False by (auto simp: cd)
      qed
    qed
  qed
  then show ?thesis using c by (simp add: kept_true_def data_ok_blocks)
qed

lemma copy_out_ok:
  assumes "data_ok m {} st" "block_place st b = Some (d, l)" "cpos + n \<le> sin32k (cdi st d)"
    "sector_of st d l cpos + n \<le> sectors (cdi st d)"
  shows "copy_out b cpos n st = map (m (disk (cdi st d))) [sector_of st d l cpos..<sector_of st d l cpos + n]"
proof (rule nth_equalityI)
  fix i assume i: "i < length (copy_out b cpos n st)"
  then have n: "i < n" by (simp add: copy_out_def)
  then have "cdata st b (cpos + i) = m (disk (cdi st d)) (sector_of st d l (cpos + i))"
    using assms unfolding data_ok_def by simp
  then show "copy_out b cpos n st ! i =
      map (m (disk (cdi st d))) [sector_of st d l cpos..<sector_of st d l cpos + n] ! i"
    using n by (simp add: copy_out_def add.assoc)
qed (simp add: copy_out_def)

section \<open>The loop\<close>

definition round_end :: "nat \<Rightarrow> nat \<Rightarrow> nat \<Rightarrow> nat \<Rightarrow> nat \<Rightarrow> nat \<Rightarrow> 'a list \<Rightarrow> 'a cache_state \<Rightarrow> 'a cache_state" where
  "round_end write d l b cpos n buf st =
    (let st2 = mark_prio d l b st in if write \<noteq> 0 then copy_in b cpos n buf st2 else st2)"

text \<open>No round of the run drops the first block of the group it adds to.\<close>

function run_safe :: "'a device \<Rightarrow> nat \<Rightarrow> nat \<Rightarrow> nat \<Rightarrow> nat \<Rightarrow> nat \<Rightarrow> nat \<Rightarrow> 'a list \<Rightarrow> 'a cache_state \<Rightarrow> bool" where
  "run_safe dev d write l cpos sb0 ssize buf st = (if ssize = 0 then True else
    (let sb = min ssize (if sb0 = 0 then sin32k (cdi st d) else sb0) in
     round_safe st d l sb write \<and>
     (case io_round dev d l sb write st of
        Some (Pass st1) \<Rightarrow> run_safe dev d write (l + 1) 0 0 (ssize - sb) (drop sb buf) st1
      | Some (Use b st1) \<Rightarrow>
          run_safe dev d write (l + 1) 0 0 (ssize - sb) (drop sb buf) (round_end write d l b cpos sb buf st1)
      | _ \<Rightarrow> True)))"
  by pat_completeness auto
termination
  by (relation "measure (\<lambda>(_, _, _, _, _, _, ssize, _). ssize)") (auto simp: sin32k_def min_def)

declare run_safe.simps [simp del]

lemma io_loop_round:
  fixes st :: "'a cache_state" and d sb0 ssize :: nat
  assumes "ssize \<noteq> 0"
  defines "sb \<equiv> min ssize (if sb0 = 0 then sin32k (cdi st d) else sb0)"
  shows "io_loop dev d wr l cpos sb0 ssize buf out st =
    (case io_round dev d l sb wr st of None \<Rightarrow> None
     | Some (Stop st1) \<Rightarrow> Some (out, st1)
     | Some (Pass st1) \<Rightarrow> io_loop dev d wr (l + 1) 0 0 (ssize - sb) (drop sb buf) out st1
     | Some (Use b st1) \<Rightarrow>
        (let st3 = round_end wr d l b cpos sb buf st1
         in io_loop dev d wr (l + 1) 0 0 (ssize - sb) (drop sb buf)
              (if wr \<noteq> 0 then out else out @ copy_out b cpos sb st3) st3))"
proof -
  have "(if ssize < (if sb0 = 0 then sin32k (cdi st d) else sb0) then ssize else (if sb0 = 0 then sin32k (cdi st d) else sb0)) = sb"
    by (simp add: sb_def)
  then show ?thesis using assms(1) by (subst io_loop.simps) (simp only: Let_def round_end_def if_False)
qed

lemma run_safe_round:
  fixes st :: "'a cache_state" and d sb0 ssize :: nat
  assumes "ssize \<noteq> 0"
  defines "sb \<equiv> min ssize (if sb0 = 0 then sin32k (cdi st d) else sb0)"
  shows "run_safe dev d write l cpos sb0 ssize buf st \<longleftrightarrow> round_safe st d l sb write \<and>
     (case io_round dev d l sb write st of
        Some (Pass st1) \<Rightarrow> run_safe dev d write (l + 1) 0 0 (ssize - sb) (drop sb buf) st1
      | Some (Use b st1) \<Rightarrow>
          run_safe dev d write (l + 1) 0 0 (ssize - sb) (drop sb buf) (round_end write d l b cpos sb buf st1)
      | _ \<Rightarrow> True)"
  using assms(1) unfolding sb_def by (subst run_safe.simps) (simp only: Let_def if_False)


definition pending :: "nat \<Rightarrow> nat \<Rightarrow> nat \<Rightarrow> nat \<Rightarrow> (nat \<times> nat) set" where
  "pending write d p n = (if write = 0 then {} else {(d, s) | s. p \<le> s \<and> s < p + n})"

lemma pending_done [simp]: "pending write d p 0 = {}"
  by (auto simp: pending_def)

lemma round_end_ok:
  assumes k: "kept_true m (pending write d (sector_of st d l cpos) n) st st1" and b: "block_place st1 b = Some (d, l)"
    and c: "cpos + sb \<le> sin32k (cdi st d)" "sb \<le> n"
    and buf: "\<And>i. write \<noteq> 0 \<Longrightarrow> i < sb \<Longrightarrow> buf ! i = m (disk (cdi st d)) (sector_of st d l cpos + i)"
  shows "kept_true m (pending write d (sector_of st d l cpos + sb) (n - sb)) st (round_end write d l b cpos sb buf st1)"
    and "block_place (round_end write d l b cpos sb buf st1) b = Some (d, l)"
proof -
  let ?p = "sector_of st d l cpos" and ?st3 = "round_end write d l b cpos sb buf st1"
  have inv1: "cache_inv st1" and data1: "data_ok m (pending write d ?p n) st1" and f1: "same_setup st st1"
    using k by (auto simp: kept_true_def)
  define st2 where "st2 = mark_prio d l b st1"
  have q: "quiet st1 st2" unfolding st2_def by (rule mark_prio_quiet [OF inv1])
  have k2: "kept_true m (pending write d ?p n) st1 st2" by (rule quiet_sound [OF q data1])
  have inv2: "cache_inv st2" and data2: "data_ok m (pending write d ?p n) st2" and f2: "same_setup st1 st2"
    using k2 by (auto simp: kept_true_def)
  have f: "same_setup st st2" using same_setup_trans [OF f1 f2] .
  then have e: "cdi st2 d = cdi st2 d" "s32shift (cdi st2 d) = s32shift (cdi st d)" "disk (cdi st2 d) = disk (cdi st d)"
    "sin32k (cdi st2 d) = sin32k (cdi st d)" by (auto simp: same_setup_def sin32k_def)
  have b2: "block_place st2 b = Some (d, l)" using q b by (simp add: quiet_def)
  show "kept_true m (pending write d (?p + sb) (n - sb)) st ?st3"
  proof (cases "write = 0")
    case True
    then show ?thesis using sound_trans [OF k k2] by (simp add: round_end_def st2_def pending_def)
  next
    case False
    have s2: "?st3 = copy_in b cpos sb buf st2" using False by (simp add: round_end_def st2_def)
    have "kept_true m (pending write d ?p n - {(d, s) | s. sector_of st2 d l cpos \<le> s \<and> s < sector_of st2 d l cpos + sb}) st2 ?st3"
      unfolding s2 by (rule copy_in_ok [OF inv2 data2 b2]) (use c(1) buf False e in \<open>auto simp: add.assoc\<close>)
    moreover have "pending write d ?p n - {(d, s) | s. sector_of st2 d l cpos \<le> s \<and> s < sector_of st2 d l cpos + sb} =
        pending write d (?p + sb) (n - sb)"
      unfolding e(2) using False c(2) by (auto simp: pending_def)
    ultimately show ?thesis using sound_trans [OF sound_trans [OF k k2]] by simp
  qed
  show "block_place ?st3 b = Some (d, l)" using b2 by (simp add: round_end_def copy_in_def block_place_def flip: st2_def)
qed

lemma pass_ok:
  assumes k: "kept_true m (pending write d (sector_of st d l cpos) n) st st1" and no: "\<forall>x. block_place st1 x \<noteq> Some (d, l)"
    and c: "cpos + sb \<le> sin32k (cdi st d)"
  shows "kept_true m (pending write d (sector_of st d l cpos + sb) (n - sb)) st st1"
proof -
  let ?p = "sector_of st d l cpos"
  have data: "data_ok m (pending write d ?p n) st1" and f: "cache_inv st1" "same_setup st st1"
    using k by (auto simp: kept_true_def)
  have e: "s32shift (cdi st1 d) = s32shift (cdi st d)" "sin32k (cdi st1 d) = sin32k (cdi st d)"
    using f(2) by (auto simp: same_setup_def sin32k_def)
  have "data_ok m (pending write d (?p + sb) (n - sb)) st1"
    unfolding data_ok_def
  proof (intro allI impI, elim conjE)
    fix b e' k i
    assume b: "block_place st1 b = Some (e', k)" and i: "i < sin32k (cdi st1 e')" "sector_of st1 e' k i < sectors (cdi st1 e')"
      and x: "(e', sector_of st1 e' k i) \<notin> pending write d (?p + sb) (n - sb)"
    have "(e', sector_of st1 e' k i) \<notin> pending write d ?p n"
    proof
      assume a: "(e', sector_of st1 e' k i) \<in> pending write d ?p n"
      then have z: "e' = d" "?p \<le> sector_of st1 d k i" "sector_of st1 d k i < ?p + sb"
        using x by (auto simp: pending_def split: if_splits)
      then obtain j where j: "sector_of st d k i = sector_of st d l (cpos + j)" "j < sb"
        unfolding e by (metis add.assoc add_less_cancel_left le_Suc_ex)
      have "k = l \<and> i = cpos + j"
        using sector_block [of "s32shift (cdi st d)" k i l "cpos + j"] i j z(1) c e by (simp add: sin32k_def)
      then show False using no b z(1) by blast
    qed
    then show "cdata st1 b i = m (disk (cdi st1 e')) (sector_of st1 e' k i)"
      using data b i unfolding data_ok_def by blast
  qed
  then show ?thesis using f by (simp add: kept_true_def)
qed

lemma same_setup_range:
  assumes "same_setup st st'"
  shows "sector_of st' d l i = sector_of st d l i" "sectors (cdi st' d) = sectors (cdi st d)" "disk (cdi st' d) = disk (cdi st d)"
    "sin32k (cdi st' d) = sin32k (cdi st d)" "disks st' = disks st" "blocks_total st' = blocks_total st"
  using assms by (auto simp: same_setup_def sin32k_def disks_def)

lemma next_block:
  "cpos + n = sin32k (cdi st d) \<Longrightarrow> sector_of st d l cpos + n = sector_of st d (l + 1) 0"
  by (simp add: sin32k_def push_bit_eq_mult)

text \<open>What holds before every round; \<open>p\<close> is the next sector.\<close>

definition loop_inv :: "'a device \<Rightarrow> nat \<Rightarrow> nat \<Rightarrow> nat \<Rightarrow> nat \<Rightarrow> nat \<Rightarrow> nat \<Rightarrow> nat \<Rightarrow> 'a list \<Rightarrow> 'a cache_state \<Rightarrow> bool" where
  "loop_inv dev d write p l cpos sb0 ssize buf st \<longleftrightarrow> cache_inv st \<and> d < disks st \<and> 2 \<le> blocks_total st \<and>
    (ssize \<noteq> 0 \<longrightarrow> p = sector_of st d l cpos \<and> cpos + (if sb0 = 0 then sin32k (cdi st d) else sb0) = sin32k (cdi st d)) \<and>
    p + ssize \<le> sectors (cdi st d) \<and> data_ok (medium dev) (pending write d p ssize) st \<and>
    (write \<noteq> 0 \<longrightarrow> (\<forall>i < ssize. i < length buf \<and> buf ! i = medium dev (disk (cdi st d)) (p + i)))"

lemma loop_range: "loop_inv dev d write p l cpos sb0 ssize buf st \<Longrightarrow> ssize \<noteq> 0 \<Longrightarrow> in_range st d l"
  by (auto simp: loop_inv_def in_range_def)

text \<open>A state the loop goes on with.\<close>

definition goes_on :: "'a device \<Rightarrow> nat \<Rightarrow> nat \<Rightarrow> nat \<Rightarrow> nat \<Rightarrow> nat \<Rightarrow> nat \<Rightarrow> 'a list \<Rightarrow> 'a cache_state \<Rightarrow> 'a cache_state \<Rightarrow> bool" where
  "goes_on dev d write p l sb ssize buf st st1 \<longleftrightarrow> loop_inv dev d write (p + sb) (l + 1) 0 0 (ssize - sb) (drop sb buf) st1 \<and>
    same_setup st st1 \<and> free_total st \<le> Suc (free_total st1)"

lemma goes_onI:
  assumes pre: "loop_inv dev d write p l cpos sb0 ssize buf st" and ne: "ssize \<noteq> 0"
    and sb: "sb = min ssize (if sb0 = 0 then sin32k (cdi st d) else sb0)"
    and k: "kept_true (medium dev) (pending write d (p + sb) (ssize - sb)) st st1" and f: "free_total st \<le> Suc (free_total st1)"
  shows "goes_on dev d write p l sb ssize buf st st1"
proof -
  have c: "cache_inv st1" "same_setup st st1" "data_ok (medium dev) (pending write d (p + sb) (ssize - sb)) st1"
    using k by (auto simp: kept_true_def)
  note e = same_setup_range [OF c(2)]
  have p: "p = sector_of st d l cpos" and al: "cpos + (if sb0 = 0 then sin32k (cdi st d) else sb0) = sin32k (cdi st d)"
    using pre ne by (auto simp: loop_inv_def)
  have nxt: "p + sb = sector_of st1 d (l + 1) 0" if "ssize - sb \<noteq> 0"
  proof -
    have "cpos + sb = sin32k (cdi st d)" using al that by (auto simp: sb min_def split: if_splits)
    then show ?thesis using next_block [of cpos sb st d l] p by (simp only: e)
  qed
  have buf: "i < length (drop sb buf) \<and> drop sb buf ! i = medium dev (disk (cdi st1 d)) (p + sb + i)"
    if "write \<noteq> 0" "i < ssize - sb" for i
  proof -
    have "sb + i < ssize" using that(2) by simp
    then have "sb + i < length buf \<and> buf ! (sb + i) = medium dev (disk (cdi st d)) (p + (sb + i))"
      using pre that(1) unfolding loop_inv_def by blast
    then show ?thesis by (auto simp: e add.assoc)
  qed
  have "sb \<le> ssize" by (simp add: sb)
  then have "p + sb + (ssize - sb) \<le> sectors (cdi st1 d)" using pre by (simp add: loop_inv_def e)
  moreover have "d < disks st1" "2 \<le> blocks_total st1" using pre by (simp_all add: loop_inv_def e)
  ultimately show ?thesis using c f nxt buf unfolding goes_on_def loop_inv_def by simp
qed

lemma loop_step:
  assumes pre: "loop_inv dev d write p l cpos sb0 ssize buf st" and ne: "ssize \<noteq> 0"
    and sb: "sb = min ssize (if sb0 = 0 then sin32k (cdi st d) else sb0)"
    and safe: "round_safe st d l sb write"
  shows "\<exists>r. io_round dev d l sb write st = Some r \<and>
    (case r of Stop st1 \<Rightarrow> write = 0 \<and> \<not> full_device dev (cdi st d) \<and> kept_true (medium dev) {} st st1
     | Pass st1 \<Rightarrow> write \<noteq> 0 \<and> goes_on dev d write p l sb ssize buf st st1
     | Use b st1 \<Rightarrow> goes_on dev d write p l sb ssize buf st (round_end write d l b cpos sb buf st1) \<and>
         (write = 0 \<longrightarrow> copy_out b cpos sb (round_end write d l b cpos sb buf st1) =
            map (medium dev (disk (cdi st d))) [p..<p + sb]))"
proof -
  let ?m = "medium dev" and ?dsk = "disk (cdi st d)"
  have inv: "cache_inv st" and data: "data_ok ?m (pending write d p ssize) st" and tot: "2 \<le> blocks_total st"
    and p: "p = sector_of st d l cpos" and al: "cpos + (if sb0 = 0 then sin32k (cdi st d) else sb0) = sin32k (cdi st d)"
    and top: "p + ssize \<le> sectors (cdi st d)"
    using pre ne by (auto simp: loop_inv_def)
  have sb': "sb \<le> ssize" "cpos + sb \<le> sin32k (cdi st d)" using al by (auto simp: sb)
  define Y where "Y = (if write \<noteq> 0 \<and> sb = sin32k (cdi st d) then block_sectors st d l else {})"
  have sub: "pending write d p ssize \<union> Y = pending write d p ssize"
  proof -
    have "cpos = 0" if "sb = sin32k (cdi st d)" using sb'(2) that by simp
    then have "Y \<subseteq> pending write d p ssize" using p sb'(1) by (auto simp: Y_def block_sectors_def pending_def)
    then show ?thesis by blast
  qed
  obtain r where r: "io_round dev d l sb write st = Some r" "round_ok dev (pending write d p ssize) Y d l write st r"
    using io_round_ok [OF inv loop_range [OF pre ne] data safe tot] unfolding Y_def by blast
  show ?thesis
  proof (cases r)
    case (Stop st1)
    then show ?thesis using r by (auto simp: round_ok_def pending_def)
  next
    case (Pass st1)
    then have q: "write \<noteq> 0" "kept_true ?m (pending write d p ssize) st st1" "\<forall>x. block_place st1 x \<noteq> Some (d, l)"
      "free_total st \<le> free_total st1"
      using r(2) by (auto simp: round_ok_def)
    have "goes_on dev d write p l sb ssize buf st st1"
      by (rule goes_onI [OF pre ne sb]) (use pass_ok [OF q(2) [unfolded p] q(3) sb'(2)] p q(4) in simp_all)
    then show ?thesis using r(1) Pass q(1) by simp
  next
    case (Use b st1)
    then have q: "kept_true ?m (pending write d p ssize) st st1" "block_place st1 b = Some (d, l)" "free_total st \<le> Suc (free_total st1)"
      using r(2) unfolding round_ok_def sub by auto
    have "buf ! i = ?m ?dsk (p + i)" if "write \<noteq> 0" "i < sb" for i
      using pre that sb'(1) unfolding loop_inv_def by simp
    note re = round_end_ok [OF q(1) [unfolded p] q(2) sb'(2,1) this [unfolded p], folded p]
    let ?st3 = "round_end write d l b cpos sb buf st1"
    have "goes_on dev d write p l sb ssize buf st ?st3"
      by (rule goes_onI [OF pre ne sb re(1)]) (simp_all add: q(3) round_end_def mark_prio_def copy_in_def Let_def)
    moreover have "copy_out b cpos sb ?st3 = map (?m ?dsk) [p..<p + sb]" if "write = 0"
    proof -
      have f: "same_setup st ?st3" "data_ok ?m {} ?st3" using re(1) that by (auto simp: kept_true_def pending_def)
      note e = same_setup_range [OF f(1)]
      show ?thesis using copy_out_ok [OF f(2) re(2)] sb' top unfolding e p by simp
    qed
    ultimately show ?thesis using r(1) Use by simp
  qed
qed

lemma io_loop_ok:
  assumes "loop_inv dev d write p l cpos sb0 ssize buf st" "run_safe dev d write l cpos sb0 ssize buf st"
  shows "\<exists>n st'. io_loop dev d write l cpos sb0 ssize buf out st =
      Some (if write \<noteq> 0 then out else out @ map (medium dev (disk (cdi st d))) [p..<p + n], st') \<and>
    kept_true (medium dev) {} st st' \<and> n \<le> ssize \<and> (full_device dev (cdi st d) \<longrightarrow> n = ssize)"
  using assms
proof (induction ssize arbitrary: st p l cpos sb0 buf out rule: less_induct)
  case (less ssize)
  note pre = less.prems(1)
  let ?m = "medium dev" and ?dsk = "disk (cdi st d)"
  show ?case
  proof (cases "ssize = 0")
    case True
    have "kept_true ?m {} st st" using True pre by (simp add: kept_true_def loop_inv_def)
    then show ?thesis using True by (intro exI [of _ 0] exI [of _ st]) (simp add: io_loop.simps)
  next
    case False
    define sb where "sb = min ssize (if sb0 = 0 then sin32k (cdi st d) else sb0)"
    note go = io_loop_round [OF False, where dev = dev and d = d and wr = "write" and l = l and cpos = cpos and ?sb0.0 = sb0 and st = st
      and buf = buf and out = out, folded sb_def]
    note safe = less.prems(2) [unfolded run_safe_round [OF False], folded sb_def]
    note step = loop_step [OF pre False sb_def conjunct1 [OF safe]]
    have sb: "0 < sb" "sb \<le> ssize" using False by (auto simp: sb_def sin32k_def)
    have tail: "\<exists>n st'. io_loop dev d write (l + 1) 0 0 (ssize - sb) (drop sb buf) out' st1 =
        Some (if write \<noteq> 0 then out' else out' @ map (?m ?dsk) [p + sb..<p + sb + n], st') \<and>
        kept_true ?m {} st st' \<and> n \<le> ssize - sb \<and> (full_device dev (cdi st d) \<longrightarrow> n = ssize - sb)"
      if g: "goes_on dev d write p l sb ssize buf st st1"
        and s: "run_safe dev d write (l + 1) 0 0 (ssize - sb) (drop sb buf) st1" for st1 out'
    proof -
      have "ssize - sb < ssize" using sb False by simp
      moreover have "disk (cdi st1 d) = ?dsk" "same_setup st st1" using g by (auto simp: goes_on_def same_setup_def)
      ultimately show ?thesis
        using less.IH [OF _ _ s, of "p + sb" out'] g same_setup_trans [of st st1] full_device_setup [of st st1 dev d]
        unfolding goes_on_def kept_true_def by metis
    qed
    have join: "[p..<p + (sb + n)] = [p..<p + sb] @ [p + sb..<p + sb + n]" for n
      by (metis add.assoc le_add1 upt_add_eq_append)
    obtain r where r: "io_round dev d l sb write st = Some r" using step by blast
    show ?thesis
    proof (cases r)
      case (Stop st1)
      then show ?thesis using step r go by (intro exI [of _ 0] exI [of _ st1]) simp
    next
      case (Pass st1)
      then obtain n st' where n: "io_loop dev d write (l + 1) 0 0 (ssize - sb) (drop sb buf) out st1 =
        Some (if write \<noteq> 0 then out else out @ map (?m ?dsk) [p + sb..<p + sb + n], st')"
        "kept_true ?m {} st st'" "n \<le> ssize - sb" "full_device dev (cdi st d) \<longrightarrow> n = ssize - sb"
        using tail [of st1 out] step r safe by auto
      have "write \<noteq> 0" using step r Pass by simp
      then show ?thesis using n go r Pass sb(2) by (intro exI [of _ "sb + n"] exI [of _ st']) simp
    next
      case (Use b st1)
      define st3 where "st3 = round_end write d l b cpos sb buf st1"
      define out' where "out' = (if write \<noteq> 0 then out else out @ copy_out b cpos sb st3)"
      obtain n st' where n: "io_loop dev d write (l + 1) 0 0 (ssize - sb) (drop sb buf) out' st3 =
        Some (if write \<noteq> 0 then out' else out' @ map (?m ?dsk) [p + sb..<p + sb + n], st')"
        "kept_true ?m {} st st'" "n \<le> ssize - sb" "full_device dev (cdi st d) \<longrightarrow> n = ssize - sb"
        using tail [of st3 out'] step r safe Use by (auto simp: st3_def)
      have c: "write = 0 \<Longrightarrow> copy_out b cpos sb st3 = map (?m ?dsk) [p..<p + sb]" using step r Use by (simp add: st3_def)
      have eq1: "(if write \<noteq> 0 then out' else out' @ map (?m ?dsk) [p + sb..<p + sb + n]) =
        (if write \<noteq> 0 then out else out @ map (?m ?dsk) [p..<p + (sb + n)])"
        using c by (simp add: out'_def join)
      have eq2: "io_loop dev d write l cpos sb0 ssize buf out st =
        io_loop dev d write (l + 1) 0 0 (ssize - sb) (drop sb buf) out' st3"
        unfolding go r Use by (simp only: option.case round.case Let_def out'_def st3_def)
      have "io_loop dev d write l cpos sb0 ssize buf out st =
        Some (if write \<noteq> 0 then out else out @ map (?m ?dsk) [p..<p + (sb + n)], st')"
        unfolding eq2 n(1) eq1 by (rule refl)
      moreover have "sb + n \<le> ssize" "full_device dev (cdi st d) \<longrightarrow> sb + n = ssize" using n(3,4) sb(2) by auto
      ultimately show ?thesis using n(2) by blast
    qed
  qed
qed

section \<open>Enough free blocks\<close>

lemma round_safe_free:
  assumes inv: "cache_inv st" and rng: "in_range st d l" and free: "free_total st \<noteq> 0" and tot: "2 \<le> blocks_total st"
  shows "round_safe st d l sb write"
proof -
  obtain sl b where lb: "lookup_block st d l = Some (sl, b)" "first_of st d l sl"
    using lookup_ok [OF inv rng] unfolding first_of_def by blast
  have "sl = 0 \<or> pdi (bi st sl) \<noteq> None"
    using lb(2) place_used by (fastforce simp: first_of_def group_of_def used_def split: if_splits)
  moreover have "expand_free 1 st = Some st" using free tot by (simp add: expand_free_def)
  ultimately show ?thesis using lb(1) by (simp add: round_safe_def keeps_first_def)
qed

lemma run_safe_enough:
  assumes "loop_inv dev d write p l cpos sb0 ssize buf st" "cpos + ssize \<le> free_total st * sin32k (cdi st d)"
  shows "run_safe dev d write l cpos sb0 ssize buf st"
  using assms
proof (induction ssize arbitrary: st p l cpos sb0 buf rule: less_induct)
  case (less ssize)
  note pre = less.prems(1)
  show ?case
  proof (cases "ssize = 0")
    case True
    then show ?thesis by (simp add: run_safe.simps)
  next
    case False
    define sb where "sb = min ssize (if sb0 = 0 then sin32k (cdi st d) else sb0)"
    have "free_total st \<noteq> 0" using less.prems(2) False by (intro notI) simp
    then have safe: "round_safe st d l sb write"
      using round_safe_free loop_range [OF pre False] pre by (auto simp: loop_inv_def)
    note step = loop_step [OF pre False sb_def safe]
    have sb: "0 < sb" using False by (auto simp: sb_def sin32k_def)
    have al: "cpos + (if sb0 = 0 then sin32k (cdi st d) else sb0) = sin32k (cdi st d)"
      using pre False by (auto simp: loop_inv_def)
    have tail: "run_safe dev d write (l + 1) 0 0 (ssize - sb) (drop sb buf) st1"
      if g: "goes_on dev d write p l sb ssize buf st st1" for st1
    proof (rule less.IH)
      show "ssize - sb < ssize" using sb False by simp
      show "loop_inv dev d write (p + sb) (l + 1) 0 0 (ssize - sb) (drop sb buf) st1" using g by (simp add: goes_on_def)
      have e: "sin32k (cdi st1 d) = sin32k (cdi st d)" "free_total st \<le> Suc (free_total st1)"
        using g by (auto simp: goes_on_def same_setup_def sin32k_def)
      show "0 + (ssize - sb) \<le> free_total st1 * sin32k (cdi st1 d)"
      proof (cases "sb = ssize")
        case False
        then have "cpos + sb = sin32k (cdi st d)" using al by (auto simp: sb_def min_def split: if_splits)
        then have "sin32k (cdi st d) + (ssize - sb) \<le> free_total st * sin32k (cdi st d)"
          using less.prems(2) by (auto simp: sb_def)
        also have "\<dots> \<le> sin32k (cdi st d) + free_total st1 * sin32k (cdi st d)"
          using mult_le_mono1 [OF e(2), of "sin32k (cdi st d)"] by simp
        finally show ?thesis by (simp add: e(1))
      qed simp
    qed
    show ?thesis
      unfolding run_safe_round [OF False, where ?sb0.0 = sb0 and st = st and d = d, folded sb_def]
      using safe step tail by (auto split: round.split)
  qed
qed

end
