(* ===== verification/CacheDrop.thy ===== *)
theory CacheDrop
  imports CacheFree
begin

text \<open>Dropping the blocks of a range or of a whole disk, and the tables of a new cache.\<close>

section \<open>The walk over all blocks\<close>

definition at_place :: "(nat \<Rightarrow> nat \<Rightarrow> bool) \<Rightarrow> (nat \<times> nat) option \<Rightarrow> bool" where
  "at_place Q p \<longleftrightarrow> (case p of None \<Rightarrow> False | Some (d, l) \<Rightarrow> Q d l)"

lemma at_place_used: "at_place Q (block_place st b) \<Longrightarrow> used st b"
  by (auto simp: at_place_def used_place split: option.splits)

text \<open>The conditions of the loops look at the place of a block only.\<close>

definition by_place :: "(blockinfo \<Rightarrow> bool) \<Rightarrow> (nat \<Rightarrow> nat \<Rightarrow> bool) \<Rightarrow> bool" where
  "by_place P Q \<longleftrightarrow> (\<forall>b. P b \<longleftrightarrow> (case pdi b of None \<Rightarrow> False | Some d \<Rightarrow> Q d (loc b)))"

lemma by_place_at: "by_place P Q \<Longrightarrow> P (bi st b) \<longleftrightarrow> at_place Q (block_place st b)"
  by (auto simp: by_place_def at_place_def block_place_def split: option.splits)

lemma free_where_ok:
  assumes "cache_inv st" and P: "by_place P Q"
  shows "\<exists>st'. free_where n P False st = Some st' \<and> dropped {b. b < n \<and> at_place Q (block_place st b)} st st'"
  using assms(1)
proof (induction n arbitrary: st)
  case 0
  then show ?case using dropped_refl [OF 0] by simp
next
  case (Suc n)
  show ?case
  proof (cases "P (bi st n)")
    case True
    then have at: "at_place Q (block_place st n)" using by_place_at [OF P] by blast
    obtain st1 where st1: "free_bi_entry n False st = Some st1" "dropped {n} st st1"
      using free_entry_ok [OF Suc.prems at_place_used [OF at]] by blast
    then have "cache_inv st1" "block_place st1 = drop_place {n} st" by (auto simp: dropped_def)
    then obtain st' where st': "free_where n P False st1 = Some st'" "dropped {b. b < n \<and> at_place Q (drop_place {n} st b)} st1 st'"
      using Suc.IH by metis
    have "{n} \<union> {b. b < n \<and> at_place Q (drop_place {n} st b)} = {b. b < Suc n \<and> at_place Q (block_place st b)}"
      using at by (auto simp: drop_place_def at_place_def)
    then have "dropped {b. b < Suc n \<and> at_place Q (block_place st b)} st st'" using dropped_trans [OF st1(2) st'(2)] by simp
    then show ?thesis using st1(1) st'(1) True by simp
  next
    case False
    then have no: "\<not> at_place Q (block_place st n)" using by_place_at [OF P] by blast
    obtain st' where st': "free_where n P False st = Some st'" "dropped {b. b < n \<and> at_place Q (block_place st b)} st st'"
      using Suc by blast
    moreover have "{b. b < n \<and> at_place Q (block_place st b)} = {b. b < Suc n \<and> at_place Q (block_place st b)}"
      using no by (auto simp: less_Suc_eq)
    ultimately show ?thesis using False by simp
  qed
qed

text \<open>Without the chains: what the walk with \<open>ignore_snext\<close> leaves.\<close>

definition stripped :: "nat set \<Rightarrow> 'a cache_state \<Rightarrow> 'a cache_state \<Rightarrow> bool" where
  "stripped S st st' \<longleftrightarrow> base_inv st' \<and> same_setup st st' \<and> block_place st' = drop_place S st \<and> cdata st' = cdata st \<and>
    sn st' = sn st \<and> cdi st' = cdi st"

lemma free_entry_strip:
  assumes "base_inv st" "used st i"
  shows "\<exists>st'. free_bi_entry i True st = Some st' \<and> stripped {i} st st'"
proof -
  have "chain_only (taken_out i st) (taken_out i st)" by (simp add: chain_only_def)
  note b = free_entry_base [OF assms this]
  have "block_place (push_free i (taken_out i st)) = drop_place {i} st" by (auto simp: b(3) drop_place_def)
  moreover have "sn (push_free i (taken_out i st)) = sn st" "cdi (push_free i (taken_out i st)) = cdi st"
    using b(6,7) unlinked_views(3,4) by metis+
  ultimately have "stripped {i} st (push_free i (taken_out i st))"
    using b(1,2,4) unfolding stripped_def by blast
  then show ?thesis using free_bi_entry_used [OF assms(2), of True] by simp
qed

lemma stripped_trans: "stripped S st st1 \<Longrightarrow> stripped T st1 st2 \<Longrightarrow> stripped (S \<union> T) st st2"
  using same_setup_trans [of st st1 st2] by (auto simp: stripped_def drop_place_def fun_eq_iff)

lemma free_where_strip:
  assumes "base_inv st" and P: "by_place P Q"
  shows "\<exists>st'. free_where n P True st = Some st' \<and> stripped {b. b < n \<and> at_place Q (block_place st b)} st st'"
  using assms(1)
proof (induction n arbitrary: st)
  case 0
  then show ?case by (simp add: stripped_def drop_place_def)
next
  case (Suc n)
  show ?case
  proof (cases "P (bi st n)")
    case True
    then have at: "at_place Q (block_place st n)" using by_place_at [OF P] by blast
    obtain st1 where st1: "free_bi_entry n True st = Some st1" "stripped {n} st st1"
      using free_entry_strip [OF Suc.prems at_place_used [OF at]] by blast
    then have "base_inv st1" "block_place st1 = drop_place {n} st" by (auto simp: stripped_def)
    then obtain st' where st': "free_where n P True st1 = Some st'" "stripped {b. b < n \<and> at_place Q (drop_place {n} st b)} st1 st'"
      using Suc.IH by metis
    have "{n} \<union> {b. b < n \<and> at_place Q (drop_place {n} st b)} = {b. b < Suc n \<and> at_place Q (block_place st b)}"
      using at by (auto simp: drop_place_def at_place_def)
    then have "stripped {b. b < Suc n \<and> at_place Q (block_place st b)} st st'" using stripped_trans [OF st1(2) st'(2)] by simp
    then show ?thesis using st1(1) st'(1) True by simp
  next
    case False
    then have no: "\<not> at_place Q (block_place st n)" using by_place_at [OF P] by blast
    obtain st' where st': "free_where n P True st = Some st'" "stripped {b. b < n \<and> at_place Q (block_place st b)} st st'"
      using Suc by blast
    moreover have "{b. b < n \<and> at_place Q (block_place st b)} = {b. b < Suc n \<and> at_place Q (block_place st b)}"
      using no by (auto simp: less_Suc_eq)
    ultimately show ?thesis using False by simp
  qed
qed

section \<open>The arrays of the disks\<close>

lemma cdi_bits_base:
  assumes "base_inv st" "same_setup st (st\<lparr>cdi := c\<rparr>)"
  shows "base_inv (st\<lparr>cdi := c\<rparr>)"
proof -
  let ?st' = "st\<lparr>cdi := c\<rparr>"
  have v: "block_place ?st' = block_place st" "used ?st' = used st" by (auto simp: block_place_def used_def fun_eq_iff)
  note ic = assms(1) [unfolded base_inv_def]
  obtain r where "ring st r" using ic by blast
  then have "ring ?st' r" unfolding ring_def v by simp
  moreover obtain fl where "free_queue st fl" using ic by blast
  then have "free_queue ?st' fl" unfolding free_queue_def v by simp
  moreover have "index_ok ?st'"
  proof -
    have k: "idx_key ?st' = idx_key st" by (rule same_setup_eqs(3) [OF assms(2)])
    have a: "a_shift ?st' = a_shift st" "blocks_total ?st' = blocks_total st" "cidxa ?st' = cidxa st" by simp_all
    have "index_ok st" using ic by blast
    then show ?thesis unfolding index_ok_def v k a .
  qed
  moreover have "places_ok ?st'" by (rule places_ok_less [OF _ assms(2)]) (use ic v in auto)
  moreover have "geometry ?st'" using ic same_setup_eqs(2) [OF assms(2)] by blast
  ultimately show ?thesis unfolding base_inv_def by blast
qed

definition clear_bits :: "nat \<Rightarrow> 'a cache_state \<Rightarrow> 'a cache_state" where
  "clear_bits d st = st\<lparr>cdi := (cdi st)(d := (cdi st d)\<lparr>bits := (\<lambda>_. False)\<rparr>)\<rparr>"

lemma clear_disk_ok:
  assumes inv: "cache_inv st" and s: "stripped {b. at_place (\<lambda>e l. e = d) (block_place st b)} st st1"
  shows "cache_inv (clear_bits d st1)" "same_setup st (clear_bits d st1)"
    "block_place (clear_bits d st1) = drop_place {b. at_place (\<lambda>e l. e = d) (block_place st b)} st" "cdata (clear_bits d st1) = cdata st"
proof -
  let ?S = "{b. at_place (\<lambda>e l. e = d) (block_place st b)}" and ?st' = "clear_bits d st1"
  have f: "base_inv st1" "same_setup st st1" "block_place st1 = drop_place ?S st" "cdata st1 = cdata st" "sn st1 = sn st" "cdi st1 = cdi st"
    using s by (auto simp: stripped_def)
  have s1: "same_setup st1 ?st'" by (simp add: clear_bits_def same_setup_def)
  show "same_setup st ?st'" using same_setup_trans [OF f(2) s1] .
  show pl: "block_place ?st' = drop_place ?S st" using f(3) by (auto simp: clear_bits_def block_place_def fun_eq_iff)
  show "cdata ?st' = cdata st" using f(4) by (simp add: clear_bits_def)
  have v: "sn ?st' = sn st" "a_shift ?st' = a_shift st" using f(2,5) by (auto simp: clear_bits_def same_setup_def)
  have ch: "chains (sn st) (a_shift st) (block_place st) (\<lambda>d. bitmap_bit (cdi st d))" using inv by (simp add: cache_inv_base)
  have "\<exists>c. cyc (sn st) c \<and> set c = group_at (a_shift st) (drop_place ?S st) e g \<and> (c \<noteq> [] \<longrightarrow> bitmap_bit (cdi ?st' e) g)" for e g
  proof (cases "e = d")
    case True
    then have "group_at (a_shift st) (drop_place ?S st) e g = {}"
      by (auto simp: group_at_def drop_place_def at_place_def)
    then show ?thesis by (intro exI [of _ "[]"]) (simp add: cyc_def)
  next
    case False
    then have "group_at (a_shift st) (drop_place ?S st) e g = group_at (a_shift st) (block_place st) e g"
      by (auto simp: group_at_def drop_place_def at_place_def)
    moreover have "cdi ?st' e = cdi st e" using False f(6) by (simp add: clear_bits_def)
    ultimately show ?thesis using chainsD [OF ch, of e g] by simp
  qed
  then have "chains (sn ?st') (a_shift ?st') (block_place ?st') (\<lambda>d. bitmap_bit (cdi ?st' d))"
    unfolding chains_def v pl by blast
  moreover have "base_inv ?st'" unfolding clear_bits_def by (rule cdi_bits_base [OF f(1)]) (simp add: same_setup_def)
  ultimately show "cache_inv ?st'" by (simp add: cache_inv_base)
qed

section \<open>A new cache\<close>

lemma free_seg_range: "0 < a \<Longrightarrow> a < n \<Longrightarrow> free_seg (\<lambda>ii. if ii = 0 \<or> ii = n - 1 then 0 else ii + 1) a [a..<n]"
proof (induction "n - a" arbitrary: a)
  case (Suc k)
  show ?case
  proof (cases "a = n - 1")
    case True
    then have "[a..<n] = [a]" using Suc.prems by (simp add: upt_rec)
    then show ?thesis using True Suc.prems by simp
  next
    case False
    then have "[a..<n] = a # [Suc a..<n]" using Suc.prems by (simp add: upt_rec)
    moreover have "free_seg (\<lambda>ii. if ii = 0 \<or> ii = n - 1 then 0 else ii + 1) (Suc a) [Suc a..<n]"
      using Suc False by simp
    ultimately show ?thesis using False Suc.prems by simp
  qed
qed simp

lemma init_blocks_ok:
  assumes geo: "geometry st" and n: "2 \<le> n"
  shows "cache_inv (init_blocks n st)" "block_place (init_blocks n st) b = None" "free_total (init_blocks n st) = n - 1"
    "same_setup (st\<lparr>cache_on := True, blocks_total := n\<rparr>) (init_blocks n st)"
proof -
  let ?st = "init_blocks n st"
  have pl: "block_place ?st = (\<lambda>_. None)" and us: "used ?st = (\<lambda>_. False)"
    by (auto simp: init_blocks_def block_place_def used_def fun_eq_iff)
  show "block_place ?st b = None" by (simp add: pl)
  show "free_total ?st = n - 1" by (simp add: init_blocks_def)
  show s: "same_setup (st\<lparr>cache_on := True, blocks_total := n\<rparr>) ?st" by (simp add: init_blocks_def same_setup_def)
  have "ring ?st []" unfolding ring_def us by (simp add: init_blocks_def)
  moreover have "free_queue ?st [1..<n]"
  proof -
    have e: "nx ?st = (\<lambda>ii. if ii = 0 \<or> ii = n - 1 then 0 else ii + 1)" by (auto simp: init_blocks_def)
    have "free_seg (nx ?st) 1 [1..<n]" unfolding e using n by (intro free_seg_range) auto
    then show ?thesis unfolding free_queue_def us by (auto simp: init_blocks_def)
  qed
  moreover have "index_ok ?st" unfolding index_ok_def us pl by (simp add: init_blocks_def)
  moreover have "places_ok ?st" unfolding places_ok_def pl by simp
  moreover have "geometry ?st" using geo by (simp add: geometry_def disks_def init_blocks_def)
  moreover have "chains (sn ?st) (a_shift ?st) (block_place ?st) (\<lambda>d. bitmap_bit (cdi ?st d))"
    unfolding chains_def pl group_at_def by (intro allI exI [of _ "[]"]) (simp add: cyc_def)
  ultimately show "cache_inv ?st" unfolding cache_inv_views by blast
qed

end
