(* ===== verification/CacheSpec.thy ===== *)
theory CacheSpec
  imports CacheIo CacheDrop
begin

text \<open>
  What the operations of the cache promise: reads deliver the sectors of the disk and writes keep the
  cached copies true, as long as no round drops the first block of the group it adds to; and what happens
  when one does.
\<close>

section \<open>Requests\<close>

definition coherent :: "(u32 \<Rightarrow> nat \<Rightarrow> 'a) \<Rightarrow> 'a cache_state \<Rightarrow> bool" where
  "coherent m st \<longleftrightarrow> cache_inv st \<and> 2 \<le> blocks_total st \<and> data_ok m {} st"

lemma first_left_eq:
  assumes "sh \<le> 15"
  shows "first_left sh pos = 2 ^ sh - 1 - (pos + (2 ^ sh - 1)) mod 2 ^ sh"
proof -
  define x :: u32 where "x = of_nat (pos + (2 ^ sh - 1))"
  have m: "push_bit sh 1 - 1 = (mask sh :: u32)" by (simp add: mask_eq_exp_minus_1 push_bit_eq_mult)
  have c: "of_nat (2 ^ sh - 1) = (mask sh :: u32)" by (simp add: mask_eq_exp_minus_1 of_nat_diff)
  have x: "x = of_nat pos + mask sh" by (simp only: x_def of_nat_add c)
  then have xe: "(of_nat pos + push_bit sh 1 - 1 :: u32) = x" using m by (metis add_diff_eq)
  have np: "(of_nat pos :: u32) = x - mask sh" by (simp add: x)
  have "(x AND NOT (mask sh)) + take_bit sh x = (x AND NOT (mask sh)) OR take_bit sh x"
    by (rule disjunctive_add) (auto simp: bit_simps)
  also have "\<dots> = x" by (rule bit_eqI) (auto simp: bit_simps)
  finally have "x AND NOT (mask sh) = x - take_bit sh x" by (metis add_diff_cancel_right')
  then have e: "(x AND NOT (push_bit sh 1 - 1)) - of_nat pos = mask sh - take_bit sh x"
    unfolding m np by simp
  have "take_bit sh x \<le> mask sh" by (simp add: take_bit_eq_mask word_and_le1)
  then have "unat (mask sh - take_bit sh x) = unat (mask sh :: u32) - unat (take_bit sh x)" by (rule unat_sub)
  moreover have "unat (mask sh :: u32) = 2 ^ sh - 1"
  proof -
    have small: "unat (of_nat N :: u32) = N" if "N < 2 ^ 32" for N using that by (simp add: unat_of_nat take_bit_eq_mod)
    have "(2::nat) ^ sh \<le> 2 ^ 15" using assms by (intro power_increasing) auto
    then have "(2 ^ sh - 1 :: nat) < 2 ^ 32" by simp
    from small [OF this] show ?thesis by (simp only: c)
  qed
  moreover have "unat (take_bit sh x) = (pos + (2 ^ sh - 1)) mod 2 ^ sh"
  proof -
    have "unat (take_bit sh x) = take_bit sh (unat x)" by (rule unsigned_take_bit_eq)
    also have "unat x = take_bit 32 (pos + (2 ^ sh - 1))" by (simp add: x_def unsigned_of_nat)
    also have "take_bit sh \<dots> = take_bit sh (pos + (2 ^ sh - 1))" using assms by (simp add: min_def)
    finally show ?thesis by (simp add: take_bit_eq_mod)
  qed
  ultimately show ?thesis unfolding first_left_def xe e by simp
qed

lemma first_left_ok:
  assumes "sh \<le> 15"
  shows "take_bit sh pos + (if first_left sh pos = 0 then 2 ^ sh else first_left sh pos) = 2 ^ sh"
proof -
  define S c q where "S = (2 ^ sh :: nat)" and "c = pos mod S" and "q = pos div S"
  have S: "0 < S" "c < S" "pos = q * S + c"
    by (simp_all only: S_def c_def q_def div_mult_mod_eq) simp_all
  show ?thesis
  proof (cases "c = 0")
    case True
    have "pos + (S - 1) = q * S + (S - 1)" "S - 1 < S" using S True by simp_all
    then have "(pos + (S - 1)) mod S = S - 1" by (metis mod_less mod_mult_self3)
    then show ?thesis using True by (simp add: first_left_eq [OF assms] take_bit_eq_mod flip: S_def c_def)
  next
    case False
    have "pos + (S - 1) = (q + 1) * S + (c - 1)" using S False by (simp add: algebra_simps)
    moreover have "c - 1 < S" using S by simp
    ultimately have "(pos + (S - 1)) mod S = c - 1" by (metis mod_less mod_mult_self3)
    then show ?thesis using False S(2) by (simp add: first_left_eq [OF assms] take_bit_eq_mod flip: S_def c_def)
  qed
qed

text \<open>A run of \<open>cache_io\<close> has room when there are blocks enough, or when none of its rounds takes the first block
  of the group it adds to.\<close>

definition io_start :: "nat \<Rightarrow> nat \<Rightarrow> 'a cache_state \<Rightarrow> 'a cache_state" where
  "io_start write n st = (if write = 0 then st\<lparr>cache_total := cache_total st + n\<rparr> else st)"

definition room :: "'a device \<Rightarrow> nat \<Rightarrow> nat \<Rightarrow> nat \<Rightarrow> 'a list \<Rightarrow> nat \<Rightarrow> 'a cache_state \<Rightarrow> bool" where
  "room dev d pos n buf write st \<longleftrightarrow>
    take_bit (s32shift (cdi st d)) pos + n \<le> free_total st * sin32k (cdi st d) \<or>
    run_safe dev d write (drop_bit (s32shift (cdi st d)) pos) (take_bit (s32shift (cdi st d)) pos)
      (first_left (s32shift (cdi st d)) pos) n buf (io_start write n st)"

lemma cache_io_ok:
  assumes inv: "cache_inv st" and tot: "2 \<le> blocks_total st" and d: "d < disks st" and n: "pos + n \<le> sectors (cdi st d)"
    and data: "data_ok (medium dev) (pending write d pos n) st"
    and buf: "write \<noteq> 0 \<Longrightarrow> \<forall>i < n. i < length buf \<and> buf ! i = medium dev (disk (cdi st d)) (pos + i)"
    and room: "room dev d pos n buf write st"
  shows "\<exists>k st'. cache_io dev d pos n buf write st =
      Some (if write \<noteq> 0 then [] else map (medium dev (disk (cdi st d))) [pos..<pos + k], st') \<and>
    coherent (medium dev) st' \<and> same_setup st st' \<and> k \<le> n \<and> (full_device dev (cdi st d) \<longrightarrow> k = n)"
proof -
  let ?sh = "s32shift (cdi st d)"
  define st1 where "st1 = io_start write n st"
  have q: "quiet st st1" unfolding st1_def io_start_def using hits_quiet(2) [OF inv] quiet_refl [OF inv] by simp
  have f: "cdi st1 = cdi st" "disks st1 = disks st" "blocks_total st1 = blocks_total st" "free_total st1 = free_total st"
    by (simp_all add: st1_def io_start_def disks_def)
  have sh: "?sh \<le> 15" using inv d by (simp add: cache_inv_def geometry_def)
  have p: "pos = sector_of st1 d (drop_bit ?sh pos) (take_bit ?sh pos)"
    unfolding f push_bit_eq_mult drop_bit_eq_div take_bit_eq_mod by (rule div_mult_mod_eq [symmetric])
  have k1: "kept_true (medium dev) (pending write d pos n) st st1" by (rule quiet_sound [OF q data])
  have pre: "loop_inv dev d write pos (drop_bit ?sh pos) (take_bit ?sh pos) (first_left ?sh pos) n buf st1"
  proof -
    have "take_bit ?sh pos + (if first_left ?sh pos = 0 then sin32k (cdi st1 d) else first_left ?sh pos) = sin32k (cdi st1 d)"
      using first_left_ok [OF sh, of pos] by (simp only: f sin32k_def)
    then show ?thesis using k1 tot d n buf p unfolding loop_inv_def kept_true_def f by blast
  qed
  have safe: "run_safe dev d write (drop_bit ?sh pos) (take_bit ?sh pos) (first_left ?sh pos) n buf st1"
    using room run_safe_enough [OF pre] unfolding room_def f st1_def [symmetric] by blast
  have e: "cache_io dev d pos n buf write st =
    io_loop dev d write (drop_bit ?sh pos) (take_bit ?sh pos) (first_left ?sh pos) n buf [] st1"
    by (simp add: cache_io_def Let_def st1_def io_start_def)
  obtain k st' where k: "cache_io dev d pos n buf write st =
      Some (if write \<noteq> 0 then [] else [] @ map (medium dev (disk (cdi st d))) [pos..<pos + k], st')"
    "kept_true (medium dev) {} st1 st'" "k \<le> n" "full_device dev (cdi st d) \<longrightarrow> k = n"
    using io_loop_ok [OF pre safe, of "[]"] unfolding e f by blast
  have "coherent (medium dev) st'" "same_setup st st'"
    using k(2) tot f(3) same_setup_trans [of st st1 st'] q by (auto simp: coherent_def kept_true_def same_setup_def quiet_def)
  then show ?thesis using k by auto
qed

section \<open>Reads and writes\<close>

lemma get_di_disks: "get_di st dsk = Some d \<Longrightarrow> d < disks st"
  by (auto simp: get_di_def Let_def disks_def split: if_splits)

definition accepted :: "'a cache_state \<Rightarrow> u32 \<Rightarrow> nat \<Rightarrow> nat \<Rightarrow> nat \<Rightarrow> bool" where
  "accepted st dsk pos n d \<longleftrightarrow> cache_on st \<and> get_di st dsk = Some d \<and> enabled (cdi st d) \<and> n \<noteq> 0 \<and>
    pos + n \<le> sectors (cdi st d) \<and> drop_bit (s32shift (cdi st d)) n \<le> blocks_total st div 2"

lemma cache_read_accepted: "accepted st dsk pos n d \<Longrightarrow> cache_read dev dsk pos n st = cache_io dev d pos n [] 0 st"
  by (auto simp: accepted_def cache_read_def)

lemma disk_same:
  assumes "cache_inv st" "d < disks st" "0 < sectors (cdi st d)" "block_place st b = Some (e, l)"
  shows "disk (cdi st e) = disk (cdi st d) \<longleftrightarrow> e = d"
  using assms inv_place(4,5) [OF assms(1,4)] by (auto simp: cache_inv_def geometry_def)

lemma written_data:
  assumes co: "coherent (medium dev) st" and d: "d < disks st" and w: "write \<noteq> 0" and rc: "pos + rc \<le> sectors (cdi st d)"
  shows "data_ok (medium (disk_write (disk (cdi st d)) pos rc buf dev)) (pending write d pos rc) st"
  unfolding data_ok_def
proof (intro allI impI, elim conjE)
  fix b e l i
  assume b: "block_place st b = Some (e, l)" and i: "i < sin32k (cdi st e)" "sector_of st e l i < sectors (cdi st e)"
    and x: "(e, sector_of st e l i) \<notin> pending write d pos rc"
  have inv: "cache_inv st" and data: "data_ok (medium dev) {} st" using co by (auto simp: coherent_def)
  have "0 < sectors (cdi st d) \<Longrightarrow> disk (cdi st e) = disk (cdi st d) \<Longrightarrow> e = d"
    using disk_same [OF inv d _ b] by simp
  moreover have "0 < sectors (cdi st d) \<or> rc = 0" using rc by auto
  ultimately have "medium (disk_write (disk (cdi st d)) pos rc buf dev) (disk (cdi st e)) (sector_of st e l i) =
      medium dev (disk (cdi st e)) (sector_of st e l i)"
    using x w by (auto simp: disk_write_def pending_def)
  then show "cdata st b i = medium (disk_write (disk (cdi st d)) pos rc buf dev) (disk (cdi st e)) (sector_of st e l i)"
    using data b i unfolding data_ok_def by simp
qed

lemma cache_write_accepted:
  fixes written :: "nat \<Rightarrow> nat"
  assumes "accepted st dsk pos (length buf) d"
  defines "rc \<equiv> min (written (length buf)) (length buf)"
  shows "cache_write written dsk pos buf dev st =
    (let dev1 = disk_write (disk (cdi st d)) pos rc buf dev in
     if rc \<noteq> 0 then map_option (\<lambda>r. (rc, dev1, snd r)) (cache_io dev1 d pos rc buf (if dsk AND QDSK_DIRECT \<noteq> 0 then 2 else 1) st)
     else Some (0, dev1, st))"
proof -
  have a: "cache_on st" "get_di st dsk = Some d" "enabled (cdi st d)" "length buf \<noteq> 0"
    "pos + length buf \<le> sectors (cdi st d)" "\<not> blocks_total st div 2 < drop_bit (s32shift (cdi st d)) (length buf)"
    using assms(1) unfolding accepted_def by simp_all
  have b: "\<not> sectors (cdi st d) \<le> pos" "\<not> sectors (cdi st d) < pos + length buf" using a(4,5) by linarith+
  show ?thesis using a(1-4,6) b unfolding cache_write_def rc_def by (simp add: Let_def)
qed

lemma cache_write_ok:
  fixes dev :: "'a device" and written :: "nat \<Rightarrow> nat"
  defines "w dsk \<equiv> (if dsk AND QDSK_DIRECT \<noteq> 0 then 2 else 1 :: nat)"
  assumes co: "coherent (medium dev) st" and acc: "accepted st dsk pos n d"
    and rc: "rc = min (written n) n" and dev1: "dev1 = disk_write (disk (cdi st d)) pos rc buf dev"
    and len: "length buf = n" and room: "room dev1 d pos rc buf (w dsk) st"
  shows "\<exists>st'. cache_write written dsk pos buf dev st = Some (rc, dev1, st') \<and> coherent (medium dev1) st' \<and> same_setup st st'"
proof -
  have inv: "cache_inv st" and tot: "2 \<le> blocks_total st" using co by (auto simp: coherent_def)
  have d: "d < disks st" and top: "pos + rc \<le> sectors (cdi st d)"
    using acc get_di_disks rc by (auto simp: accepted_def)
  have w: "w dsk \<noteq> 0" by (simp add: w_def)
  note wd = written_data [OF co d w top, of buf, folded dev1]
  note e = cache_write_accepted [of st dsk pos buf d written dev, unfolded len, OF acc, folded rc, folded dev1, folded w_def]
  show ?thesis
  proof (cases "rc = 0")
    case True
    then have "dev1 = disk_write (disk (cdi st d)) pos 0 buf dev" using dev1 by simp
    then have "medium dev1 = medium dev" by (auto simp: disk_write_def fun_eq_iff)
    then show ?thesis using e True co by (simp add: Let_def)
  next
    case False
    have "\<forall>i < rc. i < length buf \<and> buf ! i = medium dev1 (disk (cdi st d)) (pos + i)"
      using rc len by (auto simp: dev1 disk_write_def)
    then obtain k st' where "cache_io dev1 d pos rc buf (w dsk) st =
        Some (if w dsk \<noteq> 0 then [] else map (medium dev1 (disk (cdi st d))) [pos..<pos + k], st')"
      "coherent (medium dev1) st'" "same_setup st st'"
      using cache_io_ok [OF inv tot d top wd _ room] by blast
    then show ?thesis using e False by (simp add: Let_def)
  qed
qed

text \<open>C35: As long as a request finds room without dropping the first block of a group it adds to, a read of the cache
  delivers exactly the sectors of the disk, all of them when the disk can be read, and a write, cached or direct,
  complete or cut short by the device, leaves no cached sector that differs from the disk.\<close>

theorem cache_coherent:
  fixes dev :: "'a device"
  assumes "coherent (medium dev) st" "accepted st dsk pos n d"
  shows "(room dev d pos n [] 0 st \<longrightarrow>
      (\<exists>k st'. cache_read dev dsk pos n st = Some (map (medium dev (disk (cdi st d))) [pos..<pos + k], st') \<and>
         coherent (medium dev) st' \<and> same_setup st st' \<and> k \<le> n \<and> (full_device dev (cdi st d) \<longrightarrow> k = n))) \<and>
    (\<forall>buf written. let rc = min (written n) n; dev1 = disk_write (disk (cdi st d)) pos rc buf dev in
      length buf = n \<and> room dev1 d pos rc buf (if dsk AND QDSK_DIRECT \<noteq> 0 then 2 else 1) st \<longrightarrow>
      (\<exists>st'. cache_write written dsk pos buf dev st = Some (rc, dev1, st') \<and>
         coherent (medium dev1) st' \<and> same_setup st st'))"
proof -
  have inv: "cache_inv st" and tot: "2 \<le> blocks_total st" and data: "data_ok (medium dev) (pending 0 d pos n) st"
    using assms(1) by (auto simp: coherent_def pending_def)
  have d: "d < disks st" and top: "pos + n \<le> sectors (cdi st d)"
    using assms(2) get_di_disks by (auto simp: accepted_def)
  show ?thesis
    using cache_io_ok [OF inv tot d top data, of "[]"] cache_read_accepted [OF assms(2), of dev] cache_write_ok [OF assms]
    unfolding Let_def by simp
qed

section \<open>Dropping blocks\<close>

lemma blocks_all:
  assumes "cache_inv st"
  shows "{b. b < blocks_total st \<and> at_place Q (block_place st b)} = {b. at_place Q (block_place st b)}"
  using inv_place(2) [OF assms] by (auto simp: at_place_def split: option.splits)

definition hit_blocks :: "'a cache_state \<Rightarrow> nat \<Rightarrow> nat \<Rightarrow> nat \<Rightarrow> nat set" where
  "hit_blocks st d lo hi = {b. \<exists>l. block_place st b = Some (d, l) \<and> lo \<le> l \<and> l \<le> hi}"

lemma hit_blocks_at:
  assumes inv: "cache_inv st" and d: "d < disks st" "0 < sectors (cdi st d)"
  shows "{b. at_place (\<lambda>e l. disk (cdi st e) = disk (cdi st d) \<and> lo \<le> l \<and> l \<le> hi) (block_place st b)} = hit_blocks st d lo hi"
  unfolding hit_blocks_def
  by (rule Collect_cong) (auto simp: at_place_def disk_same [OF inv d] split: option.split)

lemma cc_invalidate_drops:
  assumes inv: "cache_inv st" and d: "get_di st dsk = Some d" "disk (cdi st d) = dsk"
    and on: "cache_on st" "valid (cdi st d)" "start \<le> sectors (cdi st d)"
    and n: "n = min sz (sectors (cdi st d) - start)"
  shows "\<exists>st'. cc_invalidate dsk start sz st = Some st' \<and> cache_inv st' \<and> same_setup st st' \<and> cdata st' = cdata st \<and>
    block_place st' = drop_place (hit_blocks st d (drop_bit (s32shift (cdi st d)) start) (last_loc (s32shift (cdi st d)) start n)) st"
proof -
  let ?sh = "s32shift (cdi st d)" and ?sec = "sectors (cdi st d)"
  let ?lo = "drop_bit ?sh start" and ?hi = "last_loc ?sh start n"
  have d0: "d < disks st" using get_di_disks [OF d(1)] .
  then have dd: "d < disks st" "0 < sectors (cdi st d)" using inv on(2) by (auto simp: cache_inv_def geometry_def)
  have sz: "(if start + sz > ?sec then ?sec - start else sz) = n" using n on(3) by auto
  show ?thesis
  proof (cases "start = 0 \<and> n = ?sec")
    case full: True
    let ?Q = "\<lambda>e l. disk (cdi st e) = dsk"
    have P: "by_place (block_of st dsk) ?Q" by (auto simp: by_place_def block_of_def split: option.splits)
    have base: "base_inv st" using inv by (simp add: cache_inv_base)
    have all: "{b. at_place ?Q (block_place st b)} = {b. at_place (\<lambda>e l. e = d) (block_place st b)}"
      by (rule Collect_cong) (auto simp: at_place_def disk_same [OF inv dd] d(2) [symmetric] split: option.split)
    obtain st1 where st1: "free_where (blocks_total st) (block_of st dsk) True st = Some st1"
      "stripped {b. at_place (\<lambda>e l. e = d) (block_place st b)} st st1"
      using free_where_strip [OF base P, of "blocks_total st"] unfolding blocks_all [OF inv] all by blast
    have "l \<le> ?hi" if "block_place st b = Some (d, l)" for b l
      using inv_place(5) [OF inv that] full
      by (auto simp: last_loc_def push_bit_eq_mult drop_bit_eq_div less_eq_div_iff_mult_less_eq)
    then have "{b. at_place (\<lambda>e l. e = d) (block_place st b)} = hit_blocks st d ?lo ?hi"
      using full by (auto simp: at_place_def hit_blocks_def split: option.splits)
    moreover have "cc_invalidate dsk start sz st = Some (clear_bits d st1)"
      unfolding cc_invalidate_def d(1) option.case Let_def sz using st1(1) full on by (simp add: clear_bits_def)
    ultimately show ?thesis using clear_disk_ok [OF inv st1(2)] by simp
  next
    case False
    let ?P = "\<lambda>b. block_of st dsk b \<and> ?lo \<le> loc b \<and> loc b \<le> ?hi"
    let ?Q = "\<lambda>e l. disk (cdi st e) = disk (cdi st d) \<and> ?lo \<le> l \<and> l \<le> ?hi"
    have P: "by_place ?P ?Q" using d(2) by (auto simp: by_place_def block_of_def split: option.splits)
    obtain st' where st': "free_where (blocks_total st) ?P False st = Some st'" "dropped (hit_blocks st d ?lo ?hi) st st'"
      using free_where_ok [OF inv P, of "blocks_total st"] unfolding blocks_all [OF inv] hit_blocks_at [OF inv dd] by blast
    have "cc_invalidate dsk start sz st = Some st'"
      unfolding cc_invalidate_def d(1) option.case Let_def sz if_not_P [OF False] using st'(1) on by simp
    then show ?thesis using st'(2) by (auto simp: dropped_def)
  qed
qed


section \<open>A new cache, and one that runs full\<close>

lemma cc_setsize_coherent:
  assumes geo: "geometry (st\<lparr>a_shift := 3\<rparr>)"
    and n: "n = min (min (size_mb * 16 mod 2 ^ 32) (drop_bit 16 availmax div 2)) 16384" "1 \<le> n"
  shows "coherent m (cc_setsize size_mb availmax True st)"
    "free_total (cc_setsize size_mb availmax True st) = n * 2 - 1"
proof -
  define st1 where "st1 = (if blocks_total st \<noteq> 0 \<or> cache_on st then cache_off st else st)\<lparr>a_shift := 3\<rparr>"
  have geo1: "geometry st1" using geo by (simp add: st1_def geometry_def disks_def cache_off_def)
  have "size_mb \<noteq> 0" using n by (cases size_mb) auto
  then have e: "cc_setsize size_mb availmax True st = init_blocks (n * 2) st1"
    by (simp add: cc_setsize_def st1_def n(1) Let_def)
  have two: "2 \<le> n * 2" using n(2) by simp
  note i = init_blocks_ok [OF geo1 two]
  show "coherent m (cc_setsize size_mb availmax True st)" unfolding e coherent_def
    using i(1,2) two by (simp add: data_ok_def init_blocks_def)
  show "free_total (cc_setsize size_mb availmax True st) = n * 2 - 1" unfolding e by (rule i(3))
qed

datatype 'a request = Read nat nat | Write nat "'a list"

fun serve_all :: "u32 \<Rightarrow> 'a request list \<Rightarrow> 'a device \<Rightarrow> 'a cache_state \<Rightarrow> ('a list list \<times> 'a device \<times> 'a cache_state) option" where
  "serve_all dsk [] dev st = Some ([], dev, st)"
| "serve_all dsk (Read pos n # rs) dev st =
    (case cache_read dev dsk pos n st of None \<Rightarrow> None
     | Some (out, st1) \<Rightarrow> map_option (\<lambda>(outs, r). (out # outs, r)) (serve_all dsk rs dev st1))"
| "serve_all dsk (Write pos buf # rs) dev st =
    (case cache_write (\<lambda>n. n) dsk pos buf dev st of None \<Rightarrow> None
     | Some (rc, dev1, st1) \<Rightarrow> serve_all dsk rs dev1 st1)"

text \<open>One disk of twelve blocks of eight sectors, the number of a sector its contents.\<close>

definition demo_disk :: diskinfo where
  "demo_disk = \<lparr>sectors = 96, s32shift = 3, enabled = True, valid = True, disk = 0, bits = (\<lambda>_. False), bm_ofs = 64\<rparr>"

definition demo_boot :: "nat cache_state" where
  "demo_boot = \<lparr>cdi = (\<lambda>_. demo_disk), cdi_hdds = 1, cdi_fdds = 0, cache_on = False, cdata = (\<lambda>_ _. 0), cidxa = (\<lambda>_. 0),
     freehead = 0, cachehead = 0, bi = (\<lambda>_. \<lparr>b_prev = 0, b_next = 0, snext = 0, bi_prio = False, loc = 0, pdi = None\<rparr>),
     a_shift = 0, dn_bits = 1, blocks_total = 0, free_total = 0, cache_hits = 0, cache_total = 0\<rparr>"

definition demo_dev :: "nat device" where
  "demo_dev = \<lparr>medium = (\<lambda>_ i. i), readable = (\<lambda>_ _ n. n)\<rparr>"

definition demo_cache :: "nat \<Rightarrow> nat cache_state" where
  "demo_cache blocks = cc_setsize 1 (blocks * 32768) True demo_boot"

lemma demo_geometry: "geometry (demo_boot\<lparr>a_shift := 3\<rparr>)"
  by (simp add: geometry_def demo_boot_def demo_disk_def disks_def drop_bit_eq_div)

lemma demo_coherent: "coherent m (demo_cache 8)" "free_total (demo_cache 8) = 3"
  using cc_setsize_coherent [OF demo_geometry refl, of 1 "8 * 32768"] by (simp_all add: demo_cache_def drop_bit_eq_div)

lemma demo_full: "full_device demo_dev di"
  by (simp add: full_device_def demo_dev_def)

lemma demo_start: "demo_cache 8 = init_blocks 4 (demo_boot\<lparr>a_shift := 3\<rparr>)"
  by (simp add: demo_cache_def cc_setsize_def demo_boot_def Let_def drop_bit_eq_div)

lemma demo_accepted: "accepted (demo_cache 8) 0 0 1 0"
  unfolding demo_start by code_simp

lemma demo_disk_state: "get_di (demo_cache 8) 0 = Some 0" "disk (cdi (demo_cache 8) 0) = 0" "cache_on (demo_cache 8)"
  "valid (cdi (demo_cache 8) 0)" "s32shift (cdi (demo_cache 8) 0) = 3"
  unfolding demo_start by code_simp+

lemma cache_coherent_witness:
  "\<exists>k st'. cache_read demo_dev 0 0 1 (demo_cache 8) = Some (map (medium demo_dev 0) [0..<k], st') \<and>
     coherent (medium demo_dev) st' \<and> k = 1"
proof -
  have "room demo_dev 0 0 1 [] 0 (demo_cache 8)"
    using demo_coherent(2) demo_disk_state(5) by (simp add: room_def sin32k_def)
  then show ?thesis
    using cache_coherent [OF demo_coherent(1) demo_accepted, of demo_dev] demo_full by (auto simp: demo_disk_state(2))
qed



end
