(* ===== verification/CacheAlloc.thy ===== *)
theory CacheAlloc
  imports CacheSpec
begin

text \<open>
  The setup of the disks, \<open>alloc_disk\<close> and \<open>alloc_structs\<close> of ldrapps/cache/cproc.c. The services of the
  loader are arguments: what \<open>hlp_disksize\<close> reports of a disk, whether caching of it is switched off, and whether
  memory is given. A new array is clear.
\<close>

section \<open>One disk\<close>

text \<open>\<open>bsf64\<close> and \<open>bsr64\<close>, the numbers of the first and the last bit, -1 for 0.\<close>

fun bsf64 :: "nat \<Rightarrow> int" where
  "bsf64 n = (if n = 0 then - 1 else if odd n then 0 else bsf64 (n div 2) + 1)"

fun bsr64 :: "nat \<Rightarrow> int" where
  "bsr64 n = (if n = 0 then - 1 else bsr64 (n div 2) + 1)"

declare bsf64.simps [simp del] bsr64.simps [simp del]

record disk_env =
  dsize :: "u32 \<Rightarrow> u32"
  total_sectors :: "u32 \<Rightarrow> nat"
  sector_size :: "u32 \<Rightarrow> nat"
  no_cache :: "u32 \<Rightarrow> bool"
  mem_ok :: "u32 \<Rightarrow> bool"

definition zero_disk :: diskinfo where
  "zero_disk = \<lparr>sectors = 0, s32shift = 0, enabled = False, valid = False, disk = 0, bits = (\<lambda>_. False), bm_ofs = 0\<rparr>"

text \<open>\<open>((u64t)gd.TotalSectors*gd.SectorSize+PRIO_ARRAY_STEP-1)/PRIO_ARRAY_STEP>>2\<close>\<close>

definition array_bytes :: "nat \<Rightarrow> nat \<Rightarrow> nat" where
  "array_bytes secs ssz = (secs * ssz + 262143) div 262144 div 4"

definition alloc_disk :: "disk_env \<Rightarrow> u32 \<Rightarrow> diskinfo \<Rightarrow> nat \<times> diskinfo" where
  "alloc_disk env dsk di =
    (if no_cache env dsk then (0, di)
     else (let ssz = sector_size env dsk; shift = 15 - bsf64 ssz;
               size_ok = (dsize env dsk \<noteq> 0 \<and> 0 \<le> bsf64 ssz \<and> 2 ^ nat (bsf64 ssz) = ssz \<and> 3 \<le> shift);
               di1 = (if size_ok then di\<lparr>s32shift := nat shift\<rparr> else di)
           in if \<not> size_ok then (0, di1)
              else if total_sectors env dsk > 3 * 4294967295 then (0, di1)
              else (let di2 = di1\<lparr>sectors := total_sectors env dsk, disk := dsk\<rparr>;
                        bsize0 = array_bytes (total_sectors env dsk) ssz
                    in if bsize0 = 0 then (0, di2)
                       else (let bsize = (if bsize0 < 2 then 2 else bsize0)
                             in if \<not> mem_ok env dsk then (0, di2)
                                else (bsize, di2\<lparr>bits := (\<lambda>_. False), bm_ofs := 8 * (bsize div 2), enabled := True, valid := True\<rparr>)))))"

section \<open>All disks\<close>

text \<open>The number of a disk: hard disks first, then floppies.\<close>

definition disk_number :: "nat \<Rightarrow> nat \<Rightarrow> u32" where
  "disk_number hdds i = (if i < hdds then of_nat i else of_nat (i - hdds) OR QDSK_FLOPPY)"

definition alloc_entry :: "disk_env \<Rightarrow> nat \<Rightarrow> nat \<Rightarrow> diskinfo" where
  "alloc_entry env hdds i =
    (let di = snd (alloc_disk env (disk_number hdds i) zero_disk) in if i < hdds then di else di\<lparr>enabled := False\<rparr>)"

text \<open>\<open>bsr64(cdi[cnt].sectors)+1-cdi[cnt].s32shift-a_shift\<close>\<close>

definition size_bits :: "nat \<Rightarrow> diskinfo \<Rightarrow> int" where
  "size_bits a di = bsr64 (sectors di) + 1 - int (s32shift di) - int a"

definition max_bits :: "nat \<Rightarrow> (nat \<Rightarrow> diskinfo) \<Rightarrow> nat \<Rightarrow> int" where
  "max_bits a c n = foldl (\<lambda>b i. if size_bits a (c i) > b then size_bits a (c i) else b) 0 [0..<n]"

definition limit_disk :: "nat \<Rightarrow> nat \<Rightarrow> diskinfo \<Rightarrow> diskinfo" where
  "limit_disk mx a di =
    (let limitsize = push_bit (mx - 1 + s32shift di + a) 1 in if limitsize \<le> sectors di then di\<lparr>sectors := limitsize - 1\<rparr> else di)"

text \<open>``loop until pack required bits into dword''\<close>

partial_function (option) pack_bits :: "int \<Rightarrow> nat \<Rightarrow> nat \<Rightarrow> (nat \<Rightarrow> diskinfo) \<Rightarrow> (nat \<Rightarrow> diskinfo) option" where
  "pack_bits diskbits a n c =
    (if diskbits + max_bits a c n \<le> 32 then Some c
     else pack_bits diskbits a n (\<lambda>i. if i < n then limit_disk (nat (max_bits a c n)) a (c i) else c i))"

definition alloc_structs :: "disk_env \<Rightarrow> nat \<Rightarrow> nat \<Rightarrow> 'a cache_state \<Rightarrow> 'a cache_state option" where
  "alloc_structs env hdds fdds st =
    (let n = hdds + fdds; st1 = st\<lparr>cdi_hdds := hdds, cdi_fdds := fdds\<rparr> in
     if n = 0 then Some st1
     else map_option (\<lambda>c. st1\<lparr>cdi := c, dn_bits := nat (bsr64 n + 1)\<rparr>)
            (pack_bits (bsr64 n + 1) (a_shift st) n (alloc_entry env hdds)))"

section \<open>Bits of a number\<close>

lemma bsr64_zero [simp]: "bsr64 0 = - 1"
  by (simp add: bsr64.simps)

lemma bsr64_ge: "- 1 \<le> bsr64 n"
proof (induction n rule: bsr64.induct)
  case (1 n)
  then show ?case by (cases "n = 0") (simp_all add: bsr64.simps [of n])
qed

lemma bsr64_step: "0 < n \<Longrightarrow> bsr64 n = bsr64 (n div 2) + 1"
  by (simp add: bsr64.simps [of n])

lemma bsr64_pos: "0 < n \<Longrightarrow> 0 \<le> bsr64 n"
  using bsr64_ge [of "n div 2"] by (simp add: bsr64_step)

lemma bsr64_bounds: "n < 2 ^ nat (bsr64 n + 1) \<and> (0 < n \<longrightarrow> 2 ^ nat (bsr64 n) \<le> n)"
proof (induction n rule: bsr64.induct)
  case (1 n)
  show ?case
  proof (cases "n = 0")
    case False
    then have e: "bsr64 n = bsr64 (n div 2) + 1" by (simp add: bsr64_step)
    have ih: "n div 2 < 2 ^ nat (bsr64 (n div 2) + 1)" "0 < n div 2 \<longrightarrow> 2 ^ nat (bsr64 (n div 2)) \<le> n div 2"
      using 1 False by auto
    have "nat (bsr64 (n div 2) + 1 + 1) = Suc (nat (bsr64 (n div 2) + 1))" using bsr64_ge [of "n div 2"] by simp
    then have "n < 2 ^ nat (bsr64 n + 1)" using ih(1) unfolding e by simp
    moreover have "2 ^ nat (bsr64 n) \<le> n"
    proof (cases "n div 2 = 0")
      case True
      then have "bsr64 n = 0" unfolding e by simp
      then show ?thesis using False by simp
    next
      case False
      then show ?thesis using ih(2) bsr64_pos [of "n div 2"] unfolding e by (simp add: nat_add_distrib)
    qed
    ultimately show ?thesis by simp
  qed simp
qed

lemma bsr64_less:
  assumes "n < 2 ^ k"
  shows "bsr64 n < int k"
proof (cases "n = 0")
  case False
  show ?thesis
  proof (rule ccontr)
    assume "\<not> bsr64 n < int k"
    then have k: "(2::nat) ^ k \<le> 2 ^ nat (bsr64 n)" by (intro power_increasing) auto
    have "2 ^ nat (bsr64 n) \<le> n" using bsr64_bounds [of n] False by simp
    from le_trans [OF k this] show False using assms by simp
  qed
qed simp

section \<open>The loop that packs the bits\<close>

lemma max_bits_ge:
  "0 \<le> max_bits a c n \<and> (\<forall>i < n. size_bits a (c i) \<le> max_bits a c n) \<and>
    (max_bits a c n = 0 \<or> (\<exists>i < n. max_bits a c n = size_bits a (c i)))"
proof (induction n)
  case (Suc n)
  have "max_bits a c (Suc n) =
    (if size_bits a (c n) > max_bits a c n then size_bits a (c n) else max_bits a c n)"
    by (simp add: max_bits_def)
  then show ?case using Suc by (auto simp: less_Suc_eq intro: order.trans)
qed (simp add: max_bits_def)

lemma limit_disk_bits:
  assumes "size_bits a di \<le> int mx" "0 < mx"
  shows "size_bits a (limit_disk mx a di) \<le> int mx - 1" "sectors (limit_disk mx a di) \<le> sectors di"
    "s32shift (limit_disk mx a di) = s32shift di" "disk (limit_disk mx a di) = disk di"
    "valid (limit_disk mx a di) = valid di"
    "0 < sectors di \<Longrightarrow> 2 \<le> mx \<or> 0 < s32shift di + a \<Longrightarrow> 0 < sectors (limit_disk mx a di)"
proof -
  let ?k = "mx - 1 + s32shift di + a"
  have e: "limit_disk mx a di = (if 2 ^ ?k \<le> sectors di then di\<lparr>sectors := 2 ^ ?k - 1\<rparr> else di)"
    by (simp add: limit_disk_def Let_def push_bit_eq_mult)
  have "sectors (limit_disk mx a di) < 2 ^ ?k" by (simp add: e)
  then have "bsr64 (sectors (limit_disk mx a di)) < int ?k" by (rule bsr64_less)
  moreover have "s32shift (limit_disk mx a di) = s32shift di" by (simp add: e)
  ultimately show "size_bits a (limit_disk mx a di) \<le> int mx - 1" using assms(2) by (simp add: size_bits_def)
  show "sectors (limit_disk mx a di) \<le> sectors di"
    unfolding e using le_trans [OF diff_le_self, of "2 ^ ?k" "sectors di" 1] by simp
  show "s32shift (limit_disk mx a di) = s32shift di"
    "disk (limit_disk mx a di) = disk di" "valid (limit_disk mx a di) = valid di"
    by (simp_all add: e)
  show "0 < sectors (limit_disk mx a di)" if "0 < sectors di" "2 \<le> mx \<or> 0 < s32shift di + a"
  proof -
    have "(2::nat) ^ 1 \<le> 2 ^ ?k" using that(2) assms(2) by (intro power_increasing) auto
    then show ?thesis using that(1) by (auto simp: e)
  qed
qed

text \<open>What the loop keeps of every disk, with a positive size when it had one.\<close>

definition limited :: "nat \<Rightarrow> diskinfo \<Rightarrow> diskinfo \<Rightarrow> bool" where
  "limited a di di' \<longleftrightarrow> sectors di' \<le> sectors di \<and> s32shift di' = s32shift di \<and> disk di' = disk di \<and> valid di' = valid di \<and>
    (0 < sectors di \<and> 0 < s32shift di \<longrightarrow> 0 < sectors di')"

lemma limited_trans: "limited a x y \<Longrightarrow> limited a y z \<Longrightarrow> limited a x z"
  by (auto simp: limited_def)

lemma pack_bits_ends:
  assumes "diskbits \<le> 32"
  shows "\<exists>c'. pack_bits diskbits a n c = Some c' \<and> diskbits + max_bits a c' n \<le> 32 \<and>
    (\<forall>i. limited a (c i) (c' i))"
  using assms
proof (induction "nat (max_bits a c n)" arbitrary: c rule: less_induct)
  case less
  show ?case
  proof (cases "diskbits + max_bits a c n \<le> 32")
    case True
    then show ?thesis by (subst pack_bits.simps) (simp add: limited_def)
  next
    case False
    let ?mx = "nat (max_bits a c n)"
    let ?c = "\<lambda>i. if i < n then limit_disk ?mx a (c i) else c i"
    have m: "0 < max_bits a c n" "int ?mx = max_bits a c n" using False less.prems by auto
    have le: "size_bits a (c i) \<le> int ?mx" if "i < n" for i using max_bits_ge [of a c n] that m by simp
    have new: "size_bits a (?c i) \<le> int ?mx - 1" if "i < n" for i using limit_disk_bits(1) [OF le [OF that]] m that by simp
    have "max_bits a ?c n \<le> int ?mx - 1"
      using max_bits_ge [of a ?c n] new m by fastforce
    then have "nat (max_bits a ?c n) < nat (max_bits a c n)" using m max_bits_ge [of a ?c n] by simp
    from less.hyps [OF this less.prems]
    obtain c' where c': "pack_bits diskbits a n ?c = Some c'" "diskbits + max_bits a c' n \<le> 32" "\<forall>i. limited a (?c i) (c' i)"
      by blast
    have "limited a (c i) (?c i)" for i
      using limit_disk_bits(2-6) [OF le, of i] m by (auto simp: limited_def)
    then have "limited a (c i) (c' i)" for i using limited_trans c'(3) by blast
    then show ?thesis using c' False by (subst pack_bits.simps) simp
  qed
qed

section \<open>The geometry of the disks\<close>

lemma alloc_disk_zero:
  fixes env dsk
  defines "di \<equiv> snd (alloc_disk env dsk zero_disk)"
  shows "s32shift di \<le> 15" "valid di \<Longrightarrow> 0 < sectors di \<and> 3 \<le> s32shift di" "0 < sectors di \<Longrightarrow> disk di = dsk \<and> 3 \<le> s32shift di"
proof -
  have "0 < total_sectors env dsk" if "array_bytes (total_sectors env dsk) (sector_size env dsk) \<noteq> 0"
    using that by (cases "total_sectors env dsk = 0") (simp_all add: array_bytes_def)
  then show "s32shift di \<le> 15" "valid di \<Longrightarrow> 0 < sectors di \<and> 3 \<le> s32shift di"
    "0 < sectors di \<Longrightarrow> disk di = dsk \<and> 3 \<le> s32shift di"
    by (auto simp: di_def alloc_disk_def Let_def zero_disk_def split: if_splits)
qed

lemma disk_number_inj:
  assumes "i < h + f" "j < h + f" "h \<le> 128" "f \<le> 128" "disk_number h i = disk_number h j"
  shows "i = j"
proof -
  have u: "unat (disk_number h i) = (if i < h then i else 128 + (i - h))" if "i < h + f" for i
  proof (cases "i < h")
    case True
    then show ?thesis using assms(3) by (simp add: disk_number_def unat_of_nat take_bit_eq_mod)
  next
    case False
    then have lt: "i - h < 128" using that assms(4) by simp
    then have "take_bit 7 (i - h) = i - h" by (simp add: take_bit_nat_eq_self_iff)
    then have low: "bit (i - h) n \<Longrightarrow> n < 7" for n by (metis bit_take_bit_iff)
    have "(i - h) OR 128 = (i - h) + 128"
    proof (intro disjunctive_add [symmetric])
      fix n
      have "bit (128 :: nat) n \<longleftrightarrow> n = 7" using bit_exp_iff [where ?'a = nat, of 7 n] by simp
      then show "\<not> bit (i - h) n \<or> \<not> bit (128 :: nat) n" using low by auto
    qed
    moreover have "disk_number h i = of_nat ((i - h) OR 128)"
      using False by (simp only: disk_number_def QDSK_FLOPPY_def of_nat_or_eq if_False) simp
    ultimately have d: "disk_number h i = of_nat (i - h + 128)" by (simp only:)
    have small: "unat (of_nat N :: u32) = N" if "N < 2 ^ 32" for N using that by (simp add: unat_of_nat take_bit_eq_mod)
    have "i - h + 128 < 2 ^ 32" using lt by simp
    then have "unat (disk_number h i) = i - h + 128" unfolding d by (rule small)
    then show ?thesis using False by simp
  qed
  have e: "(if i < h then i else 128 + (i - h)) = (if j < h then j else 128 + (j - h))"
    using u assms(1,2,5) by metis
  then show ?thesis using assms(3) by (auto split: if_splits)
qed

lemma alloc_structs_geometry:
  assumes "0 < hdds + fdds" "hdds \<le> 128" "fdds \<le> 128"
  shows "\<exists>st'. alloc_structs env hdds fdds st = Some st' \<and> disks st' = hdds + fdds \<and>
    (\<forall>a \<ge> a_shift st. geometry (st'\<lparr>a_shift := a\<rparr>))"
proof -
  let ?n = "hdds + fdds" and ?a = "a_shift st" and ?c = "alloc_entry env hdds"
  define b where "b = bsr64 ?n + 1"
  have "bsr64 ?n < int 9" by (rule bsr64_less) (use assms in simp)
  then have b: "b \<le> 9" "0 < b" using bsr64_pos [of ?n] assms(1) by (simp_all add: b_def)
  obtain c' where c': "pack_bits b ?a ?n ?c = Some c'" "b + max_bits ?a c' ?n \<le> 32" "\<And>i. limited ?a (?c i) (c' i)"
    using pack_bits_ends [of b ?a ?n ?c] b by auto
  define st' where "st' = st\<lparr>cdi_hdds := hdds, cdi_fdds := fdds, cdi := c', dn_bits := nat b\<rparr>"
  have e: "alloc_structs env hdds fdds st = Some st'"
  proof -
    have ne: "hdds + fdds \<noteq> 0" using assms(1) by simp
    show ?thesis unfolding alloc_structs_def Let_def if_not_P [OF ne] using c'(1) by (simp add: st'_def b_def)
  qed
  have ent: "s32shift (?c i) \<le> 15" "valid (?c i) \<Longrightarrow> 0 < sectors (?c i) \<and> 3 \<le> s32shift (?c i)"
    "0 < sectors (?c i) \<Longrightarrow> disk (?c i) = disk_number hdds i \<and> 3 \<le> s32shift (?c i)" for i
  proof -
    let ?d = "snd (alloc_disk env (disk_number hdds i) zero_disk)"
    have same: "s32shift (?c i) = s32shift ?d" "valid (?c i) = valid ?d" "sectors (?c i) = sectors ?d" "disk (?c i) = disk ?d"
      by (simp_all add: alloc_entry_def Let_def)
    show "s32shift (?c i) \<le> 15" "valid (?c i) \<Longrightarrow> 0 < sectors (?c i) \<and> 3 \<le> s32shift (?c i)"
      "0 < sectors (?c i) \<Longrightarrow> disk (?c i) = disk_number hdds i \<and> 3 \<le> s32shift (?c i)"
      unfolding same using alloc_disk_zero [of env "disk_number hdds i"] by blast+
  qed
  have geo: "geometry (st'\<lparr>a_shift := a\<rparr>)" if a: "?a \<le> a" for a
  proof -
    have d: "disks (st'\<lparr>a_shift := a\<rparr>) = ?n" by (simp add: disks_def st'_def)
    have "?n < 2 ^ nat b" using bsr64_bounds [of ?n] by (simp add: b_def)
    moreover have "drop_bit a (drop_bit (s32shift (c' i)) (sectors (c' i))) < 2 ^ (32 - nat b)" if "i < ?n" for i
    proof -
      let ?s = "sectors (c' i)" and ?sh = "s32shift (c' i)"
      have "size_bits ?a (c' i) \<le> 32 - b" using max_bits_ge [of ?a c' ?n] c'(2) that by fastforce
      then have "nat (bsr64 ?s + 1) \<le> 32 - nat b + (?sh + a)" using a b by (auto simp: size_bits_def nat_le_iff)
      then have "?s < 2 ^ (32 - nat b + (?sh + a))"
        using bsr64_bounds [of ?s] power_increasing [of "nat (bsr64 ?s + 1)" _ "2::nat"] less_le_trans by fastforce
      then have "?s < 2 ^ (32 - nat b) * 2 ^ (?sh + a)" by (simp only: power_add)
      then have "?s div 2 ^ (?sh + a) < 2 ^ (32 - nat b)" by (simp add: div_less_iff_less_mult)
      then show ?thesis by (simp add: drop_bit_eq_div power_add div_mult2_eq)
    qed
    moreover have "s32shift (c' i) \<le> 15 \<and> (valid (c' i) \<longrightarrow> 0 < sectors (c' i))" for i
      using c'(3) [of i] ent [of i] by (auto simp: limited_def)
    moreover have "i = j" if "i < ?n" "j < ?n" "0 < sectors (c' i)" "0 < sectors (c' j)" "disk (c' i) = disk (c' j)" for i j
    proof -
      have "0 < sectors (?c i)" "0 < sectors (?c j)" "disk (?c i) = disk (?c j)"
        using c'(3) [of i] c'(3) [of j] that(3-5) by (auto simp: limited_def)
      then have "disk_number hdds i = disk_number hdds j" using ent(3) by metis
      then show ?thesis using disk_number_inj that(1,2) assms(2,3) by blast
    qed
    ultimately show ?thesis unfolding geometry_def d using b by (simp add: st'_def)
  qed
  then show ?thesis using e by (auto simp: disks_def st'_def)
qed

text \<open>The number of 256k groups of a disk, for each of which the two arrays need a bit.\<close>

definition groups :: "nat \<Rightarrow> nat \<Rightarrow> nat" where
  "groups secs ssz = (secs * ssz + 262143) div 262144"

lemma alloc_disk_arrays:
  assumes "alloc_disk env dsk zero_disk = (bsize, di)" "bsize \<noteq> 0"
  defines "n \<equiv> groups (total_sectors env dsk) (sector_size env dsk)"
  shows "bm_ofs di = 8 * max 1 (n div 8)" "sectors di = total_sectors env dsk"
proof -
  let ?b = "array_bytes (total_sectors env dsk) (sector_size env dsk)"
  have b: "?b = n div 4" by (simp add: n_def groups_def array_bytes_def)
  have o: "bm_ofs di = 8 * ((if ?b < 2 then 2 else ?b) div 2)" "sectors di = total_sectors env dsk"
    using assms(1,2) by (auto simp: alloc_disk_def Let_def split: if_splits)
  show "sectors di = total_sectors env dsk" by (rule o)
  show "bm_ofs di = 8 * max 1 (n div 8)"
  proof (cases "?b < 2")
    case True
    then have "n div 8 \<le> 1" unfolding b by simp
    then show ?thesis using True o by (simp add: max_def)
  next
    case False
    have "?b div 2 = n div 8" unfolding b by (simp flip: div_mult2_eq)
    moreover have "1 \<le> ?b div 2" using False by simp
    ultimately show ?thesis using False o by (simp add: max_def)
  qed
qed

text \<open>C38: The setup of the cache ends and makes the state the requests rely on: whatever the disks report, the loop that
  packs the number of the disk and of the group into one dword comes to an end with distinct keys, and \<open>cc_setsize\<close> after
  it makes an empty coherent cache with one block less than asked for. The two bit arrays of a disk are apart
  exactly when the number of its groups is a multiple of eight or less than eight; otherwise the last bits of the
  priorities lie over the first bits of the map of cached groups.\<close>

theorem cache_setup_correct:
  fixes st :: "'a cache_state"
  assumes "0 < hdds + fdds" "hdds \<le> 128" "fdds \<le> 128" "a_shift st \<le> 3"
    and "1 \<le> min (min (size_mb * 16 mod 2 ^ 32) (drop_bit 16 availmax div 2)) 16384"
  shows "(\<exists>st'. alloc_structs env hdds fdds st = Some st' \<and> coherent m (cc_setsize size_mb availmax True st') \<and>
      free_total (cc_setsize size_mb availmax True st') =
        min (min (size_mb * 16 mod 2 ^ 32) (drop_bit 16 availmax div 2)) 16384 * 2 - 1) \<and>
    (\<forall>dsk bsize di. alloc_disk env dsk zero_disk = (bsize, di) \<and> bsize \<noteq> 0 \<longrightarrow>
      (let n = groups (total_sectors env dsk) (sector_size env dsk) in n \<le> bm_ofs di \<longleftrightarrow> n < 8 \<or> 8 dvd n))"
proof (intro conjI allI impI)
  obtain st' where st': "alloc_structs env hdds fdds st = Some st'" "geometry (st'\<lparr>a_shift := 3\<rparr>)"
    using alloc_structs_geometry [OF assms(1-3), of env st] assms(4) by blast
  then show "\<exists>st'. alloc_structs env hdds fdds st = Some st' \<and> coherent m (cc_setsize size_mb availmax True st') \<and>
      free_total (cc_setsize size_mb availmax True st') =
        min (min (size_mb * 16 mod 2 ^ 32) (drop_bit 16 availmax div 2)) 16384 * 2 - 1"
    using cc_setsize_coherent [OF st'(2) refl assms(5)] by blast
next
  fix dsk bsize di
  assume a: "alloc_disk env dsk zero_disk = (bsize, di) \<and> bsize \<noteq> 0"
  define n where "n = groups (total_sectors env dsk) (sector_size env dsk)"
  have o: "bm_ofs di = 8 * max 1 (n div 8)" using alloc_disk_arrays(1) a unfolding n_def by blast
  have "n \<le> 8 * max 1 (n div 8) \<longleftrightarrow> n < 8 \<or> 8 dvd n"
  proof (cases "n < 8")
    case False
    then have "max 1 (n div 8) = n div 8" by (simp add: max_def)
    moreover have "n \<le> 8 * (n div 8) \<longleftrightarrow> 8 dvd n" by presburger
    ultimately show ?thesis using False by simp
  qed simp
  then show "let n = groups (total_sectors env dsk) (sector_size env dsk) in n \<le> bm_ofs di \<longleftrightarrow> n < 8 \<or> 8 dvd n"
    unfolding Let_def n_def [symmetric] o .
qed

definition demo_disks :: disk_env where
  "demo_disks = \<lparr>dsize = (\<lambda>_. 4096), total_sectors = (\<lambda>_. 4096 + 512 * 3), sector_size = (\<lambda>_. 512), no_cache = (\<lambda>_. False),
     mem_ok = (\<lambda>_. True)\<rparr>"

lemma cache_setup_witness:
  "(\<exists>st'. alloc_structs demo_disks 1 1 demo_boot = Some st' \<and> coherent (medium demo_dev) (cc_setsize 1 262144 True st')) \<and>
   \<not> groups 5632 512 \<le> bm_ofs (snd (alloc_disk demo_disks 0 zero_disk))"
proof -
  have b: "bsf64 512 = 9" by (simp add: bsf64.simps)
  have e: "alloc_disk demo_disks 0 zero_disk = (2, snd (alloc_disk demo_disks 0 zero_disk))"
    by (simp add: alloc_disk_def demo_disks_def Let_def b array_bytes_def)
  have g: "groups 5632 512 = 11" by (simp add: groups_def)
  have pre: "0 < (1::nat) + 1" "(1::nat) \<le> 128" "(1::nat) \<le> 128" "a_shift demo_boot \<le> 3"
    "1 \<le> min (min (1 * 16 mod 2 ^ 32) (drop_bit 16 262144 div 2)) (16384 :: nat)"
    by (simp_all add: demo_boot_def drop_bit_eq_div)
  note c = cache_setup_correct [OF pre, of demo_disks "medium demo_dev"]
  have "alloc_disk demo_disks 0 zero_disk = (bsize, di) \<Longrightarrow> bsize \<noteq> 0 \<Longrightarrow>
    groups (total_sectors demo_disks 0) (sector_size demo_disks 0) \<le> bm_ofs di \<longleftrightarrow>
      groups (total_sectors demo_disks 0) (sector_size demo_disks 0) < 8 \<or> 8 dvd groups (total_sectors demo_disks 0) (sector_size demo_disks 0)"
    for bsize di using conjunct2 [OF c] unfolding Let_def by blast
  from this [OF e] have "\<not> groups 5632 512 \<le> bm_ofs (snd (alloc_disk demo_disks 0 zero_disk))"
    by (simp add: demo_disks_def g)
  then show ?thesis using c by auto
qed

end
