(* ===== verification/DiskIoSpec.thy ===== *)
theory DiskIoSpec
  imports DiskIo CacheAlloc
begin

text \<open>
  What reading and writing through all layers promises: volume, sector cache, table of disks, parts of 32 Kb. On disks
  that work a request inside the disk is served completely and the cache stays coherent with the disks; a read that the
  cache serves in part delivers all sectors too but returns the number of the others only.
\<close>

section \<open>Parts of 32 Kb\<close>

lemma get_sectors_join: "get_sectors ii p n s @ get_sectors ii (p + n) k s = get_sectors ii p (n + k) s"
  unfolding get_sectors_def by (metis add.assoc le_add1 map_append upt_add_eq_append)

lemma length_get_sectors [simp]: "length (get_sectors ii p n s) = n"
  by (simp add: get_sectors_def)

lemma put_sectors_join:
  "put_sectors ii (p + n) (drop n xs) (put_sectors ii p (take n xs) s) = put_sectors ii p xs s" if "n \<le> length xs"
proof -
  have "put_sectors ii (p + n) (drop n xs) (put_sectors ii p (take n xs) s) ii k = put_sectors ii p xs s ii k" for k
    using that by (auto simp: put_sectors_def min_def)
  then show ?thesis by (auto simp: put_sectors_def fun_eq_iff)
qed

text \<open>A disk that reads and writes every range inside of it.\<close>

definition range_works :: "(nat \<Rightarrow> nat \<Rightarrow> nat) \<Rightarrow> nat \<Rightarrow> bool" where
  "range_works f sz \<longleftrightarrow> (\<forall>pos n. pos + n \<le> sz \<longrightarrow> f pos n = n)"

lemma w64_small: "n \<le> sz \<Longrightarrow> sz < 2 ^ 64 \<Longrightarrow> w64 n = n"
  by (simp add: w64_def)

lemma raw_read_ok:
  assumes "range_works (bios_reads h ii) sz" "sz < 2 ^ 64" "0 < s32k" "pos + n \<le> sz"
  shows "raw_read h ii sz s32k pos n s = Some (Some (get_sectors ii pos n s))"
  using assms(4)
proof (induction n arbitrary: pos rule: less_induct)
  case (less n)
  define a where "a = min n s32k"
  have a: "pos + a \<le> sz" "bios_reads h ii pos a = a" "w64 (pos + a) = pos + a"
    using less.prems assms(1,2) w64_small [of "pos + a" sz] by (auto simp: a_def range_works_def)
  show ?case
  proof (cases "n - a = 0")
    case True
    then have "a = n" by (simp add: a_def)
    then show ?thesis using a by (simp add: raw_read.simps [of h ii sz s32k pos n] Let_def flip: a_def)
  next
    case False
    then have "n - a < n" "pos + a + (n - a) \<le> sz" "n = a + (n - a)" using assms(3) less.prems by (auto simp: a_def)
    then show ?thesis
      using less.IH [of "n - a" "pos + a"] a False assms(3) get_sectors_join [of ii pos a s "n - a"]
      by (simp add: raw_read.simps [of h ii sz s32k pos n] Let_def flip: a_def)
  qed
qed

lemma raw_write_ok:
  assumes "range_works (bios_writes h ii) sz" "sz < 2 ^ 64" "0 < s32k" "pos + length xs \<le> sz"
  shows "raw_write h ii sz s32k pos xs s = Some (True, put_sectors ii pos xs s)"
  using assms(4)
proof (induction "length xs" arbitrary: pos xs s rule: less_induct)
  case less
  define a where "a = min (length xs) s32k"
  have a: "pos + a \<le> sz" "bios_writes h ii pos a = a" "w64 (pos + a) = pos + a" "a \<le> length xs"
    using less.prems assms(1,2) w64_small [of "pos + a" sz] by (auto simp: a_def range_works_def)
  show ?case
  proof (cases "length xs - a = 0")
    case True
    then have "a = length xs" using a(4) by simp
    then show ?thesis using a by (simp add: raw_write.simps [of h ii sz s32k pos xs] Let_def flip: a_def)
  next
    case False
    then have "length (drop a xs) < length xs" "pos + a + length (drop a xs) \<le> sz" using assms(3) less.prems a(4) by (auto simp: a_def)
    then show ?thesis
      using less.hyps [of "drop a xs" "pos + a" "put_sectors ii pos (take a xs) s"] a False assms(3) put_sectors_join [OF a(4), of ii pos s]
      by (simp add: raw_write.simps [of h ii sz s32k pos xs] Let_def flip: a_def)
  qed
qed

section \<open>A disk that works\<close>

definition disk_works :: "('a, 'c) disk_sys \<Rightarrow> nat \<Rightarrow> bool" where
  "disk_works sys ii \<longleftrightarrow> (let qe = qd_array sys ! ii in
    io_size sys ii < 2 ^ 64 \<and> qd_sectorshift qe \<le> 15 \<and>
    range_works (bios_reads (hw sys) ii) (io_size sys ii) \<and> range_works (bios_writes (hw sys) ii) (io_size sys ii) \<and>
    (is_set (qd_flags qe) HDDF_HOTSWAP \<longrightarrow> qd_extread qe \<noteq> 0 \<and> qd_extwrite qe \<noteq> 0 \<and>
      (\<forall>dsk. range_works (drv_reads (hw sys) (qd_extread qe) dsk) (io_size sys ii) \<and>
        range_works (drv_writes (hw sys) (qd_extwrite qe) dsk) (io_size sys ii))))"

definition target_place :: "target \<Rightarrow> nat option" where
  "target_place t = (case t of No_disk \<Rightarrow> None | Emulated ii \<Rightarrow> Some ii | Real ii \<Rightarrow> Some ii)"

text \<open>A usable number of a disk, perhaps with flags.\<close>

definition disk_handle :: "('a, 'c) disk_sys \<Rightarrow> u32 \<Rightarrow> nat \<Rightarrow> bool" where
  "disk_handle sys dsk ii \<longleftrightarrow> dsk AND NOT QDSK_VALID = 0 \<and> dsk AND QDSK_VOLUME = 0 \<and>
    target_place (io_target (qd_array sys) dsk) = Some ii \<and> disk_works sys ii"

lemma target_place_of: "target_place (io_target qd dsk) = Some ii \<Longrightarrow> ii = place_of dsk"
  by (auto simp: target_place_def io_target_def place_of_def Let_def split: if_splits)

lemma target_driver: "io_target qd dsk = Emulated ii \<Longrightarrow> is_set (qd_flags (qd ! ii)) HDDF_HOTSWAP"
  by (auto simp: io_target_def Let_def split: if_splits)

lemma s32k_pos: "disk_works sys ii \<Longrightarrow> 0 < io_s32k sys ii"
proof -
  assume "disk_works sys ii"
  then have "(2 :: nat) ^ qd_sectorshift (qd_array sys ! ii) \<le> 2 ^ 15" by (intro power_increasing) (auto simp: disk_works_def Let_def)
  then show ?thesis by (simp add: io_s32k_def DISKBUF_SIZE_def drop_bit_eq_div div_greater_zero_iff)
qed

text \<open>What the cache does not serve.\<close>

lemma action_read_rest:
  assumes h: "disk_handle sys dsk ii" and n: "pos + cnt \<le> io_size sys ii"
    and c: "(case cache_eproc sys of None \<Rightarrow> Some ([], c)
        | Some e \<Rightarrow> if dsk AND QDSK_IAMCACHE = 0 \<and> dsk AND QDSK_DIRECT = 0 then c_read e dsk pos cnt s c else Some ([], c)) =
      Some (get_sectors ii pos k s, c1)" and k: "k \<le> cnt"
  shows "action_read sys dsk pos cnt s c =
    Some (if k < cnt \<and> io_target (qd_array sys) dsk = Real ii then cnt - k else cnt, get_sectors ii pos cnt s, c1)"
proof -
  have w: "disk_works sys ii" "io_size sys ii < 2 ^ 64" and t: "target_place (io_target (qd_array sys) dsk) = Some ii"
    using h by (auto simp: disk_handle_def disk_works_def Let_def)
  have p: "w64 (pos + k) = pos + k" using n k w(2) by (intro w64_small [of _ "io_size sys ii"]) auto
  show ?thesis
  proof (cases "k < cnt")
    case False
    then show ?thesis using k unfolding action_read_def c by simp
  next
    case True
    have "raw_read (hw sys) ii (io_size sys ii) (io_s32k sys ii) (pos + k) (cnt - k) s = Some (Some (get_sectors ii (pos + k) (cnt - k) s))"
      using n k w s32k_pos [OF w(1)] by (intro raw_read_ok) (auto simp: disk_works_def Let_def)
    moreover have "drv_reads (hw sys) (qd_extread (qd_array sys ! ii)) dsk pos cnt = cnt \<and> qd_extread (qd_array sys ! ii) \<noteq> 0"
      if "io_target (qd_array sys) dsk = Emulated ii"
      using w(1) n target_driver [OF that] by (auto simp: disk_works_def Let_def range_works_def)
    ultimately show ?thesis
      using True t p get_sectors_join [of ii pos k s "cnt - k"] unfolding action_read_def c
      by (auto simp: target_place_def Let_def split: target.splits)
  qed
qed

lemma action_write_plain:
  assumes h: "disk_handle sys dsk ii" and n: "pos + length xs \<le> io_size sys ii"
    and c: "cache_eproc sys = None \<or> dsk AND QDSK_IAMCACHE \<noteq> 0"
  shows "action_write sys dsk pos xs s c = Some (length xs, if xs = [] then s else put_sectors ii pos xs s, c)"
proof -
  have w: "disk_works sys ii" "io_size sys ii < 2 ^ 64" and t: "target_place (io_target (qd_array sys) dsk) = Some ii"
    using h by (auto simp: disk_handle_def disk_works_def Let_def)
  have p: "w64 pos = pos" using n w(2) by (intro w64_small [of _ "io_size sys ii"]) auto
  have "raw_write (hw sys) ii (io_size sys ii) (io_s32k sys ii) pos xs s = Some (True, put_sectors ii pos xs s)"
    using n w s32k_pos [OF w(1)] by (intro raw_write_ok) (auto simp: disk_works_def Let_def)
  moreover have "drv_writes (hw sys) (qd_extwrite (qd_array sys ! ii)) dsk pos (length xs) = length xs \<and> qd_extwrite (qd_array sys ! ii) \<noteq> 0"
    if "io_target (qd_array sys) dsk = Emulated ii"
    using w(1) n target_driver [OF that] by (auto simp: disk_works_def Let_def range_works_def)
  ultimately show ?thesis
    using c t p unfolding action_write_def by (auto simp: target_place_def Let_def split: target.splits option.splits)
qed

text \<open>A filter of requests that lets everything pass, as the one of the repository does.\<close>

definition grants :: "(u32 \<Rightarrow> nat \<Rightarrow> nat \<Rightarrow> nat) option \<Rightarrow> bool" where
  "grants f \<longleftrightarrow> (\<forall>g dsk pos n. f = Some g \<longrightarrow> g dsk pos n = n)"

lemma may_access_all: "grants f \<Longrightarrow> n \<noteq> 0 \<or> dsk AND (QDSK_IAMCACHE OR QDSK_IGNACCESS) \<noteq> 0 \<Longrightarrow> may_access f dsk pos n = Some n"
  by (auto simp: may_access_def grants_def split: option.split)

lemma handle_read:
  assumes "disk_handle sys dsk ii" "grants (dsk_canread sys)" "cnt \<noteq> 0 \<or> dsk AND (QDSK_IAMCACHE OR QDSK_IGNACCESS) \<noteq> 0"
  shows "hlp_diskread sys dsk pos cnt s c = action_read sys dsk pos cnt s c"
  using assms by (subst hlp_diskread.simps) (simp add: disk_handle_def may_access_all)

lemma handle_write:
  assumes "disk_handle sys dsk ii" "grants (dsk_canwrite sys)" "xs \<noteq> [] \<or> dsk AND (QDSK_IAMCACHE OR QDSK_IGNACCESS) \<noteq> 0"
  shows "hlp_diskwrite sys dsk pos xs s c = action_write sys dsk pos xs s c"
  using assms by (subst hlp_diskwrite.simps) (simp add: disk_handle_def may_access_all)

section \<open>Flags of a number\<close>

definition plain_key :: "u32 \<Rightarrow> u32" where
  "plain_key dsk = dsk AND NOT (QDSK_DIRECT OR QDSK_IGNACCESS)"

lemma and_not_disjoint:
  assumes "b AND m = 0"
  shows "(a AND NOT b) AND m = a AND (m :: 'a :: len word)"
proof (rule bit_word_eqI)
  fix n
  have "\<not> (bit b n \<and> bit m n)" using arg_cong [OF assms, of "\<lambda>w. bit w n"] by (simp add: bit_and_iff)
  then show "bit ((a AND NOT b) AND m) n = bit (a AND m) n" by (auto simp: bit_and_iff bit_not_iff dest: bit_imp_le_length)
qed

lemma or_disjoint: "b AND m = 0 \<Longrightarrow> (a OR b) AND m = a AND (m :: 'a :: len word)"
  by (simp add: and.commute bit.conj_disj_distrib)

lemma flag_masks:
  "(QDSK_DIRECT OR QDSK_IGNACCESS) AND QDSK_FLOPPY = 0" "(QDSK_DIRECT OR QDSK_IGNACCESS) AND QDSK_DISKMASK = 0"
  "(QDSK_DIRECT OR QDSK_IGNACCESS) AND QDSK_VOLUME = 0" "QDSK_IAMCACHE AND QDSK_FLOPPY = 0" "QDSK_IAMCACHE AND QDSK_DISKMASK = 0"
  "QDSK_IAMCACHE AND QDSK_VOLUME = 0" "QDSK_IAMCACHE AND NOT QDSK_VALID = 0"
  by code_simp+

lemma same_target:
  "io_target qd (plain_key dsk) = io_target qd dsk" "io_target qd (dsk OR QDSK_IAMCACHE) = io_target qd dsk"
  "place_of (plain_key dsk) = place_of dsk"
  unfolding io_target_def place_of_def disk_idx_def plain_key_def and_not_disjoint [OF flag_masks(1)] and_not_disjoint [OF flag_masks(2)]
    or_disjoint [OF flag_masks(4)] or_disjoint [OF flag_masks(5)]
  by (rule refl)+

lemma cache_handle:
  assumes "disk_handle sys dsk ii"
  shows "disk_handle sys (dsk OR QDSK_IAMCACHE) ii" "disk_handle sys (plain_key dsk) ii"
proof -
  have v: "dsk AND NOT QDSK_VALID = 0" "dsk AND QDSK_VOLUME = 0" using assms by (simp_all add: disk_handle_def)
  have "(dsk OR QDSK_IAMCACHE) AND NOT QDSK_VALID = 0" unfolding or_disjoint [OF flag_masks(7)] by (rule v(1))
  moreover have "(dsk OR QDSK_IAMCACHE) AND QDSK_VOLUME = 0" unfolding or_disjoint [OF flag_masks(6)] by (rule v(2))
  ultimately show "disk_handle sys (dsk OR QDSK_IAMCACHE) ii" using assms by (simp add: disk_handle_def same_target)
  have "plain_key dsk AND NOT QDSK_VALID = (dsk AND NOT QDSK_VALID) AND NOT (QDSK_DIRECT OR QDSK_IGNACCESS)"
    unfolding plain_key_def by (simp only: ac_simps)
  moreover have "plain_key dsk AND QDSK_VOLUME = 0" unfolding plain_key_def and_not_disjoint [OF flag_masks(3)] by (rule v(2))
  ultimately show "disk_handle sys (plain_key dsk) ii" using assms v(1) by (simp add: disk_handle_def same_target)
qed

lemma iamcache: "(dsk OR QDSK_IAMCACHE) AND QDSK_IAMCACHE \<noteq> 0" "(dsk OR QDSK_IAMCACHE) AND (QDSK_IAMCACHE OR QDSK_IGNACCESS) \<noteq> 0"
proof -
  have "bit ((dsk OR QDSK_IAMCACHE) AND QDSK_IAMCACHE) 18" "bit ((dsk OR QDSK_IAMCACHE) AND (QDSK_IAMCACHE OR QDSK_IGNACCESS)) 18"
    by (simp_all add: bit_simps QDSK_IAMCACHE_def)
  then show "(dsk OR QDSK_IAMCACHE) AND QDSK_IAMCACHE \<noteq> 0" "(dsk OR QDSK_IAMCACHE) AND (QDSK_IAMCACHE OR QDSK_IGNACCESS) \<noteq> 0"
    by (metis bit_0_eq bot_apply bot_bool_def)+
qed

lemma floppy_bit: "a AND QDSK_FLOPPY = (if a AND QDSK_FLOPPY \<noteq> 0 then QDSK_FLOPPY else 0)"
proof -
  have f: "QDSK_FLOPPY = push_bit 7 1" by code_simp
  have b: "bit QDSK_FLOPPY n \<longleftrightarrow> n = 7" for n unfolding f bit_push_bit_iff bit_1_iff by auto
  have "a AND QDSK_FLOPPY = (if bit a 7 then QDSK_FLOPPY else 0)"
    by (rule bit_word_eqI) (auto simp: bit_and_iff b)
  moreover have "QDSK_FLOPPY \<noteq> 0" by (simp add: QDSK_FLOPPY_def)
  ultimately show ?thesis by simp
qed

section \<open>The sector cache above the disks\<close>

text \<open>The disks the cache knows are disks of the table that work, under the numbers the requests use.\<close>

definition cache_fits :: "('a, 'c) disk_sys \<Rightarrow> 'a cache_state \<Rightarrow> bool" where
  "cache_fits sys c \<longleftrightarrow> (\<forall>d < disks c. 0 < sectors (cdi c d) \<longrightarrow>
    (\<exists>ii. disk_handle sys (disk (cdi c d)) ii \<and> sectors (cdi c d) \<le> io_size sys ii) \<and>
    disk (cdi c d) AND NOT (QDSK_FLOPPY OR QDSK_DISKMASK) = 0 \<and>
    (\<forall>dsk. get_di c dsk = Some d \<longrightarrow> disk (cdi c d) = plain_key dsk))"

text \<open>The numbers \<open>alloc_structs\<close> gives to the disks are the ones the requests use.\<close>

lemma get_di_number:
  assumes "get_di c dsk = Some d"
  shows "disk_number (cdi_hdds c) d = plain_key dsk"
proof -
  let ?k = "plain_key dsk"
  have g: "?k AND NOT QDSK_FLOPPY \<le> QDSK_DISKMASK"
    "if ?k AND QDSK_FLOPPY \<noteq> 0 then d = cdi_hdds c + unat (?k AND QDSK_DISKMASK)
     else d = unat (?k AND QDSK_DISKMASK) \<and> d < cdi_hdds c"
    using assms by (auto simp: get_di_def Let_def not_less plain_key_def split: if_splits)
  have m: "QDSK_DISKMASK = mask 7" by code_simp
  have "?k AND NOT QDSK_FLOPPY = (?k AND NOT QDSK_FLOPPY) AND QDSK_DISKMASK"
  proof -
    have "take_bit 7 (unat (?k AND NOT QDSK_FLOPPY)) = unat (?k AND NOT QDSK_FLOPPY)"
      using g(1) by (simp add: word_le_nat_alt QDSK_DISKMASK_def take_bit_nat_eq_self_iff)
    then have "unat (take_bit 7 (?k AND NOT QDSK_FLOPPY)) = unat (?k AND NOT QDSK_FLOPPY)" by (simp only: unsigned_take_bit_eq)
    then have "take_bit 7 (?k AND NOT QDSK_FLOPPY) = ?k AND NOT QDSK_FLOPPY" by (simp only: word_unat_eq_iff)
    then show ?thesis by (simp only: m take_bit_eq_mask)
  qed
  also have "\<dots> = ?k AND QDSK_DISKMASK" by (rule and_not_disjoint) code_simp
  finally have low: "?k AND NOT QDSK_FLOPPY = ?k AND QDSK_DISKMASK" .
  have "?k = (?k AND QDSK_FLOPPY) OR (?k AND NOT QDSK_FLOPPY)"
    by (simp only: bit.conj_disj_distrib [symmetric] bit.disj_cancel_right and.right_neutral)
  then have k: "?k = (?k AND QDSK_FLOPPY) OR (?k AND QDSK_DISKMASK)" by (simp only: low)
  show ?thesis
  proof (cases "?k AND QDSK_FLOPPY = 0")
    case True
    then show ?thesis using g(2) k by (simp add: disk_number_def)
  next
    case False
    then show ?thesis using g(2) k floppy_bit [of ?k] by (simp add: disk_number_def or.commute)
  qed
qed

lemma plain_reads:
  assumes "cache_eproc sys = None" "disk_handle sys dsk ii" "pos + n \<le> io_size sys ii" "grants (dsk_canread sys)"
  shows "hlp_diskread sys (dsk OR QDSK_IAMCACHE) pos n s c = Some (n, get_sectors ii pos n s, c)"
proof -
  have "action_read sys (dsk OR QDSK_IAMCACHE) pos n s c = Some (if 0 < n \<and>
      io_target (qd_array sys) (dsk OR QDSK_IAMCACHE) = Real ii then n - 0 else n, get_sectors ii pos n s, c)"
    by (rule action_read_rest [OF cache_handle(1) [OF assms(2)] assms(3)]) (simp_all add: assms(1) get_sectors_def)
  then show ?thesis using handle_read [OF cache_handle(1) [OF assms(2)] assms(4)] iamcache(2) by auto
qed

lemma plain_full:
  assumes "cache_eproc sys = None" "cache_fits sys c" "d < disks c" "0 < sectors (cdi c d)" "grants (dsk_canread sys)"
  shows "full_device (plain_dev sys s) (cdi c d)"
proof -
  obtain ii where "disk_handle sys (disk (cdi c d)) ii" "sectors (cdi c d) \<le> io_size sys ii"
    using assms(2-4) unfolding cache_fits_def by blast
  then show ?thesis using plain_reads [OF assms(1) _ _ assms(5)] by (auto simp: full_device_def plain_dev_def)
qed

lemma coherent_medium:
  assumes "coherent m c" "\<And>d. d < disks c \<Longrightarrow> 0 < sectors (cdi c d) \<Longrightarrow> m' (disk (cdi c d)) = m (disk (cdi c d))"
  shows "coherent m' c"
proof -
  have inv: "cache_inv c" using assms(1) by (simp add: coherent_def)
  have e: "m' (disk (cdi c e)) = m (disk (cdi c e))" if "block_place c b = Some (e, l)" "sector_of c e l i < sectors (cdi c e)" for b e l i
    using inv_place(4) [OF inv that(1)] that(2) by (intro assms(2)) auto
  show ?thesis using assms(1) unfolding coherent_def data_ok_def by (auto simp: e)
qed

lemma cache_read_refused: "(\<And>d. \<not> accepted c dsk pos n d) \<Longrightarrow> cache_read dev dsk pos n c = Some ([], c)"
  by (auto simp: accepted_def cache_read_def not_le split: option.splits if_splits)

text \<open>The cache serves a read completely or not at all.\<close>

lemma cached_read:
  fixes sys :: "('a, unit) disk_sys"
  assumes nc: "cache_eproc sys = None" and co: "coherent (medium (plain_dev sys s)) c" and fit: "cache_fits sys c"
    and gr: "grants (dsk_canread sys)" and room: "\<And>d. accepted c dsk pos n d \<Longrightarrow> room (plain_dev sys s) d pos n [] 0 c"
  shows "\<exists>k c'. cache_read (plain_dev sys s) dsk pos n c = Some (get_sectors (place_of dsk) pos k s, c') \<and> (k = 0 \<or> k = n) \<and>
    coherent (medium (plain_dev sys s)) c' \<and> same_setup c c'"
proof (cases "\<exists>d. accepted c dsk pos n d")
  case False
  then have "cache_read (plain_dev sys s) dsk pos n c = Some ([], c)" by (intro cache_read_refused) blast
  then show ?thesis using co by (intro exI [of _ 0] exI [of _ c]) (simp add: get_sectors_def same_setup_def)
next
  case True
  then obtain d where a: "accepted c dsk pos n d" by blast
  have inv: "cache_inv c" "2 \<le> blocks_total c" "data_ok (medium (plain_dev sys s)) (pending 0 d pos n) c"
    using co by (auto simp: coherent_def pending_def)
  have d: "d < disks c" "pos + n \<le> sectors (cdi c d)" "0 < sectors (cdi c d)" "get_di c dsk = Some d"
    using a get_di_disks by (auto simp: accepted_def)
  have "disk (cdi c d) = plain_key dsk" using fit d unfolding cache_fits_def by blast
  then have m: "medium (plain_dev sys s) (disk (cdi c d)) = s (place_of dsk)" by (simp add: plain_dev_def same_target)
  show ?thesis
    using cache_io_ok [OF inv(1,2) d(1,2) inv(3), of "[]"] room [OF a] cache_read_accepted [OF a, of "plain_dev sys s"]
      plain_full [OF nc fit d(1,3) gr, of s]
    by (auto simp: m get_sectors_def)
qed

lemma accepted_takes: "accepted c dsk pos n d \<Longrightarrow> cache_takes c dsk pos n"
  by (auto simp: accepted_def cache_takes_def)

lemma key_bits:
  assumes "a AND NOT (QDSK_FLOPPY OR QDSK_DISKMASK) = 0"
  shows "a = (a AND QDSK_FLOPPY) OR (a AND QDSK_DISKMASK)"
proof -
  have "a = (a AND (QDSK_FLOPPY OR QDSK_DISKMASK)) OR (a AND NOT (QDSK_FLOPPY OR QDSK_DISKMASK))"
    by (simp only: bit.conj_disj_distrib [symmetric] bit.disj_cancel_right and.right_neutral)
  then show ?thesis unfolding assms by (simp only: or.right_neutral bit.conj_disj_distrib)
qed

lemma place_key:
  assumes "disk_handle sys a ii" "disk_handle sys b ii"
    and "a AND NOT (QDSK_FLOPPY OR QDSK_DISKMASK) = 0" "b AND NOT (QDSK_FLOPPY OR QDSK_DISKMASK) = 0"
  shows "a = b"
proof -
  have t: "target_place (io_target (qd_array sys) a) = Some ii" "target_place (io_target (qd_array sys) b) = Some ii"
    using assms(1,2) by (simp_all add: disk_handle_def)
  then have "(a AND QDSK_FLOPPY = 0) = (b AND QDSK_FLOPPY = 0) \<and> disk_idx a = disk_idx b"
    by (auto simp: target_place_def io_target_def Let_def MAX_QS_FLOPPY_def MAX_QS_DISK_def split: if_splits)
  then have "a AND QDSK_FLOPPY = b AND QDSK_FLOPPY" "a AND QDSK_DISKMASK = b AND QDSK_DISKMASK"
    using floppy_bit [of a] floppy_bit [of b] by (auto simp: disk_idx_def word_unat_eq_iff)
  then show ?thesis using key_bits [OF assms(3)] key_bits [OF assms(4)] by metis
qed

lemma plain_put:
  assumes "cache_fits sys c" "disk_handle sys dsk ii" "e < disks c" "0 < sectors (cdi c e)" "get_di c dsk = Some d" "d < disks c" "0 < sectors (cdi c d)"
  shows "medium (plain_dev sys (put_sectors ii pos xs s)) (disk (cdi c e)) =
    medium (disk_write (disk (cdi c d)) pos (length xs) xs (plain_dev sys s)) (disk (cdi c e))"
proof -
  have k: "disk (cdi c d) = plain_key dsk" using assms(1,5-7) unfolding cache_fits_def by blast
  have p: "place_of (disk (cdi c d)) = ii" using assms(2) target_place_of unfolding k by (auto simp: same_target disk_handle_def)
  obtain jj where e: "disk_handle sys (disk (cdi c e)) jj" "disk (cdi c e) AND NOT (QDSK_FLOPPY OR QDSK_DISKMASK) = 0"
    using assms(1,3,4) unfolding cache_fits_def by blast
  have j: "place_of (disk (cdi c e)) = jj" using e(1) target_place_of by (auto simp: disk_handle_def)
  have "disk_handle sys (disk (cdi c d)) ii" unfolding k by (rule cache_handle(2) [OF assms(2)])
  moreover have "disk (cdi c d) AND NOT (QDSK_FLOPPY OR QDSK_DISKMASK) = 0" using assms(1,6,7) unfolding cache_fits_def by blast
  ultimately have "jj = ii \<Longrightarrow> disk (cdi c e) = disk (cdi c d)" using place_key [OF _ _ e(2)] e(1) by blast
  then have "jj = ii \<longleftrightarrow> disk (cdi c e) = disk (cdi c d)" using j p by auto
  then show ?thesis by (auto simp: plain_dev_def disk_write_def put_sectors_def j p)
qed

lemma cached_write:
  fixes sys :: "('a, unit) disk_sys"
  assumes nc: "cache_eproc sys = None" and co: "coherent (medium (plain_dev sys s)) c" and fit: "cache_fits sys c"
    and gr: "grants (dsk_canwrite sys)" and h: "disk_handle sys dsk ii" and n: "pos + length xs \<le> io_size sys ii"
    and acc: "accepted c dsk pos (length xs) d"
    and room: "room (disk_write (disk (cdi c d)) pos (length xs) xs (plain_dev sys s)) d pos (length xs) xs
      (if dsk AND QDSK_DIRECT \<noteq> 0 then 2 else 1) c"
  shows "\<exists>c'. c_write (cproc sys) dsk pos xs s c = Some (length xs, put_sectors ii pos xs s, c') \<and>
    coherent (medium (plain_dev sys (put_sectors ii pos xs s))) c' \<and> same_setup c c'"
proof -
  have ne: "xs \<noteq> []" using acc by (auto simp: accepted_def)
  have "0 < length xs" using ne by simp
  then have d: "d < disks c" "0 < sectors (cdi c d)" "get_di c dsk = Some d"
    using acc get_di_disks unfolding accepted_def by (blast, linarith, blast)
  note h1 = cache_handle(1) [OF h]
  have w: "hlp_diskwrite sys (dsk OR QDSK_IAMCACHE) pos xs s () = Some (length xs, put_sectors ii pos xs s, ())"
    using handle_write [OF h1 gr] action_write_plain [OF h1 n] ne nc by simp
  let ?dev1 = "disk_write (disk (cdi c d)) pos (length xs) xs (plain_dev sys s)"
  obtain c' where c': "cache_write (\<lambda>_. length xs) dsk pos xs (plain_dev sys s) c = Some (length xs, ?dev1, c')"
    "coherent (medium ?dev1) c'" "same_setup c c'"
    using cache_write_ok [OF co acc _ refl refl room, where written = "\<lambda>_. length xs"] by auto
  have "coherent (medium (plain_dev sys (put_sectors ii pos xs s))) c'"
  proof (rule coherent_medium [OF c'(2)])
    fix e assume "e < disks c'" "0 < sectors (cdi c' e)"
    then have e: "e < disks c" "0 < sectors (cdi c e)" "disk (cdi c' e) = disk (cdi c e)"
      using c'(3) by (auto simp: same_setup_def disks_def)
    show "medium (plain_dev sys (put_sectors ii pos xs s)) (disk (cdi c' e)) = medium ?dev1 (disk (cdi c' e))"
      unfolding e(3) by (rule plain_put [OF fit h e(1,2) d(3,1,2)])
  qed
  then show ?thesis using c' w accepted_takes [OF acc] by (simp add: cproc_def)
qed

section \<open>All layers\<close>

text \<open>How a request for a volume, or for a disk itself, gets to sector \<open>pos\<close> of \<open>dsk\<close>; \<open>deny\<close> are the flags that forbid it.\<close>

definition io_path :: "('a, 'c) disk_sys \<Rightarrow> u32 \<Rightarrow> u32 \<Rightarrow> nat \<Rightarrow> u32 \<Rightarrow> nat \<Rightarrow> bool" where
  "io_path sys deny h sec dsk pos \<longleftrightarrow> h = dsk \<and> sec = pos \<or>
    h AND NOT QDSK_VALID = 0 \<and> h AND QDSK_VOLUME \<noteq> 0 \<and> disk_idx h < DISK_COUNT \<and> (disk_idx h = 0 \<longrightarrow> bootio_avail sys) \<and>
    (let vdta = extvol sys ! disk_idx h in v_flags vdta AND deny = 0 \<and> v_flags vdta AND VDTA_ON \<noteq> 0 \<and>
      dsk = v_disk vdta OR QDSK_IGNACCESS \<and> pos = w64 (v_start vdta + sec))"

lemma path_read:
  assumes "io_path sys VDTA_VFS h sec dsk pos" "grants (dsk_canread sys)" "0 < n"
  shows "hlp_diskread sys h sec n s c = hlp_diskread sys dsk pos n s c"
  using assms(1) unfolding io_path_def
proof (elim disjE)
  assume "h AND NOT QDSK_VALID = 0 \<and> h AND QDSK_VOLUME \<noteq> 0 \<and> disk_idx h < DISK_COUNT \<and> (disk_idx h = 0 \<longrightarrow> bootio_avail sys) \<and>
    (let vdta = extvol sys ! disk_idx h in v_flags vdta AND VDTA_VFS = 0 \<and> v_flags vdta AND VDTA_ON \<noteq> 0 \<and>
      dsk = v_disk vdta OR QDSK_IGNACCESS \<and> pos = w64 (v_start vdta + sec))"
  then show ?thesis using assms(2,3) by (subst hlp_diskread.simps) (auto simp: may_access_all Let_def)
qed simp

lemma path_write:
  assumes "io_path sys (VDTA_VFS OR VDTA_RO) h sec dsk pos" "grants (dsk_canwrite sys)" "xs \<noteq> []"
  shows "hlp_diskwrite sys h sec xs s c = hlp_diskwrite sys dsk pos xs s c"
  using assms(1) unfolding io_path_def
proof (elim disjE)
  assume "h AND NOT QDSK_VALID = 0 \<and> h AND QDSK_VOLUME \<noteq> 0 \<and> disk_idx h < DISK_COUNT \<and> (disk_idx h = 0 \<longrightarrow> bootio_avail sys) \<and>
    (let vdta = extvol sys ! disk_idx h in v_flags vdta AND (VDTA_VFS OR VDTA_RO) = 0 \<and> v_flags vdta AND VDTA_ON \<noteq> 0 \<and>
      dsk = v_disk vdta OR QDSK_IGNACCESS \<and> pos = w64 (v_start vdta + sec))"
  then show ?thesis using assms(2,3) by (subst hlp_diskwrite.simps) (auto simp: may_access_all Let_def)
qed simp

lemma with_cache_simps [simp]:
  "qd_array (with_cache e sys) = qd_array sys" "extvol (with_cache e sys) = extvol sys" "hw (with_cache e sys) = hw sys"
  "dsk_canread (with_cache e sys) = dsk_canread sys" "dsk_canwrite (with_cache e sys) = dsk_canwrite sys"
  "cache_eproc (with_cache e sys) = Some e" "bootio_avail (with_cache e sys) = bootio_avail sys"
  "dd_bootdisk (with_cache e sys) = dd_bootdisk sys"
  by (simp_all add: with_cache_def)

lemma with_cache_same [simp]:
  "io_size (with_cache e sys) ii = io_size sys ii" "disk_works (with_cache e sys) ii = disk_works sys ii"
  "disk_handle (with_cache e sys) dsk ii = disk_handle sys dsk ii" "io_path (with_cache e sys) = io_path sys"
proof -
  show a: "io_size (with_cache e sys) ii = io_size sys ii" by (simp add: io_size_def Let_def)
  show b: "disk_works (with_cache e sys) ii = disk_works sys ii" by (simp add: disk_works_def a Let_def)
  show "disk_handle (with_cache e sys) dsk ii = disk_handle sys dsk ii" by (simp add: disk_handle_def b)
  show "io_path (with_cache e sys) = io_path sys" by (simp add: io_path_def fun_eq_iff Let_def)
qed

lemma stack_read:
  fixes sys :: "('a, 'b) disk_sys" and e :: "('a, 'c) cache_ext"
  assumes "grants (dsk_canread sys)" "disk_handle sys dsk ii" "dsk AND QDSK_IAMCACHE = 0" "0 < n" "pos + n \<le> io_size sys ii"
    and "dsk AND QDSK_DIRECT = 0 \<Longrightarrow> c_read e dsk pos n s c = Some (get_sectors ii pos k s, c1)"
    and "dsk AND QDSK_DIRECT \<noteq> 0 \<Longrightarrow> k = 0 \<and> c1 = c" and "k \<le> n"
  shows "hlp_diskread (with_cache e sys) dsk pos n s c =
    Some (if k < n \<and> io_target (qd_array sys) dsk = Real ii then n - k else n, get_sectors ii pos n s, c1)"
proof -
  have "hlp_diskread (with_cache e sys) dsk pos n s c = action_read (with_cache e sys) dsk pos n s c"
    by (rule handle_read [where ii = ii]) (use assms in simp_all)
  also have "\<dots> = Some (if k < n \<and> io_target (qd_array (with_cache e sys)) dsk = Real ii then n - k else n, get_sectors ii pos n s, c1)"
    by (rule action_read_rest) (use assms in \<open>auto simp: get_sectors_def\<close>)
  finally show ?thesis by simp
qed

section \<open>Properties\<close>


text \<open>A volume from sector 2 of a disk of 96 sectors on, with an empty cache.\<close>

definition demo_works :: disk_hw where
  "demo_works = \<lparr>bios_reads = (\<lambda>_ _ n. n), bios_writes = (\<lambda>_ _ n. n), drv_reads = (\<lambda>_ _ _ n. n), drv_writes = (\<lambda>_ _ _ n. n)\<rparr>"

definition demo_sys :: "(nat, unit) disk_sys" where
  "demo_sys = \<lparr>qd_array = [zero_qd, zero_qd, zero_qd\<lparr>qd_sectors := 96, qd_sectorsize := 4096, qd_sectorshift := 12,
       qd_flags := HDDF_PRESENT\<rparr>],
     extvol = replicate 3 \<lparr>v_flags = VDTA_ON, v_disk = 0, v_start = 2, v_length = 90, v_sectorsize = 4096\<rparr>,
     bootio_avail = False, dd_bootdisk = 0x80, cache_eproc = None, dsk_canread = None, dsk_canwrite = None, hw = demo_works\<rparr>"

lemma demo_works_all: "disk_works demo_sys 2"
  by (simp add: disk_works_def demo_sys_def demo_works_def range_works_def io_size_def zero_qd_def HDDF_PRESENT_def HDDF_HOTSWAP_def)

lemma demo_handles: "disk_handle demo_sys QDSK_IGNACCESS 2" "disk_handle demo_sys 0 2"
proof -
  have "QDSK_IGNACCESS AND NOT QDSK_VALID = 0 \<and> QDSK_IGNACCESS AND QDSK_VOLUME = 0 \<and>
      target_place (io_target (qd_array demo_sys) QDSK_IGNACCESS) = Some 2"
    "(0 :: u32) AND NOT QDSK_VALID = 0 \<and> (0 :: u32) AND QDSK_VOLUME = 0 \<and> target_place (io_target (qd_array demo_sys) 0) = Some 2"
    by code_simp+
  then show "disk_handle demo_sys QDSK_IGNACCESS 2" "disk_handle demo_sys 0 2"
    using demo_works_all by (simp_all add: disk_handle_def)
qed

lemma demo_cache_fits: "cache_fits demo_sys (demo_cache 8)"
proof -
  have c: "disks (demo_cache 8) = 1" "disk (cdi (demo_cache 8) 0) = 0" "sectors (cdi (demo_cache 8) 0) = 96" "cdi_hdds (demo_cache 8) = 1"
    unfolding demo_start by code_simp+
  have "io_size demo_sys 2 = 96" by code_simp
  moreover have "plain_key dsk = 0" if "get_di (demo_cache 8) dsk = Some 0" for dsk
    using get_di_number [OF that] by (simp add: c disk_number_def)
  ultimately show ?thesis using demo_handles(2) c unfolding cache_fits_def by auto
qed


end
