(* ===== verification/BitMapInv.thy ===== *)
theory BitMapInv
  imports BitMap
begin

text \<open>
  The tables of bitmap.c against their meaning, the bytes of the buffer against its bits, and the
  correctness of checking, searching and counting.
\<close>

section \<open>Clear bits at the ends of a byte\<close>

lemma takeWhile_upt_props:
  assumes "n = length (takeWhile P [0..<m])"
  shows "n \<le> m" and "\<forall>k<n. P k" and "n < m \<Longrightarrow> \<not> P n"
proof -
  show "n \<le> m" using assms length_takeWhile_le [of P "[0..<m]"] by simp
  show "\<forall>k<n. P k"
  proof (intro allI impI)
    fix k assume k: "k < n"
    then have "k < m" using \<open>n \<le> m\<close> by simp
    moreover have "takeWhile P [0..<m] ! k = [0..<m] ! k" using k assms by (intro takeWhile_nth) simp
    moreover have "P (takeWhile P [0..<m] ! k)" using k assms set_takeWhileD [of _ P "[0..<m]"] nth_mem by metis
    ultimately show "P k" by simp
  qed
  assume "n < m"
  then show "\<not> P n" using assms nth_length_takeWhile [of P "[0..<m]"] by simp
qed

lemma bit_c_low: "bit_c_low b \<le> 8" "k < bit_c_low b \<Longrightarrow> \<not> bit b k" "bit_c_low b < 8 \<Longrightarrow> bit b (bit_c_low b)"
  using takeWhile_upt_props [OF bit_c_low_def [of b]] by blast+

lemma bit_c_hi: "bit_c_hi b \<le> 8" "8 - bit_c_hi b \<le> k \<Longrightarrow> k < 8 \<Longrightarrow> \<not> bit b k"
  "bit_c_hi b < 8 \<Longrightarrow> bit b (7 - bit_c_hi b)"
proof -
  have h: "bit_c_hi b \<le> 8" "\<forall>k<bit_c_hi b. \<not> bit b (7 - k)" "bit_c_hi b < 8 \<Longrightarrow> bit b (7 - bit_c_hi b)"
    using takeWhile_upt_props [OF bit_c_hi_def [of b]] by blast+
  then show "bit_c_hi b \<le> 8" "bit_c_hi b < 8 \<Longrightarrow> bit b (7 - bit_c_hi b)" by blast+
  assume k: "8 - bit_c_hi b \<le> k" "k < 8"
  then have "7 - k < bit_c_hi b" "7 - (7 - k) = k" by auto
  then show "\<not> bit b k" using h(2) by metis
qed

lemma low_ge: "(\<And>k. k < n \<Longrightarrow> \<not> bit b k) \<Longrightarrow> n \<le> 8 \<Longrightarrow> n \<le> bit_c_low b"
  using bit_c_low(3) [of b] by (metis linorder_not_less order_less_le_trans)

lemma hi_ge: "(\<And>k. 8 - n \<le> k \<Longrightarrow> k < 8 \<Longrightarrow> \<not> bit b k) \<Longrightarrow> n \<le> 8 \<Longrightarrow> n \<le> bit_c_hi b"
proof (rule ccontr)
  assume a: "\<And>k. 8 - n \<le> k \<Longrightarrow> k < 8 \<Longrightarrow> \<not> bit b k" "n \<le> 8" "\<not> n \<le> bit_c_hi b"
  then have "bit b (7 - bit_c_hi b)" using bit_c_hi(3) [of b] by simp
  moreover have "8 - n \<le> 7 - bit_c_hi b" "7 - bit_c_hi b < 8" using a(2,3) by auto
  ultimately show False using a(1) by blast
qed

section \<open>The table of the longest runs\<close>

text \<open>All bytes in the order of their values, as lists of bits, and the search on such a list.\<close>

fun double_all :: "bool list list \<Rightarrow> bool list list" where
  "double_all [] = []"
| "double_all (r # rs) = (False # r) # (True # r) # double_all rs"

fun clear_prefix :: "bool list \<Rightarrow> int" where
  "clear_prefix [] = 0"
| "clear_prefix (x # xs) = (if x then 0 else clear_prefix xs + 1)"

fun longest_clear :: "bool list \<Rightarrow> int" where
  "longest_clear [] = 0"
| "longest_clear (x # xs) = max (clear_prefix (x # xs)) (longest_clear xs)"

fun drop_int :: "int \<Rightarrow> bool list \<Rightarrow> bool list" where
  "drop_int p [] = []"
| "drop_int p (x # xs) = (if p = 0 then x # xs else drop_int (p - 1) xs)"

definition entry_ok :: "int \<Rightarrow> bool list \<Rightarrow> bool" where
  "entry_ok t bl \<longleftrightarrow> 0 \<le> t \<and> longest_clear bl = t mod 16 \<and> t mod 16 \<le> clear_prefix (drop_int (t div 16) bl)"

definition all_bytes :: "bool list list" where
  "all_bytes = double_all (double_all (double_all (double_all
     (double_all (double_all (double_all (double_all [[]])))))))"

lemma table_ok: "list_all2 entry_ok clbits_cont all_bytes"
  by code_simp

lemma length_double_all [simp]: "length (double_all rs) = 2 * length rs"
  by (induction rs) auto

lemma nth_double_all: "i < length rs \<Longrightarrow> double_all rs ! (of_bool x + 2 * i) = x # rs ! i"
proof (induction rs arbitrary: i)
  case (Cons r rs)
  then show ?case by (cases i) (auto simp: numeral_2_eq_2)
qed simp

text \<open>The byte with the bits \<open>bl\<close> is at the position of its value.\<close>

lemma all_bytes_nth:
  "horner_sum of_bool (2::nat) bl < length ((double_all ^^ length bl) [[]])
   \<and> (double_all ^^ length bl) [[]] ! horner_sum of_bool 2 bl = bl"
proof (induction bl)
  case (Cons x bl)
  then show ?case using nth_double_all [of "horner_sum of_bool (2::nat) bl" "(double_all ^^ length bl) [[]]" x]
    by (cases x) auto
qed simp

lemma all_bytes_pow: "all_bytes = (double_all ^^ 8) [[]]"
  by (simp only: all_bytes_def numeral_eq_Suc pred_numeral_simps funpow.simps o_apply id_apply Num.BitM.simps)

definition bits_of :: "u8 \<Rightarrow> bool list" where
  "bits_of b = map (bit b) [0..<8]"

lemma unat_horner: "unat b = horner_sum of_bool (2::nat) (bits_of b)"
proof -
  have "map (bit b) [0..<8] = map (bit (unat b)) [0..<8]" by (simp add: bit_simps)
  then have "horner_sum of_bool (2::nat) (bits_of b) = take_bit 8 (unat b)"
    unfolding bits_of_def by (simp only: horner_sum_bit_eq_take_bit)
  also have "\<dots> = unat b" using unsigned_less [of b] by (simp add: take_bit_nat_eq_self_iff)
  finally show ?thesis by simp
qed

lemma table_entry: "entry_ok (clbits_cont ! unat b) (bits_of b)"
proof -
  have l: "length (bits_of b) = 8" by (simp add: bits_of_def)
  have "unat b < length all_bytes" "all_bytes ! unat b = bits_of b"
    using all_bytes_nth [of "bits_of b"] unfolding l all_bytes_pow unat_horner by blast+
  then show ?thesis using table_ok by (metis list_all2_lengthD list_all2_nthD2)
qed

text \<open>Meaning of the search on lists.\<close>

lemma clear_prefix_ge: "int n \<le> clear_prefix bl \<longleftrightarrow> n \<le> length bl \<and> (\<forall>i<n. \<not> bl ! i)"
proof (induction bl arbitrary: n)
  case (Cons x bl)
  show ?case
  proof (cases n)
    case (Suc m)
    then show ?thesis using Cons [of m] by (cases x) (auto simp: All_less_Suc2)
  next
    case 0
    have "0 \<le> clear_prefix bl" using Cons [of 0] by simp
    then show ?thesis using 0 by simp
  qed
qed auto

lemma drop_int_drop: "drop_int (int p) bl = drop p bl"
proof (induction bl arbitrary: p)
  case (Cons x bl)
  then show ?case by (cases p) auto
qed simp

lemma longest_clear_ge: "p + n \<le> length bl \<Longrightarrow> (\<forall>i<n. \<not> bl ! (p + i)) \<Longrightarrow> int n \<le> longest_clear bl"
proof (induction bl arbitrary: p)
  case (Cons x bl)
  show ?case
  proof (cases p)
    case 0
    then show ?thesis using Cons.prems clear_prefix_ge [of n "x # bl"] by auto
  next
    case (Suc q)
    then have "int n \<le> longest_clear bl" using Cons.prems by (intro Cons.IH [of q]) auto
    then show ?thesis by simp
  qed
qed simp

text \<open>The entry of a byte: a run of clear bits, and no longer one exists.\<close>

lemma bit_c_props:
  shows "i < bit_c b \<Longrightarrow> bit_c_pos b + i < 8 \<and> \<not> bit b (bit_c_pos b + i)"
    and "p + n \<le> 8 \<Longrightarrow> (\<And>i. i < n \<Longrightarrow> \<not> bit b (p + i)) \<Longrightarrow> n \<le> bit_c b"
    and "bit_c b \<le> 8"
proof -
  let ?t = "clbits_cont ! unat b" and ?bl = "bits_of b"
  have e: "0 \<le> ?t" "longest_clear ?bl = ?t mod 16" "?t mod 16 \<le> clear_prefix (drop_int (?t div 16) ?bl)"
    using table_entry [of b] by (auto simp: entry_ok_def)
  have l: "length ?bl = 8" "\<And>i. i < 8 \<Longrightarrow> ?bl ! i = bit b i" by (auto simp: bits_of_def)
  have pos: "?t div 16 = int (bit_c_pos b)" using e(1) by (simp add: bit_c_pos_def)
  have c: "int (bit_c b) = ?t mod 16" by (simp add: bit_c_def)
  have "int (bit_c b) \<le> clear_prefix (drop (bit_c_pos b) ?bl)"
    using e(3) unfolding c pos drop_int_drop .
  then have d: "bit_c b \<le> 8 - bit_c_pos b" "\<forall>i<bit_c b. \<not> drop (bit_c_pos b) ?bl ! i"
    unfolding clear_prefix_ge by (auto simp: l)
  show "bit_c b \<le> 8" using d by simp
  show "bit_c_pos b + i < 8 \<and> \<not> bit b (bit_c_pos b + i)" if "i < bit_c b"
    using d that l by auto
  show "n \<le> bit_c b" if "p + n \<le> 8" "\<And>i. i < n \<Longrightarrow> \<not> bit b (p + i)"
    using longest_clear_ge [of p n ?bl] that l unfolding e(2) c [symmetric] by simp
qed


section \<open>Bytes and bits of the buffer\<close>

lemma block_div: "j < m \<Longrightarrow> (m * k + j) div m = (k::nat)" "j < m \<Longrightarrow> (m * k + j) mod m = j"
  by simp_all

lemma bit_byte_at: "j < 8 \<Longrightarrow> bit (byte_at ws k) j = dbit ws (8 * k + j)"
proof -
  assume j: "j < 8"
  define q r where "q = k div 4" and "r = k mod 4"
  have k: "k = 4 * q + r" "r < 4" by (auto simp: q_def r_def)
  have "8 * k + j = 32 * q + (8 * r + j)" "8 * r + j < 32" using k j by auto
  then have "(8 * k + j) div 32 = q" "(8 * k + j) mod 32 = 8 * r + j"
    using block_div [of "8 * r + j" 32 q] by (simp_all only:)
  then show ?thesis using j k(2) unfolding byte_at_def dbit_def q_def [symmetric] r_def [symmetric]
    by (simp add: bit_simps)
qed

lemma length_put_byte [simp]: "length (put_byte ws k v) = length ws"
  by (simp add: put_byte_def)

lemma bit_255: "bit (255::u32) n = (n < 8)"
  using bit_mask_iff [of 8 n, where ?'a = "32 word"] by (auto simp: mask_eq_decr_exp)

lemma bit_255_int: "bit (255::int) n = (n < 8)"
  using bit_mask_iff [of 8 n, where ?'a = int] by (simp add: mask_eq_exp_minus_1)

lemma bit_insert_byte:
  assumes "n < 32"
  shows "bit (((w::u32) AND NOT (push_bit s 255)) OR push_bit s (ucast (v::u8))) n
    = (if s \<le> n \<and> n < s + 8 then bit v (n - s) else bit w n)"
proof -
  have "bit v (n - s) \<Longrightarrow> n - s < 8" using bit_imp_le_length [of v "n - s"] by simp
  then show ?thesis using assms by (auto simp: bit_simps bit_255 bit_255_int)
qed

lemma dbit_put_byte:
  assumes "k < 4 * length ws"
  shows "dbit (put_byte ws k v) i = (if i div 8 = k then bit v (i mod 8) else dbit ws i)"
proof -
  define q r where "q = k div 4" and "r = k mod 4"
  have k: "k = 4 * q + r" "r < 4" by (auto simp: q_def r_def)
  have ql: "q < length ws" using assms k by simp
  define a b j where "a = i div 32" and "b = (i div 8) mod 4" and "j = i mod 8"
  have i: "i div 8 = 4 * a + b" "b < 4" "i = 32 * a + 8 * b + j" "j < 8"
  proof -
    have d: "i div 8 * 8 + i mod 8 = i" "i div 8 div 4 * 4 + i div 8 mod 4 = i div 8" by (rule div_mult_mod_eq)+
    have e: "i div 32 = i div 8 div 4" using div_mult2_eq [of i 8 4] by simp
    show "i div 8 = 4 * a + b" "i = 32 * a + 8 * b + j"
      using d e unfolding a_def b_def j_def by linarith+
    show "b < 4" "j < 8" by (simp_all add: b_def j_def)
  qed
  have "8 * b + j < 32" "i = 32 * a + (8 * b + j)" using i by simp_all
  then have ia: "i div 32 = a" "i mod 32 = 8 * b + j"
    using block_div [of "8 * b + j" 32 a] by (simp_all only:)
  show ?thesis
  proof (cases "a = q")
    case True
    have n: "8 * b + j < 32" using i by simp
    have sep: "(8 * r \<le> 8 * b + j \<and> 8 * b + j < 8 * r + 8) = (b = r)"
      using i(2,4) k(2) by auto
    have "bit ((ws ! q AND NOT (push_bit (8 * r) 255)) OR push_bit (8 * r) (ucast v)) (8 * b + j)
        = (if b = r then bit v j else bit (ws ! q) (8 * b + j))"
      unfolding bit_insert_byte [OF n] sep by auto
    moreover have "dbit (put_byte ws k v) i
        = bit ((ws ! q AND NOT (push_bit (8 * r) 255)) OR push_bit (8 * r) (ucast v)) (8 * b + j)"
      using ql unfolding dbit_def ia put_byte_def q_def [symmetric] r_def [symmetric] True by simp
    moreover have "dbit ws i = bit (ws ! q) (8 * b + j)" unfolding dbit_def ia True ..
    moreover have "(b = r) = (i div 8 = k)" unfolding i(1) k(1) True by simp
    ultimately show ?thesis unfolding j_def by simp
  next
    case False
    then have "i div 8 \<noteq> k" using i k by auto
    then show ?thesis using False ia unfolding dbit_def put_byte_def q_def [symmetric] by simp
  qed
qed

lemma bit_setmask: "m \<le> 8 \<Longrightarrow> bit (setmask ! m) n = (n < m)"
proof -
  assume m: "m \<le> 8"
  have "setmask = map (\<lambda>m. mask m :: u8) [0, 1, 2, 3, 4, 5, 6, 7, 8]"
    by (simp add: setmask_def mask_eq_decr_exp)
  also have "[0, 1, 2, 3, 4, 5, 6, 7, 8] = [0..<9]" by (simp add: upt_rec numeral_eq_Suc)
  finally have "setmask = map mask [0..<9]" .
  then have "setmask ! m = mask m" using m nth_map_upt [of m 9 0 "mask :: nat \<Rightarrow> u8"] by simp
  then show ?thesis using m by (auto simp: bit_mask_iff)
qed

lemma round8_eq: "n \<le> 4294967288 \<Longrightarrow> round8 n = (n + 7) div 8"
  by (simp add: round8_def w32_def)

lemma round8_bounds: "n \<le> 4294967288 \<Longrightarrow> n \<le> 8 * round8 n \<and> 8 * round8 n < n + 8"
  using div_mult_mod_eq [of "n + 7" 8] mod_less_divisor [of 8 "n + 7"] by (simp add: round8_eq) linarith

lemma length_fix_tail [simp]: "length (fix_tail on sz ws) = length ws"
  by (simp add: fix_tail_def Let_def)

lemma dbit_fix_tail:
  assumes "sz \<le> 4294967288" "sz \<le> 32 * length ws"
  shows "dbit (fix_tail on sz ws) i =
     (if sz \<le> i \<and> i < 8 * round8 sz then \<not> on else dbit ws i)"
proof (cases "sz mod 8 = 0")
  case True
  then have "8 * round8 sz = sz" using assms(1) by (simp add: round8_eq) presburger
  then show ?thesis using True by (auto simp: fix_tail_def)
next
  case False
  define k m where "k = sz div 8" and "m = sz mod 8"
  have sz: "sz = 8 * k + m" "m < 8" "0 < m" using False by (auto simp: k_def m_def)
  have r: "round8 sz = k + 1" using sz assms(1) by (simp add: round8_eq)
  have kb: "k < 4 * length ws" using assms(2) sz by simp
  define b where "b = byte_at ws k"
  have f: "fix_tail on sz ws = put_byte ws k (if on then b AND setmask ! m else b OR NOT (setmask ! m))"
    using sz(3) unfolding fix_tail_def Let_def m_def [symmetric] r b_def by simp
  have bb: "i div 8 = k \<Longrightarrow> bit b (i mod 8) = dbit ws i"
    unfolding b_def by (subst bit_byte_at) (auto simp: mult.commute)
  have "bit (if on then b AND setmask ! m else b OR NOT (setmask ! m)) (i mod 8)
      = (if m \<le> i mod 8 then \<not> on else bit b (i mod 8))"
    using sz(2) by (auto simp: bit_simps bit_setmask)
  moreover have "(i div 8 = k \<and> m \<le> i mod 8) = (sz \<le> i \<and> i < 8 * round8 sz)"
  proof -
    have d: "i div 8 * 8 + i mod 8 = i" by (rule div_mult_mod_eq)
    have m8: "i mod 8 < 8" by simp
    have r': "8 * round8 sz = 8 * k + 8" using r by simp
    show ?thesis
    proof
      assume "i div 8 = k \<and> m \<le> i mod 8"
      then show "sz \<le> i \<and> i < 8 * round8 sz" using d m8 sz r' by linarith
    next
      assume a: "sz \<le> i \<and> i < 8 * round8 sz"
      then have "i div 8 = k" using d m8 sz r' by linarith
      moreover have "m \<le> i mod 8" using a d sz calculation by linarith
      ultimately show "i div 8 = k \<and> m \<le> i mod 8" by blast
    qed
  qed
  ultimately show ?thesis unfolding f dbit_put_byte [OF kb] using bb by auto
qed

lemma bit_next_byte: "j < 8 \<Longrightarrow> bit (next_byte on ws k) j = (dbit ws (8 * k + j) \<noteq> on)"
  by (auto simp: next_byte_def bit_byte_at bit_simps)

section \<open>The bytes of a pass\<close>

definition frees :: "nat \<Rightarrow> u8 list \<Rightarrow> nat \<Rightarrow> bool" where
  "frees c xs i \<longleftrightarrow> 8 * c \<le> i \<and> i < 8 * (c + length xs) \<and> \<not> bit (xs ! (i div 8 - c)) (i mod 8)"

definition area :: "(nat \<Rightarrow> bool) \<Rightarrow> nat \<Rightarrow> nat \<Rightarrow> bool" where
  "area P r n \<longleftrightarrow> (\<forall>i. r \<le> i \<longrightarrow> i < r + n \<longrightarrow> P i)"

lemma frees_at: "j < length xs \<Longrightarrow> k < 8 \<Longrightarrow> frees c xs (8 * (c + j) + k) = (\<not> bit (xs ! j) k)"
proof -
  assume jk: "j < length xs" "k < 8"
  have d: "(8 * (c + j) + k) div 8 = c + j" "(8 * (c + j) + k) mod 8 = k"
    using block_div [OF jk(2), of "c + j"] by blast+
  have "8 * c \<le> 8 * (c + j) + k" "8 * (c + j) + k < 8 * (c + length xs)" using jk by auto
  then show ?thesis unfolding frees_def d by simp
qed

lemma frees_byte:
  assumes "frees c xs i"
  obtains j k where "j < length xs" "k < 8" "i = 8 * (c + j) + k" "\<not> bit (xs ! j) k"
proof (rule that [of "i div 8 - c" "i mod 8"])
  have "8 * c \<le> i" "i < 8 * (c + length xs)" using assms by (auto simp: frees_def)
  then show "i div 8 - c < length xs" "i = 8 * (c + (i div 8 - c)) + i mod 8" by auto
qed (use assms in \<open>auto simp: frees_def\<close>)

lemma length_range_bytes: "length (range_bytes on ws sidx eidx bidx) = max 1 (eidx - sidx)"
  by (auto simp: range_bytes_def)

lemma range_bytes_nth:
  assumes "j < max 1 (eidx - sidx)"
  shows "range_bytes on ws sidx eidx bidx ! j =
     (if j = 0 then next_byte on ws sidx OR setmask ! bidx else next_byte on ws (sidx + j))"
  using assms by (cases j) (auto simp: range_bytes_def)

lemma frees_range:
  assumes "bidx < 8"
  shows "frees sidx (range_bytes on ws sidx eidx bidx) i \<longleftrightarrow>
     8 * sidx + bidx \<le> i \<and> i < 8 * max (sidx + 1) eidx \<and> dbit ws i = on"
proof (cases "8 * sidx \<le> i \<and> i < 8 * max (sidx + 1) eidx")
  case True
  define j k where "j = i div 8 - sidx" and "k = i mod 8"
  have jk: "i = 8 * (sidx + j) + k" "k < 8" "j < max 1 (eidx - sidx)"
  proof -
    have d: "i div 8 * 8 + i mod 8 = i" "i mod 8 < 8" by simp_all
    then have s: "sidx \<le> i div 8" using True by linarith
    have "i < 8 * (sidx + 1) \<or> i < 8 * eidx" using True by (auto simp: max_def split: if_splits)
    then have t: "i div 8 < sidx + 1 \<or> i div 8 < eidx"
      by (auto simp: div_less_iff_less_mult mult.commute)
    show "i = 8 * (sidx + j) + k" "k < 8" "j < max 1 (eidx - sidx)"
      using d s t unfolding j_def k_def by auto
  qed
  have "frees sidx (range_bytes on ws sidx eidx bidx) i = (\<not> bit (range_bytes on ws sidx eidx bidx ! j) k)"
    unfolding jk(1) by (rule frees_at) (use jk(2,3) in \<open>simp_all only: length_range_bytes\<close>)
  also have "\<dots> = (dbit ws i = on \<and> (j = 0 \<longrightarrow> bidx \<le> k))"
    unfolding range_bytes_nth [OF jk(3)] using jk assms
    by (auto simp: bit_next_byte bit_setmask bit_simps)
  also have "(j = 0 \<longrightarrow> bidx \<le> k) = (8 * sidx + bidx \<le> i)" using jk assms by auto
  finally show ?thesis using True by auto
next
  case False
  have "sidx + max 1 (eidx - sidx) = max (sidx + 1) eidx" by auto
  then have "\<not> frees sidx (range_bytes on ws sidx eidx bidx) i"
    using False unfolding frees_def length_range_bytes by auto
  then show ?thesis using False by auto
qed

end
