(* ===== verification/BitMapFind.thy ===== *)
theory BitMapFind
  imports BitMapInv
begin

text \<open>Correctness of the search \<open>bm_find\<close>: what it returns, and when it may return nothing.\<close>

section \<open>The loop over the bytes\<close>

fun bstate :: "('s \<Rightarrow> u8 \<Rightarrow> nat \<Rightarrow> 's) \<Rightarrow> 's \<Rightarrow> nat \<Rightarrow> u8 list \<Rightarrow> nat \<Rightarrow> 's" where
  "bstate upd st c xs 0 = st"
| "bstate upd st c xs (Suc j) = upd (bstate upd st c xs j) (xs ! j) (c + j)"

lemma bstate_Cons: "bstate upd st c (x # xs) (Suc j) = bstate upd (upd st x c) (Suc c) xs j"
  by (induction j) auto

lemma bscan_SomeD: "bscan chk upd st c xs = Some r \<Longrightarrow>
    \<exists>j<length xs. chk (bstate upd st c xs j) (xs ! j) (c + j) = Some r"
proof (induction xs arbitrary: st c)
  case (Cons x xs)
  show ?case
  proof (cases "chk st x c")
    case None
    then have "bscan chk upd (upd st x c) (Suc c) xs = Some r" using Cons.prems by simp
    from Cons.IH [OF this] obtain j where
      "j < length xs" "chk (bstate upd (upd st x c) (Suc c) xs j) (xs ! j) (Suc c + j) = Some r"
      by blast
    then show ?thesis by (intro exI [of _ "Suc j"]) (simp add: bstate_Cons del: bstate.simps)
  qed (use Cons in \<open>auto intro: exI [of _ 0]\<close>)
qed simp

lemma bscan_NoneD: "bscan chk upd st c xs = None \<Longrightarrow> j < length xs \<Longrightarrow>
    chk (bstate upd st c xs j) (xs ! j) (c + j) = None"
proof (induction xs arbitrary: st c j)
  case (Cons x xs)
  then have "chk st x c = None" "bscan chk upd (upd st x c) (Suc c) xs = None"
    by (auto split: option.splits)
  then show ?case using Cons.prems(2) Cons.IH [of "upd st x c" "Suc c" "j - 1"]
    by (cases j) (auto simp: bstate_Cons simp del: bstate.simps(2))
qed simp

section \<open>Runs made of the ends of bytes\<close>

text \<open>\<open>p\<close> bytes before byte \<open>j\<close>: the high end of one byte, zero bytes, the low end of byte \<open>j\<close>.\<close>

lemma frees_join:
  assumes j: "j < length xs" and n: "n < j" and z: "\<And>i. j - n \<le> i \<Longrightarrow> i < j \<Longrightarrow> xs ! i = 0"
  defines "hi \<equiv> bit_c_hi (xs ! (j - n - 1))"
  shows "area (frees c xs) (8 * (c + j - n) - hi) (hi + 8 * n + bit_c_low (xs ! j))"
  unfolding area_def
proof (intro allI impI)
  have hi8: "hi \<le> 8" using bit_c_hi(1) by (simp add: hi_def)
  have low8: "bit_c_low (xs ! j) \<le> 8" by (rule bit_c_low(1))
  fix i assume i: "8 * (c + j - n) - hi \<le> i" "i < 8 * (c + j - n) - hi + (hi + 8 * n + bit_c_low (xs ! j))"
  have e: "8 * (c + j - n) - hi + (hi + 8 * n + bit_c_low (xs ! j)) = 8 * (c + j) + bit_c_low (xs ! j)"
    using hi8 n by auto
  consider "i < 8 * (c + j - n)" | "8 * (c + j - n) \<le> i" "i < 8 * (c + j)" | "8 * (c + j) \<le> i"
    by linarith
  then show "frees c xs i"
  proof cases
    case 1
    define k where "k = i - 8 * (c + (j - n - 1))"
    have k: "i = 8 * (c + (j - n - 1)) + k" "k < 8" "8 - hi \<le> k" using 1 i(1) n hi8 by (auto simp: k_def)
    show ?thesis unfolding k(1) using j n k bit_c_hi(2) [of "xs ! (j - n - 1)" k]
      by (subst frees_at) (auto simp: hi_def)
  next
    case 2
    define m k where "m = i div 8 - c" and "k = i mod 8"
    have "i div 8 * 8 + i mod 8 = i" "i mod 8 < 8" by simp_all
    then have d: "c + j - n \<le> i div 8" "i div 8 < c + j" "i = 8 * (i div 8) + i mod 8"
      using 2 n by (auto simp: less_eq_div_iff_mult_less_eq div_less_iff_less_mult)
    then have m: "i = 8 * (c + m) + k" "k < 8" "j - n \<le> m" "m < j"
      using n d by (auto simp: m_def k_def)
    show ?thesis unfolding m(1) using j z [OF m(3,4)] m by (subst frees_at) auto
  next
    case 3
    define k where "k = i - 8 * (c + j)"
    have k: "i = 8 * (c + j) + k" "k < bit_c_low (xs ! j)" using 3 i(2) unfolding e by (auto simp: k_def)
    show ?thesis unfolding k(1) using j k low8 bit_c_low(2) [of k "xs ! j"] by (subst frees_at) auto
  qed
qed

lemma frees_start:
  assumes j: "j < length xs" and z: "\<And>i. i < j \<Longrightarrow> xs ! i = 0"
  shows "area (frees c xs) (8 * c) (8 * j + bit_c_low (xs ! j))"
  unfolding area_def
proof (intro allI impI)
  fix i assume i: "8 * c \<le> i" "i < 8 * c + (8 * j + bit_c_low (xs ! j))"
  have d: "i div 8 * 8 + i mod 8 = i" "i mod 8 < 8" by simp_all
  define m where "m = i div 8 - c"
  have "c \<le> i div 8" using i(1) d by linarith
  then have m1: "i = 8 * (c + m) + i mod 8" using d unfolding m_def by simp
  have "i div 8 \<le> c + j"
  proof (rule ccontr)
    assume "\<not> i div 8 \<le> c + j"
    then have "c + j + 1 \<le> i div 8" by simp
    then have "8 * (c + j) + 8 \<le> i" by (simp add: less_eq_div_iff_mult_less_eq)
    then show False using i(2) bit_c_low(1) [of "xs ! j"] by simp
  qed
  then have m: "i = 8 * (c + m) + i mod 8" "m \<le> j" using m1 by (auto simp: m_def)
  have "\<not> bit (xs ! m) (i mod 8)"
  proof (cases "m = j")
    case True
    then have "i mod 8 < bit_c_low (xs ! j)" using m i by simp
    then show ?thesis using True bit_c_low(2) by blast
  qed (use m z in auto)
  then show "frees c xs i" using frees_at [of m xs "i mod 8" c] m j by simp
qed

lemma area_mono: "area P r n \<Longrightarrow> r \<le> r' \<Longrightarrow> r' + n' \<le> r + n \<Longrightarrow> area P r' n'"
  by (auto simp: area_def)

lemma frees_inside:
  assumes "j < length xs"
  shows "area (frees c xs) (8 * (c + j) + bit_c_pos (xs ! j)) (bit_c (xs ! j))"
  unfolding area_def
proof (intro allI impI)
  fix i assume i: "8 * (c + j) + bit_c_pos (xs ! j) \<le> i" "i < 8 * (c + j) + bit_c_pos (xs ! j) + bit_c (xs ! j)"
  define k where "k = i - 8 * (c + j) - bit_c_pos (xs ! j)"
  have k: "i = 8 * (c + j) + (bit_c_pos (xs ! j) + k)" "k < bit_c (xs ! j)" using i by (auto simp: k_def)
  show "frees c xs i" unfolding k(1) using assms bit_c_props(1) [OF k(2)] by (subst frees_at) auto
qed

text \<open>Conversely: a run that ends in byte \<open>j\<close>.\<close>

lemma frees_end_low:
  assumes a: "area (frees c xs) r n" and j: "j < length xs" and e: "r \<le> 8 * (c + j)" "r + n \<le> 8 * (c + j) + 8"
  shows "r + n \<le> 8 * (c + j) + bit_c_low (xs ! j)"
proof (cases "r + n \<le> 8 * (c + j)")
  case False
  have "r + n - 8 * (c + j) \<le> bit_c_low (xs ! j)"
  proof (rule low_ge)
    fix k assume k: "k < r + n - 8 * (c + j)"
    then have "frees c xs (8 * (c + j) + k)" using a e by (simp add: area_def)
    then show "\<not> bit (xs ! j) k" using j k e by (subst (asm) frees_at) auto
  qed (use e in simp)
  then show ?thesis by simp
qed simp

lemma frees_begin_hi:
  assumes a: "area (frees c xs) r n" and j: "j < length xs" and e: "8 * (c + j) \<le> r" "8 * (c + j) + 8 \<le> r + n"
  shows "8 * (c + j) + 8 \<le> r + bit_c_hi (xs ! j)"
proof (cases "8 * (c + j) + 8 \<le> r")
  case False
  have "8 * (c + j) + 8 - r \<le> bit_c_hi (xs ! j)"
  proof (rule hi_ge)
    fix k assume k: "8 - (8 * (c + j) + 8 - r) \<le> k" "k < 8"
    then have "frees c xs (8 * (c + j) + k)" using a e by (auto simp: area_def)
    then show "\<not> bit (xs ! j) k" using j k by (subst (asm) frees_at) auto
  qed (use e in simp)
  then show ?thesis by simp
qed simp

lemma frees_zero:
  assumes a: "area (frees c xs) r n" and j: "j < length xs" and e: "r \<le> 8 * (c + j)" "8 * (c + j) + 8 \<le> r + n"
  shows "xs ! j = 0"
proof (rule bit_word_eqI)
  fix k assume "k < LENGTH(8)"
  then have k: "k < 8" by simp
  then have "frees c xs (8 * (c + j) + k)" using a e by (auto simp: area_def)
  then show "bit (xs ! j) k = bit (0::u8) k" using j k by (subst (asm) frees_at) auto
qed


section \<open>The states of the three loops\<close>

lemma hi_255 [simp]: "bit_c_hi 255 = 0"
  by code_simp

lemma state9: "bstate (\<lambda>st bb c. bb) 255 c xs j = (if j = 0 then 255 else xs ! (j - 1))"
  by (cases j) auto

lemma state14: "bstate (\<lambda>st bb c. (snd st, bb)) (255, 255) c xs j =
    (if j < 2 then 255 else xs ! (j - 2), if j = 0 then 255 else xs ! (j - 1))"
proof (induction j)
  case (Suc j)
  then show ?case by (cases j) auto
qed simp

definition big_inv :: "nat \<Rightarrow> u8 list \<Rightarrow> nat \<Rightarrow> u8 \<times> int \<times> nat \<Rightarrow> bool" where
  "big_inv c xs j st \<longleftrightarrow> (case st of (startbb, start, n) \<Rightarrow>
     n \<le> j \<and> (\<forall>i. j - n \<le> i \<longrightarrow> i < j \<longrightarrow> xs ! i = 0) \<and> start = int (c + j - n) - 1
     \<and> (if n = j then startbb = 255 else startbb = xs ! (j - n - 1) \<and> startbb \<noteq> 0))"

lemma state_big: "big_inv c xs j (bstate upd_big (255, int c - 1, 0) c xs j)"
proof (induction j)
  case (Suc j)
  obtain b0 s0 n where st: "bstate upd_big (255, int c - 1, 0) c xs j = (b0, s0, n)"
    by (cases "bstate upd_big (255, int c - 1, 0) c xs j")
  have i: "n \<le> j" "\<forall>i. j - n \<le> i \<longrightarrow> i < j \<longrightarrow> xs ! i = 0" "s0 = int (c + j - n) - 1"
    "if n = j then b0 = 255 else b0 = xs ! (j - n - 1) \<and> b0 \<noteq> 0"
    using Suc st by (auto simp: big_inv_def)
  show ?case
  proof (cases "xs ! j = 0")
    case True
    have "\<forall>i. j - n \<le> i \<longrightarrow> i < Suc j \<longrightarrow> xs ! i = 0" using i(2) True by (auto simp: less_Suc_eq)
    moreover have "bstate upd_big (255, int c - 1, 0) c xs (Suc j) = (b0, s0, n + 1)"
      unfolding bstate.simps st using True by (simp add: upd_big_def)
    ultimately show ?thesis using i by (cases "n = j") (auto simp: big_inv_def)
  next
    case False
    have "bstate upd_big (255, int c - 1, 0) c xs (Suc j) = (xs ! j, int (c + j), 0)"
      unfolding bstate.simps st using False by (simp add: upd_big_def)
    then show ?thesis using False by (simp add: big_inv_def)
  qed
qed (simp add: big_inv_def)

lemma big_pos:
  assumes "n \<le> j" "8 * (c + j) < 4294967296" and "hi \<le> 8" and "n = j \<longrightarrow> hi = 0"
  shows "nat (((int (c + j - n) - 1) * 8 + (8 - int hi)) mod 4294967296) = 8 * (c + j - n) - hi"
proof -
  have "hi \<le> 8 * (c + j - n)" using assms by (cases "n = j") auto
  then have "(int (c + j - n) - 1) * 8 + (8 - int hi) = int (8 * (c + j - n) - hi)"
    by (simp add: of_nat_diff algebra_simps)
  moreover have "int (8 * (c + j - n) - hi) mod 4294967296 = int (8 * (c + j - n) - hi)"
    using assms by (intro mod_pos_pos_trivial) auto
  ultimately show ?thesis by simp
qed

section \<open>What is found is free\<close>

lemma area_0 [simp]: "area P r 0"
  by (simp add: area_def)

lemma hi_low_area:
  assumes "j < length xs" "len \<le> bit_c_hi (if j = 0 then 255 else xs ! (j - 1)) + bit_c_low (xs ! j)"
  shows "area (frees c xs) (8 * (c + j) - bit_c_hi (if j = 0 then 255 else xs ! (j - 1))) len"
proof (cases "j = 0")
  case True
  then show ?thesis using assms frees_start [of j xs c] by (auto intro: area_mono)
next
  case False
  then show ?thesis using assms frees_join [of j xs 0 c] by (auto intro: area_mono)
qed

lemma find9_sound:
  assumes "bscan (chk9 sz len) (\<lambda>st bb c. bb) 255 c xs = Some r"
  shows "area (frees c xs) r len"
proof -
  obtain j where j: "j < length xs"
    "chk9 sz len (if j = 0 then 255 else xs ! (j - 1)) (xs ! j) (c + j) = Some r"
    using bscan_SomeD [OF assms] unfolding state9 by blast
  then show ?thesis
    using hi_low_area [OF j(1), of len c] frees_inside [OF j(1), of c]
    by (auto simp: chk9_def Let_def area_def split: if_splits)
qed

lemma find14_sound:
  assumes "bscan (chk14 sz len) (\<lambda>st bb c. (snd st, bb)) (255, 255) c xs = Some r"
  shows "area (frees c xs) r len"
proof -
  obtain j where j: "j < length xs"
    "chk14 sz len (if j < 2 then 255 else xs ! (j - 2), if j = 0 then 255 else xs ! (j - 1)) (xs ! j) (c + j) = Some r"
    using bscan_SomeD [OF assms] unfolding state14 by blast
  have 2: "area (frees c xs) (8 * (c + j) - 8 - bit_c_hi (if j < 2 then 255 else xs ! (j - 2)))
      (bit_c_hi (if j < 2 then 255 else xs ! (j - 2)) + 8 + bit_c_low (xs ! j))"
    if z: "(if j = 0 then 255 else xs ! (j - 1)) = 0"
  proof -
    have j0: "j \<noteq> 0" and z1: "xs ! (j - 1) = 0" using z by (auto split: if_splits)
    show ?thesis
    proof (cases "j = 1")
      case True
      then show ?thesis using frees_start [OF j(1), of c] z1 by simp
    next
      case False
      then have j2: "1 < j" using j0 by simp
      have "\<And>i. j - 1 \<le> i \<Longrightarrow> i < j \<Longrightarrow> xs ! i = 0" using z1 by (metis Suc_pred' le_less_Suc_eq not_less j0 neq0_conv)
      from frees_join [OF j(1) j2 this, of c] show ?thesis using j2
        by (simp add: numeral_2_eq_2 diff_mult_distrib2 add.assoc)
    qed
  qed
  show ?thesis
    using hi_low_area [OF j(1), of len c] j(2) 2
    by (auto simp: chk14_def Let_def area_def split: if_splits)
qed

lemma find_big_sound:
  assumes "bscan (chk_big sz len) upd_big (255, int c - 1, 0) c xs = Some r"
    and bnd: "8 * (c + length xs) \<le> 4294967296"
  shows "area (frees c xs) r len"
proof -
  obtain j where j: "j < length xs"
    "chk_big sz len (bstate upd_big (255, int c - 1, 0) c xs j) (xs ! j) (c + j) = Some r"
    using bscan_SomeD [OF assms(1)] by blast
  obtain b0 s0 n where st: "bstate upd_big (255, int c - 1, 0) c xs j = (b0, s0, n)"
    by (cases "bstate upd_big (255, int c - 1, 0) c xs j")
  have i: "n \<le> j" "\<And>i. j - n \<le> i \<Longrightarrow> i < j \<Longrightarrow> xs ! i = 0" "s0 = int (c + j - n) - 1"
    "if n = j then b0 = 255 else b0 = xs ! (j - n - 1) \<and> b0 \<noteq> 0"
    using state_big [of c xs j] st by (auto simp: big_inv_def)
  have "nat ((s0 * 8 + (8 - int (bit_c_hi b0))) mod 4294967296) = 8 * (c + j - n) - bit_c_hi b0"
    unfolding i(3) using i(4) bit_c_hi(1) [of b0] bnd j(1) by (intro big_pos [OF i(1)]) auto
  then have r: "r = 8 * (c + j - n) - bit_c_hi b0" "len \<le> bit_c_hi b0 + n * 8 + bit_c_low (xs ! j)"
    using j(2) st by (auto simp: chk_big_def Let_def split: if_splits)
  show ?thesis
  proof (cases "n = j")
    case True
    then show ?thesis using frees_start [OF j(1), of c] i r by (auto intro: area_mono)
  next
    case False
    then show ?thesis using frees_join [OF j(1), of n c] i r by (auto intro: area_mono)
  qed
qed

lemma find_range_sound:
  assumes "find_range sz len c xs = Some r" and "8 * (c + length xs) \<le> 4294967296"
  shows "area (frees c xs) r len"
  using assms find9_sound find14_sound find_big_sound unfolding find_range_def
  by (auto split: if_splits)

section \<open>What is free is found\<close>

lemma find9_complete:
  assumes a: "area (frees c xs) r len" and l: "0 < len" "len \<le> 9" and s: "r + len \<le> sz" "sz < 4294967296"
  shows "bscan (chk9 sz len) (\<lambda>st bb c. bb) 255 c xs \<noteq> None"
proof
  assume none: "bscan (chk9 sz len) (\<lambda>st bb c. bb) 255 c xs = None"
  have fe: "frees c xs (r + len - 1)" "frees c xs r" using a l by (auto simp: area_def)
  obtain j k where j: "j < length xs" "k < 8" "r + len - 1 = 8 * (c + j) + k"
    using frees_byte [OF fe(1)] by blast
  note chk = bscan_NoneD [OF none j(1), unfolded state9]
  have rc: "8 * c \<le> r" using fe(2) by (simp add: frees_def)
  show False
  proof (cases "8 * (c + j) \<le> r")
    case True
    have "len \<le> bit_c (xs ! j)"
    proof (rule bit_c_props(2) [of "r - 8 * (c + j)"])
      show "r - 8 * (c + j) + len \<le> 8" using j True l by simp
      fix i assume "i < len"
      then have "frees c xs (8 * (c + j) + (r - 8 * (c + j) + i))" using a True by (auto simp: area_def)
      then show "\<not> bit (xs ! j) (r - 8 * (c + j) + i)"
        using j True l \<open>i < len\<close> by (subst (asm) frees_at) auto
    qed
    then show False using chk by (auto simp: chk9_def Let_def split: if_splits)
  next
    case False
    then have j0: "j \<noteq> 0" using rc by auto
    have lo: "r + len \<le> 8 * (c + j) + bit_c_low (xs ! j)"
      by (rule frees_end_low [OF a j(1)]) (use False j in auto)
    have hi: "8 * (c + (j - 1)) + 8 \<le> r + bit_c_hi (xs ! (j - 1))"
      by (rule frees_begin_hi [OF a]) (use False j j0 l in auto)
    have h: "8 * (c + j) - bit_c_hi (xs ! (j - 1)) \<le> r" using hi j0 by auto
    have "len \<le> bit_c_hi (xs ! (j - 1)) + bit_c_low (xs ! j)" using lo hi j0 False by auto
    moreover have "w32 (8 * (c + j) - bit_c_hi (xs ! (j - 1)) + len) \<le> sz"
      using h s by (simp add: w32_def)
    ultimately show False using chk j0 by (auto simp: chk9_def Let_def split: if_splits)
  qed
qed

lemma find14_complete:
  assumes a: "area (frees c xs) r len" and l: "9 < len" "len < 15" and s: "r + len \<le> sz" "sz < 4294967296"
  shows "bscan (chk14 sz len) (\<lambda>st bb c. (snd st, bb)) (255, 255) c xs \<noteq> None"
proof
  assume none: "bscan (chk14 sz len) (\<lambda>st bb c. (snd st, bb)) (255, 255) c xs = None"
  have fe: "frees c xs (r + len - 1)" "frees c xs r" using a l by (auto simp: area_def)
  obtain j k where j: "j < length xs" "k < 8" "r + len - 1 = 8 * (c + j) + k"
    using frees_byte [OF fe(1)] by blast
  note chk = bscan_NoneD [OF none j(1), unfolded state14]
  have rc: "8 * c \<le> r" using fe(2) by (simp add: frees_def)
  have rj: "r < 8 * (c + j)" using j l by simp
  have j0: "j \<noteq> 0" using rc rj by auto
  have lo: "r + len \<le> 8 * (c + j) + bit_c_low (xs ! j)"
    by (rule frees_end_low [OF a j(1)]) (use rj j in auto)
  show False
  proof (cases "8 * (c + (j - 1)) \<le> r")
    case True
    have hi: "8 * (c + (j - 1)) + 8 \<le> r + bit_c_hi (xs ! (j - 1))"
      by (rule frees_begin_hi [OF a]) (use True j j0 rj l in auto)
    have h: "8 * (c + j) - bit_c_hi (xs ! (j - 1)) \<le> r" using hi j0 by auto
    have "len \<le> bit_c_hi (xs ! (j - 1)) + bit_c_low (xs ! j)" using lo hi j0 rj by auto
    moreover have "w32 (8 * (c + j) - bit_c_hi (xs ! (j - 1)) + len) \<le> sz"
      using h s by (simp add: w32_def)
    ultimately show False using chk j0 by (auto simp: chk14_def Let_def split: if_splits)
  next
    case False
    have z: "xs ! (j - 1) = 0"
      by (rule frees_zero [OF a]) (use False j j0 rj l in auto)
    have j1: "1 < j"
    proof (rule ccontr)
      assume "\<not> 1 < j"
      then have "j = 1" using j0 by simp
      then show False using False rc by simp
    qed
    have hi: "8 * (c + (j - 2)) + 8 \<le> r + bit_c_hi (xs ! (j - 2))"
      by (rule frees_begin_hi [OF a]) (use False j j1 rj l in auto)
    have h: "8 * (c + j) - 8 - bit_c_hi (xs ! (j - 2)) \<le> r" using hi j1 by auto
    have "len \<le> bit_c_hi (xs ! (j - 2)) + 8 + bit_c_low (xs ! j)" using lo hi j1 rj by auto
    moreover have "w32 (8 * (c + j) - 8 - bit_c_hi (xs ! (j - 2)) + len) \<le> sz"
      using h s by (simp add: w32_def)
    ultimately show False using chk j1 z by (auto simp: chk14_def Let_def split: if_splits)
  qed
qed


text \<open>15 bits and more: an area that starts with 7 bits of a byte and fills the last bytes of the
  pass is missed; its length is 7 modulo 8.\<close>

lemma big_at:
  assumes none: "bscan (chk_big sz len) upd_big (255, int c - 1, 0) c xs = None"
    and bnd: "8 * (c + length xs) \<le> 4294967296" and j: "j < length xs"
    and a: "area (frees c xs) r len" and s: "r + len \<le> sz" "sz < 4294967296"
    and e: "r \<le> 8 * (c + j)" "8 * (c + j) \<le> r + len" "r + len \<le> 8 * (c + j) + 8"
    and full: "(len - 7) div 8 \<le> (8 * (c + j) - r) div 8" and rc: "8 * c \<le> r"
  shows False
proof -
  obtain b0 s0 n where st: "bstate upd_big (255, int c - 1, 0) c xs j = (b0, s0, n)"
    by (cases "bstate upd_big (255, int c - 1, 0) c xs j")
  have i: "n \<le> j" "\<And>i. j - n \<le> i \<Longrightarrow> i < j \<Longrightarrow> xs ! i = 0" "s0 = int (c + j - n) - 1"
    "if n = j then b0 = 255 else b0 = xs ! (j - n - 1) \<and> b0 \<noteq> 0"
    using state_big [of c xs j] st by (auto simp: big_inv_def)
  have pos: "nat ((s0 * 8 + (8 - int (bit_c_hi b0))) mod 4294967296) = 8 * (c + j - n) - bit_c_hi b0"
    unfolding i(3) using i(4) bit_c_hi(1) [of b0] bnd j(1) by (intro big_pos [OF i(1)]) auto
  have lo: "r + len \<le> 8 * (c + j) + bit_c_low (xs ! j)" by (rule frees_end_low [OF a j e(1,3)])
  have hi: "8 * (c + j - n) \<le> r + bit_c_hi b0 \<and> bit_c_hi b0 \<le> 7"
  proof (cases "n = j")
    case True
    then show ?thesis using rc i(4) by simp
  next
    case False
    then have nj: "n < j" and b: "b0 = xs ! (j - n - 1)" "b0 \<noteq> 0" using i by auto
    have p: "j - n - 1 < length xs" "8 * (c + (j - n - 1)) + 8 = 8 * (c + j - n)" using nj j by auto
    have end_le: "8 * (c + (j - n - 1)) + 8 \<le> r + len" using p e(2) by simp
    have "8 * (c + (j - n - 1)) \<le> r"
    proof (rule ccontr)
      assume "\<not> 8 * (c + (j - n - 1)) \<le> r"
      then have "xs ! (j - n - 1) = 0" by (intro frees_zero [OF a p(1) _ end_le]) simp
      then show False using b by simp
    qed
    from frees_begin_hi [OF a p(1) this end_le] have "8 * (c + j - n) \<le> r + bit_c_hi b0"
      using b p(2) by simp
    moreover have "bit_c_hi b0 \<noteq> 8"
    proof
      assume "bit_c_hi b0 = 8"
      then have "b0 = 0" using bit_c_hi(2) [of b0] by (intro bit_word_eqI) auto
      then show False using b by simp
    qed
    ultimately show ?thesis using bit_c_hi(1) [of b0] by simp
  qed
  have "(8 * (c + j) - r) div 8 \<le> n"
  proof -
    have "8 * (c + j) - r < 8 * (n + 1)" using hi i(1) by auto
    then have "(8 * (c + j) - r) div 8 < n + 1" by (intro less_mult_imp_div_less) (simp add: mult.commute)
    then show ?thesis by simp
  qed
  then have nf: "(len - 7) div 8 \<le> n" using full by simp
  have "len \<le> bit_c_hi b0 + n * 8 + bit_c_low (xs ! j)" using lo hi i(1) by auto
  moreover have "w32 (8 * (c + j - n) - bit_c_hi b0 + len) \<le> sz"
  proof -
    have "8 * (c + j - n) - bit_c_hi b0 + len \<le> r + len" using hi by linarith
    then have "8 * (c + j - n) - bit_c_hi b0 + len \<le> sz" using s(1) by (rule le_trans)
    then show ?thesis using s(2) by (simp add: w32_def)
  qed
  ultimately show False using bscan_NoneD [OF none j] nf st pos
    by (simp add: chk_big_def Let_def)
qed

lemma find_big_complete:
  assumes a: "area (frees c xs) r len" and l: "15 \<le> len" and s: "r + len \<le> sz" "sz < 4294967296"
    and bnd: "8 * (c + length xs) \<le> 4294967296"
    and corner: "len mod 8 \<noteq> 7 \<or> r + len < 8 * (c + length xs)"
  shows "bscan (chk_big sz len) upd_big (255, int c - 1, 0) c xs \<noteq> None"
proof
  assume none: "bscan (chk_big sz len) upd_big (255, int c - 1, 0) c xs = None"
  have fe: "frees c xs (r + len - 1)" "frees c xs r" using a l by (auto simp: area_def)
  obtain j k where j: "j < length xs" "k < 8" "r + len - 1 = 8 * (c + j) + k"
    using frees_byte [OF fe(1)] by blast
  have rc: "8 * c \<le> r" using fe(2) by (simp add: frees_def)
  have rj: "r \<le> 8 * (c + j)" using j l by simp
  show False
  proof (cases "len - (k + 1) < 8 * ((len - 7) div 8)")
    case False
    then have "(len - 7) div 8 \<le> (8 * (c + j) - r) div 8"
      using j by (simp add: less_eq_div_iff_mult_less_eq)
    then show False by (intro big_at [OF none bnd j(1) a s rj _ _ _ rc]) (use j in auto)
  next
    case True
    have m: "(len - 7) div 8 * 8 + (len - 7) mod 8 = len - 7" "(len - 7) mod 8 < 8" by simp_all
    have k7: "k = 7" "(len - 7) mod 8 = 0" using True m j(2) l by linarith+
    have "len mod 8 = 7"
    proof -
      obtain q where "q = (len - 7) div 8" by blast
      then have "len = 7 + 8 * q" using m k7 l by linarith
      then show ?thesis by simp
    qed
    then have "r + len < 8 * (c + length xs)" using corner by simp
    then have j1: "j + 1 < length xs" using j k7 l by simp
    have "(len - 7) div 8 \<le> (8 * (c + (j + 1)) - r) div 8"
      using j k7 by (intro div_le_mono) simp
    then show False by (intro big_at [OF none bnd j1 a s _ _ _ _ rc]) (use j rj k7 l in auto)
  qed
qed

text \<open>The lengths together.\<close>

lemma find_range_complete:
  assumes a: "area (frees c xs) r len" and l: "0 < len" and s: "r + len \<le> sz" "sz < 4294967296"
    and bnd: "8 * (c + length xs) \<le> 4294967296"
    and corner: "len < 15 \<or> len mod 8 \<noteq> 7 \<or> r + len < 8 * (c + length xs)"
  shows "find_range sz len c xs \<noteq> None"
proof -
  consider "len \<le> 9" | "9 < len" "len < 15" | "15 \<le> len" by linarith
  then show ?thesis
  proof cases
    case 1
    then show ?thesis using find9_complete [OF a l _ s] by (simp add: find_range_def)
  next
    case 2
    then show ?thesis using find14_complete [OF a 2 s] by (simp add: find_range_def)
  next
    case 3
    then have "len mod 8 \<noteq> 7 \<or> r + len < 8 * (c + length xs)" using corner by simp
    then show ?thesis using find_big_complete [OF a 3 s bnd] 3 by (simp add: find_range_def)
  qed
qed

end
