(* ===== verification/BitMapSpec.thy ===== *)
theory BitMapSpec
  imports BitMapFind
begin

text \<open>What the methods of \<open>bit_map\<close> promise, over the view of the buffer as bits.\<close>

section \<open>Searching\<close>

text \<open>A buffer large enough for the bits, sizes away from the end of the 32-bit range.\<close>

definition fits :: "nat \<Rightarrow> u32 list \<Rightarrow> bool" where
  "fits sz ws \<longleftrightarrow> sz \<le> 32 * length ws \<and> sz \<le> 4294967264"

lemma frees_buffer:
  assumes f: "fits sz ws" and b: "bidx < 8" and e: "eidx \<le> round8 sz" "sidx < round8 sz"
  shows "frees sidx (range_bytes on (fix_tail on sz ws) sidx eidx bidx) i \<longleftrightarrow>
     8 * sidx + bidx \<le> i \<and> i < 8 * max (sidx + 1) eidx \<and> i < sz \<and> dbit ws i = on"
proof -
  have "dbit (fix_tail on sz ws) i = (if sz \<le> i \<and> i < 8 * round8 sz then \<not> on else dbit ws i)"
    using f by (intro dbit_fix_tail) (auto simp: fits_def)
  moreover have "i < 8 * max (sidx + 1) eidx \<Longrightarrow> i < 8 * round8 sz" using e by (auto simp: max_def split: if_splits)
  ultimately show ?thesis unfolding frees_range [OF b] by auto
qed

lemma find_pass_bounds:
  assumes f: "fits sz ws" and h: "hint < sz"
  shows "hint div 8 < round8 sz" "find_pass2 (round8 sz) len hint \<le> round8 sz" "0 < round8 sz"
    "8 * round8 sz \<le> 4294967296" "sz \<le> 8 * round8 sz"
proof -
  have r: "sz \<le> 8 * round8 sz" "8 * round8 sz < sz + 8" using f round8_bounds by (auto simp: fits_def)
  show hd: "hint div 8 < round8 sz" using r h by (simp add: div_less_iff_less_mult mult.commute)
  show "0 < round8 sz" using hd by simp
  show "find_pass2 (round8 sz) len hint \<le> round8 sz" using hd by (auto simp: find_pass2_def)
  show "8 * round8 sz \<le> 4294967296" using r f by (simp add: fits_def)
  show "sz \<le> 8 * round8 sz" by (rule r(1))
qed

lemma pass_len:
  "8 * (sidx + length (range_bytes on ws sidx eidx bidx)) = 8 * max (sidx + 1) eidx"
proof -
  have "sidx + max 1 (eidx - sidx) = max (sidx + 1) eidx" by auto
  then show ?thesis unfolding length_range_bytes by (rule arg_cong)
qed

lemma pass_sound:
  assumes f: "fits sz ws" and r8: "8 * round8 sz \<le> 4294967296" and l: "0 < len"
    and p: "bidx < 8" "eidx \<le> round8 sz" "sidx < round8 sz"
    and s: "find_range sz len sidx (range_bytes on (fix_tail on sz ws) sidx eidx bidx) = Some r"
  shows "r + len \<le> sz \<and> area (\<lambda>i. dbit ws i = on) r len"
proof -
  have "8 * (sidx + length (range_bytes on (fix_tail on sz ws) sidx eidx bidx)) \<le> 4294967296"
    unfolding pass_len using p(2,3) r8 by (auto simp: max_def)
  from find_range_sound [OF s this]
  have a: "\<And>i. r \<le> i \<Longrightarrow> i < r + len \<Longrightarrow> i < sz \<and> dbit ws i = on"
    unfolding area_def frees_buffer [OF f p] by blast
  have "r + len - 1 < sz" using a [of "r + len - 1"] l by simp
  then have "r + len \<le> sz" using l by linarith
  then show ?thesis using a unfolding area_def by blast
qed

lemma find_ws_sound:
  assumes f: "fits sz ws" and h: "hint < sz" and l: "0 < len"
    and r: "bm_find_ws (fix_tail on sz ws) sz on len hint = Some r"
  shows "r + len \<le> sz \<and> area (\<lambda>i. dbit ws i = on) r len"
proof -
  note b = find_pass_bounds [OF f h]
  note ps = pass_sound [OF f b(4) l]
  show ?thesis
  proof (cases "find_range sz len (hint div 8)
      (range_bytes on (fix_tail on sz ws) (hint div 8) (round8 sz) (hint mod 8))")
    case None
    then have "find_range sz len 0 (range_bytes on (fix_tail on sz ws) 0 (find_pass2 (round8 sz) len hint) 0) = Some r"
      using r by (auto simp: bm_find_ws_def split: if_splits)
    then show ?thesis using b by (intro ps [of 0 "find_pass2 (round8 sz) len hint" 0]) auto
  next
    case (Some r')
    then have "find_range sz len (hint div 8)
      (range_bytes on (fix_tail on sz ws) (hint div 8) (round8 sz) (hint mod 8)) = Some r"
      using r by (simp add: bm_find_ws_def)
    then show ?thesis using b by (intro ps [of "hint mod 8" "round8 sz" "hint div 8"]) auto
  qed
qed

text \<open>When the search may not miss an area: below 15 bits always (with the hint at a byte border for
  a single bit), from 15 bits on when the length is not 7 modulo 8.\<close>

definition find_safe :: "nat \<Rightarrow> nat \<Rightarrow> bool" where
  "find_safe len hint \<longleftrightarrow> 0 < len \<and> (len < 15 \<or> len mod 8 \<noteq> 7) \<and> (1 < len \<or> hint mod 8 = 0)"

lemma pass2_covers:
  assumes "1 < len \<or> hint mod 8 = 0" and "0 < len" and "r < hint" "r + len \<le> sz"
    and "sz \<le> 8 * sbyte"
  shows "r + len \<le> 8 * max 1 (find_pass2 sbyte len hint)"
proof (cases "len < 2")
  case True
  then have "hint = 8 * (hint div 8)" "len = 1" using assms(1,2) by auto
  then show ?thesis using assms(3) by (auto simp: find_pass2_def max_def)
next
  case False
  obtain m where m: "len = m + 2" using False by (metis add.commute le_Suc_ex not_less)
  define q t where "q = hint div 8" and "t = m div 8"
  have "hint < 8 * q + 8" "m < 8 * t + 8" unfolding q_def t_def by linarith+
  then have "r + len \<le> 8 * (q + t + 2)" using assms(3) m by presburger
  then have "r + len \<le> 8 * (hint div 8 + (len - 2) div 8 + 2)" using m by (simp add: q_def t_def)
  then show ?thesis using False assms(4,5) by (auto simp: find_pass2_def min_def max_def)
qed

lemma find_ws_complete:
  assumes f: "fits sz ws" and h: "hint < sz" and safe: "find_safe len hint"
    and a: "area (\<lambda>i. dbit ws i = on) r len" "r + len \<le> sz"
  shows "bm_find_ws (fix_tail on sz ws) sz on len hint \<noteq> None"
proof -
  note b = find_pass_bounds [OF f h]
  have l: "0 < len" "len < 15 \<or> len mod 8 \<noteq> 7" "1 < len \<or> hint mod 8 = 0" using safe by (auto simp: find_safe_def)
  have sz: "sz < 4294967296" using f by (simp add: fits_def)
  have pass: "find_range sz len sidx (range_bytes on (fix_tail on sz ws) sidx eidx bidx) \<noteq> None"
    if p: "bidx < 8" "eidx \<le> round8 sz" "sidx < round8 sz" and "8 * sidx + bidx \<le> r" "r + len \<le> 8 * max (sidx + 1) eidx"
    for sidx eidx bidx
  proof (rule find_range_complete [OF _ l(1) a(2) sz])
    show "area (frees sidx (range_bytes on (fix_tail on sz ws) sidx eidx bidx)) r len"
      using a that(4,5) unfolding area_def frees_buffer [OF f p] by auto
    show "8 * (sidx + length (range_bytes on (fix_tail on sz ws) sidx eidx bidx)) \<le> 4294967296"
      unfolding pass_len using p(2,3) b(4) by (auto simp: max_def)
  qed (use l in blast)
  show ?thesis
  proof (cases "hint \<le> r")
    case True
    have "find_range sz len (hint div 8) (range_bytes on (fix_tail on sz ws) (hint div 8) (round8 sz) (hint mod 8)) \<noteq> None"
      using True a(2) b by (intro pass) (auto simp: max_def)
    then show ?thesis by (auto simp: bm_find_ws_def)
  next
    case False
    then have "r + len \<le> 8 * max 1 (find_pass2 (round8 sz) len hint)"
      using l(1,3) a(2) b(5) by (intro pass2_covers) auto
    then have "find_range sz len 0 (range_bytes on (fix_tail on sz ws) 0 (find_pass2 (round8 sz) len hint) 0) \<noteq> None"
      using b by (intro pass) auto
    then show ?thesis using False by (auto simp: bm_find_ws_def split: option.splits)
  qed
qed


text \<open>A usable bitmap: initialised, with a buffer for its bits.\<close>

definition bm_ok :: "bitmap \<Rightarrow> u32 list \<Rightarrow> bool" where
  "bm_ok bm ws \<longleftrightarrow> bm_signed bm \<and> bm_buf bm = Some ws \<and> fits (bm_bits bm) ws"

lemma tail_same:
  assumes "fits sz ws"
  shows "\<forall>i. i < sz \<longrightarrow> dbit (fix_tail on sz ws) i = dbit ws i" and "fits sz (fix_tail on sz ws)"
proof -
  show "\<forall>i. i < sz \<longrightarrow> dbit (fix_tail on sz ws) i = dbit ws i"
    using assms by (auto simp: fits_def dbit_fix_tail)
  show "fits sz (fix_tail on sz ws)" using assms by (simp add: fits_def)
qed

definition start_hint :: "nat \<Rightarrow> nat \<Rightarrow> nat" where
  "start_hint sz hint = (if sz \<le> hint then 0 else hint)"

lemma bm_find_eq:
  assumes "bm_ok bm ws" "len \<le> bm_bits bm" "0 < bm_bits bm"
  shows "bm_find bm on len hint = (bm\<lparr>bm_buf := Some (fix_tail on (bm_bits bm) ws)\<rparr>,
      bm_find_ws (fix_tail on (bm_bits bm) ws) (bm_bits bm) on len (start_hint (bm_bits bm) hint))"
    and "start_hint (bm_bits bm) hint < bm_bits bm"
  using assms by (auto simp: bm_find_def bm_ok_def Let_def start_hint_def)

section \<open>Checking\<close>

lemma bit_masked_zero:
  "(NOT (setmask ! a) AND setmask ! b AND v = (0::u8)) = (\<forall>k. a \<le> k \<longrightarrow> k < b \<longrightarrow> \<not> bit v k)"
  if "a \<le> 8" "b \<le> 8"
proof
  assume z: "NOT (setmask ! a) AND setmask ! b AND v = 0"
  show "\<forall>k. a \<le> k \<longrightarrow> k < b \<longrightarrow> \<not> bit v k"
  proof (intro allI impI)
    fix k assume k: "a \<le> k" "k < b"
    have "\<not> bit (NOT (setmask ! a) AND setmask ! b AND v) k" unfolding z by simp
    then show "\<not> bit v k" using that k by (simp add: bit_simps bit_setmask)
  qed
next
  assume "\<forall>k. a \<le> k \<longrightarrow> k < b \<longrightarrow> \<not> bit v k"
  then show "NOT (setmask ! a) AND setmask ! b AND v = 0"
    using that by (intro bit_word_eqI) (auto simp: bit_simps bit_setmask)
qed

lemma byte_zero: "(v = (0::u8)) = (\<forall>k<8. \<not> bit v k)"
  by (auto intro: bit_word_eqI)

lemma next_bytes_zero: "(\<forall>k. a \<le> k \<longrightarrow> k < b \<longrightarrow> \<not> bit (next_byte on ws q) k) \<longleftrightarrow>
    (\<forall>k. a \<le> k \<longrightarrow> k < b \<longrightarrow> dbit ws (8 * q + k) = on)" if "b \<le> 8"
  using that bit_next_byte by (metis order_less_le_trans)

lemma bm_check_ok:
  assumes ok: "bm_ok bm ws" and l: "0 < len" and nw: "start + len < 4294967296"
  shows "bm_check bm on start len \<longleftrightarrow> start + len \<le> bm_bits bm \<and> area (\<lambda>i. dbit ws i = on) start len"
proof (cases "start + len \<le> bm_bits bm")
  case False
  then show ?thesis using ok l nw by (simp add: bm_check_def bm_ok_def w32_def)
next
  case True
  define e where "e = start + len - 1"
  define sq sk eq ek where "sq = start div 8" and "sk = start mod 8" and "eq = e div 8" and "ek = e mod 8"
  have d: "start = 8 * sq + sk" "sk < 8" "e = 8 * eq + ek" "ek < 8" "start \<le> e"
    using l by (auto simp: sq_def sk_def eq_def ek_def e_def)
  have w: "w32 (start + len) = start + len" using nw by (simp add: w32_def)
  have qe: "sq \<le> eq" using d(5) by (auto simp: sq_def eq_def intro: div_le_mono)
  let ?P = "\<lambda>i. dbit ws i = on" and ?nb = "next_byte on ws"
  have ar: "area ?P start len \<longleftrightarrow> (\<forall>i. start \<le> i \<longrightarrow> i < e + 1 \<longrightarrow> ?P i)"
    using l by (simp add: area_def e_def)
  have c: "bm_check bm on start len = (if sq = eq then NOT (setmask ! sk) AND setmask ! (ek + 1) AND ?nb sq = 0
      else NOT (setmask ! sk) AND ?nb sq = 0 \<and> list_all (\<lambda>k. ?nb k = 0) [sq + 1..<eq] \<and> setmask ! (ek + 1) AND ?nb eq = 0)"
    using ok True l unfolding bm_check_def bm_ok_def w
    by (simp add: Let_def w sq_def sk_def eq_def ek_def e_def)
  have m1: "(NOT (setmask ! sk) AND v = (0::u8)) = (\<forall>k. sk \<le> k \<longrightarrow> k < 8 \<longrightarrow> \<not> bit v k)" for v
  proof -
    have "NOT (setmask ! sk) AND v = NOT (setmask ! sk) AND setmask ! 8 AND v"
      by (rule bit_word_eqI) (auto simp: bit_simps bit_setmask)
    then show ?thesis using bit_masked_zero [of sk 8 v] d(2) by simp
  qed
  have m2: "(setmask ! (ek + 1) AND v = (0::u8)) = (\<forall>k. 0 \<le> k \<longrightarrow> k < ek + 1 \<longrightarrow> \<not> bit v k)" for v
  proof -
    have "setmask ! (ek + 1) AND v = NOT (setmask ! 0) AND setmask ! (ek + 1) AND v"
      by (rule bit_word_eqI) (auto simp: bit_simps bit_setmask)
    then show ?thesis using bit_masked_zero [of 0 "ek + 1" v] d(4) by simp
  qed
  show ?thesis
  proof (cases "sq = eq")
    case eq: True
    have "bm_check bm on start len = (\<forall>k. sk \<le> k \<longrightarrow> k < ek + 1 \<longrightarrow> ?P (8 * sq + k))"
      unfolding c using eq d by (simp add: bit_masked_zero) (simp add: next_bytes_zero [of "ek + 1" sk on ws eq, simplified])
    also have "\<dots> = area ?P start len"
    proof
      assume a: "\<forall>k. sk \<le> k \<longrightarrow> k < ek + 1 \<longrightarrow> ?P (8 * sq + k)"
      show "area ?P start len" unfolding ar
      proof (intro allI impI)
        fix i assume "start \<le> i" "i < e + 1"
        then have "sk \<le> i - 8 * sq" "i - 8 * sq < ek + 1" "8 * sq + (i - 8 * sq) = i" using d eq by auto
        then show "?P i" using a by metis
      qed
    qed (use d eq ar in auto)
    finally show ?thesis using True by simp
  next
    case ne: False
    have "bm_check bm on start len \<longleftrightarrow> (\<forall>k. sk \<le> k \<longrightarrow> k < 8 \<longrightarrow> ?P (8 * sq + k))
        \<and> (\<forall>q. sq < q \<longrightarrow> q < eq \<longrightarrow> (\<forall>k. 0 \<le> k \<longrightarrow> k < 8 \<longrightarrow> ?P (8 * q + k)))
        \<and> (\<forall>k. 0 \<le> k \<longrightarrow> k < ek + 1 \<longrightarrow> ?P (8 * eq + k))"
      unfolding c m1 m2 using ne d(4) next_bytes_zero [of 8 sk on ws sq] next_bytes_zero [of "ek + 1" 0 on ws eq]
        next_bytes_zero [of 8 0 on ws]
      by (simp add: list_all_iff byte_zero) (meson Suc_le_eq atLeastLessThan_iff)
    also have "\<dots> = area ?P start len"
    proof
      assume a: "(\<forall>k. sk \<le> k \<longrightarrow> k < 8 \<longrightarrow> ?P (8 * sq + k))
        \<and> (\<forall>q. sq < q \<longrightarrow> q < eq \<longrightarrow> (\<forall>k. 0 \<le> k \<longrightarrow> k < 8 \<longrightarrow> ?P (8 * q + k)))
        \<and> (\<forall>k. 0 \<le> k \<longrightarrow> k < ek + 1 \<longrightarrow> ?P (8 * eq + k))"
      show "area ?P start len" unfolding ar
      proof (intro allI impI)
        fix i assume i: "start \<le> i" "i < e + 1"
        define q k where "q = i div 8" and "k = i mod 8"
        have iq: "i = 8 * q + k" "k < 8" by (auto simp: q_def k_def)
        have "sq \<le> q" "q \<le> eq" using i by (auto simp: q_def sq_def eq_def intro: div_le_mono)
        then consider "q = sq" | "sq < q" "q < eq" | "q = eq" by linarith
        then show "?P i"
          using a i iq d by cases auto
      qed
    next
      assume "area ?P start len"
      then have a: "\<And>i. start \<le> i \<Longrightarrow> i \<le> e \<Longrightarrow> ?P i" unfolding ar by auto
      have "8 * sq + 8 \<le> 8 * eq" using ne qe by simp
      then show "(\<forall>k. sk \<le> k \<longrightarrow> k < 8 \<longrightarrow> ?P (8 * sq + k))
        \<and> (\<forall>q. sq < q \<longrightarrow> q < eq \<longrightarrow> (\<forall>k. 0 \<le> k \<longrightarrow> k < 8 \<longrightarrow> ?P (8 * q + k)))
        \<and> (\<forall>k. 0 \<le> k \<longrightarrow> k < ek + 1 \<longrightarrow> ?P (8 * eq + k))"
        using d by (intro conjI allI impI a) auto
    qed
    finally show ?thesis using True by simp
  qed
qed


section \<open>Counting\<close>

lemma clbits4_count:
  "clbits4 ! (of_bool b0 + 2 * (of_bool b1 + 2 * (of_bool b2 + 2 * of_bool b3)))
   = of_bool (\<not> b0) + of_bool (\<not> b1) + of_bool (\<not> b2) + of_bool (\<not> b3)"
  by (cases b0; cases b1; cases b2; cases b3; simp add: clbits4_def)

lemma unat_low_nibble: "unat (v AND (15::u8)) =
    of_bool (bit v 0) + 2 * (of_bool (bit v 1) + 2 * (of_bool (bit v 2) + 2 * of_bool (bit v 3)))"
proof -
  have m: "v AND 15 = take_bit 4 v" by (simp add: take_bit_eq_mask mask_eq_decr_exp)
  have "unat (take_bit 4 v) = take_bit 4 (unat v)" by (simp add: unsigned_take_bit_eq)
  also have "\<dots> = horner_sum of_bool 2 (map (bit (unat v)) [0..<4])" by (rule horner_sum_bit_eq_take_bit [symmetric])
  also have "map (bit (unat v)) [0..<4] = [bit v 0, bit v 1, bit v 2, bit v 3]"
    by (simp add: upt_rec bit_simps numeral_eq_Suc)
  finally show ?thesis unfolding m by simp
qed

lemma nibble_count:
  "clbits4 ! unat (v AND (15::u8)) = of_bool (\<not> bit v 0) + of_bool (\<not> bit v 1) + of_bool (\<not> bit v 2) + of_bool (\<not> bit v 3)"
  unfolding unat_low_nibble by (rule clbits4_count)

lemma byte_count:
  "clbits4 ! unat (v AND (15::u8)) + clbits4 ! unat (drop_bit 4 v) = card {k. k < 8 \<and> \<not> bit v k}"
proof -
  have d: "drop_bit 4 v = drop_bit 4 v AND 15"
  proof -
    have "(15::u8) = mask 4" by (simp add: mask_eq_decr_exp)
    then have "drop_bit 4 v AND 15 = take_bit 4 (drop_bit 4 v)" by (simp only: take_bit_eq_mask)
    also have "\<dots> = drop_bit 4 (take_bit (4 + 4) v)" by (rule take_bit_drop_bit)
    also have "take_bit (4 + 4) v = v" by (rule take_bit_word_eq_self) simp
    finally show ?thesis by (rule sym)
  qed
  have s: "{k. k < 8 \<and> \<not> bit v k} = {..<8} \<inter> {k. \<not> bit v k}" by auto
  have "card {k. k < 8 \<and> \<not> bit v k} = (\<Sum>k<8. of_bool (\<not> bit v k))"
    unfolding s by (subst sum_of_bool_eq) simp_all
  also have "\<dots> = clbits4 ! unat (v AND 15) + clbits4 ! unat (drop_bit 4 v AND 15)"
  proof -
    have e: "{..<8::nat} = {7, 6, 5, 4, 3, 2, 1, 0}" by auto
    show ?thesis unfolding nibble_count e by (simp add: bit_drop_bit_eq)
  qed
  finally show ?thesis using d by simp
qed

lemma count_bytes:
  "(\<Sum>q\<leftarrow>[0..<n]. card {k. k < 8 \<and> P (8 * q + k)}) = card {i. i < 8 * n \<and> P i}"
proof (induction n)
  case (Suc n)
  have "{i. i < 8 * Suc n \<and> P i} = {i. i < 8 * n \<and> P i} \<union> (\<lambda>k. 8 * n + k) ` {k. k < 8 \<and> P (8 * n + k)}"
    by (auto simp: image_iff) (metis add_diff_inverse_nat less_diff_conv2 not_less add.commute nat_add_left_cancel_less)
  moreover have "card ((\<lambda>k. 8 * n + k) ` {k. k < 8 \<and> P (8 * n + k)}) = card {k. k < 8 \<and> P (8 * n + k)}"
    by (rule card_image) (simp add: inj_on_def)
  moreover have "{i. i < 8 * n \<and> P i} \<inter> (\<lambda>k. 8 * n + k) ` {k. k < 8 \<and> P (8 * n + k)} = {}" by auto
  ultimately show ?case using Suc by (simp add: card_Un_disjoint)
qed simp

lemma bm_total_ok:
  assumes ok: "bm_ok bm ws"
  shows "snd (bm_total bm on) = card {i. i < bm_bits bm \<and> dbit ws i = on}"
proof (cases "bm_bits bm = 0")
  case True
  then show ?thesis using ok by (simp add: bm_total_def bm_ok_def)
next
  case False
  let ?sz = "bm_bits bm"
  let ?ws = "fix_tail on ?sz ws"
  have f: "fits ?sz ws" using ok by (simp add: bm_ok_def)
  have b: "?sz \<le> 4294967288" "?sz \<le> 32 * length ws" using f by (auto simp: fits_def)
  have cnt: "(let bb = next_byte on ?ws k in clbits4 ! unat (bb AND 15) + clbits4 ! unat (drop_bit 4 bb))
      = card {j. j < 8 \<and> dbit ?ws (8 * k + j) = on}" for k
  proof -
    have "{j. j < 8 \<and> \<not> bit (next_byte on ?ws k) j} = {j. j < 8 \<and> dbit ?ws (8 * k + j) = on}"
      by (auto simp: bit_next_byte)
    then show ?thesis unfolding Let_def byte_count by simp
  qed
  have "snd (bm_total bm on) = card {i. i < 8 * round8 ?sz \<and> dbit ?ws i = on}"
    using ok False count_bytes [of "\<lambda>i. dbit ?ws i = on" "round8 ?sz"]
    unfolding bm_total_def bm_ok_def by (simp add: cnt Let_def [of ?ws])
  also have "{i. i < 8 * round8 ?sz \<and> dbit ?ws i = on} = {i. i < ?sz \<and> dbit ws i = on}"
    using round8_bounds [OF b(1)] by (auto simp: dbit_fix_tail [OF b])
  finally show ?thesis .
qed

section \<open>The longest run\<close>

text \<open>After \<open>m\<close> bytes: a longest area found so far, and the area that reaches the end.\<close>

definition longest_inv :: "(nat \<Rightarrow> bool) \<Rightarrow> nat \<Rightarrow> nat \<times> nat \<times> nat \<times> nat \<Rightarrow> bool" where
  "longest_inv P m st \<longleftrightarrow> (case st of (ls, li, cs, ci) \<Rightarrow>
     area P li ls \<and> area P ci cs \<and> ci + cs = 8 * m
     \<and> (\<forall>r n. area P r n \<longrightarrow> r + n \<le> 8 * m \<longrightarrow> n \<le> max ls cs)
     \<and> (\<forall>r n. area P r n \<longrightarrow> r + n = 8 * m \<longrightarrow> n \<le> cs))"

lemma area_prefix: "area P r n \<Longrightarrow> k \<le> n \<Longrightarrow> area P r k"
  by (simp add: area_def)

lemma area_join: "area P r n \<Longrightarrow> area P (r + n) k \<Longrightarrow> area P r (n + k)"
  unfolding area_def by (metis add.assoc not_less)

lemma longest_step_zero:
  assumes m: "m < length xs" and z: "xs ! m = 0"
    and inv: "longest_inv (frees 0 xs) m (ls, li, cs, ci)"
  shows "longest_inv (frees 0 xs) (Suc m) (ls, li, cs + 8, ci)"
proof -
  let ?P = "frees 0 xs"
  have i: "area ?P li ls" "area ?P ci cs" "ci + cs = 8 * m"
    "\<And>r n. area ?P r n \<Longrightarrow> r + n \<le> 8 * m \<Longrightarrow> n \<le> max ls cs"
    "\<And>r n. area ?P r n \<Longrightarrow> r + n = 8 * m \<Longrightarrow> n \<le> cs"
    using inv by (auto simp: longest_inv_def)
  have "area ?P (8 * m) 8"
    unfolding area_def
  proof (intro allI impI)
    fix i assume "8 * m \<le> i" "i < 8 * m + 8"
    then have "i = 8 * (0 + m) + (i - 8 * m)" "i - 8 * m < 8" by auto
    then show "?P i" using frees_at [OF m, of "i - 8 * m" 0] z by simp
  qed
  then have a: "area ?P ci (cs + 8)" using area_join [OF i(2), of 8] i(3) by simp
  have e: "n \<le> cs + 8" if "area ?P r n" "8 * m < r + n" "r + n \<le> 8 * m + 8" for r n
  proof (cases "r \<le> 8 * m")
    case True
    have "8 * m - r \<le> cs" by (rule i(5) [of r]) (use that True in \<open>auto intro: area_prefix\<close>)
    then show ?thesis using that by simp
  qed (use that in simp)
  show ?thesis
    unfolding longest_inv_def
  proof (clarsimp, intro conjI allI impI)
    fix r n assume "area ?P r n" "r + n \<le> 8 + 8 * m"
    then show "n \<le> max ls (cs + 8)" using i(4) [of r n] e [of r n] by (cases "r + n \<le> 8 * m") auto
  next
    fix r n assume "area ?P r n" "r + n = 8 + 8 * m"
    then show "n \<le> cs + 8" using e [of r n] by simp
  qed (use i a in auto)
qed


lemma frees_byte_at: "m < length xs \<Longrightarrow> k < 8 \<Longrightarrow> frees 0 xs (8 * m + k) = (\<not> bit (xs ! m) k)"
  using frees_at [of m xs k 0] by simp

lemma longest_step_busy:
  assumes m: "m < length xs" and z: "xs ! m \<noteq> 0"
    and inv: "longest_inv (frees 0 xs) m (ls, li, cs, ci)"
  shows "longest_inv (frees 0 xs) (Suc m) (longest_step (ls, li, cs, ci) (m, xs ! m))"
proof -
  let ?P = "frees 0 xs" and ?b = "xs ! m"
  have i: "area ?P li ls" "area ?P ci cs" "ci + cs = 8 * m"
    "\<And>r n. area ?P r n \<Longrightarrow> r + n \<le> 8 * m \<Longrightarrow> n \<le> max ls cs"
    "\<And>r n. area ?P r n \<Longrightarrow> r + n = 8 * m \<Longrightarrow> n \<le> cs"
    using inv by (auto simp: longest_inv_def)
  define low hi bc bp where "low = bit_c_low ?b" and "hi = bit_c_hi ?b" and "bc = bit_c ?b" and "bp = bit_c_pos ?b"
  have hi8: "hi < 8"
  proof -
    have "hi \<noteq> 8"
    proof
      assume "hi = 8"
      then have "?b = 0" using bit_c_hi(2) [of ?b] unfolding hi_def by (intro bit_word_eqI) auto
      then show False using z by simp
    qed
    then show ?thesis using bit_c_hi(1) [of ?b] by (simp add: hi_def)
  qed
  have low8: "low \<le> 8" using bit_c_low(1) by (simp add: low_def)
  define l1 li1 where "l1 = (if ls < cs + low then cs + low else ls)" and "li1 = (if ls < cs + low then ci else li)"
  have alow: "area ?P (8 * m) low"
    unfolding area_def
  proof (intro allI impI)
    fix i assume "8 * m \<le> i" "i < 8 * m + low"
    then have "i = 8 * m + (i - 8 * m)" "i - 8 * m < low" by auto
    then show "?P i" using frees_byte_at [OF m, of "i - 8 * m"] bit_c_low(2) [of "i - 8 * m" ?b] low8
      by (simp add: low_def)
  qed
  have ahi: "area ?P (8 * m + (8 - hi)) hi"
    unfolding area_def
  proof (intro allI impI)
    fix i assume "8 * m + (8 - hi) \<le> i" "i < 8 * m + (8 - hi) + hi"
    then have "i = 8 * m + (i - 8 * m)" "i - 8 * m < 8" "8 - hi \<le> i - 8 * m" using hi8 by auto
    then show "?P i" using frees_byte_at [OF m, of "i - 8 * m"] bit_c_hi(2) [of ?b "i - 8 * m"]
      by (simp add: hi_def)
  qed
  have abc: "area ?P (8 * m + bp) bc" using frees_inside [OF m, of 0] by (simp add: bp_def bc_def)
  have a1: "area ?P li1 l1"
    using i(1) area_join [OF i(2), of low] alow i(3) by (simp add: l1_def li1_def)
  have inb: "n \<le> l1 \<or> n \<le> bc" "r + n = 8 * m + 8 \<Longrightarrow> n \<le> hi"
    if a: "area ?P r n" and e: "8 * m < r + n" "r + n \<le> 8 * m + 8" for r n
  proof -
    have bits: "\<not> bit ?b k" if "r \<le> 8 * m + k" "8 * m + k < r + n" "k < 8" for k
      using a that frees_byte_at [OF m that(3)] by (simp add: area_def)
    show "n \<le> l1 \<or> n \<le> bc"
    proof (cases "r \<le> 8 * m")
      case True
      have "8 * m - r \<le> cs" by (rule i(5) [of r]) (use a e True in \<open>auto intro: area_prefix\<close>)
      moreover have "r + n - 8 * m \<le> low"
        unfolding low_def by (rule low_ge) (use bits e True in auto)
      ultimately show ?thesis using e True by (auto simp: l1_def)
    next
      case False
      have "n \<le> bc" unfolding bc_def
        by (rule bit_c_props(2) [of "r - 8 * m"]) (use bits e False in auto)
      then show ?thesis by simp
    qed
    show "n \<le> hi" if "r + n = 8 * m + 8"
    proof (cases "r \<le> 8 * m")
      case True
      have "?b = 0" by (rule bit_word_eqI) (use bits True that in auto)
      then show ?thesis using z by simp
    next
      case False
      show ?thesis unfolding hi_def by (rule hi_ge) (use bits that False in auto)
    qed
  qed
  define ls2 li2 where "ls2 = (if l1 < 8 \<and> hi < 8 \<and> l1 < bc \<and> hi < bc then bc else l1)"
    and "li2 = (if l1 < 8 \<and> hi < 8 \<and> l1 < bc \<and> hi < bc then m * 8 + bp else li1)"
  have step: "longest_step (ls, li, cs, ci) (m, ?b) = (ls2, li2, hi, m * 8 + (8 - hi))"
  proof -
    have p: "(if ls < cs + low then (cs + low, ci) else (ls, li)) = (l1, li1)"
      by (simp add: l1_def li1_def)
    have "longest_step (ls, li, cs, ci) (m, ?b) = (if l1 < 8 \<and> hi < 8 \<and> l1 < bc \<and> hi < bc
        then (bc, m * 8 + bp, hi, m * 8 + (8 - hi)) else (l1, li1, hi, m * 8 + (8 - hi)))"
      unfolding longest_step.simps Let_def low_def [symmetric] hi_def [symmetric] bc_def [symmetric]
        bp_def [symmetric] p prod.case using z by (simp only: if_True not_False_eq_True)
    then show ?thesis by (simp add: ls2_def li2_def)
  qed
  have bc8: "bc \<le> 8" using bit_c_props(3) by (simp add: bc_def)
  have mono: "max ls cs \<le> l1" "l1 \<le> ls2" by (auto simp: l1_def ls2_def)
  have bcm: "bc \<le> max ls2 hi" using bc8 hi8 by (auto simp: ls2_def)
  show ?thesis unfolding step longest_inv_def prod.case
  proof (intro conjI allI impI)
    show "area ?P li2 ls2" using a1 abc by (simp add: li2_def ls2_def mult.commute)
  next
    fix r n assume a: "area ?P r n" "r + n \<le> 8 * Suc m"
    show "n \<le> max ls2 hi"
    proof (cases "r + n \<le> 8 * m")
      case True
      then show ?thesis using i(4) [OF a(1)] mono by linarith
    next
      case False
      then have "n \<le> l1 \<or> n \<le> bc" using inb(1) [OF a(1)] a(2) by simp
      then show ?thesis using mono(2) bcm by linarith
    qed
  next
    fix r n assume a: "area ?P r n" "r + n = 8 * Suc m"
    then show "n \<le> hi" using inb(2) [OF a(1)] hi8 by (cases "8 * m < r + n") auto
  qed (use ahi hi8 in \<open>auto simp: mult.commute\<close>)
qed

lemma longest_step_inv:
  assumes "m < length xs" and "longest_inv (frees 0 xs) m st"
  shows "longest_inv (frees 0 xs) (Suc m) (longest_step st (m, xs ! m))"
  using assms longest_step_zero longest_step_busy
  by (cases st; cases "xs ! m = 0") auto

lemma longest_fold:
  "m \<le> length xs \<Longrightarrow> longest_inv (frees 0 xs) m (foldl longest_step (0, 0, 0, 0) (map (\<lambda>k. (k, xs ! k)) [0..<m]))"
proof (induction m)
  case 0
  then show ?case by (auto simp: longest_inv_def area_def)
next
  case (Suc m)
  then show ?case using longest_step_inv [of m xs] by simp
qed

lemma bm_longest_ok:
  assumes ok: "bm_ok bm ws" and r: "snd (bm_longest bm on) = (n, p)"
  shows "area (\<lambda>i. i < bm_bits bm \<and> dbit ws i = on) p n"
    and "area (\<lambda>i. i < bm_bits bm \<and> dbit ws i = on) q k \<Longrightarrow> k \<le> n"
proof -
  let ?sz = "bm_bits bm" and ?P = "\<lambda>i. i < bm_bits bm \<and> dbit ws i = on"
  have f: "fits ?sz ws" using ok by (simp add: bm_ok_def)
  have b: "?sz \<le> 4294967288" "?sz \<le> 32 * length ws" using f by (auto simp: fits_def)
  have "area ?P p n \<and> (\<forall>q k. area ?P q k \<longrightarrow> k \<le> n)"
  proof (cases "?sz = 0")
    case True
    then have "n = 0" using ok r by (simp add: bm_longest_def bm_ok_def)
    then show ?thesis using True by (auto simp: area_def)
  next
    case False
    let ?ws = "fix_tail on ?sz ws"
    define xs where "xs = map (next_byte on ?ws) [0..<round8 ?sz]"
    have P: "frees 0 xs i = ?P i" for i
    proof (cases "i < 8 * round8 ?sz")
      case True
      have "i = 8 * (0 + i div 8) + i mod 8" "i div 8 < length xs" using True by (auto simp: xs_def)
      then have "frees 0 xs i = (\<not> bit (xs ! (i div 8)) (i mod 8))"
        using frees_at [of "i div 8" xs "i mod 8" 0] by simp
      also have "\<dots> = (dbit ?ws i = on)" using True by (simp add: xs_def bit_next_byte)
      also have "\<dots> = ?P i" using True by (auto simp: dbit_fix_tail [OF b])
      finally show ?thesis .
    next
      case False
      then show ?thesis using round8_bounds [OF b(1)] by (auto simp: frees_def xs_def)
    qed
    have fo: "frees 0 xs = ?P" using P by blast
    obtain ls li cs ci where st: "foldl longest_step (0, 0, 0, 0) (map (\<lambda>k. (k, xs ! k)) [0..<length xs]) = (ls, li, cs, ci)"
      using prod_cases4 by blast
    have mp: "map (\<lambda>k. (k, next_byte on ?ws k)) [0..<round8 ?sz] = map (\<lambda>k. (k, xs ! k)) [0..<length xs]"
      by (simp add: xs_def)
    have inv: "longest_inv ?P (length xs) (ls, li, cs, ci)" using longest_fold [of "length xs" xs] st fo by simp
    have "snd (bm_longest bm on) = (if ls < cs then (cs, ci) else (ls, li))"
      using ok False st mp unfolding bm_longest_def bm_ok_def by (simp add: Let_def)
    then have np: "n = max ls cs" "area ?P p n" using r inv by (auto simp: longest_inv_def split: if_splits)
    moreover have "k \<le> n" if "area ?P q k" for q k
    proof (cases "k = 0")
      case False
      then have "q + k - 1 < ?sz" using that by (auto simp: area_def)
      then have "q + k \<le> ?sz" using False by linarith
      then have "q + k \<le> 8 * length xs" using round8_bounds [OF b(1)] by (simp add: xs_def)
      then show ?thesis using inv that np(1) by (auto simp: longest_inv_def)
    qed simp
    ultimately show ?thesis by blast
  qed
  then show "area ?P p n" "area ?P q k \<Longrightarrow> k \<le> n" by blast+
qed


section \<open>Setting and resizing\<close>

lemma bm_set_ok:
  assumes ok: "bm_ok bm ws" and nw: "pos + len < 4294967296" and p: "pos < bm_bits bm" "0 < len"
  shows "\<exists>ws'. bm_set bm on pos len = (bm\<lparr>bm_buf := Some ws'\<rparr>, min len (bm_bits bm - pos))
     \<and> length ws' = length ws
     \<and> (\<forall>i<bm_bits bm. dbit ws' i = (if pos \<le> i \<and> i < pos + len then on else dbit ws i))"
proof -
  let ?n = "min len (bm_bits bm - pos)"
  have w: "w32 (pos + len) = pos + len" using nw by (simp add: w32_def)
  have n: "(if bm_bits bm \<le> pos + len then bm_bits bm - pos else len) = ?n" using p by auto
  have e: "bm_set bm on pos len = (bm\<lparr>bm_buf := Some (setbits_dword ws pos ?n on)\<rparr>, ?n)"
    using ok p unfolding bm_set_def bm_ok_def w Let_def n by simp
  have "dbit (setbits_dword ws pos ?n on) i = (if pos \<le> i \<and> i < pos + len then on else dbit ws i)"
    if "i < bm_bits bm" for i
    using that ok p by (subst dbit_setbits) (auto simp: bm_ok_def fits_def)
  then show ?thesis using e by (intro exI [of _ "setbits_dword ws pos ?n on"]) simp
qed

lemma bm_findset_ok:
  assumes ok: "bm_ok bm ws" and l: "0 < len" and f: "bm_findset bm on len hint = (bm', Some r)"
  shows "r + len \<le> bm_bits bm \<and> area (\<lambda>i. dbit ws i = on) r len \<and> (\<exists>ws'. bm_ok bm' ws' \<and> bm_bits bm' = bm_bits bm
     \<and> (\<forall>i<bm_bits bm. dbit ws' i = (if r \<le> i \<and> i < r + len then \<not> on else dbit ws i)))"
proof -
  let ?sz = "bm_bits bm"
  have len: "len \<le> ?sz"
    using f ok by (cases "len \<le> ?sz") (auto simp: bm_findset_def bm_find_def bm_ok_def)
  then have sz: "0 < ?sz" using l by simp
  have fit: "fits ?sz ws" using ok by (simp add: bm_ok_def)
  note e1 = bm_find_eq(1) [OF ok len sz, of on hint] and e2 = bm_find_eq(2) [OF ok len sz, of hint]
  let ?ws1 = "fix_tail on ?sz ws"
  have r: "bm_find_ws ?ws1 ?sz on len (start_hint ?sz hint) = Some r"
    using f unfolding bm_findset_def e1 by (auto split: option.splits)
  have a: "r + len \<le> ?sz" "area (\<lambda>i. dbit ws i = on) r len"
    using find_ws_sound [OF fit e2 l r] by auto
  let ?bm1 = "bm\<lparr>bm_buf := Some ?ws1\<rparr>"
  have ok1: "bm_ok ?bm1 ?ws1" using ok by (simp add: bm_ok_def fits_def)
  have "r + len < 4294967296" using a(1) fit by (simp add: fits_def)
  then obtain ws' where s: "bm_set ?bm1 (\<not> on) r len = (?bm1\<lparr>bm_buf := Some ws'\<rparr>, min len (?sz - r))"
     "length ws' = length ?ws1" "\<forall>i<?sz. dbit ws' i = (if r \<le> i \<and> i < r + len then \<not> on else dbit ?ws1 i)"
    using bm_set_ok [OF ok1, of r len "\<not> on"] a(1) l by auto
  have "bm' = bm\<lparr>bm_buf := Some ws'\<rparr>"
    using f s(1) unfolding bm_findset_def e1 r by simp
  then have "bm_ok bm' ws' \<and> bm_bits bm' = ?sz" using ok s(2) by (simp add: bm_ok_def fits_def)
  moreover have "\<forall>i<?sz. dbit ws' i = (if r \<le> i \<and> i < r + len then \<not> on else dbit ws i)"
    using s(3) tail_same(1) [OF fit] by simp
  ultimately show ?thesis using a by blast
qed

lemma bm_findset_some:
  assumes ok: "bm_ok bm ws" and l: "0 < len" "r + len \<le> bm_bits bm" "area (\<lambda>i. dbit ws i = on) r len"
    and safe: "find_safe len (start_hint (bm_bits bm) hint)"
  shows "\<exists>bm' r. bm_findset bm on len hint = (bm', Some r)"
proof -
  have le: "len \<le> bm_bits bm" and sz: "0 < bm_bits bm" using l by auto
  have fit: "fits (bm_bits bm) ws" using ok by (simp add: bm_ok_def)
  note e1 = bm_find_eq(1) [OF ok le sz, of on hint] and e2 = bm_find_eq(2) [OF ok le sz, of hint]
  have "bm_find_ws (fix_tail on (bm_bits bm) ws) (bm_bits bm) on len (start_hint (bm_bits bm) hint) \<noteq> None"
    using find_ws_complete [OF fit e2, of len on] l safe by blast
  then show ?thesis unfolding bm_findset_def e1 by (auto simp: Let_def split: option.splits prod.splits)
qed

text \<open>The heap: a block that was resized keeps the bits below both sizes.\<close>

definition heap_ok :: "(u32 list option \<Rightarrow> nat \<Rightarrow> u32 list option) \<Rightarrow> bool" where
  "heap_ok ra \<longleftrightarrow> (\<forall>ws n ws'. ra (Some ws) n = Some ws' \<longrightarrow>
     length ws' = n \<and> (\<forall>k. k < length ws \<longrightarrow> k < n \<longrightarrow> ws' ! k = ws ! k))"

lemma round32_eq: "n \<le> 4294967264 \<Longrightarrow> round32 n = (n + 31) div 32"
  by (simp add: round32_def w32_def)

lemma round32_bounds: "n \<le> 4294967264 \<Longrightarrow> n \<le> 32 * round32 n"
proof -
  assume n: "n \<le> 4294967264"
  have "n + 31 < 32 * ((n + 31) div 32) + 32" by linarith
  then show ?thesis using round32_eq [OF n] by linarith
qed

lemma bm_resize_ok:
  assumes ok: "bm_ok bm ws" and own: "\<not> bm_extmem bm" and len: "length ws = round32 (bm_bits bm)"
    and heap: "heap_ok ra" and n: "0 < n" "n \<le> 4294967264"
    and res: "bm_resize ra bm n on = (bm', 1)"
  shows "\<exists>ws'. bm_ok bm' ws' \<and> bm_bits bm' = n \<and> length ws' = round32 n
     \<and> (\<forall>i<n. dbit ws' i = (if i < bm_bits bm then dbit ws i else on))"
proof (cases "n = bm_bits bm")
  case True
  then have "bm' = bm" using res ok by (simp add: bm_resize_def bm_ok_def)
  then show ?thesis using ok len True by auto
next
  case False
  let ?old = "bm_bits bm"
  have buf: "bm_signed bm" "bm_buf bm = Some ws" "?old \<le> 32 * length ws" "?old \<le> 4294967264"
    using ok by (auto simp: bm_ok_def fits_def)
  obtain ws1 where ws1': "(if round32 n \<noteq> round32 ?old then ra (bm_buf bm) (round32 n) else bm_buf bm) = Some ws1"
    and ws1: "bm' = (if ?old < n then fst (bm_set (bm\<lparr>bm_buf := Some ws1, bm_bits := n\<rparr>) on ?old (n - ?old))
            else bm\<lparr>bm_buf := Some ws1, bm_bits := n\<rparr>)"
    using res buf(1,4) own n False
    by (auto simp: bm_resize_def Let_def split: option.splits if_splits)
  note ws1a = ws1' [unfolded buf(2)]
  have keep: "length ws1 = round32 n" "\<And>k. k < length ws \<Longrightarrow> k < round32 n \<Longrightarrow> ws1 ! k = ws ! k"
    using ws1a heap len unfolding heap_ok_def by (auto split: if_splits)
  have fit1: "fits n ws1" using keep n round32_bounds [OF n(2)] by (simp add: fits_def)
  let ?bm1 = "bm\<lparr>bm_buf := Some ws1, bm_bits := n\<rparr>"
  have ok1: "bm_ok ?bm1 ws1" using buf fit1 by (simp add: bm_ok_def)
  have same: "dbit ws1 i = dbit ws i" if "i < n" "i < ?old" for i
  proof -
    have "i div 32 < length ws" "i div 32 < round32 n"
      using that buf(3) round32_bounds [OF n(2)] by (auto simp: div_less_iff_less_mult mult.commute)
    then show ?thesis using keep(2) by (simp add: dbit_def)
  qed
  show ?thesis
  proof (cases "?old < n")
    case True
    obtain ws' where s: "bm_set ?bm1 on ?old (n - ?old) = (?bm1\<lparr>bm_buf := Some ws'\<rparr>, min (n - ?old) (n - ?old))"
      "length ws' = length ws1" "\<forall>i<n. dbit ws' i = (if ?old \<le> i \<and> i < ?old + (n - ?old) then on else dbit ws1 i)"
      using bm_set_ok [OF ok1, of ?old "n - ?old" on] True n by auto
    have b: "bm' = bm\<lparr>bm_buf := Some ws', bm_bits := n\<rparr>" using ws1 True s(1) by simp
    then have "bm_ok bm' ws' \<and> bm_bits bm' = n" using buf fit1 s(2) by (simp add: bm_ok_def fits_def)
    moreover have "\<forall>i<n. dbit ws' i = (if i < ?old then dbit ws i else on)"
      using s(3) same True by auto
    ultimately show ?thesis using keep(1) s(2) by auto
  next
    case False
    then have "bm' = ?bm1" using ws1 by simp
    then show ?thesis using ok1 keep(1) same False by (intro exI [of _ ws1]) auto
  qed
qed

lemma bm_find_ok:
  assumes "bm_ok bm ws" "0 < len" "len \<le> bm_bits bm"
  shows "case snd (bm_find bm on len hint) of
      Some r \<Rightarrow> r + len \<le> bm_bits bm \<and> area (\<lambda>i. dbit ws i = on) r len
    | None \<Rightarrow> find_safe len (start_hint (bm_bits bm) hint) \<longrightarrow>
        \<not> (\<exists>r. r + len \<le> bm_bits bm \<and> area (\<lambda>i. dbit ws i = on) r len)"
proof -
  have f: "fits (bm_bits bm) ws" using assms by (simp add: bm_ok_def)
  have sz: "0 < bm_bits bm" using assms by simp
  note e1 = bm_find_eq(1) [OF assms(1,3) sz, of on hint] and e2 = bm_find_eq(2) [OF assms(1,3) sz, of hint]
  show ?thesis
    using find_ws_sound [OF f e2 assms(2), of on] find_ws_complete [OF f e2, of len on]
    unfolding e1 by (auto split: option.split)
qed

section \<open>Properties\<close>

definition demo_map :: bitmap where
  "demo_map = \<lparr>bm_signed = True, bm_buf = Some [16711680], bm_bits = 20, bm_extmem = False\<rparr>"

lemma demo_map_ok: "bm_ok demo_map [16711680]"
  by (simp add: demo_map_def bm_ok_def fits_def)

text \<open>C9: \<open>bm_find\<close>: a position returned starts an area of the requested length inside the bitmap
  whose bits all have the value; when nothing is returned there is no such area, for every length up
  to 14 and every longer one that is not 7 modulo 8, a single bit needing a hint at a byte border.\<close>

theorem bm_find_correct:
  assumes "bm_ok bm ws" "0 < len" "len \<le> bm_bits bm"
  shows "case snd (bm_find bm on len hint) of
      Some r \<Rightarrow> r + len \<le> bm_bits bm \<and> area (\<lambda>i. dbit ws i = on) r len
    | None \<Rightarrow> find_safe len (start_hint (bm_bits bm) hint) \<longrightarrow>
        \<not> (\<exists>r. r + len \<le> bm_bits bm \<and> area (\<lambda>i. dbit ws i = on) r len)"
  by (rule bm_find_ok [OF assms])

theorem bm_find_correct_witness:
  "case snd (bm_find demo_map True 3 0) of
      Some r \<Rightarrow> r + 3 \<le> bm_bits demo_map \<and> area (\<lambda>i. dbit [16711680] i = True) r 3
    | None \<Rightarrow> find_safe 3 (start_hint (bm_bits demo_map) 0) \<longrightarrow>
        \<not> (\<exists>r. r + 3 \<le> bm_bits demo_map \<and> area (\<lambda>i. dbit [16711680] i = True) r 3)"
  by (rule bm_find_correct [OF demo_map_ok]) (simp_all add: demo_map_def)

text \<open>C11: What the queries of a bit map report: \<open>bm_longest\<close> an area of bits with the value than which none is longer,
  \<open>bm_total\<close> the number of bits with the value, the unused bits of the last byte apart, and \<open>bm_check\<close> yes exactly
  when the range lies inside the bitmap and all its bits have the value.\<close>

theorem bm_queries_correct:
  assumes "bm_ok bm ws"
  shows "(\<forall>n p. snd (bm_longest bm on) = (n, p) \<longrightarrow> area (\<lambda>i. i < bm_bits bm \<and> dbit ws i = on) p n
      \<and> (\<forall>q k. area (\<lambda>i. i < bm_bits bm \<and> dbit ws i = on) q k \<longrightarrow> k \<le> n)) \<and>
    snd (bm_total bm on) = card {i. i < bm_bits bm \<and> dbit ws i = on} \<and>
    (\<forall>start len. 0 < len \<and> start + len < 4294967296 \<longrightarrow>
      (bm_check bm on start len \<longleftrightarrow> start + len \<le> bm_bits bm \<and> area (\<lambda>i. dbit ws i = on) start len))"
  using bm_longest_ok [OF assms] bm_total_ok [OF assms] bm_check_ok [OF assms] by blast

theorem bm_queries_correct_witness:
  "snd (bm_total demo_map True) = card {i. i < bm_bits demo_map \<and> dbit [16711680] i = True} \<and>
   (bm_check demo_map True 17 3 \<longleftrightarrow> 17 + 3 \<le> bm_bits demo_map \<and> area (\<lambda>i. dbit [16711680] i = True) 17 3)"
  using bm_queries_correct [OF demo_map_ok, of True] by simp


text \<open>C10: \<open>bm_findset\<close> inverts exactly the area it reports, which had the searched value.\<close>

theorem bm_findset_correct:
  assumes "bm_ok bm ws" "0 < len" "bm_findset bm on len hint = (bm', Some r)"
  shows "r + len \<le> bm_bits bm \<and> area (\<lambda>i. dbit ws i = on) r len \<and> (\<exists>ws'. bm_ok bm' ws' \<and> bm_bits bm' = bm_bits bm
     \<and> (\<forall>i<bm_bits bm. dbit ws' i = (if r \<le> i \<and> i < r + len then \<not> on else dbit ws i)))"
  by (rule bm_findset_ok [OF assms])

theorem bm_findset_correct_witness:
  "\<exists>bm' r. bm_findset demo_map True 3 0 = (bm', Some r) \<and> r + 3 \<le> 20 \<and> area (\<lambda>i. dbit [16711680] i = True) r 3"
proof -
  have a: "area (\<lambda>i. dbit [16711680] i = True) 16 3"
  proof -
    have "i = 16 \<or> i = 17 \<or> i = 18" if "16 \<le> i" "i < 19" for i :: nat using that by auto
    then show ?thesis by (fastforce simp: area_def dbit_def)
  qed
  obtain bm' r where f: "bm_findset demo_map True 3 0 = (bm', Some r)"
    using bm_findset_some [OF demo_map_ok, of 3 16 True 0] a
    by (auto simp: demo_map_def find_safe_def start_hint_def)
  show ?thesis
    using f bm_findset_correct [OF demo_map_ok _ f] by (intro exI [of _ bm'] exI [of _ r]) (simp add: demo_map_def)
qed

text \<open>C12: \<open>bm_resize\<close> of an own buffer keeps the bits below both sizes and gives the new ones the
  requested value, under the contract of \<open>realloc\<close>.\<close>

theorem bm_resize_correct:
  assumes "bm_ok bm ws" "\<not> bm_extmem bm" "length ws = round32 (bm_bits bm)"
    and "heap_ok ra" "0 < n" "n \<le> 4294967264"
    and "bm_resize ra bm n on = (bm', 1)"
  shows "\<exists>ws'. bm_ok bm' ws' \<and> bm_bits bm' = n \<and> length ws' = round32 n
     \<and> (\<forall>i<n. dbit ws' i = (if i < bm_bits bm then dbit ws i else on))"
  by (rule bm_resize_ok [OF assms])

definition demo_realloc :: "u32 list option \<Rightarrow> nat \<Rightarrow> u32 list option" where
  "demo_realloc buf n = (case buf of None \<Rightarrow> None | Some ws \<Rightarrow> Some (take n ws @ replicate (n - length ws) 0))"

theorem bm_resize_correct_witness:
  "\<exists>ws'. bm_ok (fst (bm_resize demo_realloc demo_map 40 True)) ws' \<and> length ws' = 2
     \<and> (\<forall>i<40. dbit ws' i = (if i < 20 then dbit [16711680] i else True))"
proof -
  have h: "heap_ok demo_realloc"
    by (auto simp: heap_ok_def demo_realloc_def nth_append split: option.splits)
  have r: "round32 20 = 1" "round32 40 = 2" by (simp_all add: round32_eq)
  have s: "bm_resize demo_realloc demo_map 40 True = (fst (bm_resize demo_realloc demo_map 40 True), 1)"
    by (simp add: bm_resize_def demo_map_def demo_realloc_def r)
  have b: "bm_bits demo_map = 20" "\<not> bm_extmem demo_map" by (simp_all add: demo_map_def)
  obtain ws' where "bm_ok (fst (bm_resize demo_realloc demo_map 40 True)) ws'" "length ws' = 2"
    "\<forall>i<40. dbit ws' i = (if i < 20 then dbit [16711680] i else True)"
    using bm_resize_correct [OF demo_map_ok b(2) _ h _ _ s] by (auto simp: b(1) r)
  then show ?thesis by blast
qed

end
