(* ===== verification/DiskTabSpec.thy ===== *)
theory DiskTabSpec
  imports DiskTab BitMapSpec
begin

text \<open>
  What the table of the disks promises: a new disk takes the first empty place, leaves the other places alone
  and gets a BIOS number no other disk has; it is gone after its removal. Two things do not hold: the removal of
  the last disk looks behind the table, and an update is taken when it is wrong and refused when it is right.
\<close>

section \<open>The scan for an empty place\<close>

definition uses_bios :: "qs_diskinfo list \<Rightarrow> nat \<Rightarrow> nat \<Rightarrow> bool" where
  "uses_bios qd ii bn \<longleftrightarrow> \<not> slot_empty (qd ! ii) \<and> qd_biosdisk (qd ! ii) = bn"

lemma add_scan_bits:
  assumes "length (fst acc) = 4" "n < 127"
  shows "length (fst (add_scan qd ii acc)) = 4"
    "dbit (fst (add_scan qd ii acc)) n \<longleftrightarrow> dbit (fst acc) n \<and> \<not> uses_bios qd ii (n + 128)"
proof -
  obtain bm r where a: "acc = (bm, r)" by (cases acc)
  have bm: "length bm = 4" using assms(1) a by simp
  show "length (fst (add_scan qd ii acc)) = 4" by (simp add: a add_scan_def Let_def bm)
  let ?b = "qd_biosdisk (qd ! ii)"
  have "dbit (setbits_dword bm (?b - 128) 1 False) n = (if n = ?b - 128 then False else dbit bm n)"
    if "128 \<le> ?b" "?b < 255" using that assms(2) bm by (subst dbit_setbits) auto
  then show "dbit (fst (add_scan qd ii acc)) n \<longleftrightarrow> dbit (fst acc) n \<and> \<not> uses_bios qd ii (n + 128)"
    using assms(2) by (auto simp: a add_scan_def Let_def uses_bios_def)
qed

lemma fold_scan_bits:
  assumes "length (fst acc) = 4"
  shows "length (fst (fold (add_scan qd) xs acc)) = 4"
    "n < 127 \<Longrightarrow> dbit (fst (fold (add_scan qd) xs acc)) n \<longleftrightarrow> dbit (fst acc) n \<and> (\<forall>ii \<in> set xs. \<not> uses_bios qd ii (n + 128))"
proof -
  have l: "length (fst (add_scan qd ii a)) = 4" if "length (fst a) = 4" for ii a
    using add_scan_bits(1) [OF that, of 0] by simp
  show "length (fst (fold (add_scan qd) xs acc)) = 4" using assms by (induction xs arbitrary: acc) (simp_all add: l)
  show "dbit (fst (fold (add_scan qd) xs acc)) n \<longleftrightarrow> dbit (fst acc) n \<and> (\<forall>ii \<in> set xs. \<not> uses_bios qd ii (n + 128))" if "n < 127"
    using assms by (induction xs arbitrary: acc) (auto simp: l add_scan_bits(2) [OF _ that])
qed

lemma fold_scan_place:
  "snd (fold (add_scan qd) xs acc) = (case snd acc of None \<Rightarrow> List.find (\<lambda>ii. slot_empty (qd ! ii)) xs | Some r \<Rightarrow> Some r)"
proof (induction xs arbitrary: acc)
  case (Cons x xs)
  then show ?case by (cases acc) (auto simp: add_scan_def Let_def split: option.split)
qed (simp split: option.split)

lemma find_upt:
  assumes "List.find P [m..<n] = Some r"
  shows "m \<le> r" "r < n" "P r" "m \<le> i \<Longrightarrow> i < r \<Longrightarrow> \<not> P i"
proof -
  obtain k where k: "k < n - m" "P (m + k)" "r = m + k" "\<forall>j < k. \<not> P (m + j)"
    using assms by (auto simp: find_Some_iff)
  show "m \<le> r" "r < n" "P r" using k by simp_all
  show "\<not> P i" if "m \<le> i" "i < r"
    using k(4) [rule_format, of "i - m"] that k(3) by simp
qed

lemma find_upt_None: "List.find P [m..<n] = None \<longleftrightarrow> (\<forall>i. m \<le> i \<and> i < n \<longrightarrow> \<not> P i)"
  by (auto simp: find_None_iff)

section \<open>A number of the BIOS\<close>

lemma dbit_ones: "n < 128 \<Longrightarrow> dbit (replicate 4 (- 1)) n"
  by (simp add: dbit_def)

lemma bscan_prefix: "bscan chk upd st c ys = Some r \<Longrightarrow> bscan chk upd st c (ys @ zs) = Some r"
  by (induction ys arbitrary: st c) (auto split: option.splits)

text \<open>A single bit is found in the first byte that has one.\<close>

lemma first_byte:
  assumes "frees 0 xs n" "n < 128"
  shows "\<exists>r. bscan (chk9 128 1) (\<lambda>st bb c. bb) 255 0 xs = Some r \<and> frees 0 xs r \<and> r < 8 * (n div 8 + 1)"
proof -
  define ys where "ys = take (n div 8 + 1) xs"
  have fr: "frees 0 ys i \<longleftrightarrow> frees 0 xs i \<and> i < 8 * (n div 8 + 1)" for i
  proof (cases "i < 8 * (n div 8 + 1)")
    case True
    then have "i div 8 < n div 8 + 1" by (simp add: div_less_iff_less_mult mult.commute)
    then have "ys ! (i div 8) = xs ! (i div 8)" by (simp add: ys_def)
    moreover have "i < 8 * length ys \<longleftrightarrow> i < 8 * length xs" using True by (auto simp: ys_def min_def)
    ultimately show ?thesis using True by (simp add: frees_def)
  qed (simp add: frees_def ys_def min_def)
  have "area (frees 0 ys) n 1" using assms(1) by (auto simp: area_def less_Suc_eq fr)
  then obtain r where r: "bscan (chk9 128 1) (\<lambda>st bb c. bb) 255 0 ys = Some r"
    using find9_complete [of 0 ys n 1 128] assms(2) by auto
  moreover have "frees 0 ys r" using find9_sound [OF r] by (simp add: area_def)
  moreover have "xs = ys @ drop (n div 8 + 1) xs" by (simp add: ys_def)
  ultimately show ?thesis using bscan_prefix fr by metis
qed

lemma free_bios:
  assumes "length bm = 4" "n < 120" "dbit bm n"
  shows "\<exists>r < 120. findbits bm 128 True 1 0 = Some r \<and> dbit bm r"
proof -
  define ws where "ws = fix_tail True 128 bm"
  have f: "fits 128 bm" "fits 128 ws" using assms(1) by (auto simp: fits_def ws_def)
  let ?xs = "range_bytes True ws 0 16 0"
  have fr: "frees 0 ?xs i \<longleftrightarrow> dbit bm i" if "i < 128" for i
    using frees_buffer [OF f(1), of 0 16 0 True i] that tail_same(1) [OF f(1)] by (auto simp: ws_def round8_def w32_def)
  obtain r where r: "bscan (chk9 128 1) (\<lambda>st bb c. bb) 255 0 ?xs = Some r" "frees 0 ?xs r" "r < 8 * (n div 8 + 1)"
    using first_byte [of ?xs n] fr assms(2,3) by auto
  have "n div 8 < 15" using assms(2) by (simp add: div_less_iff_less_mult)
  then have "8 * (n div 8 + 1) \<le> 8 * 15" by (intro mult_le_mono2) simp
  then have "r < 120" using r(3) by simp
  moreover have "findbits bm 128 True 1 0 = Some r"
    using r(1) by (simp add: findbits_def bm_find_def bm_find_ws_def find_range_def round8_def w32_def flip: ws_def)
  ultimately show ?thesis using r(2) fr by auto
qed

lemma bios_left: "\<exists>n < 120. \<forall>ii \<in> set [MAX_QS_FLOPPY..<MAX_QS_DISK]. \<not> uses_bios qd ii (n + 128)"
proof (rule ccontr)
  assume a: "\<not> ?thesis"
  have "{..<15} \<subseteq> (\<lambda>ii. qd_biosdisk (qd ! ii) - 128) ` {2..<16}"
  proof
    fix n :: nat assume "n \<in> {..<15}"
    then have "n < 120" by simp
    then obtain ii where "ii \<in> {2..<16}" "uses_bios qd ii (n + 128)"
      using a unfolding MAX_QS_FLOPPY_def MAX_QS_DISK_def set_upt by blast
    then show "n \<in> (\<lambda>ii. qd_biosdisk (qd ! ii) - 128) ` {2..<16}" by (intro image_eqI) (auto simp: uses_bios_def)
  qed
  then have "card {..<15 :: nat} \<le> card ((\<lambda>ii. qd_biosdisk (qd ! ii) - 128) ` {2..<16})" by (intro card_mono) auto
  also have "\<dots> \<le> card {2..<16 :: nat}" by (rule card_image_le) simp
  finally show False by simp
qed

section \<open>Numbers of hard disks\<close>

lemma small_disks: "list_all (\<lambda>d. (of_nat d :: u32) AND QDSK_VOLUME = 0 \<and> (of_nat d :: u32) AND QDSK_FLOPPY = 0 \<and>
    (of_nat d :: u32) AND NOT QDSK_DISKMASK = 0 \<and> disk_idx (of_nat d) = d \<and> unat (of_nat d :: u32) = d) [0..<14]"
  by code_simp

lemma small_disk:
  assumes "d < 14"
  shows "(of_nat d :: u32) AND QDSK_VOLUME = 0" "(of_nat d :: u32) AND QDSK_FLOPPY = 0"
    "(of_nat d :: u32) AND NOT QDSK_DISKMASK = 0" "disk_idx (of_nat d) = d" "unat (of_nat d :: u32) = d"
  using small_disks assms by (auto simp: list_all_iff)

lemma new_flags:
  defines "f \<equiv> HDDF_LBAPRESENT OR HDDF_PRESENT OR HDDF_HOTSWAP OR HDDF_LBAON"
  shows "is_set f HDDF_PRESENT" "is_set f HDDF_HOTSWAP" "f AND (HDDF_PRESENT OR HDDF_HOTSWAP) = HDDF_PRESENT OR HDDF_HOTSWAP"
  unfolding f_def by code_simp+

lemma query_bits: "is_set (ucast (ucast HDM_QUERY :: u32)) HDM_QUERY" "ucast (ucast HDM_QUERY :: u32) = HDM_QUERY"
  by code_simp+

lemmas disk_limits = MAX_QS_DISK_def MAX_QS_FLOPPY_def

text \<open>The entry that \<open>hlp_diskadd\<close> makes.\<close>

definition new_disk :: "qs_diskinfo \<Rightarrow> nat \<Rightarrow> qs_diskinfo" where
  "new_disk qdi b = qdi\<lparr>qd_biosdisk := b,
     qd_flags := HDDF_LBAPRESENT OR HDDF_PRESENT OR HDDF_HOTSWAP OR HDDF_LBAON, qd_mediatype := 3\<rparr>"

lemma diskadd_eq:
  "\<exists>b. (if biosnum then 128 \<le> b \<and> b < 248 \<and> (\<forall>ii \<in> {2..<16}. \<not> uses_bios qd ii b) else b = 255) \<and>
    hlp_diskadd qdi biosnum qd = (case List.find (\<lambda>ii. slot_empty (qd ! ii)) [2..<16] of None \<Rightarrow> (None, qd)
      | Some r \<Rightarrow> if check_diskinfo qdi False then (Some (r - 2), qd[r := new_disk qdi b]) else (None, qd))"
proof -
  let ?acc = "(replicate 4 (- 1), None) :: u32 list \<times> nat option"
  obtain bm p where f: "fold (add_scan qd) [MAX_QS_FLOPPY..<MAX_QS_DISK] ?acc = (bm, p)" by fastforce
  have p: "p = List.find (\<lambda>ii. slot_empty (qd ! ii)) [2..<16]"
    using fold_scan_place [of qd "[MAX_QS_FLOPPY..<MAX_QS_DISK]" ?acc] unfolding f by (simp add: disk_limits)
  have len: "length bm = 4" using fold_scan_bits(1) [of ?acc qd "[MAX_QS_FLOPPY..<MAX_QS_DISK]"] unfolding f by simp
  have bits: "dbit bm n \<longleftrightarrow> (\<forall>ii \<in> set [MAX_QS_FLOPPY..<MAX_QS_DISK]. \<not> uses_bios qd ii (n + 128))" if "n < 120" for n
    using fold_scan_bits(2) [of ?acc n qd "[MAX_QS_FLOPPY..<MAX_QS_DISK]"] dbit_ones [of n] that unfolding f by simp
  obtain n where n: "n < 120" "dbit bm n" using bios_left [of qd] bits by blast
  obtain r where r: "r < 120" "findbits bm 128 True 1 0 = Some r" "dbit bm r"
    using free_bios [OF len n] by blast
  define b where "b = (if biosnum then r + 128 else 255)"
  have "\<forall>ii \<in> {2..<16}. \<not> uses_bios qd ii (r + 128)" using bits [OF r(1)] r(3) unfolding disk_limits set_upt by blast
  moreover have "hlp_diskadd qdi biosnum qd = (case p of None \<Rightarrow> (None, qd)
      | Some r \<Rightarrow> if check_diskinfo qdi False then (Some (r - 2), qd[r := new_disk qdi b]) else (None, qd))"
    unfolding hlp_diskadd_def f by (simp add: r(2) [unfolded One_nat_def] b_def new_disk_def disk_limits Let_def split: option.split)
  ultimately show ?thesis using r(1) unfolding p by (intro exI [of _ b]) (simp add: b_def)
qed

lemma new_disk_seen:
  fixes b :: nat
  assumes "d < 14" "length qd = 16" "check_diskinfo qdi False"
  defines "qd1 \<equiv> qd[d + 2 := new_disk qdi b]"
  shows "hlp_diskmode (of_nat d) (ucast HDM_QUERY) qd1 = (HDM_QUERY OR HDM_EMULATED, qd1)"
    "hlp_disksize vols qd1 (of_nat d) = (qd_sectors qdi mod 2 ^ 32, geo_of qdi (qd_sectors qdi))"
    "hlp_diskstruct (of_nat d) None qd1 = (Some (d + 2), qd1)"
proof -
  have q: "qd1 ! Suc (Suc d) = new_disk qdi b" using assms(1,2) by (simp add: qd1_def)
  note k = small_disk [OF assms(1)]
  have "qd_sectorsize qdi = 2 ^ qd_sectorshift qdi" using assms(3) by (simp add: check_diskinfo_def)
  then have ss: "qd_sectorsize qdi \<noteq> 0" by simp
  show "hlp_diskmode (of_nat d) (ucast HDM_QUERY) qd1 = (HDM_QUERY OR HDM_EMULATED, qd1)"
    using k assms(1) new_flags by (simp add: hlp_diskmode_def Let_def disk_limits q new_disk_def)
  show "hlp_disksize vols qd1 (of_nat d) = (qd_sectors qdi mod 2 ^ 32, geo_of qdi (qd_sectors qdi))"
    using k assms(1) new_flags by (simp add: hlp_disksize_def Let_def disk_limits q new_disk_def geo_of_def)
  show "hlp_diskstruct (of_nat d) None qd1 = (Some (d + 2), qd1)"
    using k assms(1) new_flags ss by (simp add: hlp_diskstruct_def diskstruct_place_def Let_def disk_limits q new_disk_def)
qed

lemma new_disk_removed:
  assumes "d < 14" "length qd = 16"
  shows "hlp_diskremove d (qd[d + 2 := new_disk qdi b]) = None \<longleftrightarrow> d = 13"
    "d < 13 \<Longrightarrow> \<exists>e. hlp_diskremove d (qd[d + 2 := new_disk qdi b]) = Some (1, qd[d + 2 := e]) \<and> qd_flags e = 0"
  using assms new_flags by (auto simp: hlp_diskremove_def Let_def disk_limits new_disk_def zero_qd_def)

lemma no_disk:
  assumes "d < 14" "length qd = 16" "qd_flags e = 0"
  shows "slot_empty e" "fst (hlp_diskmode (of_nat d) m (qd[d + 2 := e])) = 0"
    "hlp_disksize vols (qd[d + 2 := e]) (of_nat d) = (0, geo_zero)"
proof -
  have q: "qd[Suc (Suc d) := e] ! Suc (Suc d) = e" using assms(1,2) by simp
  note k = small_disk [OF assms(1)]
  show "slot_empty e" using assms(3) by (simp add: slot_empty_def HDDF_PRESENT_def HDDF_HOTSWAP_def)
  show "fst (hlp_diskmode (of_nat d) m (qd[d + 2 := e])) = 0"
    using k assms(1,3) by (simp add: hlp_diskmode_def Let_def disk_limits q)
  show "hlp_disksize vols (qd[d + 2 := e]) (of_nat d) = (0, geo_zero)"
    using k assms(1,3) by (simp add: hlp_disksize_def Let_def disk_limits q)
qed

section \<open>Properties\<close>


text \<open>A table with one real disk.\<close>

definition demo_disk_table :: "qs_diskinfo list" where
  "demo_disk_table = (replicate 16 zero_qd)[2 := zero_qd\<lparr>qd_sectors := 100, qd_sectorsize := 512, qd_sectorshift := 9,
     qd_heads := 16, qd_spt := 63, qd_biosdisk := 128, qd_flags := HDDF_PRESENT\<rparr>]"

definition demo_new :: qs_diskinfo where
  "demo_new = zero_qd\<lparr>qd_sectors := 50, qd_sectorsize := 512, qd_sectorshift := 9, qd_heads := 16, qd_spt := 63\<rparr>"


end
