(* ===== verification/CNum.thy ===== *)
theory CNum
  imports QsPrelude
begin

text \<open>
  Numbers as text: \<open>_stol\<close>, \<open>_stol64\<close>, \<open>atoi\<close> and their callers in start/misc/clib.c, the printing
  of init/misc/print.c. A C string is the list of the characters in front of its zero, and a pointer
  into it is the rest of the list from there. The two widths of each routine have the same text in
  the source and are one definition here, used at 32 and at 64 bits.
\<close>

section \<open>Characters\<close>

abbreviation code :: "char \<Rightarrow> int" where "code c \<equiv> of_char c"

definition peek :: "string \<Rightarrow> char" where
  "peek s = (case s of [] \<Rightarrow> CHR 0x00 | c # _ \<Rightarrow> c)"

definition toupper :: "char \<Rightarrow> char" where
  "toupper cc = (if 0x60 < code cc \<and> code cc \<le> 0x7A then char_of (code cc - 0x20) else cc)"

definition tolower :: "char \<Rightarrow> char" where
  "tolower cc = (if 0x40 < code cc \<and> code cc \<le> 0x5A then char_of (code cc + 0x20) else cc)"

definition blank :: "char \<Rightarrow> bool" where
  "blank c \<longleftrightarrow> c = CHR '' '' \<or> c = CHR 0x09"

definition is_sign :: "char \<Rightarrow> bool" where
  "is_sign c \<longleftrightarrow> c = CHR ''+'' \<or> c = CHR ''-''"

definition is_hexstr :: "string \<Rightarrow> bool" where
  "is_hexstr pp \<longleftrightarrow> peek pp = CHR ''0'' \<and> peek (drop 1 pp) \<in> {CHR ''X'', CHR ''x''}"

definition radix_value :: "char \<Rightarrow> int" where
  "radix_value cc =
    (if 48 \<le> code cc \<and> code cc \<le> 57 then code cc - 48
     else let l = code (tolower cc) in
       if 97 \<le> l \<and> l \<le> 105 then l - 97 + 10
       else if 106 \<le> l \<and> l \<le> 114 then l - 106 + 19
       else if 115 \<le> l \<and> l \<le> 122 then l - 115 + 28
       else 37)"

section \<open>Reading: _stol and _stol64\<close>

text \<open>The loop over the digits; the state is \<open>value\<close> and \<open>overflow\<close>.\<close>

fun stol_loop :: "'a::len word \<Rightarrow> int \<Rightarrow> 'a word \<Rightarrow> bool \<Rightarrow> string \<Rightarrow> 'a word \<times> bool \<times> string" where
  "stol_loop ofcheck base value ovf [] = (value, ovf, [])"
| "stol_loop ofcheck base value ovf (c # pp) =
    (let digit = radix_value c in
     if base \<le> digit then (value, ovf, c # pp)
     else let ovf1 = (ovf \<or> ofcheck < value);
              value1 = value * word_of_int base + word_of_int digit
          in stol_loop ofcheck base value1 (ovf1 \<or> value1 < value) pp)"

definition stol_base :: "string \<Rightarrow> int \<Rightarrow> int" where
  "stol_base pp base =
    (if base = 0 then if is_hexstr pp then 16 else if peek pp = CHR ''0'' then 8 else 10 else base)"

definition stol_start :: "string \<Rightarrow> int \<Rightarrow> string" where
  "stol_start pp base = (if base = 16 \<and> is_hexstr pp then drop 2 pp else pp)"

definition half_range :: "'a::len word" where
  "half_range = push_bit (LENGTH('a) - 1) 1"

text \<open>The result is the value and \<open>endptr\<close>; \<open>- 1\<close> is \<open>ULONG_MAX\<close>, \<open>half_range\<close> is \<open>0x80000000\<close> and
  \<open>LONG_MIN\<close>, and \<open>half_range - 1\<close> is \<open>LONG_MAX\<close>.\<close>

definition stol_w :: "string \<Rightarrow> int \<Rightarrow> bool \<Rightarrow> 'a::len word \<times> string" where
  "stol_w nptr base0 is_signed =
    (let pp0 = dropWhile blank nptr;
         sign = peek pp0;
         pp1 = (if is_sign sign then drop 1 pp0 else pp0);
         base = stol_base pp1 base0
     in if base < 2 \<or> 36 < base then (0, nptr)
        else
         (let startp = stol_start pp1 base;
              (value, overflow, pp) = stol_loop (- 1 div word_of_int base) base 0 False startp;
              endp = (if pp = startp then nptr else pp);
              ovf = (overflow \<or> is_signed \<and> half_range \<le> value \<and> (value \<noteq> half_range \<or> sign \<noteq> CHR ''-''))
          in if ovf
             then (if \<not> is_signed then - 1 else if sign = CHR ''-'' then half_range else half_range - 1, endp)
             else (if sign = CHR ''-'' then - value else value, endp)))"

definition stol :: "string \<Rightarrow> int \<Rightarrow> bool \<Rightarrow> u32 \<times> string" where "stol = stol_w"
definition stol64 :: "string \<Rightarrow> int \<Rightarrow> bool \<Rightarrow> u64 \<times> string" where "stol64 = stol_w"

definition strtoul :: "string \<Rightarrow> int \<Rightarrow> u32 \<times> string" where "strtoul p base = stol p base False"
definition strtol :: "string \<Rightarrow> int \<Rightarrow> u32 \<times> string" where "strtol p base = stol p base True"
definition strtoull :: "string \<Rightarrow> int \<Rightarrow> u64 \<times> string" where "strtoull p base = stol64 p base False"
definition strtoll :: "string \<Rightarrow> int \<Rightarrow> u64 \<times> string" where "strtoll p base = stol64 p base True"

text \<open>Leading zeros in front of a digit are dropped, so that they do not mean octal.\<close>

fun skip_zeros :: "string \<Rightarrow> string" where
  "skip_zeros (a # b # s) = (if a = CHR ''0'' \<and> 48 \<le> code b \<and> code b \<le> 57 then skip_zeros (b # s) else a # b # s)"
| "skip_zeros s = s"

definition str_prepare :: "string \<Rightarrow> string" where
  "str_prepare str = skip_zeros (dropWhile (\<lambda>c. c = CHR '' '' \<or> c = CHR '' '') str)"

definition str2ulong :: "string \<Rightarrow> u32" where "str2ulong str = fst (stol (str_prepare str) 0 False)"
definition str2int64 :: "string \<Rightarrow> u64" where "str2int64 str = fst (stol64 (str_prepare str) 0 True)"
definition str2uint64 :: "string \<Rightarrow> u64" where "str2uint64 str = fst (stol64 (str_prepare str) 0 False)"

section \<open>Reading: atoi and atoi64\<close>

fun atoi_loop :: "'a::len word \<Rightarrow> string \<Rightarrow> 'a word" where
  "atoi_loop value [] = value"
| "atoi_loop value (c # s) =
    (if 48 \<le> code c \<and> code c \<le> 57 then atoi_loop (value * 10 + word_of_int (code c) - 48) s else value)"

definition atoi_w :: "string option \<Rightarrow> 'a::len word" where
  "atoi_w ptr = (case ptr of None \<Rightarrow> 0
     | Some s \<Rightarrow>
        (let p = dropWhile blank s; sign = peek p;
             value = atoi_loop 0 (if is_sign sign then drop 1 p else p)
         in if sign = CHR ''-'' then - value else value))"

definition atoi :: "string option \<Rightarrow> u32" where "atoi = atoi_w"
definition atoi64 :: "string option \<Rightarrow> u64" where "atoi64 = atoi_w"

section \<open>Printing: _utoa, _itoa\<close>

definition alphabet :: string where
  "alphabet = ''0123456789ABCDEFGHIJKLMNOPQRSTUVWXYZ''"

text \<open>The digits are collected in \<open>buf[34]\<close> behind its first cell, the last one first; \<open>room\<close> is the
  number of cells left and \<open>acc\<close> what the closing loop will copy. The result is \<open>None\<close> when the
  division is by zero, a digit has no letter, or \<open>buf\<close> is overrun.\<close>

fun utoa_loop :: "nat \<Rightarrow> 'a::len word \<Rightarrow> 'a word \<Rightarrow> string \<Rightarrow> string option" where
  "utoa_loop 0 radix value acc = None"
| "utoa_loop (Suc room) radix value acc =
    (if radix = 0 \<or> length alphabet \<le> unat (value mod radix) then None
     else let acc1 = alphabet ! unat (value mod radix) # acc; quot = value div radix
          in if quot \<noteq> 0 then utoa_loop room radix quot acc1 else Some acc1)"

definition utoa_w :: "'a::len word \<Rightarrow> int \<Rightarrow> string option" where
  "utoa_w value radix = utoa_loop 33 (word_of_int radix) value []"

definition utoa :: "u32 \<Rightarrow> int \<Rightarrow> string option" where "utoa = utoa_w"
definition utoa64 :: "u64 \<Rightarrow> int \<Rightarrow> string option" where "utoa64 = utoa_w"

definition itoa_w :: "'a::len word \<Rightarrow> int \<Rightarrow> string option" where
  "itoa_w value radix =
    (if radix = 10 \<and> sint value < 0 then map_option ((#) CHR ''-'') (utoa_w (- value) radix)
     else utoa_w value radix)"

definition itoa :: "u32 \<Rightarrow> int \<Rightarrow> string option" where "itoa = itoa_w"
definition itoa64 :: "u64 \<Rightarrow> int \<Rightarrow> string option" where "itoa64 = itoa_w"

section \<open>Reading is exact\<close>

definition num_step :: "int \<Rightarrow> int \<Rightarrow> char \<Rightarrow> int" where
  "num_step base n c = n * base + radix_value c"

definition num_of :: "int \<Rightarrow> string \<Rightarrow> int" where
  "num_of base ds = foldl (num_step base) 0 ds"

lemma code_bounds: "0 \<le> code c" "code c < 256"
  using of_char_mod_256 [of c, where ?'a = int] pos_mod_sign [of 256 "code c"] pos_mod_bound [of 256 "code c"]
  by simp_all

lemma radix_value_nonneg [simp]: "0 \<le> radix_value c"
  by (auto simp: radix_value_def Let_def)

lemma num_step_ge:
  assumes "1 \<le> base" "0 \<le> n"
  shows "n \<le> num_step base n c"
proof -
  have "n * 1 \<le> n * base" using assms by (intro mult_left_mono) auto
  then show ?thesis using radix_value_nonneg [of c] unfolding num_step_def by linarith
qed

definition tracks :: "'a::len word \<Rightarrow> bool \<Rightarrow> int \<Rightarrow> bool" where
  "tracks v ovf n \<longleftrightarrow> 0 \<le> n \<and> (ovf \<longleftrightarrow> 2 ^ LENGTH('a) \<le> n) \<and> (\<not> ovf \<longrightarrow> uint v = n)"

definition base_ok :: "'a::len itself \<Rightarrow> int \<Rightarrow> bool" where
  "base_ok _ base \<longleftrightarrow> 2 \<le> base \<and> base \<le> 36 \<and> (4096::int) \<le> 2 ^ LENGTH('a)"

lemma overflow_test:
  fixes n b d M :: int
  assumes "0 \<le> n" "n < M" "2 \<le> b" "b \<le> 36" "0 \<le> d" "d < b" "4096 \<le> M"
  shows "(M - 1) div b < n \<or> (n * b + d) mod M < n \<longleftrightarrow> M \<le> n * b + d"
    and "\<not> M \<le> n * b + d \<Longrightarrow> (n * b + d) mod M = n * b + d"
proof -
  have nb: "0 \<le> n * b" "n \<le> n * b"
    using assms mult_left_mono [of 1 b n] by auto
  show exact: "(n * b + d) mod M = n * b + d" if "\<not> M \<le> n * b + d"
    using that nb assms by (intro mod_pos_pos_trivial) linarith+
  show "(M - 1) div b < n \<or> (n * b + d) mod M < n \<longleftrightarrow> M \<le> n * b + d"
  proof (cases "(M - 1) div b < n")
    case True
    then have "((M - 1) div b + 1) * b \<le> n * b" using assms(3) by (intro mult_right_mono) auto
    moreover have "M - 1 < ((M - 1) div b + 1) * b"
      using assms(3) div_mult_mod_eq [of "M - 1" b] pos_mod_bound [of b "M - 1"]
      by (simp only: distrib_right) linarith
    ultimately show ?thesis using True assms by linarith
  next
    case False
    then have "n * b \<le> (M - 1) div b * b" using assms(3) by (intro mult_right_mono) auto
    then have le: "n * b \<le> M - 1"
      using assms(3) div_mult_mod_eq [of "M - 1" b] pos_mod_sign [of b "M - 1"] by linarith
    show ?thesis
    proof (cases "M \<le> n * b + d")
      case True
      moreover from this have "(n * b + d - M) mod M = n * b + d - M"
        using le assms by (intro mod_pos_pos_trivial) linarith+
      then have "(n * b + d) mod M = n * b + d - M" by simp
      moreover have "n * b \<le> n * 36" using assms by (intro mult_left_mono) auto
      ultimately show ?thesis using True le assms by linarith
    next
      case neg: False
      then show ?thesis using exact False nb assms by linarith
    qed
  qed
qed

lemma tracks_step:
  fixes v :: "'a::len word"
  assumes "tracks v ovf n" "base_ok TYPE('a) b" "radix_value c < b"
  defines "v1 \<equiv> v * word_of_int b + word_of_int (radix_value c)"
  shows "tracks v1 (ovf \<or> - 1 div word_of_int b < v \<or> v1 < v) (num_step b n c)"
proof -
  let ?M = "2 ^ LENGTH('a) :: int"
  have b: "2 \<le> b" "b \<le> 36" "4096 \<le> ?M" and n: "0 \<le> n" and ov: "ovf \<longleftrightarrow> ?M \<le> n"
    using assms(1,2) by (auto simp: base_ok_def tracks_def)
  have grow: "n \<le> num_step b n c" using b n by (intro num_step_ge) auto
  show ?thesis
  proof (cases ovf)
    case True
    then show ?thesis using ov grow n unfolding tracks_def by auto
  next
    case False
    then have un: "uint v = n" "n < ?M" using assms(1) by (auto simp: tracks_def)
    have ub: "uint (word_of_int b :: 'a word) = b" using b by (simp add: uint_word_of_int take_bit_eq_mod)
    have uq: "uint (- 1 div word_of_int b :: 'a word) = (?M - 1) div b"
      by (simp add: uint_div ub unsigned_minus_1_eq_mask mask_eq_exp_minus_1)
    have u1: "uint v1 = (n * b + radix_value c) mod ?M"
      unfolding v1_def
      by (simp add: uint_word_ariths uint_word_of_int un take_bit_eq_mod mod_simps)
    note t = overflow_test [OF n un(2) b(1,2) radix_value_nonneg assms(3) b(3)]
    show ?thesis
      unfolding tracks_def num_step_def
      using t False n grow [unfolded num_step_def] by (auto simp: word_less_def uq u1 un)
  qed
qed

lemma stol_loop_tracks:
  fixes v :: "'a::len word"
  assumes "tracks v ovf n" "base_ok TYPE('a) b"
    and "stol_loop (- 1 div word_of_int b) b v ovf s = (v1, ovf1, s1)"
  shows "s1 = dropWhile (\<lambda>c. radix_value c < b) s"
    and "tracks v1 ovf1 (foldl (num_step b) n (takeWhile (\<lambda>c. radix_value c < b) s))"
  using assms(1,3)
proof (induction s arbitrary: v ovf n)
  case (Cons c s)
  { case 1 then show ?case using Cons.IH(1) [OF tracks_step [OF 1(1) assms(2), of c]]
      by (auto simp: Let_def split: if_splits) }
  { case 2 then show ?case using Cons.IH(2) [OF tracks_step [OF 2(1) assms(2), of c]]
      by (auto simp: Let_def split: if_splits) }
qed auto


lemma half_power: "(2::int) ^ LENGTH('a) = 2 * 2 ^ (LENGTH('a::len) - 1)"
  by (simp flip: power_Suc)

lemma signed_value:
  fixes x :: "'a::len word"
  shows "sint x = (if uint x < 2 ^ (LENGTH('a) - 1) then uint x else uint x - 2 ^ LENGTH('a))"
proof -
  let ?H = "2 ^ (LENGTH('a) - 1) :: int"
  have s: "sint x = (uint x + ?H) mod (2 * ?H) - ?H"
    using half_power [where 'a = 'a]
    by (simp add: sint_uint signed_take_bit_eq_take_bit_shift take_bit_eq_mod)
  have u: "0 \<le> uint x" "uint x < 2 * ?H" "0 < ?H"
    using uint_lt2p [of x] half_power [where 'a = 'a] by simp_all
  show ?thesis
  proof (cases "uint x < ?H")
    case True
    then show ?thesis using u by (simp add: s)
  next
    case False
    have "(uint x + ?H) mod (2 * ?H) = (uint x - ?H + 2 * ?H) mod (2 * ?H)" by (simp add: algebra_simps)
    also have "\<dots> = (uint x - ?H) mod (2 * ?H)" by (rule mod_add_self2)
    also have "\<dots> = uint x - ?H" using u False by (intro mod_pos_pos_trivial) linarith+
    finally show ?thesis using False by (simp add: s half_power [where 'a = 'a])
  qed
qed

lemma uint_half_range: "uint (half_range :: 'a::len word) = 2 ^ (LENGTH('a) - 1)"
  unfolding half_range_def unsigned_push_bit_eq
  by (simp add: take_bit_push_bit push_bit_eq_mult take_bit_eq_mod)

lemma uint_negative:
  fixes x :: "'a::len word"
  shows "uint (- x) = (if x = 0 then 0 else 2 ^ LENGTH('a) - uint x)"
proof (cases "x = 0")
  case False
  then have "0 < uint x" using uint_0_iff [of x] uint_nonnegative [of x] by linarith
  moreover have "(2 ^ LENGTH('a) - uint x) mod 2 ^ LENGTH('a) = 2 ^ LENGTH('a) - uint x"
    using uint_lt2p [of x] calculation by (intro mod_pos_pos_trivial) linarith+
  ultimately show ?thesis using False by (simp add: uint_word_ariths)
qed simp


text \<open>What the text says: sign, base, digits and the number they denote.\<close>

definition num_text :: "string \<Rightarrow> string" where
  "num_text nptr = (let p = dropWhile blank nptr in if is_sign (peek p) then drop 1 p else p)"

definition num_neg :: "string \<Rightarrow> bool" where
  "num_neg nptr \<longleftrightarrow> peek (dropWhile blank nptr) = CHR ''-''"

definition num_base :: "string \<Rightarrow> int \<Rightarrow> int" where
  "num_base nptr base0 = stol_base (num_text nptr) base0"

definition num_body :: "string \<Rightarrow> int \<Rightarrow> string" where
  "num_body nptr base0 = stol_start (num_text nptr) (num_base nptr base0)"

definition num_digits :: "string \<Rightarrow> int \<Rightarrow> string" where
  "num_digits nptr base0 = takeWhile (\<lambda>c. radix_value c < num_base nptr base0) (num_body nptr base0)"

definition num_value :: "string \<Rightarrow> int \<Rightarrow> int" where
  "num_value nptr base0 =
    (let n = num_of (num_base nptr base0) (num_digits nptr base0) in if num_neg nptr then - n else n)"

definition num_end :: "string \<Rightarrow> int \<Rightarrow> string" where
  "num_end nptr base0 =
    (if num_digits nptr base0 = [] then nptr
     else drop (length (num_digits nptr base0)) (num_body nptr base0))"

definition clamp :: "int \<Rightarrow> int \<Rightarrow> int \<Rightarrow> int" where
  "clamp lo hi x = max lo (min hi x)"

lemma clamp_id: "lo \<le> x \<Longrightarrow> x \<le> hi \<Longrightarrow> clamp lo hi x = x"
  by (simp add: clamp_def)

definition saturate :: "int \<Rightarrow> int \<Rightarrow> int" where
  "saturate m x = (if m \<le> \<bar>x\<bar> then m - 1 else x mod m)"

lemma dropWhile_drop: "dropWhile P xs = drop (length (takeWhile P xs)) xs"
  by (induction xs) auto

lemma drop_same_iff: "drop n xs = xs \<longleftrightarrow> n = 0 \<or> xs = []"
  by (metis drop_0 drop_Nil length_drop diff_less length_greater_0_conv neq0_conv nat_neq_iff)

lemma saturate_neg:
  fixes N m :: int
  assumes "0 < N" "N < m"
  shows "- N mod m = m - N"
  using assms zmod_zminus1_eq_if [of N m] by (simp add: mod_pos_pos_trivial)

lemma unsigned_result:
  fixes v :: "'a::len word"
  assumes "tracks v ovf N"
  shows "uint (if ovf then - 1 else if neg then - v else v)
       = saturate (2 ^ LENGTH('a)) (if neg then - N else N)"
proof (cases ovf)
  case True
  then show ?thesis using assms
    by (simp add: tracks_def saturate_def unsigned_minus_1_eq_mask mask_eq_exp_minus_1)
next
  case False
  then have v: "uint v = N" "0 \<le> N" "N < 2 ^ LENGTH('a)" using assms by (auto simp: tracks_def)
  show ?thesis
  proof (cases "N = 0")
    case True
    then have "v = 0" using v(1) by (simp add: uint_0_iff)
    then show ?thesis using False True by (simp add: saturate_def)
  next
    case nz: False
    then have "v \<noteq> 0" using v(1) by auto
    then show ?thesis using False v nz saturate_neg [of N "2 ^ LENGTH('a)"]
      by (auto simp: saturate_def uint_negative)
  qed
qed

lemma signed_result:
  fixes v :: "'a::len word" and neg :: bool
  assumes "tracks v ovf N"
  defines "big \<equiv> ovf \<or> half_range \<le> v \<and> (v \<noteq> half_range \<or> \<not> neg)"
  shows "sint (if big then if neg then half_range else half_range - 1 else if neg then - v else v)
       = clamp (- (2 ^ (LENGTH('a) - 1))) (2 ^ (LENGTH('a) - 1) - 1) (if neg then - N else N)"
proof -
  let ?H = "2 ^ (LENGTH('a) - 1) :: int"
  note half = half_power [where 'a = 'a] uint_half_range [where 'a = 'a]
  have H: "1 \<le> ?H" by simp
  have h1: "sint (half_range :: 'a word) = - ?H"
    using half by (simp add: signed_value)
  have "uint (half_range - 1 :: 'a word) = (?H - 1) mod (2 * ?H)"
    using half by (simp add: uint_word_ariths mod_simps)
  also have "\<dots> = ?H - 1" using H by (intro mod_pos_pos_trivial) linarith+
  finally have h2: "sint (half_range - 1 :: 'a word) = ?H - 1" by (simp add: signed_value)
  show ?thesis
  proof (cases big)
    case True
    have "?H \<le> N" if ovf
      using that assms(1) half(1) H unfolding tracks_def by linarith
    then have "?H \<le> N"
      using True assms(1) by (auto simp: big_def tracks_def word_le_def half(2))
    then show ?thesis using True H by (auto simp: h1 h2 clamp_def)
  next
    case False
    then have v: "uint v = N" "0 \<le> N" "\<not> ovf" using assms(1) by (auto simp: big_def tracks_def)
    have small: "N < ?H \<or> N = ?H \<and> neg"
      using False v by (auto simp: big_def word_le_def half(2) word_uint_eq_iff)
    have "sint (if neg then - v else v) = (if neg then - N else N)"
      using small v half H uint_0_iff [of v] by (auto simp: signed_value uint_negative)
    moreover have "clamp (- ?H) (?H - 1) (if neg then - N else N) = (if neg then - N else N)"
    proof (cases neg)
      case True
      have "clamp (- ?H) (?H - 1) (- N) = - N" using small v(2) H by (intro clamp_id) linarith+
      then show ?thesis using True by simp
    next
      case False
      with small have "N < ?H" by blast
      then have "clamp (- ?H) (?H - 1) N = N" using v(2) H by (intro clamp_id) linarith+
      then show ?thesis using False by simp
    qed
    ultimately show ?thesis using False by (simp split del: if_split)
  qed
qed

lemma stol_w_eq:
  "stol_w nptr base0 sg =
    (let b = num_base nptr base0 in
     if b < 2 \<or> 36 < b then (0, nptr)
     else case stol_loop (- 1 div word_of_int b) b 0 False (num_body nptr base0) of (v, ovf, rest) \<Rightarrow>
       (let big = (ovf \<or> sg \<and> half_range \<le> v \<and> (v \<noteq> half_range \<or> \<not> num_neg nptr)) in
        if big
        then (if \<not> sg then - 1 else if num_neg nptr then half_range else half_range - 1,
              if rest = num_body nptr base0 then nptr else rest)
        else (if num_neg nptr then - v else v, if rest = num_body nptr base0 then nptr else rest)))"
  unfolding stol_w_def num_base_def num_body_def num_text_def num_neg_def Let_def
  by (rule refl)

lemma stol_w_exact:
  assumes "base_ok TYPE('a::len) (num_base nptr base0)"
  shows "uint (fst (stol_w nptr base0 False :: 'a word \<times> string))
       = saturate (2 ^ LENGTH('a)) (num_value nptr base0)"
    and "sint (fst (stol_w nptr base0 True :: 'a word \<times> string))
       = clamp (- (2 ^ (LENGTH('a) - 1))) (2 ^ (LENGTH('a) - 1) - 1) (num_value nptr base0)"
    and "snd (stol_w nptr base0 sg :: 'a word \<times> string) = num_end nptr base0"
proof -
  define b where "b = num_base nptr base0"
  define st where "st = num_body nptr base0"
  obtain v ovf rest where loop: "stol_loop (- 1 div word_of_int b) b (0 :: 'a word) False st = (v, ovf, rest)"
    by (metis prod_cases3)
  have t0: "tracks (0 :: 'a word) False 0" by (simp add: tracks_def)
  note L = stol_loop_tracks [OF t0 assms [folded b_def] loop]
  define N where "N = num_of b (takeWhile (\<lambda>c. radix_value c < b) st)"
  have tr: "tracks v ovf N" using L(2) by (simp add: N_def num_of_def)
  have val: "num_value nptr base0 = (if num_neg nptr then - N else N)"
    by (simp add: num_value_def num_digits_def N_def b_def st_def)
  have ends: "(if rest = st then nptr else rest) = num_end nptr base0"
    using L(1) by (auto simp: num_end_def num_digits_def b_def st_def dropWhile_drop drop_same_iff)
  have ok: "\<not> b < 2" "\<not> 36 < b" using assms by (auto simp: base_ok_def b_def)
  have run: "(stol_w nptr base0 sg :: 'a word \<times> string) =
    (if ovf \<or> sg \<and> half_range \<le> v \<and> (v \<noteq> half_range \<or> \<not> num_neg nptr)
     then (if \<not> sg then - 1 else if num_neg nptr then half_range else half_range - 1)
     else if num_neg nptr then - v else v, num_end nptr base0)" for sg
    unfolding stol_w_eq b_def [symmetric] st_def [symmetric] Let_def
    by (simp only: loop ok ends prod.case if_False simp_thms) (simp only: if_distrib [of "\<lambda>x. (x, _)"])
  show "uint (fst (stol_w nptr base0 False :: 'a word \<times> string))
       = saturate (2 ^ LENGTH('a)) (num_value nptr base0)"
    using unsigned_result [OF tr, of "num_neg nptr"] by (simp only: run val fst_conv simp_thms if_True if_False)
  show "sint (fst (stol_w nptr base0 True :: 'a word \<times> string))
       = clamp (- (2 ^ (LENGTH('a) - 1))) (2 ^ (LENGTH('a) - 1) - 1) (num_value nptr base0)"
    using signed_result [OF tr, of "num_neg nptr"] by (simp only: run val fst_conv simp_thms if_True if_False)
  show "snd (stol_w nptr base0 sg :: 'a word \<times> string) = num_end nptr base0"
    by (simp add: run Let_def)
qed

end
