(* ===== verification/CStr.thy ===== *)
theory CStr
  imports CNum
begin

text \<open>
  String routines of start/misc/clib.c and the comparison \<open>strnicmp\<close> of init/misc/util.asm. A C string
  is the list of the characters in front of its zero; a pointer into it is the rest of the list, or
  an offset where the code subtracts pointers.
\<close>

abbreviation NUL :: char where "NUL \<equiv> CHR 0x00"

section \<open>strnicmp\<close>

text \<open>\<open>@@nic_upper_al\<close>; the table of the upper half is there when a code page is loaded.\<close>

definition nic_upper :: "(nat \<Rightarrow> char) option \<Rightarrow> char \<Rightarrow> char" where
  "nic_upper cp c =
    (if code c < 0x61 then c
     else if code c < 0x7B then char_of (code c - 0x20)
     else case cp of None \<Rightarrow> c
          | Some tab \<Rightarrow> if code c < 0x80 then c else tab (nat (code c - 0x80)))"

text \<open>\<open>@@nic_cmp_loop\<close>: \<open>loope\<close> counts \<open>ecx\<close> down after every pair, so that a count of 0 does not
  limit the comparison. \<open>None\<close> when it runs over the end of a string.\<close>

fun nic_loop :: "(char \<Rightarrow> char) \<Rightarrow> u32 \<Rightarrow> string \<Rightarrow> string \<Rightarrow> int option" where
  "nic_loop up ecx (a # s1) (b # s2) =
    (if up a \<noteq> up b then Some (if code (up a) < code (up b) then - 1 else 1)
     else if ecx - 1 = 0 then Some 0 else nic_loop up (ecx - 1) s1 s2)"
| "nic_loop up ecx s1 s2 = None"

text \<open>\<open>repne scasb\<close>: the number of bytes looked at until the zero of \<open>s1\<close> or the end of the count.\<close>

definition scas_count :: "string \<Rightarrow> u32 \<Rightarrow> u32" where
  "scas_count s1 n = of_nat (min (unat n) (length s1 + 1))"

definition strnicmp :: "(nat \<Rightarrow> char) option \<Rightarrow> string \<Rightarrow> string \<Rightarrow> u32 \<Rightarrow> int option" where
  "strnicmp cp s1 s2 n = nic_loop (nic_upper cp) (scas_count s1 n) (s1 @ [NUL]) (s2 @ [NUL])"

definition stricmp :: "(nat \<Rightarrow> char) option \<Rightarrow> string \<Rightarrow> string \<Rightarrow> int option" where
  "stricmp cp s1 s2 = strnicmp cp s1 s2 (of_nat (length s1) + 1)"

section \<open>Sets of characters as bit vectors\<close>

definition bits :: "nat \<Rightarrow> u8" where
  "bits k = [0x01, 0x02, 0x04, 0x08, 0x10, 0x20, 0x40, 0x80] ! k"

definition cell :: "char \<Rightarrow> nat" where "cell c = of_char c div 8"
definition bitno :: "char \<Rightarrow> nat" where "bitno c = of_char c mod 8"

fun setbits_loop :: "u8 list \<Rightarrow> string \<Rightarrow> u8 list" where
  "setbits_loop vector [] = vector"
| "setbits_loop vector (cc # charset) =
    setbits_loop (vector[cell cc := vector ! cell cc OR bits (bitno cc)]) charset"

definition setbits_vec :: "string \<Rightarrow> u8 list" where
  "setbits_vec charset = setbits_loop (replicate 32 0) charset"

definition in_vec :: "u8 list \<Rightarrow> char \<Rightarrow> bool" where
  "in_vec vector ch \<longleftrightarrow> vector ! cell ch AND bits (bitno ch) \<noteq> 0"

fun find_in :: "u8 list \<Rightarrow> string \<Rightarrow> string option" where
  "find_in vector [] = None"
| "find_in vector (ch # str) = (if in_vec vector ch then Some (ch # str) else find_in vector str)"

definition strpbrk :: "string \<Rightarrow> string option \<Rightarrow> string option" where
  "strpbrk str charset =
    (case charset of None \<Rightarrow> None
     | Some cs \<Rightarrow> if cs = [] then None else find_in (setbits_vec cs) str)"

fun span_in :: "u8 list \<Rightarrow> string \<Rightarrow> nat" where
  "span_in vector [] = 0"
| "span_in vector (tc # str) = (if in_vec vector tc then Suc (span_in vector str) else 0)"

definition strspn :: "string \<Rightarrow> string \<Rightarrow> nat" where
  "strspn str charset = span_in (setbits_vec charset) str"

definition strspnp :: "string \<Rightarrow> string \<Rightarrow> string option" where
  "strspnp str charset = (let index = strspn str charset in
     if index < length str then Some (drop index str) else None)"

section \<open>Trimming, counting, replacing\<close>

definition trimleft :: "string \<Rightarrow> string \<Rightarrow> string" where
  "trimleft src charset = (let len = strspn src charset in if len \<noteq> 0 then drop len src else src)"

text \<open>\<open>while (len--)\<close> from the end; \<open>strchr\<close> also finds the zero of the set, but no character of the
  string is zero.\<close>

fun trimright_loop :: "nat \<Rightarrow> string \<Rightarrow> string \<Rightarrow> string" where
  "trimright_loop 0 src charset = src"
| "trimright_loop (Suc len) src charset =
    (if src ! len \<in> set charset then trimright_loop len (take len src) charset else src)"

definition trimright :: "string \<Rightarrow> string \<Rightarrow> string" where
  "trimright src charset = trimright_loop (length src) src charset"

text \<open>\<open>strchr(s, c)\<close> for a character that is not zero.\<close>

definition strchr :: "string \<Rightarrow> char \<Rightarrow> string option" where
  "strchr s c = (let r = dropWhile (\<lambda>x. x \<noteq> c) s in if r = [] then None else Some r)"

lemma strchr_shorter: "strchr s c = Some r \<Longrightarrow> r \<noteq> [] \<and> length r \<le> length s"
  by (auto simp: strchr_def Let_def length_dropWhile_le split: if_splits)

function strccnt_loop :: "string \<Rightarrow> char \<Rightarrow> nat \<Rightarrow> nat" where
  "strccnt_loop str ch rc =
    (case strchr str ch of None \<Rightarrow> rc | Some pch \<Rightarrow> strccnt_loop (drop 1 pch) ch (Suc rc))"
  by pat_completeness auto
termination
  by (relation "measure (\<lambda>(s, _). length s)") (auto dest!: strchr_shorter simp: less_le_trans [OF diff_less])

definition strccnt :: "string option \<Rightarrow> char \<Rightarrow> nat" where
  "strccnt str ch = (case str of None \<Rightarrow> 0 | Some s \<Rightarrow> strccnt_loop s ch 0)"

definition strclast :: "string option \<Rightarrow> char" where
  "strclast str = (case str of None \<Rightarrow> NUL | Some s \<Rightarrow> if s = [] then NUL else s ! (length s - 1))"

text \<open>The characters in front of the next hit stay; a run of hits is taken one by one.\<close>

function replace_loop :: "char \<Rightarrow> char \<Rightarrow> string \<Rightarrow> nat \<Rightarrow> string \<times> nat" where
  "replace_loop from to str res =
    (case strchr str from of None \<Rightarrow> (str, res)
     | Some ch \<Rightarrow>
        (let r = replace_loop from to (drop 1 ch) (Suc res)
         in (take (length str - length ch) str @ to # fst r, snd r)))"
  by pat_completeness auto
termination
  by (relation "measure (\<lambda>(_, _, s, _). length s)") (auto dest!: strchr_shorter simp: less_le_trans [OF diff_less])

definition replacechar :: "string option \<Rightarrow> char \<Rightarrow> char \<Rightarrow> string option \<times> nat" where
  "replacechar str from to =
    (case str of None \<Rightarrow> (None, 0)
     | Some s \<Rightarrow> if from = to \<or> from = NUL then (Some s, 0)
        else (let r = replace_loop from to s 0 in (Some (fst r), snd r)))"

definition strupr :: "string option \<Rightarrow> string option" where "strupr str = map_option (map toupper) str"
definition strlwr :: "string option \<Rightarrow> string option" where "strlwr str = map_option (map tolower) str"

definition isspace :: "int \<Rightarrow> bool" where "isspace cc \<longleftrightarrow> cc = 32 \<or> 9 \<le> cc \<and> cc \<le> 13"
definition isalpha :: "int \<Rightarrow> bool" where "isalpha cc \<longleftrightarrow> 97 \<le> cc \<and> cc \<le> 122 \<or> 65 \<le> cc \<and> cc \<le> 90"
definition isdigit :: "int \<Rightarrow> bool" where "isdigit cc \<longleftrightarrow> 48 \<le> cc \<and> cc \<le> 57"
definition isalnum :: "int \<Rightarrow> bool" where
  "isalnum cc \<longleftrightarrow> 97 \<le> cc \<and> cc \<le> 122 \<or> 65 \<le> cc \<and> cc \<le> 90 \<or> 48 \<le> cc \<and> cc \<le> 57"
definition isxdigit :: "int \<Rightarrow> bool" where
  "isxdigit cc \<longleftrightarrow> 48 \<le> cc \<and> cc \<le> 57 \<or> 97 \<le> cc \<and> cc \<le> 102 \<or> 65 \<le> cc \<and> cc \<le> 70"

declare strccnt_loop.simps [simp del] replace_loop.simps [simp del]

section \<open>getwordpos\<close>

text \<open>The loops to the left and to the right of \<open>while (1)\<close>; \<open>start\<close> as in the source.\<close>

fun word_left :: "u8 list \<Rightarrow> string \<Rightarrow> nat \<Rightarrow> bool \<Rightarrow> nat" where
  "word_left vector str 0 start = 0"
| "word_left vector str (Suc rp) start =
    (if rp = 0 then 0
     else if \<not> in_vec vector (str ! rp) then word_left vector str rp False
     else if \<not> start then Suc rp else word_left vector str rp start)"

function word_right :: "u8 list \<Rightarrow> string \<Rightarrow> nat \<Rightarrow> bool \<Rightarrow> nat" where
  "word_right vector str rp start =
    (if length str - 1 \<le> Suc rp then length str
     else if in_vec vector (str ! Suc rp) then word_right vector str (Suc rp) False
     else if \<not> start then Suc rp else word_right vector str (Suc rp) start)"
  by pat_completeness auto
termination by (relation "measure (\<lambda>(_, str, rp, _). length str - rp)") auto

definition getwordpos :: "string option \<Rightarrow> string option \<Rightarrow> int \<Rightarrow> nat" where
  "getwordpos str charset pos =
    (let s = (case str of None \<Rightarrow> [] | Some s \<Rightarrow> s);
         rp = min (nat \<bar>pos\<bar>) (length s - 1)
     in if length s \<le> 1 then 0
        else case charset of None \<Rightarrow> rp
          | Some cs \<Rightarrow>
             if cs = [] then rp
             else if pos < 0 then word_left (setbits_vec cs) s rp True
             else word_right (setbits_vec cs) s rp True)"

declare word_right.simps [simp del]

section \<open>What the bit vector decides\<close>

lemma bits_power: "k < 8 \<Longrightarrow> bits k = 2 ^ k"
proof -
  assume "k < 8"
  moreover have "\<forall>i \<in> set [0..<8]. bits i = 2 ^ i" by code_simp
  ultimately show ?thesis by auto
qed

lemma in_vec_bit: "in_vec vector c \<longleftrightarrow> bit (vector ! cell c) (bitno c)"
  by (simp add: in_vec_def bits_power bitno_def and_exp_eq_0_iff_not_bit)

lemma cell_less: "cell c < 32"
  using of_char_mod_256 [of c, where ?'a = nat] mod_less_divisor [of 256 "of_char c"]
  by (simp add: cell_def less_mult_imp_div_less)

lemma same_bit: "cell c = cell d \<Longrightarrow> bitno c = bitno d \<Longrightarrow> c = d"
  unfolding cell_def bitno_def by (metis div_mult_mod_eq of_char_eq_iff)

lemma in_vec_set:
  "length vector = 32 \<Longrightarrow>
   in_vec (vector[cell a := vector ! cell a OR bits (bitno a)]) c \<longleftrightarrow> in_vec vector c \<or> c = a"
  using cell_less [of a] same_bit [of c a]
  by (auto simp: in_vec_bit nth_list_update bit_or_iff bits_power bitno_def bit_exp_iff)

lemma in_vec_loop:
  "length vector = 32 \<Longrightarrow> in_vec (setbits_loop vector charset) c \<longleftrightarrow> in_vec vector c \<or> c \<in> set charset"
  by (induction vector charset rule: setbits_loop.induct) (auto simp: in_vec_set)

lemma in_vec_iff [simp]: "in_vec (setbits_vec charset) c \<longleftrightarrow> c \<in> set charset"
  using cell_less [of c] by (simp add: setbits_vec_def in_vec_loop) (simp add: in_vec_def)

lemma strspn_eq: "strspn str charset = length (takeWhile (\<lambda>c. c \<in> set charset) str)"
  by (simp add: strspn_def) (induction str; simp)

lemma find_in_eq:
  "find_in (setbits_vec charset) str =
    (let r = dropWhile (\<lambda>c. c \<notin> set charset) str in if r = [] then None else Some r)"
  by (induction str) (auto simp: Let_def)

lemma strpbrk_eq:
  "strpbrk str (Some charset) =
    (let r = dropWhile (\<lambda>c. c \<notin> set charset) str in if r = [] then None else Some r)"
  by (auto simp: strpbrk_def find_in_eq Let_def dropWhile_eq_Nil_conv)

lemma trimleft_eq: "trimleft src charset = dropWhile (\<lambda>c. c \<in> set charset) src"
  by (simp add: trimleft_def strspn_eq dropWhile_drop Let_def)

lemma trimright_loop_eq:
  "len = length src \<Longrightarrow> trimright_loop len src charset = rev (dropWhile (\<lambda>c. c \<in> set charset) (rev src))"
proof (induction len arbitrary: src)
  case (Suc len)
  then obtain s c where src: "src = s @ [c]" "length s = len"
    by (metis append_butlast_last_id length_butlast diff_Suc_1 length_0_conv nat.distinct(1))
  show ?case using Suc.IH [of s] src by (simp add: nth_append)
qed simp

lemma trimright_eq: "trimright src charset = rev (dropWhile (\<lambda>c. c \<in> set charset) (rev src))"
  by (simp add: trimright_def trimright_loop_eq)

lemma strchr_None: "strchr s c = None \<longleftrightarrow> c \<notin> set s"
  by (auto simp: strchr_def Let_def dropWhile_eq_Nil_conv)

lemma strchr_Some: "strchr s c = Some r \<Longrightarrow> \<exists>t. r = c # t \<and> c \<notin> set (takeWhile (\<lambda>x. x \<noteq> c) s)
    \<and> s = takeWhile (\<lambda>x. x \<noteq> c) s @ r"
  by (cases r) (auto simp: strchr_def Let_def dropWhile_eq_Cons_conv dest: set_takeWhileD split: if_splits)

lemma strccnt_loop_eq: "strccnt_loop str ch rc = rc + length (filter (\<lambda>c. c = ch) str)"
proof (induction str ch rc rule: strccnt_loop.induct)
  case (1 str ch rc)
  show ?case
  proof (cases "strchr str ch")
    case None
    then have "filter (\<lambda>c. c = ch) str = []" by (auto simp: strchr_None filter_empty_conv)
    then show ?thesis using None by (simp add: strccnt_loop.simps)
  next
    case (Some r)
    from strchr_Some [OF this] obtain t where t: "r = ch # t" "ch \<notin> set (takeWhile (\<lambda>x. x \<noteq> ch) str)"
      "str = takeWhile (\<lambda>x. x \<noteq> ch) str @ r" by blast
    have "filter (\<lambda>c. c = ch) (takeWhile (\<lambda>x. x \<noteq> ch) str) = []" using t(2) by (auto simp: filter_empty_conv)
    then have "length (filter (\<lambda>c. c = ch) str) = Suc (length (filter (\<lambda>c. c = ch) t))"
      by (subst t(3)) (simp add: t(1))
    then show ?thesis using 1 [OF Some] Some t(1) by (simp add: strccnt_loop.simps [of str])
  qed
qed

section \<open>What strnicmp decides\<close>

lemma nic_loop_eq:
  assumes "0 < unat ecx" "unat ecx \<le> length s1" "unat ecx \<le> length s2"
  shows "nic_loop up ecx s1 s2 = Some 0 \<longleftrightarrow> map up (take (unat ecx) s1) = map up (take (unat ecx) s2)"
  using assms
proof (induction up ecx s1 s2 rule: nic_loop.induct)
  case (1 up ecx a s1 b s2)
  have u: "unat (ecx - 1) = unat ecx - 1" using 1(2) by (metis unat_minus_one unat_eq_zero not_less_zero)
  obtain k where k: "unat ecx = Suc k" using 1(2) gr0_implies_Suc by blast
  have z: "ecx - 1 = 0 \<longleftrightarrow> k = 0" using u k by (metis diff_Suc_1 unat_eq_zero)
  show ?case
  proof (cases "up a = up b \<and> k \<noteq> 0")
    case True
    then show ?thesis using 1 z u k by simp
  next
    case False
    then show ?thesis using z k by auto
  qed
qed auto

lemma strnicmp_prefix:
  assumes "0 < n" "n \<le> length s1" "n \<le> length s2" "n < 2 ^ 32"
  shows "strnicmp cp s1 s2 (of_nat n) = Some 0 \<longleftrightarrow>
    map (nic_upper cp) (take n s1) = map (nic_upper cp) (take n s2)"
proof -
  have n: "unat (of_nat n :: u32) = n" using assms by (simp add: unat_of_nat take_bit_eq_mod)
  then have c: "scas_count s1 (of_nat n) = of_nat n" using assms by (simp add: scas_count_def)
  show ?thesis
    unfolding strnicmp_def c
    using nic_loop_eq [of "of_nat n :: u32" "s1 @ [NUL]" "s2 @ [NUL]" "nic_upper cp"] assms n by simp
qed

lemma strnicmp_differs:
  assumes "nic_upper cp (peek s1) \<noteq> nic_upper cp (peek s2)"
  shows "strnicmp cp s1 s2 n \<noteq> Some 0"
  using assms by (cases s1; cases s2) (auto simp: strnicmp_def peek_def)

end
