(* ===== verification/Env.thy ===== *)
theory Env
  imports CStr
begin

text \<open>
  The process environment, start/misc/envmgr.c: one memory block with the lines \<open>NAME=value\<close>, each
  closed by a zero, and a zero behind the last one. The block is the list of its bytes, as long as
  \<open>mem_blocksize\<close> says; a pointer into it is an offset. A write outside the block, and the use of a
  null pointer, make the result of an operation \<open>None\<close>. The heap is an argument: \<open>heap n\<close> is the block
  \<open>malloc_local\<close> returns for \<open>n\<close> bytes. The environment mutex is not modelled.
\<close>

section \<open>Memory accesses\<close>

definition cstr :: "string \<Rightarrow> nat \<Rightarrow> string" where
  "cstr blk p = takeWhile (\<lambda>c. c \<noteq> NUL) (drop p blk)"

definition put :: "string \<Rightarrow> nat \<Rightarrow> string \<Rightarrow> string option" where
  "put blk p bytes =
    (if p + length bytes \<le> length blk
     then Some (take p blk @ bytes @ drop (p + length bytes) blk) else None)"

definition memmove :: "string \<Rightarrow> nat \<Rightarrow> nat \<Rightarrow> nat \<Rightarrow> string option" where
  "memmove blk dst src n =
    (if src + n \<le> length blk then put blk dst (take n (drop src blk)) else None)"

section \<open>The state\<close>

record process_env =
  envptr :: string
  pid :: u32
  envchanged :: bool
  errno :: int

definition EACCES :: int where "EACCES = 6"
definition EINVAL :: int where "EINVAL = 9"

type_synonym heap = "nat \<Rightarrow> string option"
type_synonym codepage = "(nat \<Rightarrow> char) option"

section \<open>envlen2, env_copy, linepos\<close>

text \<open>The loop \<open>while (*pos)\<close>; a position is the rest of the block from there.\<close>

function envlen_loop :: "string \<Rightarrow> nat \<Rightarrow> nat \<Rightarrow> nat \<times> nat" where
  "envlen_loop pos sz lcnt =
    (if peek pos = NUL then (sz + 1, lcnt)
     else let len = length (cstr pos 0) + 1 in envlen_loop (drop len pos) (sz + len) (lcnt + 1))"
  by pat_completeness auto
termination by (relation "measure (\<lambda>(pos, _, _). length pos)") (auto simp: peek_def split: list.splits)

definition envlen2 :: "string \<Rightarrow> nat \<times> nat" where
  "envlen2 blk = envlen_loop blk 0 0"

definition envlen :: "string \<Rightarrow> nat" where
  "envlen blk = fst (envlen2 blk)"

text \<open>\<open>memset\<close> of the additional bytes, then \<open>memcpy\<close>.\<close>

definition env_copy :: "heap \<Rightarrow> string \<Rightarrow> nat \<Rightarrow> string option" where
  "env_copy heap blk addspace =
    (let len = envlen blk in
     case heap (len + addspace) of None \<Rightarrow> None
     | Some rc \<Rightarrow>
        (case (if addspace \<noteq> 0 then put rc len (replicate addspace NUL) else Some rc) of None \<Rightarrow> None
         | Some rc1 \<Rightarrow> if len \<le> length blk then put rc1 0 (take len blk) else None))"

abbreviation sp :: "char \<Rightarrow> bool" where "sp c \<equiv> c = CHR '' ''"

definition search_key :: "string \<Rightarrow> string" where
  "search_key en = trimright (take 383 (dropWhile sp en)) [CHR '' '', CHR 0x09]"

text \<open>The part of a line in front of the first equal sign without outer spaces: \<open>aep\<close> up to \<open>npos\<close>.\<close>

definition line_key :: "string \<Rightarrow> string option" where
  "line_key ep =
    (case strchr ep CHR ''='' of None \<Rightarrow> None
     | Some npos \<Rightarrow> Some (trimright (dropWhile sp (take (length ep - length npos) ep)) '' ''))"

definition line_matches :: "codepage \<Rightarrow> string \<Rightarrow> string \<Rightarrow> bool" where
  "line_matches cp enbuf ep =
    (case line_key ep of None \<Rightarrow> False
     | Some k \<Rightarrow> length k = length enbuf \<and>
         strnicmp cp (dropWhile sp ep) enbuf (of_nat (length enbuf)) = Some 0)"

function linepos_loop :: "codepage \<Rightarrow> string \<Rightarrow> string \<Rightarrow> nat \<Rightarrow> nat option" where
  "linepos_loop cp enbuf ep ofs =
    (if peek ep = NUL then None
     else if line_matches cp enbuf (cstr ep 0) then Some ofs
     else let len = length (cstr ep 0) + 1 in linepos_loop cp enbuf (drop len ep) (ofs + len))"
  by pat_completeness auto
termination by (relation "measure (\<lambda>(_, _, ep, _). length ep)") (auto simp: peek_def split: list.splits)

definition linepos :: "codepage \<Rightarrow> string \<Rightarrow> string option \<Rightarrow> nat option" where
  "linepos cp blk en =
    (case en of None \<Rightarrow> None
     | Some s \<Rightarrow> if search_key s = [] then None else linepos_loop cp (search_key s) blk 0)"

section \<open>getenv\<close>

definition getenv :: "codepage \<Rightarrow> string option \<Rightarrow> process_env \<Rightarrow> string option" where
  "getenv cp name pq =
    (case linepos cp (envptr pq) name of None \<Rightarrow> None
     | Some rc \<Rightarrow>
        (case strchr (cstr (envptr pq) rc) CHR ''='' of None \<Rightarrow> None
         | Some eq \<Rightarrow> Some (dropWhile sp (drop 1 eq))))"

section \<open>setenv\<close>

definition bad_name :: "string option \<Rightarrow> bool" where
  "bad_name name \<longleftrightarrow> (case name of None \<Rightarrow> True | Some s \<Rightarrow> strchr s CHR ''='' \<noteq> None \<or> s = [])"

text \<open>``delete value if no size match''\<close>

definition delete_line :: "string \<Rightarrow> nat \<Rightarrow> nat \<Rightarrow> nat \<Rightarrow> string option" where
  "delete_line blk len lp clen =
    (let rem = len - lp - clen in
     if rem \<le> 1 then put blk lp [NUL] else memmove blk lp (lp + clen) rem)"

text \<open>``reallocate environment to fit new variable''\<close>

definition grow :: "heap \<Rightarrow> process_env \<Rightarrow> nat \<Rightarrow> nat \<Rightarrow> process_env option" where
  "grow heap pq len nlen =
    (if pid pq = 1 \<and> \<not> envchanged pq \<or> length (envptr pq) < len + nlen
     then case env_copy heap (envptr pq) nlen of None \<Rightarrow> None
          | Some newenv \<Rightarrow> Some (pq\<lparr>envptr := newenv, envchanged := True\<rparr>)
     else Some pq)"

definition write_line :: "string \<Rightarrow> nat \<Rightarrow> string \<Rightarrow> string \<Rightarrow> string option" where
  "write_line blk lp name value = put blk lp (name @ ''='' @ value @ [NUL])"

text \<open>The part under \<open>if (nlen)\<close>; \<open>lp\<close> is the place of an old line of the same size.\<close>

definition place_line :: "heap \<Rightarrow> string \<Rightarrow> string \<Rightarrow> nat \<Rightarrow> nat \<Rightarrow> nat \<Rightarrow> int \<Rightarrow> process_env \<Rightarrow> process_env option" where
  "place_line heap name value lp len nlen diff pq =
    (case (if diff > 0 then grow heap pq len nlen else Some pq) of None \<Rightarrow> None
     | Some pq2 \<Rightarrow>
        (let dst = (if diff \<noteq> 0 then len - 1 else lp) in
         case (if diff \<noteq> 0 then put (envptr pq2) (dst + nlen) [NUL] else Some (envptr pq2)) of None \<Rightarrow> None
         | Some blk3 \<Rightarrow>
            (case write_line blk3 dst name value of None \<Rightarrow> None
             | Some blk4 \<Rightarrow> Some (pq2\<lparr>envptr := blk4\<rparr>))))"

text \<open>The part of \<open>setenv\<close> under \<open>if (newvalue || lp)\<close>.\<close>

definition change_line :: "heap \<Rightarrow> string \<Rightarrow> string option \<Rightarrow> nat option \<Rightarrow> process_env \<Rightarrow> process_env option" where
  "change_line heap name newvalue lp pq =
    (let len = envlen (envptr pq);
         clen = (case lp of None \<Rightarrow> 0 | Some p \<Rightarrow> length (cstr (envptr pq) p) + 1);
         nlen = (case newvalue of None \<Rightarrow> 0 | Some v \<Rightarrow> length name + length v + 2);
         diff = int nlen - int clen
     in case (case lp of None \<Rightarrow> Some (envptr pq)
              | Some p \<Rightarrow> if diff \<noteq> 0 then delete_line (envptr pq) len p clen else Some (envptr pq)) of
          None \<Rightarrow> None
        | Some blk1 \<Rightarrow>
           (let pq1 = pq\<lparr>envptr := blk1\<rparr>; len1 = (if lp \<noteq> None \<and> diff \<noteq> 0 then envlen blk1 else len)
            in case newvalue of None \<Rightarrow> Some pq1
             | Some v \<Rightarrow> place_line heap name v (the lp) len1 nlen diff pq1))"

text \<open>The result is the return code and the new state.\<close>

definition setenv :: "codepage \<Rightarrow> heap \<Rightarrow> string option \<Rightarrow> string option \<Rightarrow> int \<Rightarrow> process_env \<Rightarrow> (int \<times> process_env) option" where
  "setenv cp heap name newvalue overwrite pq =
    (if bad_name name then Some (1, pq\<lparr>errno := EINVAL\<rparr>)
     else let lp = linepos cp (envptr pq) name in
       if lp \<noteq> None \<and> newvalue \<noteq> None \<and> overwrite = 0 then Some (1, pq\<lparr>errno := EACCES\<rparr>)
       else if newvalue \<noteq> None \<or> lp \<noteq> None
       then map_option (Pair 0) (change_line heap (the name) newvalue lp pq)
       else Some (0, pq))"

section \<open>clearenv, str_getenv, env_istrue, env_setvar\<close>

definition clearenv :: "process_env \<Rightarrow> (int \<times> process_env) option" where
  "clearenv pq = map_option (\<lambda>b. (0, pq\<lparr>envptr := b\<rparr>)) (put (envptr pq) 0 [NUL])"

text \<open>\<open>cenv\<close> walks over \<open>lines\<close> lines.\<close>

fun copy_lines :: "nat \<Rightarrow> string \<Rightarrow> string list" where
  "copy_lines 0 cenv = []"
| "copy_lines (Suc lines) cenv = cstr cenv 0 # copy_lines lines (drop (length (cstr cenv 0) + 1) cenv)"

definition str_getenv :: "process_env \<Rightarrow> string list" where
  "str_getenv pq = copy_lines (snd (envlen2 (envptr pq))) (envptr pq)"

definition delimiter :: "string \<Rightarrow> string option" where
  "delimiter ev = (case strchr ev CHR '','' of Some p \<Rightarrow> Some p | None \<Rightarrow> strchr ev CHR '';'')"

definition env_istrue :: "codepage \<Rightarrow> string option \<Rightarrow> process_env \<Rightarrow> u32" where
  "env_istrue cp name pq =
    (case getenv cp name pq of None \<Rightarrow> - 1
     | Some ev \<Rightarrow>
        (let len = (case delimiter ev of None \<Rightarrow> length ev | Some chp \<Rightarrow> length ev - length chp);
             is = (\<lambda>word. strnicmp cp ev word (of_nat len) = Some 0)
         in if is ''TRUE'' \<or> is ''ON'' \<or> is ''YES'' then 1
            else if is ''FALSE'' \<or> is ''OFF'' \<or> is ''NO'' then 0
            else atoi (Some ev)))"

text \<open>\<open>vstr\<close> has 12 bytes.\<close>

definition env_setvar :: "codepage \<Rightarrow> heap \<Rightarrow> string option \<Rightarrow> u32 \<Rightarrow> process_env \<Rightarrow> (int \<times> process_env) option" where
  "env_setvar cp heap name value pq =
    (case itoa value 10 of None \<Rightarrow> None
     | Some vstr \<Rightarrow> if length vstr + 1 \<le> 12 then setenv cp heap name (Some vstr) 1 pq else None)"

declare envlen_loop.simps [simp del] linepos_loop.simps [simp del]

end
