(* ===== verification/EnvBlock.thy ===== *)
theory EnvBlock
  imports Env
begin

text \<open>
  The environment block as a list of lines: what a well-formed block is, and what the loops and the
  writes of envmgr.c do to the lines.
\<close>

section \<open>Well-formed blocks\<close>

definition flat :: "string list \<Rightarrow> string" where
  "flat ls = concat (map (\<lambda>l. l @ [NUL]) ls)"

definition lines_ok :: "string list \<Rightarrow> bool" where
  "lines_ok ls \<longleftrightarrow> (\<forall>l \<in> set ls. l \<noteq> [] \<and> NUL \<notin> set l)"

definition env_block :: "string \<Rightarrow> string list \<Rightarrow> bool" where
  "env_block blk ls \<longleftrightarrow> lines_ok ls \<and> (\<exists>tail. blk = flat ls @ NUL # tail)"

lemma flat_simps [simp]:
  "flat [] = []" "flat (l # ls) = l @ NUL # flat ls" "flat (ls @ ms) = flat ls @ flat ms"
  by (simp_all add: flat_def)

lemma lines_ok_simps [simp]:
  "lines_ok []" "lines_ok (l # ls) \<longleftrightarrow> l \<noteq> [] \<and> NUL \<notin> set l \<and> lines_ok ls"
  "lines_ok (ls @ ms) \<longleftrightarrow> lines_ok ls \<and> lines_ok ms"
  by (auto simp: lines_ok_def)

lemma cstr_line [simp]: "NUL \<notin> set l \<Longrightarrow> cstr (l @ NUL # t) 0 = l"
  by (simp add: cstr_def takeWhile_tail) (metis takeWhile_eq_all_conv)

lemma cstr_at: "NUL \<notin> set l \<Longrightarrow> cstr (p @ l @ NUL # t) (length p) = l"
  using cstr_line [of l t] by (simp add: cstr_def)

lemma peek_line: "l \<noteq> [] \<Longrightarrow> NUL \<notin> set l \<Longrightarrow> peek (l @ s) \<noteq> NUL"
  by (cases l) (auto simp: peek_def)

lemma peek_Cons [simp]: "peek (c # s) = c"
  by (simp add: peek_def)

lemma envlen_loop_lines:
  "lines_ok ls \<Longrightarrow> envlen_loop (flat ls @ NUL # t) n k = (n + length (flat ls) + 1, k + length ls)"
proof (induction ls arbitrary: n k)
  case (Cons l ls)
  then show ?case
    using peek_line [of l "NUL # flat ls @ NUL # t"]
    by (simp add: envlen_loop.simps [of "l @ _"] Let_def)
qed (simp add: envlen_loop.simps)

lemma envlen2_block: "env_block blk ls \<Longrightarrow> envlen2 blk = (length (flat ls) + 1, length ls)"
  by (auto simp: env_block_def envlen2_def envlen_loop_lines)

lemma envlen_block [simp]: "env_block blk ls \<Longrightarrow> envlen blk = length (flat ls) + 1"
  by (simp add: envlen_def envlen2_block)

lemma copy_lines_block: "lines_ok ls \<Longrightarrow> copy_lines (length ls) (flat ls @ NUL # t) = ls"
  by (induction ls) auto

lemma str_getenv_block: "env_block (envptr pq) ls \<Longrightarrow> str_getenv pq = ls"
  by (auto simp: str_getenv_def envlen2_block) (auto simp: env_block_def copy_lines_block)

section \<open>Finding a line\<close>

definition line_start :: "string list \<Rightarrow> nat \<Rightarrow> nat" where
  "line_start ls i = length (flat (take i ls))"

lemma linepos_loop_lines:
  "lines_ok ls \<Longrightarrow> linepos_loop cp key (flat ls @ NUL # t) ofs =
    map_option (\<lambda>i. ofs + line_start ls i) (find_pos (line_matches cp key) ls)"
proof (induction ls arbitrary: ofs)
  case Nil
  then show ?case by (simp add: linepos_loop.simps)
next
  case (Cons l ls)
  then have l: "peek (l @ NUL # flat ls @ NUL # t) \<noteq> NUL" "NUL \<notin> set l"
    using peek_line [of l] by auto
  show ?case
  proof (cases "line_matches cp key l")
    case True
    then show ?thesis using l by (simp add: linepos_loop.simps line_start_def)
  next
    case False
    then show ?thesis using l Cons
      by (subst linepos_loop.simps)
        (auto simp: Let_def line_start_def option.map_comp comp_def intro!: map_option_cong)
  qed
qed

definition find_line :: "codepage \<Rightarrow> string \<Rightarrow> string list \<Rightarrow> nat option" where
  "find_line cp name ls =
    (if search_key name = [] then None else find_pos (line_matches cp (search_key name)) ls)"

lemma linepos_block:
  "env_block blk ls \<Longrightarrow> linepos cp blk (Some name) = map_option (line_start ls) (find_line cp name ls)"
  by (auto simp: env_block_def linepos_def find_line_def linepos_loop_lines)

lemma find_line_split:
  assumes "find_line cp name ls = Some i"
  obtains pre l post where "ls = pre @ l # post" "i = length pre" "line_matches cp (search_key name) l"
    and "\<forall>x \<in> set pre. \<not> line_matches cp (search_key name) x"
proof -
  have i: "i < length ls" "line_matches cp (search_key name) (ls ! i)" "\<forall>j<i. \<not> line_matches cp (search_key name) (ls ! j)"
    using assms by (auto simp: find_line_def find_pos_Some split: if_splits)
  show thesis
  proof
    show "ls = take i ls @ ls ! i # drop (Suc i) ls" using i(1) by (rule id_take_nth_drop)
    show "i = length (take i ls)" using i(1) by simp
    show "line_matches cp (search_key name) (ls ! i)" by (rule i(2))
    show "\<forall>x \<in> set (take i ls). \<not> line_matches cp (search_key name) x"
      using i by (auto simp: in_set_conv_nth)
  qed
qed

section \<open>Writing\<close>

lemma put_at: "put (p @ old @ t) (length p) new = Some (p @ new @ t)" if "length old = length new"
  using that by (simp add: put_def)

lemma delete_line_block:
  assumes "lines_ok (pre @ l # post)" "blk = flat (pre @ l # post) @ NUL # tail"
  shows "\<exists>blk1. delete_line blk (length (flat (pre @ l # post)) + 1) (length (flat pre)) (length l + 1) = Some blk1
    \<and> env_block blk1 (pre @ post) \<and> length blk1 = length blk"
proof (cases "post = []")
  case True
  obtain c l1 where l: "l = c # l1" using assms(1) by (cases l) auto
  have "put blk (length (flat pre)) [NUL] = Some (flat pre @ [NUL] @ l1 @ NUL # NUL # tail)"
    using put_at [of "[c]" "[NUL]" "flat pre" "l1 @ NUL # NUL # tail"] by (simp add: assms(2) True l)
  then show ?thesis using assms True l
    by (simp add: delete_line_def Let_def env_block_def)
next
  case False
  have post: "post \<noteq> [] \<Longrightarrow> 0 < length (flat post)" by (cases post) auto
  let ?rest = "flat post @ [NUL]"
  have "put (flat pre @ (l @ NUL # flat post @ [NUL]) @ tail) (length (flat pre)) ?rest
      = Some (flat pre @ ?rest @ drop (length (flat pre) + length ?rest) blk)"
    by (simp add: put_def assms(2))
  then have "delete_line blk (length (flat (pre @ l # post)) + 1) (length (flat pre)) (length l + 1)
      = Some (flat pre @ ?rest @ drop (length (flat pre) + length ?rest) blk)"
    using post False by (simp add: delete_line_def Let_def memmove_def assms(2))
  then show ?thesis using assms
    by (auto simp: env_block_def)
qed

lemma write_at_end:
  assumes "env_block blk ls" "length (flat ls) + 1 + n \<le> length blk" "n = length name + length v + 2"
    and "NUL \<notin> set name" "NUL \<notin> set v"
  shows "\<exists>blk1 blk2. put blk (length (flat ls) + n) [NUL] = Some blk1 \<and>
    write_line blk1 (length (flat ls)) name v = Some blk2 \<and> env_block blk2 (ls @ [name @ ''='' @ v]) \<and>
    length blk2 = length blk"
proof -
  from assms(1) obtain t where t: "blk = flat ls @ NUL # t" "lines_ok ls" by (auto simp: env_block_def)
  have n: "n \<le> length t" using assms(2) by (simp add: t)
  define old rest where "old = take n (NUL # t)" and "rest = drop n t"
  obtain x where x: "NUL # t = old @ x # rest" "length old = n"
    using n id_take_nth_drop [of n "NUL # t"] by (auto simp: old_def rest_def)
  have "put blk (length (flat ls) + n) [NUL] = Some (flat ls @ old @ NUL # rest)"
    using put_at [of "[x]" "[NUL]" "flat ls @ old" rest] by (simp add: t(1) x)
  moreover have "write_line (flat ls @ old @ NUL # rest) (length (flat ls)) name v
      = Some (flat ls @ (name @ ''='' @ v @ [NUL]) @ NUL # rest)"
    unfolding write_line_def using assms(3) x(2) by (intro put_at) simp
  ultimately show ?thesis using assms t(2) x by (auto simp: env_block_def t(1))
qed

lemma write_in_place:
  assumes "env_block blk (pre @ l # post)" "length l = length name + length v + 1"
    and "NUL \<notin> set name" "NUL \<notin> set v"
  shows "\<exists>blk1. write_line blk (length (flat pre)) name v = Some blk1 \<and>
    env_block blk1 (pre @ (name @ ''='' @ v) # post) \<and> length blk1 = length blk"
proof -
  from assms(1) obtain t where t: "blk = flat (pre @ l # post) @ NUL # t" "lines_ok (pre @ l # post)"
    by (auto simp: env_block_def)
  have "write_line blk (length (flat pre)) name v
      = Some (flat pre @ (name @ ''='' @ v @ [NUL]) @ flat post @ NUL # t)"
    unfolding write_line_def t(1)
    using assms(2) put_at [of "l @ [NUL]" "name @ ''='' @ v @ [NUL]" "flat pre" "flat post @ NUL # t"] by simp
  then show ?thesis using assms t by (auto simp: env_block_def)
qed

end
