(* ===== verification/CNumSpec.thy ===== *)
theory CNumSpec
  imports CNum
begin

text \<open>
  What the routines of CNum promise: reading is exact and saturates, printing and reading are
  inverse to each other at every base, and the local buffer of the printing is large enough at all
  bases but two of the 64-bit routine.
\<close>

section \<open>strtol and its relatives\<close>

definition base_valid :: "int \<Rightarrow> bool" where
  "base_valid base0 \<longleftrightarrow> base0 = 0 \<or> 2 \<le> base0 \<and> base0 \<le> 36"

lemma base_valid_ok:
  assumes "base_valid base0" "12 \<le> LENGTH('a::len)"
  shows "base_ok TYPE('a) (num_base nptr base0)"
proof -
  have "(2::int) ^ 12 \<le> 2 ^ LENGTH('a)" using assms(2) by (intro power_increasing) auto
  then show ?thesis using assms(1)
    by (auto simp: base_ok_def base_valid_def num_base_def stol_base_def)
qed

lemma stol_w_invalid: "\<not> base_valid base0 \<Longrightarrow> stol_w nptr base0 sg = (0, nptr)"
  by (auto simp: stol_w_eq base_valid_def num_base_def stol_base_def Let_def)

definition reads_exactly :: "int \<Rightarrow> string \<Rightarrow> int \<Rightarrow> 'a::len word \<times> string \<Rightarrow> 'a word \<times> string \<Rightarrow> bool" where
  "reads_exactly h nptr base0 u s \<longleftrightarrow>
    uint (fst u) = saturate (2 * h) (num_value nptr base0) \<and>
    sint (fst s) = clamp (- h) (h - 1) (num_value nptr base0) \<and>
    snd u = num_end nptr base0 \<and> snd s = num_end nptr base0"

lemma stol_w_reads:
  assumes "base_valid base0" "12 \<le> LENGTH('a::len)"
  shows "reads_exactly (2 ^ (LENGTH('a) - 1)) nptr base0
    (stol_w nptr base0 False :: 'a word \<times> string) (stol_w nptr base0 True)"
  using stol_w_exact [OF base_valid_ok [OF assms]] half_power [where 'a = 'a]
  by (simp add: reads_exactly_def)


section \<open>Printing\<close>

lemma alphabet_digit:
  assumes "d < 36"
  shows "radix_value (alphabet ! d) = int d" "\<not> blank (alphabet ! d)" "\<not> is_sign (alphabet ! d)"
proof -
  have "\<forall>c \<in> set [0..<36]. radix_value (alphabet ! c) = int c \<and> \<not> blank (alphabet ! c) \<and> \<not> is_sign (alphabet ! c)"
    by code_simp
  then show "radix_value (alphabet ! d) = int d" "\<not> blank (alphabet ! d)" "\<not> is_sign (alphabet ! d)"
    using assms by auto
qed

definition numeral_of :: "int \<Rightarrow> nat \<Rightarrow> string \<Rightarrow> bool" where
  "numeral_of r n ds \<longleftrightarrow> ds \<noteq> [] \<and> num_of r ds = int n \<and>
    (\<forall>c \<in> set ds. radix_value c < r \<and> \<not> blank c \<and> \<not> is_sign c)"

lemma numeral_digit: "d < 36 \<Longrightarrow> int d < r \<Longrightarrow> numeral_of r d [alphabet ! d]"
  by (simp add: numeral_of_def num_of_def num_step_def alphabet_digit)

lemma numeral_snoc:
  assumes "numeral_of r n ds" "d < 36" "int d < r"
  shows "numeral_of r (n * nat r + d) (ds @ [alphabet ! d])"
  using assms by (auto simp: numeral_of_def num_of_def num_step_def alphabet_digit)

lemma utoa_loop_spec:
  fixes v :: "'a::len word"
  assumes "2 \<le> r" "r \<le> 36" "6 \<le> LENGTH('a)"
  shows "if unat v < r ^ room \<and> 0 < room
         then \<exists>ds. utoa_loop room (of_nat r) v acc = Some (ds @ acc) \<and> numeral_of (int r) (unat v) ds
         else utoa_loop room (of_nat r) v acc = None"
proof (induction room arbitrary: v acc)
  case (Suc room)
  have "(2::nat) ^ 6 \<le> 2 ^ LENGTH('a)" using assms(3) by (intro power_increasing) auto
  then have ur: "unat (of_nat r :: 'a word) = r"
    using assms(2) by (simp add: unat_of_nat take_bit_eq_mod)
  have r0: "(of_nat r :: 'a word) \<noteq> 0" using ur assms(1) by (metis unat_0 not_numeral_le_zero)
  let ?q = "v div of_nat r" and ?d = "unat v mod r"
  have um: "unat (v mod of_nat r) = ?d" and uq: "unat ?q = unat v div r"
    by (simp_all add: unat_mod unat_div ur)
  have q0: "?q = 0 \<longleftrightarrow> unat v div r = 0" by (metis uq unat_eq_zero)
  have d: "?d < r" "?d < 36" using assms mod_less_divisor [of r "unat v"] by linarith+
  have step: "utoa_loop (Suc room) (of_nat r) v acc =
    (if unat v div r \<noteq> 0 then utoa_loop room (of_nat r) ?q (alphabet ! ?d # acc) else Some (alphabet ! ?d # acc))"
    using d r0 q0 by (simp add: um Let_def alphabet_def)
  have pow: "unat v < r ^ Suc room \<longleftrightarrow> unat v div r < r ^ room"
    using assms(1) by (simp add: div_less_iff_less_mult mult.commute)
  show ?case
  proof (cases "unat v div r = 0")
    case True
    then have "unat v < r" using assms(1) by (simp add: div_eq_0_iff)
    moreover from this have "?d = unat v" by simp
    moreover have "unat v < r ^ Suc room" using True assms(1) by (simp only: pow) simp
    ultimately show ?thesis
      using True numeral_digit [OF d(2), of "int r", unfolded of_nat_less_iff, OF d(1)]
      by (simp add: step del: utoa_loop.simps)
  next
    case False
    show ?thesis
    proof (cases "unat v < r ^ Suc room")
      case True
      then have "unat ?q < r ^ room" by (simp only: pow uq)
      moreover have "0 < room" using calculation False uq by (cases room) auto
      ultimately obtain ds where ds: "utoa_loop room (of_nat r) ?q (alphabet ! ?d # acc) = Some (ds @ alphabet ! ?d # acc)"
          "numeral_of (int r) (unat v div r) ds"
        using Suc.IH [of ?q "alphabet ! ?d # acc"] uq by auto
      have "numeral_of (int r) (unat v) (ds @ [alphabet ! ?d])"
        using numeral_snoc [OF ds(2) d(2)] d(1) by (simp add: mult.commute)
      then show ?thesis using True False ds(1) by (auto simp: step simp del: utoa_loop.simps)
    next
      case big: False
      then have "\<not> unat ?q < r ^ room" by (simp only: pow uq not_False_eq_True)
      then show ?thesis using False big Suc.IH [of ?q "alphabet ! ?d # acc"] by (simp add: step del: utoa_loop.simps)
    qed
  qed
qed simp


lemma utoa_loop_spec_int:
  fixes v :: "'a::len word"
  assumes "2 \<le> r" "r \<le> 36" "6 \<le> LENGTH('a)" "0 < room"
  shows "if uint v < r ^ room
         then \<exists>ds. utoa_loop room (word_of_int r) v [] = Some ds \<and> numeral_of r (unat v) ds
         else utoa_loop room (word_of_int r) v [] = None"
proof -
  define n where "n = nat r"
  then have r: "r = int n" using assms(1) by simp
  have lt: "uint v < r ^ room \<longleftrightarrow> unat v < n ^ room"
    unfolding r uint_nat by (simp only: of_nat_power [symmetric] of_nat_less_iff)
  show ?thesis
    using utoa_loop_spec [of n v room "[]"] assms unfolding lt unfolding r by (simp split: if_splits)
qed

lemma utoa_w_spec:
  fixes v :: "'a::len word"
  assumes "2 \<le> r" "r \<le> 36" "6 \<le> LENGTH('a)"
  shows "if uint v < r ^ 33
         then \<exists>ds. utoa_w v r = Some ds \<and> numeral_of r (unat v) ds
         else utoa_w v r = None"
  using utoa_loop_spec_int [OF assms zero_less_numeral]
  unfolding utoa_w_def .

section \<open>Printed numbers are read back\<close>

lemma numeral_plain:
  assumes "numeral_of r n ds" "2 \<le> r" "r \<le> 36"
  shows "dropWhile blank ds = ds" "\<not> is_sign (peek ds)" "num_text ds = ds" "\<not> num_neg ds"
    and "num_base ds r = r" "num_body ds r = ds"
proof -
  obtain c cs where ds: "ds = c # cs" using assms(1) by (cases ds) (auto simp: numeral_of_def)
  have c: "\<not> blank c" "\<not> is_sign c" using assms(1) by (auto simp: numeral_of_def ds)
  show t: "dropWhile blank ds = ds" "\<not> is_sign (peek ds)" "num_text ds = ds" "\<not> num_neg ds"
    using c by (auto simp: ds peek_def num_text_def num_neg_def is_sign_def)
  show "num_base ds r = r" using assms(2) by (simp add: num_base_def stol_base_def)
  have "radix_value CHR ''X'' = 33" "radix_value CHR ''x'' = 33" by code_simp+
  then have "r = 16 \<Longrightarrow> \<not> is_hexstr ds"
    using assms(1) by (cases cs) (auto simp: ds is_hexstr_def peek_def numeral_of_def)
  then show "num_body ds r = ds"
    using \<open>num_base ds r = r\<close> t by (auto simp: num_body_def stol_start_def)
qed

lemma numeral_digits:
  assumes "numeral_of r n ds"
  shows "takeWhile (\<lambda>c. radix_value c < r) ds = ds"
  using assms by (simp add: numeral_of_def takeWhile_eq_all_conv)

lemma numeral_value:
  assumes "numeral_of r n ds" "2 \<le> r" "r \<le> 36"
  shows "num_value ds r = int n" "num_end ds r = []"
proof -
  note p = numeral_plain [OF assms]
  have "num_digits ds r = ds"
    unfolding num_digits_def p(5,6) by (rule numeral_digits [OF assms(1)])
  then show "num_value ds r = int n" "num_end ds r = []"
    using assms(1) p by (auto simp: num_value_def num_end_def numeral_of_def)
qed

lemma signed_numeral_value:
  assumes "numeral_of 10 n ds"
  shows "num_value (CHR ''-'' # ds) 10 = - int n" "num_end (CHR ''-'' # ds) 10 = []"
proof -
  note p = numeral_plain [OF assms] numeral_digits [OF assms]
  have t: "num_text (CHR ''-'' # ds) = ds" "num_neg (CHR ''-'' # ds)"
    by (auto simp: num_text_def num_neg_def blank_def peek_def is_sign_def)
  have b: "num_base (CHR ''-'' # ds) 10 = 10" by (simp add: num_base_def stol_base_def)
  have "num_body (CHR ''-'' # ds) 10 = ds" by (simp add: num_body_def b t stol_start_def)
  then have "num_digits (CHR ''-'' # ds) 10 = ds"
    unfolding num_digits_def b by (simp only: numeral_digits [OF assms])
  then show "num_value (CHR ''-'' # ds) 10 = - int n" "num_end (CHR ''-'' # ds) 10 = []"
    using assms by (auto simp: num_value_def b t num_end_def num_body_def stol_start_def numeral_of_def)
qed

lemma utoa_read_back:
  fixes v :: "'a::len word"
  assumes "2 \<le> r" "r \<le> 36" "12 \<le> LENGTH('a)" "uint v < r ^ 33"
  shows "\<exists>s. utoa_w v r = Some s \<and> stol_w s r False = (v, [])"
proof -
  obtain s where s: "utoa_w v r = Some s" "numeral_of r (unat v) s"
  proof -
    have "6 \<le> LENGTH('a)" using assms(3) by simp
    from utoa_w_spec [OF assms(1,2) this, of v] assms(4)
    have "\<exists>ds. utoa_w v r = Some ds \<and> numeral_of r (unat v) ds" by (simp only: if_True)
    then show thesis using that by blast
  qed
  have "base_valid r" using assms by (simp add: base_valid_def)
  note ex = stol_w_exact(1,3) [OF base_valid_ok [OF this assms(3)]]
  have "uint (fst (stol_w s r False :: 'a word \<times> string)) = uint v"
    using ex(1) [of s] numeral_value(1) [OF s(2) assms(1,2)] uint_lt2p [of v]
    by (simp add: saturate_def)
  then have "stol_w s r False = (v, [])"
    using ex(2) [of s False] numeral_value(2) [OF s(2) assms(1,2)]
    by (intro prod_eqI) (auto simp: word_uint_eq_iff)
  then show ?thesis using s(1) by blast
qed


lemma itoa_neg:
  fixes v :: "'a::len word"
  assumes "sint v < 0"
  shows "2 ^ (LENGTH('a) - 1) \<le> uint v" "sint v = - uint (- v)" "v \<noteq> 0"
proof -
  note s = signed_value [of v]
  show u: "2 ^ (LENGTH('a) - 1) \<le> uint v"
  proof (rule ccontr)
    assume "\<not> ?thesis"
    then have "sint v = uint v" by (simp only: s not_le if_True)
    then show False using assms uint_nonnegative [of v] by linarith
  qed
  show "v \<noteq> 0" using assms by auto
  then show "sint v = - uint (- v)" using s u by (simp add: uint_negative)
qed

lemma small_base: "(2::int) ^ LENGTH('a::len) \<le> 10 ^ 33" if "LENGTH('a) \<le> 64"
proof -
  have "(2::int) ^ LENGTH('a) \<le> 2 ^ 64" using that by (intro power_increasing) auto
  then show ?thesis by simp
qed

lemma radix_decimal: "radix_value c < 10 \<Longrightarrow> 48 \<le> code c \<and> code c \<le> 57 \<and> radix_value c = code c - 48"
  by (auto simp: radix_value_def Let_def split: if_splits)

lemma atoi_loop_digits:
  assumes "\<forall>c \<in> set s. radix_value c < 10"
  shows "atoi_loop (word_of_int n :: 'a::len word) s = word_of_int (foldl (num_step 10) n s)"
  using assms
proof (induction s arbitrary: n)
  case (Cons c s)
  then have "radix_value c < 10" by simp
  then have c: "48 \<le> code c" "code c \<le> 57" "radix_value c = code c - 48" using radix_decimal by auto
  have "(word_of_int n :: 'a word) * 10 + word_of_int (code c) - 48 = word_of_int (num_step 10 n c)"
    by (simp add: num_step_def c(3))
  then show ?case using Cons c by simp
qed simp

lemma numeral_atoi:
  assumes "numeral_of 10 n ds"
  shows "atoi_w (Some ds) = (word_of_nat n :: 'a::len word)"
    and "atoi_w (Some (CHR ''-'' # ds)) = (- word_of_nat n :: 'a::len word)"
proof -
  note p = numeral_plain [OF assms, simplified]
  have "atoi_loop 0 ds = (word_of_nat n :: 'a word)"
    using atoi_loop_digits [of ds 0, where 'a = 'a] assms by (simp add: numeral_of_def num_of_def)
  then show "atoi_w (Some ds) = (word_of_nat n :: 'a word)"
    and "atoi_w (Some (CHR ''-'' # ds)) = (- word_of_nat n :: 'a word)"
    using p by (auto simp: atoi_w_def Let_def num_neg_def blank_def peek_def is_sign_def)
qed

lemma sint_eqD: "sint a = sint b \<Longrightarrow> a = b"
  by (metis scast_eq scast_id)

lemma itoa_read_back:
  fixes v :: "'a::len word"
  assumes "12 \<le> LENGTH('a)" "LENGTH('a) \<le> 64"
  shows "\<exists>s. itoa_w v 10 = Some s \<and> stol_w s 10 True = (v, []) \<and> atoi_w (Some s) = v"
proof -
  let ?w = "if sint v < 0 then - v else v"
  have "uint ?w < 10 ^ 33" using uint_lt2p [of ?w] small_base [OF assms(2)] by (rule order_less_le_trans)
  then obtain ds where ds: "utoa_w ?w 10 = Some ds" "numeral_of 10 (unat ?w) ds"
    using utoa_w_spec [of 10 ?w] assms(1) by (simp split del: if_split only: if_True) auto
  define s where "s = (if sint v < 0 then CHR ''-'' # ds else ds)"
  have pr: "itoa_w v 10 = Some s" using ds(1) by (auto simp: itoa_w_def s_def)
  have val: "num_value s 10 = sint v" "num_end s 10 = []"
    using signed_numeral_value [of "unat ?w" ds] numeral_value [of 10 "unat ?w" ds] ds(2)
      itoa_neg(2) [of v] signed_value [of v]
    by (auto simp: s_def split: if_splits)
  have "base_valid 10" by (simp add: base_valid_def)
  note ex = stol_w_exact(2,3) [OF base_valid_ok [OF this assms(1)]]
  have "sint (fst (stol_w s 10 True :: 'a word \<times> string)) = sint v"
    using ex(1) [of s] val(1) sint_ge [of v] sint_lt [of v] by (simp add: clamp_def)
  then have "stol_w s 10 True = (v, [])"
    using ex(2) [of s True] val(2) by (intro prod_eqI) (auto intro: sint_eqD)
  moreover have "atoi_w (Some s) = v"
    using numeral_atoi [of "unat ?w" ds, where 'a = 'a] ds(2) by (auto simp: s_def split: if_splits)
  ultimately show ?thesis using pr by blast
qed


lemma utoa_overrun:
  fixes v :: "'a::len word"
  assumes "2 \<le> r" "r \<le> 36" "6 \<le> LENGTH('a)" "\<not> uint v < r ^ 33"
  shows "utoa_w v r = None"
  using utoa_w_spec [OF assms(1-3), of v] assms(4) by (simp only: if_False)

lemma fits_32:
  fixes v :: u32
  assumes "2 \<le> r"
  shows "uint v < r ^ 33"
proof -
  have "uint v < 2 ^ 33" using uint_lt2p [of v] by simp
  also have "\<dots> \<le> r ^ 33" using assms by (intro power_mono) auto
  finally show ?thesis .
qed

text \<open>C32: a number printed by \<open>_utoa\<close> at any base from 2 to 36 is read back by \<open>strtoul\<close> at that
  base, to the last character; one printed by \<open>_itoa\<close> at base 10 by \<open>strtol\<close> and by \<open>atoi\<close>. The 64-bit
  routines do the same, but \<open>_utoa64\<close> overruns its local buffer exactly when the number has more
  than 33 digits, which happens at bases 2 and 3.\<close>

theorem print_read_back:
  assumes "2 \<le> r" "r \<le> 36"
  shows "(\<exists>s. utoa v r = Some s \<and> strtoul s r = (v, [])) \<and>
    (\<exists>s. itoa v 10 = Some s \<and> strtol s 10 = (v, []) \<and> atoi (Some s) = v) \<and>
    (if uint w < r ^ 33 then \<exists>s. utoa64 w r = Some s \<and> strtoull s r = (w, []) else utoa64 w r = None) \<and>
    (\<exists>s. itoa64 w 10 = Some s \<and> strtoll s 10 = (w, []) \<and> atoi64 (Some s) = w)"
proof -
  have lens: "12 \<le> LENGTH(32)" "12 \<le> LENGTH(64)" "LENGTH(32) \<le> 64" "LENGTH(64) \<le> 64" "6 \<le> LENGTH(64)" by simp_all
  note defs = utoa_def itoa_def atoi_def strtoul_def strtol_def stol_def
    utoa64_def itoa64_def atoi64_def strtoull_def strtoll_def stol64_def
  have w: "if uint w < r ^ 33 then \<exists>s. utoa_w w r = Some s \<and> stol_w s r False = (w, []) else utoa_w w r = None"
    using utoa_read_back [OF assms lens(2)] utoa_overrun [OF assms lens(5)] by presburger
  show ?thesis
    unfolding defs
    by (intro conjI utoa_read_back [OF assms lens(1) fits_32 [OF assms(1)]]
      itoa_read_back [OF lens(1,3)] itoa_read_back [OF lens(2,4)] w)
qed

theorem print_read_back_witness:
  "strtoul (the (utoa 4294967295 36)) 36 = (4294967295, []) \<and> utoa64 8589934592 2 = None"
  using print_read_back [of 36 4294967295 0] print_read_back [of 2 0 8589934592] by auto

end
