(* ===== verification/EnvSpec.thy ===== *)
theory EnvSpec
  imports EnvBlock CNumSpec
begin

text \<open>
  The promise of the environment: every operation stays inside its block and does to the lines what
  \<open>set_lines\<close> does; a variable that was set is read back, and no other variable changes.
\<close>

section \<open>setenv on lines\<close>

definition put_line :: "string \<Rightarrow> string option \<Rightarrow> nat option \<Rightarrow> string list \<Rightarrow> string list" where
  "put_line name v pos ls =
    (case pos of
       None \<Rightarrow> (case v of None \<Rightarrow> ls | Some x \<Rightarrow> ls @ [name @ ''='' @ x])
     | Some i \<Rightarrow>
        (case v of None \<Rightarrow> take i ls @ drop (Suc i) ls
         | Some x \<Rightarrow> if length (name @ ''='' @ x) = length (ls ! i) then ls[i := name @ ''='' @ x]
                   else take i ls @ drop (Suc i) ls @ [name @ ''='' @ x]))"

definition set_lines :: "codepage \<Rightarrow> string \<Rightarrow> string option \<Rightarrow> string list \<Rightarrow> string list" where
  "set_lines cp name v ls = put_line name v (find_line cp name ls) ls"

definition heap_ok :: "heap \<Rightarrow> bool" where
  "heap_ok heap \<longleftrightarrow> (\<forall>n. \<exists>b. heap n = Some b \<and> n \<le> length b)"

lemma env_copy_block:
  assumes "env_block blk ls" "heap_ok heap" "0 < n"
  shows "\<exists>rc. env_copy heap blk n = Some rc \<and> env_block rc ls \<and> length (flat ls) + 1 + n \<le> length rc"
proof -
  obtain t where t: "blk = flat ls @ NUL # t" "lines_ok ls" using assms(1) by (auto simp: env_block_def)
  obtain b where b: "heap (length (flat ls) + 1 + n) = Some b" "length (flat ls) + 1 + n \<le> length b"
    using assms(2) by (auto simp: heap_ok_def)
  show ?thesis
    using b assms t(2) envlen_block [OF assms(1)]
    by (auto simp: env_copy_def Let_def put_def t(1) env_block_def)
qed

lemma grow_block:
  assumes "env_block (envptr pq) ls" "heap_ok heap" "0 < n"
  shows "\<exists>pq2. grow heap pq (length (flat ls) + 1) n = Some pq2 \<and> env_block (envptr pq2) ls \<and>
    length (flat ls) + 1 + n \<le> length (envptr pq2) \<and> errno pq2 = errno pq \<and> pid pq2 = pid pq"
  using env_copy_block [OF assms] assms(1) by (auto simp: grow_def not_less)

lemma append_line:
  assumes "env_block (envptr pq) ls" "heap_ok heap" "diff \<noteq> 0"
    and "0 < diff \<or> length (flat ls) + 1 + (length name + length v + 2) \<le> length (envptr pq)"
    and "NUL \<notin> set name" "NUL \<notin> set v"
  shows "\<exists>pq1. place_line heap name v lp (length (flat ls) + 1) (length name + length v + 2) diff pq = Some pq1 \<and>
    env_block (envptr pq1) (ls @ [name @ ''='' @ v]) \<and> errno pq1 = errno pq \<and> pid pq1 = pid pq"
proof -
  define nlen where "nlen = length name + length v + 2"
  have n0: "0 < nlen" by (simp add: nlen_def)
  obtain pq2 where pq2: "(if diff > 0 then grow heap pq (length (flat ls) + 1) nlen else Some pq) = Some pq2"
    "env_block (envptr pq2) ls" "length (flat ls) + 1 + nlen \<le> length (envptr pq2)"
    "errno pq2 = errno pq" "pid pq2 = pid pq"
    using grow_block [OF assms(1,2) n0] assms(1,4) unfolding nlen_def [symmetric] by (cases "0 < diff") auto
  show ?thesis
    using write_at_end [OF pq2(2,3) nlen_def assms(5,6)] pq2(1,4,5) assms(3)
    unfolding place_line_def nlen_def [symmetric] Let_def by auto
qed

lemma overwrite_line:
  assumes "env_block (envptr pq) (pre @ l # post)" "length l = length name + length v + 1"
    and "NUL \<notin> set name" "NUL \<notin> set v"
  shows "\<exists>pq1. place_line heap name v (length (flat pre)) len nlen 0 pq = Some pq1 \<and>
    env_block (envptr pq1) (pre @ (name @ ''='' @ v) # post) \<and> errno pq1 = errno pq \<and> pid pq1 = pid pq"
  using write_in_place [OF assms] by (auto simp: place_line_def)

lemma change_line_block:
  assumes env: "env_block (envptr pq) ls" and heap: "heap_ok heap"
    and pos: "find_line cp name ls = pos" and some: "pos \<noteq> None \<or> v \<noteq> None"
    and chars: "NUL \<notin> set name" "\<And>x. v = Some x \<Longrightarrow> NUL \<notin> set x"
  shows "\<exists>pq1. change_line heap name v (map_option (line_start ls) pos) pq = Some pq1 \<and>
    env_block (envptr pq1) (put_line name v pos ls) \<and> errno pq1 = errno pq \<and> pid pq1 = pid pq"
proof (cases pos)
  case None
  then obtain x where x: "v = Some x" using some by auto
  show ?thesis
    using append_line [OF env heap _ _ chars(1) chars(2) [OF x], of "int (length name + length x + 2)"]
    by (simp add: change_line_def None x put_line_def envlen_block [OF env])
next
  case (Some i)
  from pos Some have "find_line cp name ls = Some i" by simp
  then obtain pre l post where s: "ls = pre @ l # post" "i = length pre"
    by (rule find_line_split)
  have ix: "take (length pre) ls = pre" "drop (Suc (length pre)) ls = post" "ls ! length pre = l"
    "\<And>y. ls[length pre := y] = pre @ y # post" "length ls = length pre + Suc (length post)"
    by (simp_all add: s(1))
  obtain t where t: "envptr pq = flat ls @ NUL # t" "lines_ok ls" using env by (auto simp: env_block_def)
  have Some': "pos = Some (length pre)" using Some s(2) by simp
  have start: "line_start ls (length pre) = length (flat pre)" by (simp add: line_start_def s)
  have cl: "cstr (envptr pq) (length (flat pre)) = l"
    using cstr_at [of l "flat pre"] t(2) by (simp add: t(1) s(1))
  obtain blk1 where del: "delete_line (envptr pq) (length (flat ls) + 1) (length (flat pre)) (length l + 1) = Some blk1"
    "env_block blk1 (pre @ post)" "length blk1 = length (envptr pq)"
    using delete_line_block [OF t(2) [unfolded s(1)] t(1) [unfolded s(1)]] unfolding s(1) by blast
  note ops = change_line_def Some' start cl envlen_block [OF env] envlen_block [OF del(2)] put_line_def
  show ?thesis
  proof (cases v)
    case None
    then show ?thesis using del by (simp add: ops ix)
  next
    case v: (Some x)
    define diff where "diff = int (length name + length x + 2) - int (length l + 1)"
    show ?thesis
    proof (cases "diff = 0")
      case True
      then have len: "length l = length name + length x + 1" by (simp add: diff_def)
      show ?thesis
        using overwrite_line [OF env [unfolded s(1)] len chars(1) chars(2) [OF v], of heap] len
        by (simp add: ops v ix)
    next
      case False
      then have len: "length name + length x + 1 \<noteq> length l" by (simp add: diff_def)
      have room: "0 < diff \<or> length (flat (pre @ post)) + 1 + (length name + length x + 2)
          \<le> length (envptr (pq\<lparr>envptr := blk1\<rparr>))"
        using del(3) by (auto simp: diff_def t(1) s(1))
      have blk: "env_block (envptr (pq\<lparr>envptr := blk1\<rparr>)) (pre @ post)" using del(2) by simp
      have "change_line heap name v (map_option (line_start ls) pos) pq =
        place_line heap name x (length (flat pre)) (length (flat (pre @ post)) + 1) (length name + length x + 2) diff
          (pq\<lparr>envptr := blk1\<rparr>)"
        using del(1) False unfolding ops v Let_def option.case option.map option.sel cl start
        by (simp add: diff_def envlen_block [OF del(2)])
      then show ?thesis
        using append_line [OF blk heap False room chars(1) chars(2) [OF v], of "length (flat pre)"] len
        by (simp add: put_line_def Some' v ix)
    qed
  qed
qed


section \<open>The variables as a map\<close>

definition line_value :: "string \<Rightarrow> string" where
  "line_value l = dropWhile sp (drop 1 (dropWhile (\<lambda>c. c \<noteq> CHR ''='') l))"

definition ukey :: "codepage \<Rightarrow> string \<Rightarrow> string option" where
  "ukey cp l = (case line_key l of None \<Rightarrow> None
     | Some k \<Rightarrow> if k = [] then None else Some (map (nic_upper cp) k))"

definition nkey :: "codepage \<Rightarrow> string \<Rightarrow> string" where
  "nkey cp name = map (nic_upper cp) (search_key name)"

definition env_map :: "codepage \<Rightarrow> string list \<Rightarrow> string \<rightharpoonup> string" where
  "env_map cp ls = map_of (List.map_filter (\<lambda>l. map_option (\<lambda>k. (k, line_value l)) (ukey cp l)) ls)"

definition env_keys :: "codepage \<Rightarrow> string list \<Rightarrow> string list" where
  "env_keys cp ls = List.map_filter (ukey cp) ls"

lemma env_map_simps [simp]:
  "env_map cp [] = Map.empty"
  "env_map cp (l # ls) = (case ukey cp l of None \<Rightarrow> env_map cp ls | Some k \<Rightarrow> (env_map cp ls)(k \<mapsto> line_value l))"
  by (auto simp: env_map_def map_filter_simps split: option.split)

lemma env_keys_simps [simp]:
  "env_keys cp [] = []"
  "env_keys cp (l # ls) = (case ukey cp l of None \<Rightarrow> env_keys cp ls | Some k \<Rightarrow> k # env_keys cp ls)"
  "env_keys cp (ls @ ms) = env_keys cp ls @ env_keys cp ms"
  by (auto simp: env_keys_def List.map_filter_def split: option.split)

lemma env_map_append: "env_map cp (ls @ ms) = env_map cp ms ++ env_map cp ls"
  by (induction ls) (auto simp: fun_eq_iff map_add_def split: option.split)

lemma env_map_None: "env_map cp ls k = None \<longleftrightarrow> k \<notin> set (env_keys cp ls)"
  by (induction ls) (auto split: option.split)

lemma ukey_set: "l \<in> set ls \<Longrightarrow> ukey cp l = Some k \<Longrightarrow> k \<in> set (env_keys cp ls)"
  by (induction ls) (auto split: option.split)

lemma trimright_prefix: "\<exists>r. s = trimright s cs @ r"
proof -
  have "s = rev (dropWhile (\<lambda>c. c \<in> set cs) (rev s)) @ rev (takeWhile (\<lambda>c. c \<in> set cs) (rev s))"
    by (metis rev_append rev_rev_ident takeWhile_dropWhile_id)
  then show ?thesis unfolding trimright_eq by blast
qed

lemma dropWhile_take:
  "dropWhile P (take n s) = take (n - length (takeWhile P s)) (dropWhile P s)" if "n \<le> length s"
  using that
proof (induction s arbitrary: n)
  case (Cons c s)
  then show ?case by (cases n) auto
qed simp

lemma line_key_prefix:
  assumes "line_key l = Some k"
  shows "take (length k) (dropWhile sp l) = k"
proof -
  obtain r where r: "strchr l CHR ''='' = Some r" "k = trimright (dropWhile sp (take (length l - length r) l)) '' ''"
    using assms by (auto simp: line_key_def split: option.splits)
  obtain q where "dropWhile sp (take (length l - length r) l) = k @ q"
    using trimright_prefix r(2) by metis
  then have "take (length l - length r - length (takeWhile sp l)) (dropWhile sp l) = k @ q"
    using dropWhile_take [of "length l - length r" l sp] by simp
  then show ?thesis
    by (metis append_eq_conv_conj append_take_drop_id append.assoc)
qed

lemma line_matches_iff:
  assumes "key \<noteq> []" "length key < 2 ^ 32"
  shows "line_matches cp key l \<longleftrightarrow> ukey cp l = Some (map (nic_upper cp) key)"
proof (cases "line_key l")
  case (Some k)
  have pre: "take (length k) (dropWhile sp l) = k" by (rule line_key_prefix [OF Some])
  then have len: "length k \<le> length (dropWhile sp l)" by (metis length_take min.cobounded1 min.commute)
  show ?thesis
  proof (cases "length k = length key")
    case True
    then have "strnicmp cp (dropWhile sp l) key (of_nat (length key)) = Some 0 \<longleftrightarrow>
      map (nic_upper cp) k = map (nic_upper cp) key"
      using strnicmp_prefix [of "length key" "dropWhile sp l" key cp] assms len pre by simp
    moreover have "k \<noteq> []" using True assms(1) by auto
    ultimately show ?thesis using True Some by (simp add: line_matches_def ukey_def)
  next
    case False
    then have "map (nic_upper cp) k \<noteq> map (nic_upper cp) key" by (metis length_map)
    then show ?thesis using False Some by (simp add: line_matches_def ukey_def)
  qed
qed (simp add: line_matches_def ukey_def)

lemma search_key_short: "length (search_key name) < 2 ^ 32"
proof -
  obtain r where "take 383 (dropWhile sp name) = search_key name @ r"
    unfolding search_key_def using trimright_prefix by metis
  then have "length (search_key name) \<le> 383" by (metis length_append length_take le_add1 min.bounded_iff order_refl)
  then show ?thesis by simp
qed

lemma find_line_map:
  "map_option (\<lambda>i. line_value (ls ! i)) (find_line cp name ls) = env_map cp ls (nkey cp name)"
proof (cases "search_key name = []")
  case True
  have "[] \<notin> set (env_keys cp ls)"
    by (induction ls) (auto simp: ukey_def split: option.splits if_splits)
  then show ?thesis using True env_map_None [of cp ls "[]"] by (simp add: find_line_def nkey_def)
next
  case False
  note iff = line_matches_iff [OF False search_key_short]
  show ?thesis
    using False unfolding find_line_def nkey_def
    by (induction ls) (auto simp: iff option.map_comp comp_def split: option.splits)
qed


section \<open>The variables under setenv\<close>

definition clean_name :: "string \<Rightarrow> bool" where
  "clean_name name \<longleftrightarrow> CHR ''='' \<notin> set name \<and> NUL \<notin> set name \<and> search_key name \<noteq> [] \<and>
    search_key name = trimright (dropWhile sp name) '' ''"

lemma new_line:
  assumes "clean_name name"
  shows "ukey cp (name @ ''='' @ x) = Some (nkey cp name)" "line_value (name @ ''='' @ x) = dropWhile sp x"
proof -
  have ne: "search_key name \<noteq> []" using assms unfolding clean_name_def by blast
  have d: "dropWhile (\<lambda>c. c \<noteq> CHR ''='') (name @ ''='' @ x) = ''='' @ x"
    using assms by (subst dropWhile_append2) (auto simp: clean_name_def)
  then show "line_value (name @ ''='' @ x) = dropWhile sp x" by (simp add: line_value_def)
  have "line_key (name @ ''='' @ x) = Some (search_key name)"
    using d assms by (simp add: line_key_def strchr_def clean_name_def)
  then show "ukey cp (name @ ''='' @ x) = Some (nkey cp name)"
    using ne by (simp add: ukey_def nkey_def)
qed

lemma set_lines_map:
  assumes "distinct (env_keys cp ls)" "clean_name name"
  shows "env_map cp (set_lines cp name v ls) = (env_map cp ls)(nkey cp name := map_option (dropWhile sp) v)"
    and "distinct (env_keys cp (set_lines cp name v ls))"
proof -
  let ?K = "nkey cp name"
  have ne: "search_key name \<noteq> []" using assms(2) unfolding clean_name_def by blast
  have iff: "line_matches cp (search_key name) l \<longleftrightarrow> ukey cp l = Some ?K" for l
    using line_matches_iff [OF ne search_key_short] by (simp add: nkey_def)
  note nl = new_line [OF assms(2)]
  have "env_map cp (set_lines cp name v ls) = (env_map cp ls)(?K := map_option (dropWhile sp) v)
      \<and> distinct (env_keys cp (set_lines cp name v ls))"
  proof (cases "find_line cp name ls")
    case None
    then have no: "env_map cp ls ?K = None" using find_line_map [of ls cp name] by simp
    then have "?K \<notin> set (env_keys cp ls)" by (simp add: env_map_None)
    then show ?thesis using None no assms(1) nl
      by (cases v) (auto simp: set_lines_def put_line_def env_map_append fun_eq_iff map_add_def split: option.split)
  next
    case (Some i)
    then obtain pre l post where s: "ls = pre @ l # post" "i = length pre" "line_matches cp (search_key name) l"
      by (rule find_line_split)
    have k: "ukey cp l = Some ?K" using s(3) iff by simp
    have nk: "?K \<notin> set (env_keys cp pre)" "?K \<notin> set (env_keys cp post)"
      using assms(1) k by (auto simp: s(1))
    then have out: "env_map cp pre ?K = None" "env_map cp post ?K = None" by (simp_all add: env_map_None)
    show ?thesis using Some assms(1) nl k nk out s(2)
      by (cases v)
        (auto simp: set_lines_def put_line_def s(1) env_map_append fun_eq_iff map_add_def split: option.split)
  qed
  then show "env_map cp (set_lines cp name v ls) = (env_map cp ls)(?K := map_option (dropWhile sp) v)"
    and "distinct (env_keys cp (set_lines cp name v ls))" by blast+
qed

definition env_inv :: "codepage \<Rightarrow> process_env \<Rightarrow> bool" where
  "env_inv cp pq \<longleftrightarrow> env_block (envptr pq) (str_getenv pq) \<and> distinct (env_keys cp (str_getenv pq))"

definition vars :: "codepage \<Rightarrow> process_env \<Rightarrow> string \<rightharpoonup> string" where
  "vars cp pq = env_map cp (str_getenv pq)"

lemma env_invI: "env_block (envptr pq) ls \<Longrightarrow> distinct (env_keys cp ls) \<Longrightarrow> env_inv cp pq"
  by (simp add: env_inv_def str_getenv_block)

lemma getenv_vars:
  assumes "env_inv cp pq"
  shows "getenv cp (Some name) pq = vars cp pq (nkey cp name)"
proof -
  define ls where "ls = str_getenv pq"
  have blk: "env_block (envptr pq) ls" using assms by (simp add: env_inv_def ls_def)
  then obtain t where t: "envptr pq = flat ls @ NUL # t" "lines_ok ls" by (auto simp: env_block_def)
  show ?thesis
  proof (cases "find_line cp name ls")
    case None
    then show ?thesis using find_line_map [of ls cp name] linepos_block [OF blk, of cp name]
      by (simp add: getenv_def vars_def ls_def)
  next
    case (Some i)
    then obtain pre l post where s: "ls = pre @ l # post" "i = length pre" "line_matches cp (search_key name) l"
      by (rule find_line_split)
    have "strchr l CHR ''='' \<noteq> None"
      using s(3) by (auto simp: line_matches_def line_key_def split: option.splits)
    then have eq: "strchr l CHR ''='' = Some (dropWhile (\<lambda>c. c \<noteq> CHR ''='') l)"
      by (auto simp: strchr_def Let_def split: if_splits)
    have "cstr (envptr pq) (line_start ls i) = l"
      using cstr_at [of l "flat pre"] t(2) by (simp add: t(1) s(1,2) line_start_def)
    then have "getenv cp (Some name) pq = Some (line_value l)"
      using linepos_block [OF blk, of cp name] Some by (simp add: getenv_def eq line_value_def)
    moreover have "vars cp pq (nkey cp name) = Some (line_value l)"
      using find_line_map [of ls cp name] Some by (simp add: vars_def ls_def [symmetric] s(1,2))
    ultimately show ?thesis by simp
  qed
qed

lemma clean_not_bad: "clean_name name \<Longrightarrow> \<not> bad_name (Some name)"
  by (auto simp: bad_name_def clean_name_def strchr_None search_key_def trimright_eq)

lemma setenv_change:
  assumes "env_inv cp pq" "heap_ok heap" "clean_name name" "\<And>x. v = Some x \<Longrightarrow> NUL \<notin> set x"
    and "vars cp pq (nkey cp name) \<noteq> None \<or> v \<noteq> None"
    and "\<not> (v \<noteq> None \<and> overwrite = 0 \<and> vars cp pq (nkey cp name) \<noteq> None)"
  shows "\<exists>pq1. setenv cp heap (Some name) v overwrite pq = Some (0, pq1) \<and> env_inv cp pq1 \<and>
    vars cp pq1 = (vars cp pq)(nkey cp name := map_option (dropWhile sp) v)"
proof -
  define ls where "ls = str_getenv pq"
  have blk: "env_block (envptr pq) ls" and dis: "distinct (env_keys cp ls)"
    using assms(1) by (auto simp: env_inv_def ls_def)
  have vs: "vars cp pq = env_map cp ls" by (simp add: vars_def ls_def)
  have has: "vars cp pq (nkey cp name) = None \<longleftrightarrow> find_line cp name ls = None"
    by (auto simp: vs simp flip: find_line_map)
  have some: "find_line cp name ls \<noteq> None \<or> v \<noteq> None" using assms(5) has by simp
  have nul: "NUL \<notin> set name" using assms(3) by (simp add: clean_name_def)
  obtain pq1 where r: "change_line heap name v (map_option (line_start ls) (find_line cp name ls)) pq = Some pq1"
    "env_block (envptr pq1) (set_lines cp name v ls)"
    using change_line_block [OF blk assms(2) refl some nul assms(4)] unfolding set_lines_def by blast
  note m = set_lines_map [OF dis assms(3), of v]
  have "setenv cp heap (Some name) v overwrite pq = Some (0, pq1)"
    using assms(6) some has clean_not_bad [OF assms(3)] r(1) by (auto simp: setenv_def linepos_block [OF blk])
  moreover have "env_inv cp pq1" by (rule env_invI [OF r(2) m(2)])
  moreover have "vars cp pq1 = (vars cp pq)(nkey cp name := map_option (dropWhile sp) v)"
    using m(1) by (simp add: vars_def str_getenv_block [OF r(2)] flip: ls_def)
  ultimately show ?thesis by blast
qed

text \<open>C33: setenv does to the block what an update does to a map of variables. For a name without
  equal sign, not blank and not ended by a tab, and whatever the block's size, it writes only inside the
  block or a copy of it, keeps the block well-formed and the names unique, sets or removes exactly
  this variable, refuses to replace one when told so, and getenv reads the map before and after,
  whatever the spelling of the name.\<close>

theorem setenv_refines_map:
  assumes "env_inv cp pq" "heap_ok heap" "clean_name name" "\<And>x. v = Some x \<Longrightarrow> NUL \<notin> set x"
  shows "\<exists>rc pq1. setenv cp heap (Some name) v overwrite pq = Some (rc, pq1) \<and> env_inv cp pq1 \<and>
    (if v \<noteq> None \<and> overwrite = 0 \<and> vars cp pq (nkey cp name) \<noteq> None
     then rc = 1 \<and> errno pq1 = EACCES \<and> vars cp pq1 = vars cp pq
     else rc = 0 \<and> vars cp pq1 = (vars cp pq)(nkey cp name := map_option (dropWhile sp) v)) \<and>
    (\<forall>n. getenv cp (Some n) pq = vars cp pq (nkey cp n) \<and> getenv cp (Some n) pq1 = vars cp pq1 (nkey cp n))"
proof -
  have lp: "linepos cp (envptr pq) (Some name) = None \<longleftrightarrow> vars cp pq (nkey cp name) = None"
    using assms(1) linepos_block [of "envptr pq" "str_getenv pq" cp name]
    by (auto simp: env_inv_def vars_def simp flip: find_line_map)
  note nb = clean_not_bad [OF assms(3)] and get = getenv_vars [OF assms(1)]
  consider (refuse) "v \<noteq> None" "overwrite = 0" "vars cp pq (nkey cp name) \<noteq> None"
    | (change) "vars cp pq (nkey cp name) \<noteq> None \<or> v \<noteq> None"
      "\<not> (v \<noteq> None \<and> overwrite = 0 \<and> vars cp pq (nkey cp name) \<noteq> None)"
    | (absent) "v = None" "vars cp pq (nkey cp name) = None" by blast
  then show ?thesis
  proof cases
    case refuse
    let ?pq1 = "pq\<lparr>errno := EACCES\<rparr>"
    have "str_getenv ?pq1 = str_getenv pq" by (simp add: str_getenv_def)
    then have i: "env_inv cp ?pq1" "vars cp ?pq1 = vars cp pq" using assms(1) by (simp_all add: env_inv_def vars_def)
    then show ?thesis using refuse nb lp get getenv_vars [OF i(1)] by (auto simp: setenv_def)
  next
    case change
    obtain pq1 where r: "setenv cp heap (Some name) v overwrite pq = Some (0, pq1)" "env_inv cp pq1"
      "vars cp pq1 = (vars cp pq)(nkey cp name := map_option (dropWhile sp) v)"
      using setenv_change [OF assms change] by blast
    then show ?thesis using change(2) get getenv_vars [OF r(2)]
      by (intro exI [of _ 0] exI [of _ pq1]) (simp only: if_not_P simp_thms)
  next
    case absent
    then have "setenv cp heap (Some name) v overwrite pq = Some (0, pq)" using nb lp by (simp add: setenv_def)
    moreover have "(vars cp pq)(nkey cp name := None) = vars cp pq"
      using absent(2) by (rule fun_upd_idem)
    ultimately show ?thesis using assms(1) absent get by simp
  qed
qed

section \<open>Example data\<close>

definition demo_env :: process_env where
  "demo_env = \<lparr>envptr = ''PATH=A'' @ [NUL] @ ''LIB=B'' @ [NUL, NUL, NUL], pid = 1, envchanged = False, errno = 0\<rparr>"

definition demo_heap :: heap where
  "demo_heap n = Some (replicate n CHR ''#'')"

lemma demo_env_lines: "str_getenv demo_env = [''PATH=A'', ''LIB=B'']"
  by code_simp

lemma demo_env_inv: "env_inv None demo_env"
proof -
  have "envptr demo_env = flat [''PATH=A'', ''LIB=B''] @ NUL # [NUL]" by (simp add: demo_env_def)
  then have "env_block (envptr demo_env) [''PATH=A'', ''LIB=B'']" by (auto simp: env_block_def)
  moreover have "distinct (env_keys None [''PATH=A'', ''LIB=B''])" by code_simp
  ultimately show ?thesis by (rule env_invI)
qed

lemma demo_heap_ok: "heap_ok demo_heap"
  by (simp add: heap_ok_def demo_heap_def)

lemma demo_name: "clean_name ''lib''"
  by code_simp

theorem setenv_refines_map_witness:
  "\<exists>pq1. setenv None demo_heap (Some ''lib'') (Some ''C:/OS2'') 1 demo_env = Some (0, pq1) \<and>
    getenv None (Some '' Lib '') pq1 = Some ''C:/OS2'' \<and> getenv None (Some ''PATH'') pq1 = Some ''A''"
proof -
  have k: "nkey None '' Lib '' = nkey None ''lib''" "nkey None ''PATH'' \<noteq> nkey None ''lib''" by code_simp+
  have a: "vars None demo_env (nkey None ''PATH'') = Some ''A''"
    unfolding vars_def demo_env_lines by code_simp
  show ?thesis
    using setenv_refines_map [OF demo_env_inv demo_heap_ok demo_name, of "Some ''C:/OS2''" 1] k a
    by auto
qed


section \<open>Numbers in variables\<close>

lemma utoa_loop_more: "utoa_loop room r v acc = Some s \<Longrightarrow> utoa_loop (room + j) r v acc = Some s"
  by (induction room r v acc rule: utoa_loop.induct) (auto simp: Let_def split: if_splits)

lemma utoa_loop_length: "utoa_loop room r v acc = Some s \<Longrightarrow> length s \<le> room + length acc"
  by (induction room r v acc rule: utoa_loop.induct) (fastforce simp: Let_def split: if_splits)+

lemma utoa_decimal:
  fixes v :: u32
  shows "\<exists>ds. utoa_w v 10 = Some ds \<and> numeral_of 10 (unat v) ds \<and> length ds \<le> 10"
proof -
  have "uint v < 2 ^ 32" using uint_lt2p [of v] by simp
  then have lt: "uint v < 10 ^ 10" by simp
  have "6 \<le> LENGTH(32)" "(2::int) \<le> 10" "(10::int) \<le> 36" "0 < (10::nat)" by simp_all
  from utoa_loop_spec_int [OF this(2,3,1,4), of v] lt
  obtain ds where ds: "utoa_loop 10 (word_of_int 10) v [] = Some ds" "numeral_of 10 (unat v) ds"
    by (simp only: if_True) blast
  have "utoa_w v 10 = Some ds"
    using utoa_loop_more [OF ds(1), of 23] by (simp add: utoa_w_def)
  then show ?thesis using ds(2) utoa_loop_length [OF ds(1)] by auto
qed

lemma numeral_chars:
  assumes "numeral_of 10 n ds" "c \<in> set ds"
  shows "48 \<le> code c \<and> code c \<le> 57"
  using assms radix_decimal [of c] by (auto simp: numeral_of_def)

lemma itoa_text:
  "\<exists>s. itoa v 10 = Some s \<and> length s + 1 \<le> 12 \<and> s \<noteq> [] \<and> (\<forall>c \<in> set s. 45 \<le> code c \<and> code c \<le> 57)"
proof -
  let ?w = "if sint v < 0 then - v else v"
  obtain ds where ds: "utoa_w ?w 10 = Some ds" "numeral_of 10 (unat ?w) ds" "length ds \<le> 10"
    using utoa_decimal [of ?w] by blast
  have "\<forall>c \<in> set ds. 48 \<le> code c \<and> code c \<le> 57" using numeral_chars [OF ds(2)] by blast
  moreover have "ds \<noteq> []" using ds(2) by (simp add: numeral_of_def)
  moreover have "itoa v 10 = Some (if sint v < 0 then CHR ''-'' # ds else ds)"
    using ds(1) by (simp add: itoa_def itoa_w_def split: if_splits)
  ultimately show ?thesis using ds(3) by force
qed

lemma not_a_word:
  assumes "s \<noteq> []" "\<forall>c \<in> set s. 45 \<le> code c \<and> code c \<le> 57" "65 \<le> code w" "code w \<le> 90"
  shows "strnicmp cp s (w # ws) n \<noteq> Some 0"
proof (rule strnicmp_differs)
  obtain c t where s: "s = c # t" using assms(1) by (cases s) auto
  have "nic_upper cp c = c" "nic_upper cp w = w" using assms s by (auto simp: nic_upper_def)
  then show "nic_upper cp (peek s) \<noteq> nic_upper cp (peek (w # ws))" using assms s by auto
qed

text \<open>C34: a number stored by env_setvar is the one env_istrue returns, for every 32-bit value, and the
  text of the number fits into the 12 bytes of the local buffer; the other variables keep their values.\<close>

theorem env_number_roundtrip:
  assumes "env_inv cp pq" "heap_ok heap" "clean_name name"
  shows "\<exists>pq1. env_setvar cp heap (Some name) num pq = Some (0, pq1) \<and> env_inv cp pq1 \<and>
    env_istrue cp (Some name) pq1 = num \<and>
    (\<forall>n. nkey cp n \<noteq> nkey cp name \<longrightarrow> getenv cp (Some n) pq1 = getenv cp (Some n) pq)"
proof -
  obtain s where s: "itoa num 10 = Some s" "length s + 1 \<le> 12" "s \<noteq> []"
      "\<forall>c \<in> set s. 45 \<le> code c \<and> code c \<le> 57"
    using itoa_text [of num] by blast
  have rd: "atoi (Some s) = num"
    using itoa_read_back [of num] s(1) by (auto simp: itoa_def atoi_def)
  have nul: "NUL \<notin> set s" using s(4) by auto
  have sp: "dropWhile sp s = s" using s(3,4) by (cases s) auto
  obtain pq1 where r: "setenv cp heap (Some name) (Some s) 1 pq = Some (0, pq1)" "env_inv cp pq1"
    "vars cp pq1 = (vars cp pq)(nkey cp name \<mapsto> s)"
    using setenv_change [OF assms, of "Some s" 1] nul sp by auto
  have get: "getenv cp (Some name) pq1 = Some s" using getenv_vars [OF r(2)] r(3) by simp
  have words: "strnicmp cp s ''TRUE'' n \<noteq> Some 0" "strnicmp cp s ''ON'' n \<noteq> Some 0" "strnicmp cp s ''YES'' n \<noteq> Some 0"
    "strnicmp cp s ''FALSE'' n \<noteq> Some 0" "strnicmp cp s ''OFF'' n \<noteq> Some 0" "strnicmp cp s ''NO'' n \<noteq> Some 0" for n
    using not_a_word [OF s(3,4)] by simp_all
  have "env_istrue cp (Some name) pq1 = num"
    using get rd words by (simp add: env_istrue_def Let_def)
  moreover have "env_setvar cp heap (Some name) num pq = Some (0, pq1)"
    using s(1,2) r(1) by (simp add: env_setvar_def)
  ultimately show ?thesis using r getenv_vars [OF r(2)] getenv_vars [OF assms(1)] by auto
qed

theorem env_number_roundtrip_witness:
  "\<exists>pq1. env_setvar None demo_heap (Some ''lib'') 4294967254 demo_env = Some (0, pq1) \<and>
    env_istrue None (Some ''lib'') pq1 = - 42"
  using env_number_roundtrip [OF demo_env_inv demo_heap_ok demo_name, of 4294967254] by auto

end
