(* ===== verification/QSort.thy ===== *)
theory QSort
  imports QsPrelude
begin

text \<open>
  Sorting of start/misc/clib.c: \<open>qsort\<close> is a bubble pass over elements at a distance that is
  halved down to 1. An array of \<open>num\<close> elements of \<open>width\<close> bytes is a list of elements, and the
  byte-wise \<open>swap\<close> exchanges two cells. The repetition of a pass ends only because of what the
  comparator promises, so it is a partial function whose result is an option.
  The comparators of the callers follow, and the locale \<open>comparator\<close> holds what they promise.
\<close>

section \<open>The code: swap, one pass, the repeated pass, qsort\<close>

type_synonym 'a cmp = "'a \<Rightarrow> 'a \<Rightarrow> int"

definition swap :: "nat \<Rightarrow> nat \<Rightarrow> 'a list \<Rightarrow> 'a list" where
  "swap fp sp tab = (let x = tab ! sp; y = tab ! fp in (tab[sp := y])[fp := x])"

text \<open>The \<open>for\<close> loop over \<open>iRow\<close>; \<open>sw\<close> is \<open>iSwitch\<close>, the row of the last exchange.\<close>

function pass :: "'a cmp \<Rightarrow> nat \<Rightarrow> nat \<Rightarrow> nat \<Rightarrow> nat \<Rightarrow> 'a list \<Rightarrow> 'a list \<times> nat" where
  "pass cmp ofs limit row sw xs =
    (if row < limit
     then (if cmp (xs ! row) (xs ! (row + ofs)) > 0
           then pass cmp ofs limit (Suc row) row (swap row (row + ofs) xs)
           else pass cmp ofs limit (Suc row) sw xs)
     else (xs, sw))"
  by pat_completeness auto
termination by (relation "measure (\<lambda>(_, _, limit, row, _). limit - row)") auto

text \<open>\<open>do { ... } while (iSwitch)\<close>\<close>

partial_function (option) sweep :: "'a cmp \<Rightarrow> nat \<Rightarrow> nat \<Rightarrow> 'a list \<Rightarrow> 'a list option" where
  "sweep cmp ofs limit xs =
    (let r = pass cmp ofs limit 0 0 xs in
     if snd r \<noteq> 0 then sweep cmp ofs limit (fst r) else Some (fst r))"

text \<open>\<open>while (iOffset)\<close>\<close>

function shrink :: "'a cmp \<Rightarrow> nat \<Rightarrow> 'a list \<Rightarrow> 'a list option" where
  "shrink cmp ofs xs =
    (if ofs = 0 then Some xs
     else (case sweep cmp ofs (length xs - ofs) xs of
             None \<Rightarrow> None
           | Some ys \<Rightarrow> shrink cmp (ofs div 2) ys))"
  by pat_completeness auto
termination by (relation "measure (\<lambda>(_, ofs, _). ofs)") auto

definition qsort :: "'a cmp \<Rightarrow> 'a list \<Rightarrow> 'a list option" where
  "qsort cmp xs = (if 1 < length xs then shrink cmp (length xs div 2) xs else Some xs)"

declare pass.simps [simp del] shrink.simps [simp del]

section \<open>Exchanges keep the elements\<close>

lemma swap_keeps_length [simp]: "length (swap fp sp tab) = length tab"
  by (simp add: swap_def Let_def)

lemma swap_keeps_elements [simp]:
  assumes "fp < length tab" "sp < length tab"
  shows "mset (swap fp sp tab) = mset tab"
  using mset_swap [OF assms] by (simp add: swap_def Let_def)

lemma swap_cell:
  assumes "fp < length tab" "sp < length tab"
  shows "swap fp sp tab ! c =
    tab ! (if c = fp then sp else if c = sp then fp else c)"
  using assms by (simp add: swap_def Let_def)

section \<open>What a comparator promises\<close>

text \<open>The order of the comparator is total and transitive; elements it calls equal may differ.\<close>

locale comparator =
  fixes cmp :: "'a \<Rightarrow> 'a \<Rightarrow> int"
  assumes total: "cmp x y > 0 \<Longrightarrow> cmp y x \<le> 0"
    and trans: "cmp x y \<le> 0 \<Longrightarrow> cmp y z \<le> 0 \<Longrightarrow> cmp x z \<le> 0"
begin

lemma refl: "cmp x x \<le> 0"
  using total [of x x] by linarith

lemma above_mono: "cmp x y > 0 \<Longrightarrow> cmp y z > 0 \<Longrightarrow> cmp x z > 0"
  using total trans by (metis linorder_not_less)

text \<open>The rank of an element: how many of the elements are below it.\<close>

definition rank :: "'a set \<Rightarrow> 'a \<Rightarrow> nat" where
  "rank S x = card {y\<in>S. cmp x y > 0}"

lemma rank_less:
  assumes "finite S" "y \<in> S" "cmp x y > 0"
  shows "rank S y < rank S x"
  unfolding rank_def
proof (rule psubset_card_mono)
  show "finite {z \<in> S. cmp x z > 0}" using assms by simp
  have "{z \<in> S. cmp y z > 0} \<subseteq> {z \<in> S. cmp x z > 0}"
    using assms above_mono by auto
  moreover have "y \<notin> {z \<in> S. cmp y z > 0}" using refl [of y] by auto
  moreover have "y \<in> {z \<in> S. cmp x z > 0}" using assms by simp
  ultimately show "{z \<in> S. cmp y z > 0} \<subset> {z \<in> S. cmp x z > 0}" by blast
qed

lemma rank_le: "finite S \<Longrightarrow> rank S x \<le> card S"
  unfolding rank_def by (rule card_mono) auto

text \<open>The weight of a list grows with every exchange the code makes, and it is bounded.\<close>

definition weight :: "'a set \<Rightarrow> 'a list \<Rightarrow> nat" where
  "weight S xs = (\<Sum>k<length xs. k * rank S (xs ! k))"

lemma weight_bound: "finite S \<Longrightarrow> weight S xs \<le> length xs * (length xs * card S)"
proof -
  assume S: "finite S"
  have "weight S xs \<le> (\<Sum>k<length xs. length xs * card S)"
    unfolding weight_def by (rule sum_mono) (simp add: mult_le_mono rank_le S)
  then show ?thesis by simp
qed

lemma weight_swap:
  assumes "i < j" "j < length xs" "finite S" "xs ! j \<in> S" "cmp (xs ! i) (xs ! j) > 0"
  shows "weight S xs < weight S (swap i j xs)"
proof -
  let ?R = "{..<length xs} - {i} - {j}"
  have split: "weight S ys = i * rank S (ys ! i) + (j * rank S (ys ! j) + (\<Sum>k\<in>?R. k * rank S (ys ! k)))"
    if "length ys = length xs" for ys
    using assms(1,2) that unfolding weight_def
    by (simp add: sum.remove [of _ i] sum.remove [of _ j])
  have rest: "(\<Sum>k\<in>?R. k * rank S (swap i j xs ! k)) = (\<Sum>k\<in>?R. k * rank S (xs ! k))"
    using assms(1,2) by (intro sum.cong) (auto simp: swap_cell)
  have less: "rank S (xs ! j) < rank S (xs ! i)"
    using assms by (intro rank_less) auto
  obtain d where d: "j = i + Suc d" using assms(1) less_iff_Suc_add by auto
  have "d * rank S (xs ! j) \<le> d * rank S (xs ! i)" using less by simp
  with less have "rank S (xs ! j) + d * rank S (xs ! j) < rank S (xs ! i) + d * rank S (xs ! i)"
    by (rule add_less_le_mono)
  then have "i * rank S (xs ! i) + j * rank S (xs ! j) < i * rank S (xs ! j) + j * rank S (xs ! i)"
    by (simp add: d algebra_simps)
  then show ?thesis
    using assms(1,2) split [of xs] split [of "swap i j xs"] rest by (simp add: swap_cell)
qed

end

section \<open>One pass\<close>

lemma pass_stop: "limit \<le> row \<Longrightarrow> pass cmp ofs limit row sw xs = (xs, sw)"
  by (subst pass.simps) simp

lemma pass_exch: "row < limit \<Longrightarrow> cmp (xs ! row) (xs ! (row + ofs)) > 0 \<Longrightarrow>
  pass cmp ofs limit row sw xs = pass cmp ofs limit (Suc row) row (swap row (row + ofs) xs)"
  by (subst pass.simps) simp

lemma pass_skip: "row < limit \<Longrightarrow> cmp (xs ! row) (xs ! (row + ofs)) \<le> 0 \<Longrightarrow>
  pass cmp ofs limit row sw xs = pass cmp ofs limit (Suc row) sw xs"
  by (subst pass.simps) simp

lemmas pass_steps = pass_stop pass_exch pass_skip

lemma rows_induct [case_names stop exch skip]:
  assumes "\<And>row sw xs. limit \<le> row \<Longrightarrow> P row sw xs"
    and "\<And>row sw xs. row < limit \<Longrightarrow> cmp (xs ! row) (xs ! (row + ofs)) > 0 \<Longrightarrow>
           P (Suc row) row (swap row (row + ofs) xs) \<Longrightarrow> P row sw xs"
    and "\<And>row sw xs. row < limit \<Longrightarrow> cmp (xs ! row) (xs ! (row + ofs)) \<le> (0::int) \<Longrightarrow>
           P (Suc row) sw xs \<Longrightarrow> P row sw xs"
  shows "P row sw xs"
proof (induction "limit - row" arbitrary: row sw xs)
  case 0
  then show ?case using assms(1) by simp
next
  case (Suc n)
  then have "n = limit - Suc row" "row < limit" by simp_all
  with Suc assms(2,3) show ?case by (metis linorder_not_less)
qed

lemma pass_perm:
  "limit + ofs \<le> length xs \<Longrightarrow> mset (fst (pass cmp ofs limit row sw xs)) = mset xs"
  by (induction row sw xs rule: rows_induct [where cmp = cmp and ofs = ofs and limit = limit])
    (simp_all add: pass_steps)

lemma pass_zero: "snd (pass cmp ofs limit row sw xs) = 0 \<Longrightarrow> sw \<le> row \<Longrightarrow> sw = 0"
  by (induction row sw xs rule: rows_induct [where cmp = cmp and ofs = ofs and limit = limit])
    (simp_all add: pass_steps)

context comparator
begin

lemma pass_weight:
  assumes "finite S" "0 < ofs" "limit + ofs \<le> length xs" "set xs \<subseteq> S"
  shows "pass cmp ofs limit row sw xs = (xs, sw) \<or>
    weight S xs < weight S (fst (pass cmp ofs limit row sw xs))"
  using assms
proof (induction row sw xs rule: rows_induct [where cmp = cmp and ofs = ofs and limit = limit])
  case (stop row sw xs)
  then show ?case by (simp add: pass_stop)
next
  case (exch row sw xs)
  let ?xs = "swap row (row + ofs) xs"
  have in_range: "row < length xs" "row + ofs < length xs" using exch by auto
  have "weight S xs < weight S ?xs"
    using exch in_range by (intro weight_swap) auto
  moreover have "set ?xs = set xs"
    using in_range by (metis swap_keeps_elements mset_eq_setD)
  ultimately show ?case
    using exch by (auto simp: pass_exch)
next
  case (skip row sw xs)
  then show ?case by (simp add: pass_skip)
qed

lemma pass_ordered:
  assumes "snd (pass cmp ofs limit row sw xs) = 0" "sw \<le> row" "row \<le> limit"
    "0 < ofs" "limit + ofs \<le> length xs"
    "\<forall>i<row. cmp (xs ! i) (xs ! (i + ofs)) \<le> 0"
  shows "\<forall>i<limit. cmp (fst (pass cmp ofs limit row sw xs) ! i)
      (fst (pass cmp ofs limit row sw xs) ! (i + ofs)) \<le> 0"
  using assms
proof (induction row sw xs rule: rows_induct [where cmp = cmp and ofs = ofs and limit = limit])
  case (stop row sw xs)
  then show ?case by (simp add: pass_stop)
next
  case (exch row sw xs)
  have "row = 0"
    using exch pass_zero [of cmp ofs limit "Suc row" row] by (simp add: pass_exch)
  moreover have "0 < length xs" "ofs < length xs" using exch by auto
  ultimately show ?case
    using exch total [of "xs ! row" "xs ! (row + ofs)"] by (simp add: pass_exch swap_cell)
next
  case (skip row sw xs)
  then show ?case by (simp add: pass_skip less_Suc_eq)
qed

section \<open>The repeated pass ends, and leaves the elements ordered at the distance\<close>

definition ordered_at :: "nat \<Rightarrow> 'a list \<Rightarrow> bool" where
  "ordered_at ofs xs \<longleftrightarrow> (\<forall>i. i + ofs < length xs \<longrightarrow> cmp (xs ! i) (xs ! (i + ofs)) \<le> 0)"

lemma sweep_ends:
  assumes "0 < ofs" "ofs \<le> length xs"
  shows "\<exists>ys. sweep cmp ofs (length xs - ofs) xs = Some ys \<and> mset ys = mset xs \<and> ordered_at ofs ys"
  using assms
proof (induction "length xs * (length xs * card (set xs)) - weight (set xs) xs"
    arbitrary: xs rule: less_induct)
  case less
  let ?l = "length xs - ofs"
  obtain ys sw where p: "pass cmp ofs ?l 0 0 xs = (ys, sw)" by (metis surj_pair)
  have perm: "mset ys = mset xs"
    using pass_perm [of ?l ofs xs cmp 0 0] less.prems p by simp
  have same: "set ys = set xs" "length ys = length xs"
    using perm mset_eq_setD mset_eq_length by blast+
  show ?case
  proof (cases "sw = 0")
    case True
    have "ordered_at ofs ys"
      using pass_ordered [of ofs ?l 0 0 xs] less.prems p True same by (auto simp: ordered_at_def)
    then show ?thesis
      using p True perm by (subst sweep.simps) simp
  next
    case False
    have "weight (set xs) xs < weight (set xs) ys"
      using pass_weight [of "set xs" ofs ?l xs 0 0] less.prems p False by auto
    moreover have "weight (set xs) ys \<le> length xs * (length xs * card (set xs))"
      using weight_bound [of "set xs" ys] same by simp
    ultimately have "length ys * (length ys * card (set ys)) - weight (set ys) ys
        < length xs * (length xs * card (set xs)) - weight (set xs) xs"
      using same by simp
    from less.hyps [OF this] less.prems same
    obtain zs where "sweep cmp ofs ?l ys = Some zs" "mset zs = mset ys" "ordered_at ofs zs"
      by auto
    then show ?thesis
      using p False perm by (subst sweep.simps) simp
  qed
qed

lemma shrink_ends:
  assumes "ofs \<le> length xs" "ofs = 0 \<Longrightarrow> ordered_at 1 xs"
  shows "\<exists>ys. shrink cmp ofs xs = Some ys \<and> mset ys = mset xs \<and> ordered_at 1 ys"
  using assms
proof (induction ofs arbitrary: xs rule: less_induct)
  case (less ofs)
  show ?case
  proof (cases "ofs = 0")
    case True
    then show ?thesis using less.prems by (subst shrink.simps) simp
  next
    case False
    obtain ys where s: "sweep cmp ofs (length xs - ofs) xs = Some ys" "mset ys = mset xs"
      "ordered_at ofs ys"
      using sweep_ends False less.prems by blast
    have len: "length ys = length xs" using s mset_eq_length by blast
    have "ordered_at 1 ys" if "ofs div 2 = 0"
      using s(3) that False by (cases "ofs = 1") auto
    then obtain zs where "shrink cmp (ofs div 2) ys = Some zs" "mset zs = mset ys" "ordered_at 1 zs"
      using less.IH [of "ofs div 2" ys] False len less.prems(1) by fastforce
    then show ?thesis
      using s False by (subst shrink.simps) simp
  qed
qed

lemma ordered_sorted: "ordered_at 1 xs \<Longrightarrow> sorted_wrt (\<lambda>x y. cmp x y \<le> 0) xs"
  using trans by (subst sorted_wrt_iff_nth_Suc_transp) (auto simp: transp_def ordered_at_def)

lemma qsort_ends:
  "\<exists>ys. qsort cmp xs = Some ys \<and> mset ys = mset xs \<and> sorted_wrt (\<lambda>x y. cmp x y \<le> 0) ys"
proof (cases "1 < length xs")
  case True
  then obtain ys where "shrink cmp (length xs div 2) xs = Some ys" "mset ys = mset xs" "ordered_at 1 ys"
    using shrink_ends [of "length xs div 2" xs] by force
  then show ?thesis using True ordered_sorted by (auto simp: qsort_def)
next
  case False
  then have "sorted_wrt (\<lambda>x y. cmp x y \<le> 0) xs"
    by (cases xs) auto
  then show ?thesis using False by (simp add: qsort_def)
qed

end

end
