(* ===== verification/Crc32.thy ===== *)
theory Crc32
  imports QsPrelude
begin

text \<open>
  The CRC of init/zip/crc32.c: the table that \<open>make_crc_table\<close> builds and the byte loop of
  \<open>crc32\<close>. The reference is the shift register on single bits. The partition manager uses the
  sum for both copies of a GPT.
\<close>

section \<open>The code\<close>

definition crc_poly :: u32 where
  "crc_poly = fold (\<lambda>p poly. poly OR push_bit (31 - p) 1)
    [0, 1, 2, 4, 5, 7, 8, 10, 11, 12, 16, 22, 23, 26] 0"

text \<open>One turn of the inner loop: \<open>c & 1 ? poly ^ (c >> 1) : c >> 1\<close>.\<close>

definition crc_bit :: "u32 \<Rightarrow> u32" where
  "crc_bit c = (if odd c then crc_poly XOR drop_bit 1 c else drop_bit 1 c)"

definition make_crc_table :: "u32 list" where
  "make_crc_table = map (\<lambda>n. (crc_bit ^^ 8) (word_of_nat n)) [0..<256]"

text \<open>\<open>DO1\<close>\<close>

definition do1 :: "u32 list \<Rightarrow> u8 \<Rightarrow> u32 \<Rightarrow> u32" where
  "do1 tab b crc = tab ! unat ((crc XOR ucast b) AND 0xFF) XOR drop_bit 8 crc"

text \<open>\<open>DO8\<close>, the loop over blocks of eight bytes, and the loop over what is left.\<close>

fun do_rest :: "u32 list \<Rightarrow> u8 list \<Rightarrow> u32 \<Rightarrow> u32" where
  "do_rest tab [] crc = crc"
| "do_rest tab (b # bs) crc = do_rest tab bs (do1 tab b crc)"

fun do_blocks :: "u32 list \<Rightarrow> u8 list \<Rightarrow> u32 \<Rightarrow> u32" where
  "do_blocks tab (b1 # b2 # b3 # b4 # b5 # b6 # b7 # b8 # bs) crc =
     do_blocks tab bs (do1 tab b8 (do1 tab b7 (do1 tab b6 (do1 tab b5
       (do1 tab b4 (do1 tab b3 (do1 tab b2 (do1 tab b1 crc))))))))"
| "do_blocks tab bs crc = do_rest tab bs crc"

text \<open>\<open>None\<close> is a null buffer.\<close>

definition crc32 :: "u32 \<Rightarrow> u8 list option \<Rightarrow> u32" where
  "crc32 crc buf = (case buf of None \<Rightarrow> 0
     | Some bs \<Rightarrow> NOT (do_blocks make_crc_table bs (NOT crc)))"

section \<open>The reference: one bit after the other\<close>

definition crc_byte :: "u8 \<Rightarrow> u32 \<Rightarrow> u32" where
  "crc_byte b crc = (crc_bit ^^ 8) (crc XOR ucast b)"

definition crc_ref :: "u8 list \<Rightarrow> u32" where
  "crc_ref bs = NOT (fold crc_byte bs (NOT 0))"

lemma do_blocks_rest: "do_blocks tab bs crc = do_rest tab bs crc"
  by (induction tab bs crc rule: do_blocks.induct) simp_all

lemma do_rest_fold: "do_rest tab bs crc = fold (do1 tab) bs crc"
  by (induction tab bs crc rule: do_rest.induct) simp_all

section \<open>The shift register is linear and loses nothing\<close>

lemma crc_poly_value: "crc_poly = 0xEDB88320"
  by (simp add: crc_poly_def)

lemma odd_xor: "odd (x XOR y :: u32) \<longleftrightarrow> odd x \<noteq> odd y"
  by (simp add: bit_xor_iff flip: bit_0)

lemma crc_bit_xor: "crc_bit (x XOR y) = crc_bit x XOR crc_bit y"
  by (rule bit_eqI) (auto simp: crc_bit_def odd_xor bit_simps)

lemma crc_bits_xor: "(crc_bit ^^ n) (x XOR y) = (crc_bit ^^ n) x XOR (crc_bit ^^ n) y"
  by (induction n) (simp_all add: crc_bit_xor)

lemma crc_bits_shift:
  "(\<And>k. k < n \<Longrightarrow> \<not> bit x k) \<Longrightarrow> (crc_bit ^^ n) x = drop_bit n x"
proof (induction n arbitrary: x)
  case (Suc n)
  have "crc_bit x = drop_bit 1 x" using Suc.prems [of 0] by (simp add: crc_bit_def bit_0)
  then have "(crc_bit ^^ Suc n) x = (crc_bit ^^ n) (drop_bit 1 x)"
    by (simp add: funpow_swap1)
  also have "\<dots> = drop_bit n (drop_bit 1 x)"
    using Suc by (simp add: bit_simps)
  finally show ?case by (simp add: add.commute)
qed simp

lemma crc_bits_split:
  "(crc_bit ^^ 8) c = (crc_bit ^^ 8) (c AND 0xFF) XOR drop_bit 8 c"
proof -
  have low: "bit (0xFF :: u32) k \<longleftrightarrow> k < 8" for k
  proof -
    have "(0xFF :: u32) = mask 8" by (simp add: mask_eq_exp_minus_1)
    then show ?thesis by (simp only: bit_mask_iff) (auto simp: possible_bit_word)
  qed
  have "c = (c AND 0xFF) XOR (c AND NOT 0xFF)"
    by (rule bit_eqI) (auto simp: bit_simps)
  then have "(crc_bit ^^ 8) c = (crc_bit ^^ 8) (c AND 0xFF) XOR (crc_bit ^^ 8) (c AND NOT 0xFF)"
    by (metis crc_bits_xor)
  also have "(crc_bit ^^ 8) (c AND NOT 0xFF) = drop_bit 8 (c AND NOT 0xFF)"
    by (rule crc_bits_shift) (simp only: bit_and_iff bit_not_iff low, simp)
  also have "drop_bit 8 (c AND NOT 0xFF) = drop_bit 8 c"
    by (rule bit_eqI) (simp only: bit_drop_bit_eq bit_and_iff bit_not_iff low comp_apply, auto simp: bit_simps dest: bit_imp_le_length)
  finally show ?thesis .
qed

lemma table_lookup: "make_crc_table ! unat (x AND 0xFF :: u32) = (crc_bit ^^ 8) (x AND 0xFF)"
proof -
  have "unat (x AND 0xFF) \<le> unat (0xFF :: u32)"
    by (rule word_le_nat_alt [THEN iffD1]) (rule word_and_le1)
  then have "unat (x AND 0xFF) < 256" by simp
  then show ?thesis by (simp add: make_crc_table_def)
qed

lemma do1_byte: "do1 make_crc_table b crc = crc_byte b crc"
proof -
  have "drop_bit 8 (crc XOR ucast b) = (drop_bit 8 crc :: u32)"
    by (rule bit_eqI) (auto simp: bit_simps dest: bit_imp_le_length)
  then show ?thesis
    by (simp add: do1_def crc_byte_def table_lookup crc_bits_split [of "crc XOR ucast b"])
qed

lemma xor_same: "(a XOR w) XOR w = (a :: u32)"
  by (simp add: xor.assoc)

lemma crc_bit_inj: "inj crc_bit"
proof (rule injI)
  fix x y :: u32
  assume eq: "crc_bit x = crc_bit y"
  have top: "bit (crc_bit z) 31 \<longleftrightarrow> odd z" for z
    by (auto simp: crc_bit_def crc_poly_value bit_simps dest: bit_imp_le_length)
  have par: "odd x = odd y" using eq top by metis
  then have "drop_bit 1 x = drop_bit 1 y"
    using eq unfolding crc_bit_def by (metis xor_same xor.commute)
  then have "bit x (Suc n) = bit y (Suc n)" for n
    by (metis bit_drop_bit_eq comp_apply plus_1_eq_Suc)
  moreover have "bit x 0 = bit y 0" using par by (simp add: bit_0)
  ultimately have "bit x n = bit y n" for n by (cases n) auto
  then show "x = y" by (simp add: bit_eq_iff)
qed

lemma crc_bits_inj: "inj (crc_bit ^^ n)"
  by (simp add: crc_bit_inj inj_fn)

lemma crc_byte_eq: "crc_byte b c = crc_byte b' c' \<longleftrightarrow> c XOR ucast b = c' XOR ucast b'"
  unfolding crc_byte_def using crc_bits_inj [of 8] by (metis injD)

lemma crc_byte_inj_crc: "crc_byte b c = crc_byte b c' \<Longrightarrow> c = c'"
  unfolding crc_byte_eq by (metis xor_same)

lemma crc_byte_inj_byte: "crc_byte b c = crc_byte b' c \<Longrightarrow> b = b'"
proof -
  assume "crc_byte b c = crc_byte b' c"
  then have "(ucast b :: u32) = ucast b'"
    unfolding crc_byte_eq by (metis xor_same xor.commute)
  then have "uint (ucast b :: u32) = uint (ucast b' :: u32)" by simp
  then have "uint b = uint b'" by (simp add: uint_up_ucast is_up)
  then show ?thesis by (simp add: word_uint_eq_iff)
qed

lemma crc32_fold: "crc32 c (Some bs) = NOT (fold crc_byte bs (NOT c))"
proof -
  have "do1 make_crc_table = crc_byte" by (intro ext do1_byte)
  then show ?thesis by (simp add: crc32_def do_blocks_rest do_rest_fold)
qed

lemma crc_fold_inj: "fold crc_byte bs c = fold crc_byte bs c' \<Longrightarrow> c = c'"
  by (induction bs arbitrary: c c') (auto dest: crc_byte_inj_crc)

section \<open>Theorems\<close>


end
