(* ===== verification/GptData.thy ===== *)
theory GptData
  imports QSort Crc32
begin

text \<open>
  Data of the GPT manager (hc/inc/parttab.inc, partmgr/pscan.h): the two on-disk structures with
  their byte layout, the disk information a scan collects, and the device. The device takes
  \<open>left\<close> more sectors and fails from then on, which covers a write error and a loss of power at
  every sector; it fails to read the sectors \<open>unread\<close> names.
\<close>

section \<open>Error codes (hc/qserr.h)\<close>

datatype qserr = E_OK | E_SYS_INVPARM | E_DSK_DISKNUM | E_DSK_ERRREAD | E_DSK_ERRWRITE | E_DSK_2TBERR
  | E_PTE_EMPTY | E_PTE_HYBRID | E_PTE_MBRDISK | E_PTE_PINDEX | E_PTE_RESCAN | E_PTE_NOFREE
  | E_PTE_NOPRFREE | E_PTE_GPTHDR | E_PTE_GPTLARGE | E_PTE_GPTHDR2 | E_PTE_FLOPPY | E_PTE_INVALID

section \<open>Little-endian fields\<close>

definition le :: "nat \<Rightarrow> 'a::len word \<Rightarrow> u8 list" where
  "le n w = map (\<lambda>i. ucast (drop_bit (8 * i) w)) [0..<n]"

fun un_le :: "u8 list \<Rightarrow> 'a::len word" where
  "un_le [] = 0"
| "un_le (b # bs) = ucast b OR push_bit 8 (un_le bs)"

section \<open>struct GPT_Record and struct Disk_GPT\<close>

definition GPT_RECSIZE :: nat where "GPT_RECSIZE = 128"

definition GPT_SIGNMAIN :: u64 where "GPT_SIGNMAIN = 0x5452415020494645"

record gpt_record =
  PTG_TypeGUID :: "u8 list"
  PTG_GUID :: "u8 list"
  PTG_FirstSec :: u64
  PTG_LastSec :: u64
  PTG_Attrs :: u64
  PTG_Name :: "u16 list"

record disk_gpt =
  GPT_Sign :: u64
  GPT_Revision :: u32
  GPT_HdrSize :: u32
  GPT_HdrCRC :: u32
  GPT_Reserved1 :: u32
  GPT_Hdr1Pos :: u64
  GPT_Hdr2Pos :: u64
  GPT_UserFirst :: u64
  GPT_UserLast :: u64
  GPT_GUID :: "u8 list"
  GPT_PtInfo :: u64
  GPT_PtCout :: u32
  GPT_PtEntrySize :: u32
  GPT_PtCRC :: u32

definition DISK_GPT_SIZE :: nat where "DISK_GPT_SIZE = 92"

definition rec_bytes :: "gpt_record \<Rightarrow> u8 list" where
  "rec_bytes r = PTG_TypeGUID r @ PTG_GUID r @ le 8 (PTG_FirstSec r) @ le 8 (PTG_LastSec r)
    @ le 8 (PTG_Attrs r) @ concat (map (le 2) (PTG_Name r))"

definition hdr_bytes :: "disk_gpt \<Rightarrow> u8 list" where
  "hdr_bytes h = le 8 (GPT_Sign h) @ le 4 (GPT_Revision h) @ le 4 (GPT_HdrSize h)
    @ le 4 (GPT_HdrCRC h) @ le 4 (GPT_Reserved1 h) @ le 8 (GPT_Hdr1Pos h) @ le 8 (GPT_Hdr2Pos h)
    @ le 8 (GPT_UserFirst h) @ le 8 (GPT_UserLast h) @ GPT_GUID h @ le 8 (GPT_PtInfo h)
    @ le 4 (GPT_PtCout h) @ le 4 (GPT_PtEntrySize h) @ le 4 (GPT_PtCRC h)"

definition field :: "nat \<Rightarrow> nat \<Rightarrow> u8 list \<Rightarrow> u8 list" where
  "field ofs n bs = take n (drop ofs bs)"

definition words16 :: "u8 list \<Rightarrow> u16 list" where
  "words16 bs = map (\<lambda>i. un_le (field (2 * i) 2 bs)) [0..<36]"

definition rec_view :: "u8 list \<Rightarrow> gpt_record" where
  "rec_view bs = \<lparr> PTG_TypeGUID = field 0 16 bs, PTG_GUID = field 16 16 bs,
     PTG_FirstSec = un_le (field 32 8 bs), PTG_LastSec = un_le (field 40 8 bs),
     PTG_Attrs = un_le (field 48 8 bs), PTG_Name = words16 (field 56 72 bs) \<rparr>"

definition hdr_view :: "u8 list \<Rightarrow> disk_gpt" where
  "hdr_view bs = \<lparr> GPT_Sign = un_le (field 0 8 bs), GPT_Revision = un_le (field 8 4 bs),
     GPT_HdrSize = un_le (field 12 4 bs), GPT_HdrCRC = un_le (field 16 4 bs),
     GPT_Reserved1 = un_le (field 20 4 bs), GPT_Hdr1Pos = un_le (field 24 8 bs),
     GPT_Hdr2Pos = un_le (field 32 8 bs), GPT_UserFirst = un_le (field 40 8 bs),
     GPT_UserLast = un_le (field 48 8 bs), GPT_GUID = field 56 16 bs,
     GPT_PtInfo = un_le (field 72 8 bs), GPT_PtCout = un_le (field 80 4 bs),
     GPT_PtEntrySize = un_le (field 84 4 bs), GPT_PtCRC = un_le (field 88 4 bs) \<rparr>"

text \<open>An array of records in a buffer; a zeroed record.\<close>

definition recs_bytes :: "gpt_record list \<Rightarrow> u8 list" where
  "recs_bytes rs = concat (map rec_bytes rs)"

definition recs_view :: "nat \<Rightarrow> u8 list \<Rightarrow> gpt_record list" where
  "recs_view n bs = map (\<lambda>i. rec_view (field (GPT_RECSIZE * i) GPT_RECSIZE bs)) [0..<n]"

definition zero_rec :: gpt_record where
  "zero_rec = \<lparr> PTG_TypeGUID = replicate 16 0, PTG_GUID = replicate 16 0, PTG_FirstSec = 0,
     PTG_LastSec = 0, PTG_Attrs = 0, PTG_Name = replicate 36 0 \<rparr>"

section \<open>hdd\_info: what a scan knows of a disk\<close>

text \<open>A header sits in a buffer of a whole sector: the structure and the bytes behind it. The
  table is the array of records; \<open>ptg_tail\<close> are the bytes behind the array that take part in the
  i/o because \<open>gpt_sectors\<close> is rounded up.\<close>

type_synonym gpt_sector = "disk_gpt \<times> u8 list"

record freeblock =
  fb_start :: u64
  fb_length :: u64
  fb_index :: nat
  fb_flags :: u32

record hdd_info =
  hd_ssize :: nat
  hd_total :: u64
  lvm_spt :: u32
  scan_rc :: qserr
  gpt_present :: bool
  hybrid :: bool
  gpthead :: u64
  gpt_size :: nat
  gpt_sectors :: nat
  gpt_view :: nat
  ptg :: "gpt_record list option"
  ptg_tail :: "u8 list"
  gpt_index :: "u32 list"
  ghead :: "gpt_sector option"
  ghead2 :: "gpt_sector option"
  fsp :: "freeblock list"

section \<open>The device\<close>

record dskio =
  media :: "nat \<Rightarrow> u8 list"
  left :: nat
  unread :: "nat \<Rightarrow> bool"

text \<open>Calls of \<open>hlp_diskwrite\<close> and \<open>hlp_diskread\<close> as the code above sees them: the number of sectors transferred, or the sectors.\<close>

definition put_media :: "(nat \<Rightarrow> u8 list) \<Rightarrow> nat \<Rightarrow> u8 list list \<Rightarrow> nat \<Rightarrow> u8 list" where
  "put_media m pos bs = (\<lambda>s. if pos \<le> s \<and> s < pos + length bs then bs ! (s - pos) else m s)"

definition dev_write :: "dskio \<Rightarrow> u64 \<Rightarrow> u8 list list \<Rightarrow> nat \<times> dskio" where
  "dev_write io pos bs = (let n = min (length bs) (left io) in
     (n, io\<lparr>media := put_media (media io) (unat pos) (take n bs), left := left io - n\<rparr>))"

definition dev_read :: "dskio \<Rightarrow> u64 \<Rightarrow> nat \<Rightarrow> u8 list list" where
  "dev_read io pos n =
     map (media io) (takeWhile (\<lambda>s. \<not> unread io s) [unat pos..<unat pos + n])"

text \<open>A buffer as a sequence of sectors.\<close>

definition split_sectors :: "nat \<Rightarrow> nat \<Rightarrow> u8 list \<Rightarrow> u8 list list" where
  "split_sectors ssize n bs = map (\<lambda>i. field (ssize * i) ssize bs) [0..<n]"

section \<open>Layout: what is written is what is read\<close>

lemma length_le [simp]: "length (le n w) = n"
  by (simp add: le_def)

lemma bit_un_le: "bit (un_le bs :: 'a::len word) k \<longleftrightarrow>
    k < LENGTH('a) \<and> k div 8 < length bs \<and> bit (bs ! (k div 8)) (k mod 8)"
proof (induction bs arbitrary: k)
  case (Cons b bs)
  show ?case
  proof (cases "k < 8")
    case True
    then show ?thesis by (auto simp: bit_simps dest: bit_imp_le_length)
  next
    case False
    then obtain j where k: "k = j + 8" by (metis add.commute le_Suc_ex not_less)
    have "\<not> bit b k" using False bit_imp_le_length [of b k] by auto
    moreover have "(j + 8) div 8 = Suc (j div 8)" by simp
    ultimately show ?thesis
      using Cons [of j] by (auto simp: k bit_or_iff bit_ucast_iff bit_push_bit_iff possible_bit_word)
  qed
qed simp

lemma un_le_le: "LENGTH('a) \<le> 8 * n \<Longrightarrow> un_le (le n w) = (w :: 'a::len word)"
proof (rule bit_eqI)
  fix k
  assume "LENGTH('a) \<le> 8 * n" "possible_bit TYPE('a word) k"
  then have "k < LENGTH('a)" "k div 8 < n" by (auto simp: possible_bit_word)
  moreover have "bit (ucast (drop_bit (8 * (k div 8)) w) :: u8) (k mod 8) = bit w k"
    by (simp add: bit_ucast_iff bit_drop_bit_eq)
  ultimately show "bit (un_le (le n w) :: 'a word) k \<longleftrightarrow> bit w k"
    by (simp add: bit_un_le le_def)
qed

lemma field_here: "length as = n \<Longrightarrow> field 0 n (as @ bs) = as"
  by (simp add: field_def)

lemma field_skip: "length as \<le> ofs \<Longrightarrow> field ofs n (as @ bs) = field (ofs - length as) n bs"
  by (simp add: field_def)

lemma field_append: "ofs + n \<le> length as \<Longrightarrow> field ofs n (as @ bs) = field ofs n as"
  by (simp add: field_def)

lemmas field_simps' = field_here field_skip

lemma length_hdr [simp]: "length (GPT_GUID h) = 16 \<Longrightarrow> length (hdr_bytes h) = DISK_GPT_SIZE"
  by (simp add: hdr_bytes_def DISK_GPT_SIZE_def)

lemma hdr_view_bytes: "length (GPT_GUID h) = 16 \<Longrightarrow> hdr_view (hdr_bytes h @ rest) = h"
  by (simp add: hdr_view_def hdr_bytes_def field_skip field_here un_le_le)

definition rec_ok :: "gpt_record \<Rightarrow> bool" where
  "rec_ok r \<longleftrightarrow> length (PTG_TypeGUID r) = 16 \<and> length (PTG_GUID r) = 16 \<and> length (PTG_Name r) = 36"

lemma length_concat_le: "length (concat (map (le n) ws)) = n * length ws"
  by (induction ws) simp_all

lemma words16_le: "i < length ws \<Longrightarrow> field (2 * i) 2 (concat (map (le 2) ws)) = le 2 (ws ! i)"
proof (induction ws arbitrary: i)
  case (Cons w ws)
  then show ?case by (cases i) (simp_all add: field_here field_skip)
qed simp

lemma words16_bytes: "length ws = 36 \<Longrightarrow> words16 (concat (map (le 2) ws)) = (ws :: u16 list)"
  by (rule nth_equalityI) (simp_all add: words16_def words16_le un_le_le)

lemma length_rec [simp]: "rec_ok r \<Longrightarrow> length (rec_bytes r) = GPT_RECSIZE"
  by (simp add: rec_bytes_def rec_ok_def GPT_RECSIZE_def length_concat_le)

lemma rec_view_bytes: "rec_ok r \<Longrightarrow> rec_view (rec_bytes r) = r"
proof -
  assume r: "rec_ok r"
  have "field 56 72 (rec_bytes r) = concat (map (le 2) (PTG_Name r))"
    using r by (simp add: rec_bytes_def rec_ok_def field_skip)
      (simp add: field_def length_concat_le)
  with r show ?thesis
    by (simp add: rec_view_def words16_bytes rec_ok_def)
      (simp add: rec_bytes_def rec_ok_def field_skip field_here un_le_le)
qed

lemma zero_rec_ok [simp]: "rec_ok zero_rec"
  by (simp add: rec_ok_def zero_rec_def)

lemma length_recs: "\<forall>r\<in>set rs. rec_ok r \<Longrightarrow> length (recs_bytes rs) = GPT_RECSIZE * length rs"
  by (induction rs) (simp_all add: recs_bytes_def)

lemma recs_field: "\<forall>r\<in>set rs. rec_ok r \<Longrightarrow> i < length rs \<Longrightarrow>
    field (GPT_RECSIZE * i) GPT_RECSIZE (recs_bytes rs @ rest) = rec_bytes (rs ! i)"
proof (induction rs arbitrary: i)
  case (Cons r rs)
  then show ?case by (cases i) (simp_all add: recs_bytes_def field_here field_skip)
qed simp

lemma recs_view_bytes:
  "\<forall>r\<in>set rs. rec_ok r \<Longrightarrow> length rs = n \<Longrightarrow> recs_view n (recs_bytes rs @ rest) = rs"
  by (rule nth_equalityI) (auto simp: recs_view_def recs_field rec_view_bytes)

end
