(* ===== verification/GptMgr.thy ===== *)
theory GptMgr
  imports GptData
begin

text \<open>
  The operations of partmgr/gptmgr.cpp on the information of one disk. Of the modules it calls,
  the forced rescan \<open>dsk_ptrescan\<close>, \<open>dsk_newmbr\<close>, \<open>dsk_getmap\<close>, the random GUID of
  \<open>dsk_makeguid\<close>, the readable name of a type and \<open>dsk_gptletter\<close> are arguments. A volume is
  known by the disk and the sector it starts at. Messages to the log are left out.
\<close>

section \<open>State of an operation\<close>

record gptst =
  gs_hi :: "hdd_info option"
  gs_io :: dskio
  gs_vols :: "(u32 \<times> u64) option list"

text \<open>\<open>sizeof(struct Disk_GPT)\<close> bytes are summed up.\<close>

definition hdr_crc :: "disk_gpt \<Rightarrow> u32" where
  "hdr_crc h = crc32 (crc32 0 None) (Some (hdr_bytes h))"

definition seal_hdr :: "disk_gpt \<Rightarrow> disk_gpt" where
  "seal_hdr h = h\<lparr>GPT_HdrCRC := hdr_crc (h\<lparr>GPT_HdrCRC := 0\<rparr>)\<rparr>"

definition table_crc :: "gpt_record list \<Rightarrow> u32" where
  "table_crc rs = crc32 (crc32 0 None) (Some (recs_bytes rs))"

definition sector_bytes :: "gpt_sector \<Rightarrow> u8 list" where
  "sector_bytes b = hdr_bytes (fst b) @ snd b"

section \<open>dsk\_flushgpt\<close>

text \<open>\<open>if (!pt2)\<close>: the second header is made of the first one, whose position of the second may
  be set; the first component is the first header afterwards.\<close>

definition make_hdr2 :: "hdd_info \<Rightarrow> disk_gpt \<Rightarrow> u8 list \<Rightarrow> disk_gpt \<times> (qserr + gpt_sector)" where
  "make_hdr2 hi pt pad =
    (let pt = (if GPT_Hdr2Pos pt = 0 \<or> GPT_Hdr2Pos pt = - 1
               then pt\<lparr>GPT_Hdr2Pos := hd_total hi - 1\<rparr> else pt) in
     (pt, if GPT_Hdr2Pos pt - of_nat (gpt_sectors hi) \<le> GPT_UserLast pt then Inl E_PTE_GPTHDR
          else if GPT_Hdr2Pos pt \<ge> hd_total hi then Inl E_PTE_GPTHDR
          else Inr (pt\<lparr>GPT_PtInfo := GPT_Hdr2Pos pt - of_nat (gpt_sectors hi),
                       GPT_Hdr1Pos := GPT_Hdr2Pos pt, GPT_Hdr2Pos := GPT_Hdr1Pos pt\<rparr>, pad)))"

text \<open>The second header, and the first one with the sum of the table.\<close>

definition flush_hdrs :: "hdd_info \<Rightarrow> gpt_record list \<Rightarrow> disk_gpt \<Rightarrow> u8 list
    \<Rightarrow> disk_gpt \<times> (qserr + gpt_sector)" where
  "flush_hdrs hi rs pt pad =
    (let pt = pt\<lparr>GPT_PtCRC := table_crc (take (unat (GPT_PtCout pt)) rs)\<rparr> in
     case ghead2 hi of None \<Rightarrow> make_hdr2 hi pt pad | Some b \<Rightarrow> (pt, Inr b))"

text \<open>The four writes: table and header of the second copy, then of the first.\<close>

definition write_all :: "(u64 \<times> u8 list list) list \<Rightarrow> dskio \<Rightarrow> qserr \<times> dskio" where
  "write_all ws io = fold (\<lambda>(pos, bs) (rc, io).
      if rc \<noteq> E_OK then (rc, io)
      else (let r = dev_write io pos bs in
            (if fst r = length bs then E_OK else E_DSK_ERRWRITE, snd r))) ws (E_OK, io)"

definition table_sectors :: "hdd_info \<Rightarrow> gpt_record list \<Rightarrow> u8 list list" where
  "table_sectors hi rs = split_sectors (hd_ssize hi) (gpt_sectors hi) (recs_bytes rs @ ptg_tail hi)"

definition flush_writes :: "hdd_info \<Rightarrow> gpt_record list \<Rightarrow> gpt_sector \<Rightarrow> gpt_sector
    \<Rightarrow> (u64 \<times> u8 list list) list" where
  "flush_writes hi rs b1 b2 =
    [(GPT_PtInfo (fst b2), table_sectors hi rs), (GPT_Hdr2Pos (fst b1), [sector_bytes b2]),
     (GPT_PtInfo (fst b1), table_sectors hi rs), (GPT_Hdr1Pos (fst b1), [sector_bytes b1])]"

definition dsk_flushgpt :: "hdd_info \<Rightarrow> dskio \<Rightarrow> qserr \<times> hdd_info \<times> dskio" where
  "dsk_flushgpt hi io = (case (ptg hi, ghead hi) of
     (Some rs, Some (pt, pad)) \<Rightarrow>
       if gpthead hi = 0 then (E_SYS_INVPARM, hi, io)
       else (case flush_hdrs hi rs pt pad of
               (pt, Inl e) \<Rightarrow> (e, hi\<lparr>ghead := Some (pt, pad)\<rparr>, io)
             | (pt, Inr (pt2, pad2)) \<Rightarrow>
                 let b1 = (seal_hdr pt, pad);
                     b2 = (seal_hdr (pt2\<lparr>GPT_PtCRC := GPT_PtCRC pt\<rparr>), pad2);
                     r = write_all (flush_writes hi rs b1 b2) io in
                 (fst r, hi\<lparr>ghead := Some b1, ghead2 := Some b2\<rparr>, snd r))
   | _ \<Rightarrow> (E_SYS_INVPARM, hi, io))"

text \<open>\<open>update_rescan\<close>: the result is the one of the scan, not of the flush.\<close>

type_synonym rescan = "hdd_info \<Rightarrow> dskio \<Rightarrow> hdd_info"

definition update_rescan :: "rescan \<Rightarrow> gptst \<Rightarrow> hdd_info \<Rightarrow> qserr \<times> gptst" where
  "update_rescan rescan st hi =
    (let r = dsk_flushgpt hi (gs_io st); hi' = rescan (fst (snd r)) (snd (snd r)) in
     (scan_rc hi', st\<lparr>gs_hi := Some hi', gs_io := snd (snd r)\<rparr>))"

section \<open>dsk\_gptinit\<close>

definition GPT_MINSIZE :: nat where "GPT_MINSIZE = 16384 div GPT_RECSIZE"

definition gptinit_info :: "u8 list \<Rightarrow> hdd_info \<Rightarrow> hdd_info" where
  "gptinit_info guid hi =
    (let sectors = GPT_MINSIZE * GPT_RECSIZE div hd_ssize hi; last = hd_total hi - 1 in
     hi\<lparr>gpt_present := True, hybrid := False, gpthead := 1, gpt_size := GPT_MINSIZE,
        gpt_sectors := sectors, ptg := Some (replicate GPT_MINSIZE zero_rec), ptg_tail := [],
        ghead := Some (\<lparr>GPT_Sign = GPT_SIGNMAIN, GPT_Revision = 0x10000,
          GPT_HdrSize = of_nat DISK_GPT_SIZE, GPT_HdrCRC = 0, GPT_Reserved1 = 0, GPT_Hdr1Pos = 1,
          GPT_Hdr2Pos = last, GPT_UserFirst = 1 + of_nat sectors + 1,
          GPT_UserLast = last - of_nat sectors - 1, GPT_GUID = guid, GPT_PtInfo = 1 + 1,
          GPT_PtCout = of_nat GPT_MINSIZE, GPT_PtEntrySize = of_nat GPT_RECSIZE,
          GPT_PtCRC = 0\<rparr>, replicate (hd_ssize hi - DISK_GPT_SIZE) 0),
        ghead2 := None\<rparr>)"

text \<open>\<open>readerr\<close>: sector 0 cannot be read; \<open>parts\<close>: there is a table with partitions in the MBR.\<close>

definition dsk_gptinit :: "rescan \<Rightarrow> (dskio \<Rightarrow> bool \<times> dskio) \<Rightarrow> bool \<Rightarrow> bool \<Rightarrow> u8 list \<Rightarrow> gptst
    \<Rightarrow> qserr \<times> gptst" where
  "dsk_gptinit rescan newmbr readerr parts guid st = (case gs_hi st of
     None \<Rightarrow> (E_DSK_DISKNUM, st)
   | Some hi0 \<Rightarrow>
       let hi = rescan hi0 (gs_io st); st = st\<lparr>gs_hi := Some hi\<rparr> in
       if readerr then (E_DSK_ERRREAD, st)
       else if parts then (E_PTE_EMPTY, st)
       else let (ok, io) = newmbr (gs_io st); st = st\<lparr>gs_io := io\<rparr> in
         if \<not> ok then (E_DSK_ERRWRITE, st)
         else let (rc, hi', io') = dsk_flushgpt (gptinit_info guid hi) io in
           if rc \<noteq> E_OK then (rc, st\<lparr>gs_hi := Some hi', gs_io := io'\<rparr>)
           else (E_OK, st\<lparr>gs_hi := Some (rescan hi' io'), gs_io := io'\<rparr>))"

section \<open>dsk\_gptdel\<close>

definition memmove_del :: "'a list \<Rightarrow> nat \<Rightarrow> 'a \<Rightarrow> 'a list" where
  "memmove_del xs i z = take i xs @ drop (Suc i) xs @ [z]"

definition unmount_at :: "u32 \<times> u64 \<Rightarrow> (u32 \<times> u64) option list \<Rightarrow> (u32 \<times> u64) option list" where
  "unmount_at v vols = map (\<lambda>(i, w). if 2 \<le> i \<and> w = Some v then None else w) (enumerate 0 vols)"

definition dsk_gptdel :: "rescan \<Rightarrow> u32 \<Rightarrow> nat \<Rightarrow> u64 \<Rightarrow> gptst \<Rightarrow> qserr \<times> gptst" where
  "dsk_gptdel rescan disk index start st = (case gs_hi st of
     None \<Rightarrow> (E_DSK_DISKNUM, st)
   | Some hi \<Rightarrow>
       if scan_rc hi \<noteq> E_OK then (scan_rc hi, st)
       else if \<not> gpt_present hi then (E_PTE_MBRDISK, st)
       else if hybrid hi then (E_PTE_HYBRID, st)
       else let st = st\<lparr>gs_vols := unmount_at (disk, start) (gs_vols st)\<rparr> in
         if gpt_view hi \<le> index then (E_PTE_PINDEX, st)
         else (case memchr_pos (gpt_index hi) (of_nat index) of
             None \<Rightarrow> (E_PTE_PINDEX, st)
           | Some pidx \<Rightarrow>
               let rs = the (ptg hi) in
               if PTG_FirstSec (rs ! pidx) \<noteq> start then (E_PTE_RESCAN, st)
               else update_rescan rescan st (hi\<lparr>ptg := Some (memmove_del rs pidx zero_rec)\<rparr>)))"

section \<open>dsk\_gptcreate\<close>

definition ptrec_compare :: "gpt_record \<Rightarrow> gpt_record \<Rightarrow> int" where
  "ptrec_compare r1 r2 =
    (if PTG_FirstSec r1 = PTG_FirstSec r2 then 0
     else if PTG_FirstSec r1 = 0 \<and> PTG_FirstSec r2 \<noteq> 0 then 1
     else if PTG_FirstSec r2 \<noteq> 0 \<and> PTG_FirstSec r1 > PTG_FirstSec r2 then 1 else - 1)"

definition fits_block :: "u64 \<Rightarrow> u64 \<Rightarrow> freeblock \<Rightarrow> bool" where
  "fits_block start sz fb \<longleftrightarrow> fb_start fb \<le> start \<and> fb_start fb + fb_length fb > start \<and>
     (sz = 0 \<or> start + sz \<le> fb_start fb + fb_length fb)"

text \<open>The slot for the new record: the first free one takes \<open>start\<close>, the table is sorted, and
  the first record that begins at \<open>start\<close> is the one to fill.\<close>

definition make_slot :: "u64 \<Rightarrow> gpt_record list \<Rightarrow> (nat \<times> gpt_record list) option" where
  "make_slot start rs = (case find_pos (\<lambda>r. PTG_FirstSec r = 0) rs of
     None \<Rightarrow> None
   | Some ii \<Rightarrow> (case qsort ptrec_compare (rs[ii := (rs ! ii)\<lparr>PTG_FirstSec := start\<rparr>]) of
       None \<Rightarrow> None
     | Some srt \<Rightarrow> (case find_pos (\<lambda>r. PTG_FirstSec r = start) srt of
         None \<Rightarrow> None | Some widx \<Rightarrow> Some (widx, srt))))"

text \<open>\<open>None\<close>: the list of free blocks is empty, and the code tests a pointer that no iteration of
  the loop has set. \<open>typename\<close> is the message found for the type, \<open>aliases\<close> the four well-known
  types that small values of the argument select.\<close>

datatype guid_arg = Alias nat | Guid "u8 list"

definition new_record :: "u64 \<Rightarrow> u64 \<Rightarrow> u8 list \<Rightarrow> u8 list \<Rightarrow> u16 list option \<Rightarrow> u16 list \<Rightarrow> gpt_record" where
  "new_record start sz tguid guid typename unnamed =
    \<lparr> PTG_TypeGUID = tguid, PTG_GUID = guid, PTG_FirstSec = start, PTG_LastSec = start + sz - 1,
      PTG_Attrs = 0,
      PTG_Name = (let name = (case typename of Some n \<Rightarrow> take 35 (takeWhile (\<lambda>c. c \<noteq> 0) n)
                              | None \<Rightarrow> take 35 unnamed) in
                  name @ replicate (36 - length name) 0) \<rparr>"

definition DFBA_PRIMARY :: u32 where "DFBA_PRIMARY = 1"

definition dsk_gptcreate :: "rescan \<Rightarrow> u8 list list \<Rightarrow> (u8 list \<Rightarrow> u16 list option) \<Rightarrow> u16 list \<Rightarrow> u8 list
    \<Rightarrow> u64 \<Rightarrow> u64 \<Rightarrow> u32 \<Rightarrow> guid_arg \<Rightarrow> gptst \<Rightarrow> (qserr \<times> gptst) option" where
  "dsk_gptcreate rescan aliases typename unnamed guid start sz flags targ st = (case gs_hi st of
     None \<Rightarrow> Some (E_DSK_DISKNUM, st)
   | Some hi \<Rightarrow>
       if scan_rc hi \<noteq> E_OK then Some (scan_rc hi, st)
       else if \<not> gpt_present hi then Some (E_PTE_MBRDISK, st)
       else if hybrid hi then Some (E_PTE_HYBRID, st)
       else if flags AND NOT DFBA_PRIMARY \<noteq> 0 then Some (E_SYS_INVPARM, st)
       else if fsp hi = [] then None
       else (case find (fits_block start sz) (fsp hi) of
           None \<Rightarrow> Some (E_PTE_NOFREE, st)
         | Some fb \<Rightarrow>
             let sz' = (if sz = 0 then fb_start fb + fb_length fb - start else sz) in
             (case make_slot start (the (ptg hi)) of
                None \<Rightarrow> Some (E_PTE_NOPRFREE, st)
              | Some (widx, rs) \<Rightarrow>
                  let tguid = (case targ of Alias k \<Rightarrow> aliases ! k | Guid g \<Rightarrow> g);
                      ne = new_record start sz' tguid guid (typename tguid) unnamed in
                  Some (update_rescan rescan st (hi\<lparr>ptg := Some (rs[widx := ne])\<rparr>)))))"

section \<open>dsk\_gptpset, dsk\_gptdset, dsk\_gptactive\<close>

record gptpartinfo =
  pi_type :: "u8 list"
  pi_guid :: "u8 list"
  pi_start :: u64
  pi_length :: u64
  pi_attr :: u64
  pi_name :: "u16 list"

text \<open>\<open>isgpt\<close> is the result of \<open>dsk_isgpt\<close> for the partition.\<close>

definition pset_record :: "gptpartinfo \<Rightarrow> gpt_record \<Rightarrow> qserr + gpt_record" where
  "pset_record p r =
    (if PTG_FirstSec r \<noteq> pi_start p \<or> pi_length p \<noteq> PTG_LastSec r - PTG_FirstSec r + 1
     then Inl E_PTE_RESCAN
     else if memchrn_pos (pi_type p) 0 = None \<or> memchrn_pos (pi_guid p) 0 = None
       \<or> memchrn_pos (PTG_Name r) 0 \<noteq> None \<and> memchrn_pos (pi_name p) 0 = None
     then Inl E_SYS_INVPARM
     else Inr (r\<lparr>PTG_TypeGUID := pi_type p, PTG_GUID := pi_guid p, PTG_Name := pi_name p,
                 PTG_Attrs := pi_attr p\<rparr>))"

definition dsk_gptpset :: "rescan \<Rightarrow> int \<Rightarrow> nat \<Rightarrow> gptpartinfo option \<Rightarrow> gptst \<Rightarrow> qserr \<times> gptst" where
  "dsk_gptpset rescan isgpt index pinfo st = (case (gs_hi st, pinfo) of
     (None, _) \<Rightarrow> (E_DSK_DISKNUM, st)
   | (Some hi, None) \<Rightarrow> (E_SYS_INVPARM, st)
   | (Some hi, Some p) \<Rightarrow>
       if scan_rc hi \<noteq> E_OK then (scan_rc hi, st)
       else if isgpt \<le> 0 then (E_PTE_MBRDISK, st)
       else (case memchr_pos (gpt_index hi) (of_nat index) of
           None \<Rightarrow> (E_PTE_PINDEX, st)
         | Some pidx \<Rightarrow>
             let rs = the (ptg hi) in
             (case pset_record p (rs ! pidx) of
                Inl e \<Rightarrow> (e, st)
              | Inr r \<Rightarrow> update_rescan rescan st (hi\<lparr>ptg := Some (rs[pidx := r])\<rparr>))))"

record gptdiskinfo =
  di_guid :: "u8 list"
  di_first :: u64
  di_last :: u64

text \<open>A block of the disk map: is it a partition, its start and its length.\<close>

type_synonym mapblock = "bool \<times> u64 \<times> u64"

definition dset_range :: "mapblock list option \<Rightarrow> gptdiskinfo \<Rightarrow> hdd_info \<Rightarrow> disk_gpt \<Rightarrow> qserr" where
  "dset_range getmap d hi pt =
    (if hybrid hi then E_PTE_HYBRID
     else if di_first d > di_last d then E_SYS_INVPARM
     else (case ghead2 hi of
         None \<Rightarrow> E_PTE_RESCAN
       | Some (pt2, _) \<Rightarrow>
           if GPT_Hdr1Pos pt > GPT_Hdr2Pos pt then E_PTE_GPTHDR
           else if di_first d \<le> GPT_Hdr1Pos pt
             \<or> di_first d < GPT_PtInfo pt + of_nat (gpt_sectors hi) then E_PTE_NOFREE
           else if di_last d \<ge> GPT_Hdr2Pos pt \<or> di_last d \<ge> GPT_PtInfo pt2 then E_PTE_NOFREE
           else (case getmap of
               None \<Rightarrow> E_PTE_NOFREE
             | Some mb \<Rightarrow>
                 if \<exists>(used, s, l) \<in> set mb. used \<and> (s < di_first d \<or> s + l - 1 > di_last d)
                 then E_PTE_NOFREE else E_OK)))"

definition set_user :: "gptdiskinfo \<Rightarrow> gpt_sector \<Rightarrow> gpt_sector" where
  "set_user d b = ((fst b)\<lparr>GPT_UserFirst := di_first d, GPT_UserLast := di_last d\<rparr>, snd b)"

definition dsk_gptdset :: "rescan \<Rightarrow> mapblock list option \<Rightarrow> gptdiskinfo option \<Rightarrow> gptst \<Rightarrow> qserr \<times> gptst" where
  "dsk_gptdset rescan getmap dinfo st = (case (gs_hi st, dinfo) of
     (None, _) \<Rightarrow> (E_DSK_DISKNUM, st)
   | (Some hi, None) \<Rightarrow> (E_SYS_INVPARM, st)
   | (Some hi, Some d) \<Rightarrow>
       if scan_rc hi \<noteq> E_OK then (scan_rc hi, st)
       else if \<not> gpt_present hi then (E_PTE_MBRDISK, st)
       else if memchrn_pos (di_guid d) 0 = None then (E_SYS_INVPARM, st)
       else let b = the (ghead hi); pt = fst b;
             moved = (di_first d \<noteq> 0 \<or> di_last d \<noteq> 0)
               \<and> (di_first d \<noteq> GPT_UserFirst pt \<or> di_last d \<noteq> GPT_UserLast pt);
             rc = (if moved then dset_range getmap d hi pt else E_OK) in
         if rc \<noteq> E_OK then (rc, st)
         else let hi = (if moved then hi\<lparr>ghead := Some (set_user d b),
                                          ghead2 := map_option (set_user d) (ghead2 hi)\<rparr> else hi);
                  (pt', pad) = the (ghead hi) in
           update_rescan rescan st (hi\<lparr>ghead := Some (pt'\<lparr>GPT_GUID := di_guid d\<rparr>, pad)\<rparr>))"

definition BIOSBOOT_BIT :: u64 where "BIOSBOOT_BIT = push_bit 2 1"

definition active_record :: "bool \<Rightarrow> gpt_record \<Rightarrow> gpt_record" where
  "active_record target r =
    (if PTG_FirstSec r = 0 \<or> (PTG_Attrs r AND BIOSBOOT_BIT \<noteq> 0) = target then r
     else r\<lparr>PTG_Attrs := (if target then PTG_Attrs r OR BIOSBOOT_BIT
                          else PTG_Attrs r AND NOT BIOSBOOT_BIT)\<rparr>)"

definition dsk_gptactive :: "rescan \<Rightarrow> nat \<Rightarrow> gptst \<Rightarrow> qserr \<times> gptst" where
  "dsk_gptactive rescan index st = (case gs_hi st of
     None \<Rightarrow> (E_DSK_DISKNUM, st)
   | Some hi \<Rightarrow>
       if scan_rc hi \<noteq> E_OK then (scan_rc hi, st)
       else if \<not> gpt_present hi then (E_PTE_MBRDISK, st)
       else if index \<ge> gpt_view hi then (E_PTE_PINDEX, st)
       else if memchr_pos (gpt_index hi) (of_nat index) = None then (E_PTE_PINDEX, st)
       else let rs = the (ptg hi);
                rs' = map2 (\<lambda>i r. active_record (i = of_nat index) r) (gpt_index hi) rs in
         if rs' \<noteq> rs then update_rescan rescan st (hi\<lparr>ptg := Some rs'\<rparr>) else (E_OK, st))"

section \<open>dsk\_gptfind\<close>

datatype gptn = GPTN_DISK | GPTN_PARTITION | GPTN_PARTTYPE

text \<open>One disk: the first record with the GUID that has an index.\<close>

fun find_rec :: "gptn \<Rightarrow> u8 list \<Rightarrow> (u32 \<times> gpt_record) list \<Rightarrow> u32 option" where
  "find_rec t guid [] = None"
| "find_rec t guid ((ix, r) # rs) =
    (if PTG_FirstSec r \<noteq> 0 \<and> (if t = GPTN_PARTITION then PTG_GUID r else PTG_TypeGUID r) = guid
       \<and> ix \<noteq> 0xFFFFFFFF then Some ix else find_rec t guid rs)"

definition gptfind_on :: "gptn \<Rightarrow> u8 list \<Rightarrow> hdd_info option \<Rightarrow> qserr + u32" where
  "gptfind_on t guid d = (case d of
     None \<Rightarrow> Inl E_DSK_DISKNUM
   | Some hi \<Rightarrow> if gpt_size hi = 0 then Inl E_PTE_MBRDISK
       else (case find_rec t guid (zip (gpt_index hi) (the (ptg hi))) of
         None \<Rightarrow> Inl E_PTE_PINDEX | Some ix \<Rightarrow> Inr ix))"

text \<open>All disks: the scanned disks in their order; the result is the disk and the index.\<close>

fun gptfind_all :: "gptn \<Rightarrow> u8 list \<Rightarrow> nat \<Rightarrow> hdd_info option list \<Rightarrow> qserr + nat \<times> u32 option" where
  "gptfind_all t guid ii [] = Inl E_PTE_PINDEX"
| "gptfind_all t guid ii (None # ds) = gptfind_all t guid (Suc ii) ds"
| "gptfind_all t guid ii (Some hi # ds) =
    (if gpt_size hi = 0 then gptfind_all t guid (Suc ii) ds
     else if t = GPTN_DISK
     then (if GPT_GUID (fst (the (ghead hi))) = guid then Inr (ii, None)
           else gptfind_all t guid (Suc ii) ds)
     else (case gptfind_on t guid (Some hi) of
             Inr ix \<Rightarrow> Inr (ii, Some ix)
           | Inl e \<Rightarrow> gptfind_all t guid (Suc ii) ds))"

definition dsk_gptfind :: "u8 list \<Rightarrow> gptn \<Rightarrow> nat option \<Rightarrow> hdd_info option list
    \<Rightarrow> qserr + nat \<times> u32 option" where
  "dsk_gptfind guid t disk disks =
    (if memchrn_pos guid 0 = None then Inl E_SYS_INVPARM
     else case disk of
       None \<Rightarrow> gptfind_all t guid 0 disks
     | Some d \<Rightarrow> if t = GPTN_DISK then gptfind_all t guid 0 disks
         else rbind (gptfind_on t guid (if d < length disks then disks ! d else None))
                (\<lambda>ix. Inr (d, Some ix)))"

end
