(* ===== verification/GptScan.thy ===== *)
theory GptScan
  imports GptMgr
begin

text \<open>
  Reading a GPT: the type of a sector (\<open>dsk_datatype\<close>, \<open>dsk_sectortype\<close> of partmgr/pboot.c), the
  scan of both headers and the table (\<open>scan_gpt\<close> of partmgr/pscan.c), and what \<open>scan_disk\<close> makes
  of the table of a disk that has no other partitions: the index of the records and the list of
  free blocks. Memory is taken as available, and \<open>_setdisksize\<close> is an argument.
\<close>

section \<open>The type of a sector\<close>

datatype dskst = DSKST_ERROR | DSKST_EMPTY | DSKST_PTABLE | DSKST_BOOTFAT | DSKST_BOOTBPB | DSKST_BOOT
  | DSKST_DATA | DSKST_GPTHEAD | DSKST_BOOTEXF | DSKST_CDFSVD

definition upper8 :: "u8 \<Rightarrow> u8" where
  "upper8 c = (if 0x61 \<le> c \<and> c \<le> 0x7A then c - 0x20 else c)"

definition u16_at :: "nat \<Rightarrow> u8 list \<Rightarrow> u16" where "u16_at ofs bs = un_le (field ofs 2 bs)"
definition u32_at :: "nat \<Rightarrow> u8 list \<Rightarrow> u32" where "u32_at ofs bs = un_le (field ofs 4 bs)"

definition size_valid :: "nat \<Rightarrow> bool" where
  "size_valid n \<longleftrightarrow> n = 512 \<or> n = 1024 \<or> n = 2048 \<or> n = 4096"

text \<open>The loop over the four records of a partition table: does it reach the last one?\<close>

definition mbr_rec_ok :: "u8 list \<Rightarrow> nat \<Rightarrow> bool" where
  "mbr_rec_ok bs i = (let b = field (446 + 16 * i) 16 bs; active = b ! 0; ptype = b ! 4;
       start = u32_at 8 b; sz = u32_at 12 b in
     \<not> (active < 0x80 \<and> active \<noteq> 0) \<and> \<not> (ptype \<noteq> 0 \<and> (start = 0 \<or> sz = 0))
     \<and> \<not> (ptype = 0xFF \<and> start = 0xFFFFFFFF))"

definition boot_type :: "u8 list \<Rightarrow> bool \<Rightarrow> bool \<Rightarrow> bool \<Rightarrow> dskst" where
  "boot_type bs floppy volume is0 =
    (let bpb = size_valid (unat (u16_at 11 bs));
         fat = field (if u16_at 17 bs = 0 then 82 else 54) 3 bs = [0x46, 0x41, 0x54];
         ntfs = map upper8 (field 3 4 bs) = [0x4E, 0x54, 0x46, 0x53];
         exf = \<not> ntfs \<and> map upper8 (field 3 5 bs) = [0x45, 0x58, 0x46, 0x41, 0x54];
         boot = (if bpb then 1 else 0) + (if fat then 2 else 0) + (if ntfs \<or> exf then 100 else 0)
           + (if is0 \<and> volume then 100 else (0::nat));
         pt = (if is0 \<and> \<not> floppy \<and> \<not> volume then 1 else 0)
           + (if \<forall>i\<in>set [0..<4]. mbr_rec_ok bs i then 1 else (0::nat)) in
     if pt > boot then DSKST_PTABLE else if fat then DSKST_BOOTFAT else if exf then DSKST_BOOTEXF
     else if bpb then DSKST_BOOTBPB else DSKST_BOOT)"

definition dsk_datatype :: "u8 list \<Rightarrow> nat \<Rightarrow> bool \<Rightarrow> bool \<Rightarrow> bool \<Rightarrow> dskst" where
  "dsk_datatype bs ssize floppy volume is0 =
    (if \<not> size_valid ssize then DSKST_ERROR
     else if u16_at 510 bs = 0xAA55 then boot_type bs floppy volume is0
     else let h = hdr_view bs in
       if GPT_Sign h = GPT_SIGNMAIN \<and> GPT_PtEntrySize h = of_nat GPT_RECSIZE
         \<and> GPT_HdrSize h \<ge> of_nat DISK_GPT_SIZE then DSKST_GPTHEAD
       else if memchrn_pos (take ssize bs) 0 = None then DSKST_EMPTY
       else if field 1 5 bs = [0x43, 0x44, 0x30, 0x30, 0x31] then DSKST_CDFSVD else DSKST_DATA)"

text \<open>A hard disk; the sector buffer afterwards comes with the type.\<close>

definition dsk_sectortype :: "hdd_info \<Rightarrow> dskio \<Rightarrow> u64 \<Rightarrow> u8 list \<Rightarrow> dskst \<times> u8 list" where
  "dsk_sectortype hi io pos buf = (case dev_read io pos 1 of
     [] \<Rightarrow> (DSKST_ERROR, buf)
   | b # _ \<Rightarrow> (dsk_datatype b (hd_ssize hi) False False (pos = 0), b))"

section \<open>scan\_gpt\<close>

definition hdr_sector :: "u8 list \<Rightarrow> gpt_sector" where
  "hdr_sector b = (hdr_view b, drop DISK_GPT_SIZE b)"

text \<open>The table: \<open>gpt_sectors\<close> sectors into the buffer of the records.\<close>

definition load_table :: "u64 \<Rightarrow> dskio \<Rightarrow> hdd_info \<Rightarrow> bool \<times> hdd_info" where
  "load_table pos io hi = (let rd = dev_read io pos (gpt_sectors hi) in
     if length rd = gpt_sectors hi
     then (True, hi\<lparr>ptg := Some (recs_view (gpt_size hi) (concat rd)),
                    ptg_tail := drop (GPT_RECSIZE * gpt_size hi) (concat rd)\<rparr>)
     else (False, hi\<lparr>ptg := Some (replicate (gpt_size hi) zero_rec), ptg_tail := []\<rparr>))"

definition table_sectors_of :: "hdd_info \<Rightarrow> nat \<Rightarrow> nat" where
  "table_sectors_of hi n = (let recinsec = hd_ssize hi div GPT_RECSIZE in
     n div recinsec + (if n mod recinsec \<noteq> 0 then 1 else 0))"

text \<open>Header 2; \<open>Inl\<close> ends the scan with the error.\<close>

definition scan_hdr2 :: "(u64 \<Rightarrow> bool) \<Rightarrow> dskio \<Rightarrow> disk_gpt \<Rightarrow> hdd_info \<Rightarrow> qserr \<times> hdd_info" where
  "scan_hdr2 setdisksize io pt hi =
    (if GPT_Hdr2Pos pt = 0 \<or> GPT_Hdr2Pos pt = - 1 then (E_OK, hi)
     else let (t, b) = dsk_sectortype hi io (GPT_Hdr2Pos pt) (replicate (hd_ssize hi) 0);
              hi2 = hi\<lparr>ghead2 := Some (hdr_sector b)\<rparr> in
       if GPT_Hdr2Pos pt \<ge> hd_total hi then
         (if (GPT_Hdr2Pos pt + 1) AND 0xFFFFFFFF = hd_total hi \<and> setdisksize (GPT_Hdr2Pos pt + 1)
          then (if t = DSKST_GPTHEAD \<and> GPT_Hdr2Pos (hdr_view b) = GPT_Hdr1Pos pt
                then (E_PTE_RESCAN, hi2) else (E_PTE_GPTHDR, hi2))
          else (E_PTE_GPTHDR, hi))
       else if t \<noteq> DSKST_GPTHEAD then
         (if GPT_Hdr2Pos pt \<ge> 0x100000000 then (E_DSK_2TBERR, hi2)
          else if GPT_Hdr2Pos pt - of_nat (gpt_sectors hi) \<le> GPT_UserLast pt then (E_PTE_GPTHDR, hi2)
          else (E_OK, hi\<lparr>ghead2 := None\<rparr>))
       else if GPT_PtInfo (hdr_view b) \<le> GPT_UserLast pt then (E_PTE_GPTHDR2, hi2)
       else (E_OK, hi2))"

definition scan_gpt :: "(u64 \<Rightarrow> bool) \<Rightarrow> dskio \<Rightarrow> hdd_info \<Rightarrow> qserr \<times> hdd_info" where
  "scan_gpt setdisksize io hi =
    (let zeros = replicate (hd_ssize hi) 0;
         (t, b) = dsk_sectortype hi io (gpthead hi) zeros;
         pt = hdr_view b;
         hi = hi\<lparr>ghead := Some (hdr_sector b), ghead2 := Some (hdr_sector zeros)\<rparr> in
     if t \<noteq> DSKST_GPTHEAD then (E_PTE_GPTHDR, hi)
     else if GPT_Hdr1Pos pt \<noteq> gpthead hi then (E_PTE_GPTHDR, hi)
     else if GPT_PtCout pt > 0x100000 then (E_PTE_GPTLARGE, hi)
     else let n = unat (GPT_PtCout pt);
              hi = hi\<lparr>gpt_size := n, gpt_sectors := table_sectors_of hi n,
                      gpt_index := replicate n 0xFFFFFFFF\<rparr>;
              (table_ok, hi) = load_table (GPT_PtInfo pt) io hi;
              (rc, hi) = scan_hdr2 setdisksize io pt hi in
       if rc \<noteq> E_OK then (rc, hi)
       else if table_ok then (E_OK, hi)
       else (case ghead2 hi of
           None \<Rightarrow> (E_DSK_ERRREAD, hi)
         | Some (pt2, _) \<Rightarrow> (let (ok, hi) = load_table (GPT_PtInfo pt2) io hi in
             (if ok then E_OK else E_DSK_ERRREAD, hi))))"

section \<open>The index of the records and the free blocks (scan\_disk)\<close>

definition rec_counts :: "gpt_record \<Rightarrow> bool" where
  "rec_counts r \<longleftrightarrow> PTG_FirstSec r \<noteq> 0 \<and> PTG_LastSec r > PTG_FirstSec r"

fun number_recs :: "nat \<Rightarrow> (u32 \<times> gpt_record) list \<Rightarrow> nat \<times> u32 list" where
  "number_recs idx [] = (idx, [])"
| "number_recs idx ((ix, r) # rs) =
    (if ix = 0xFFFFFFFF \<and> rec_counts r
     then (let (n, ixs) = number_recs (Suc idx) rs in (n, of_nat idx # ixs))
     else (let (n, ixs) = number_recs idx rs in (n, ix # ixs)))"

type_synonym dsk_pos = "u64 \<times> u64"

definition dsk_pos_compare :: "dsk_pos \<Rightarrow> dsk_pos \<Rightarrow> int" where
  "dsk_pos_compare a b = (if fst a > fst b then 1 else if fst a = fst b then 0 else - 1)"

definition gpt_used :: "gpt_record list \<Rightarrow> dsk_pos list" where
  "gpt_used rs = map (\<lambda>r. (PTG_FirstSec r, PTG_LastSec r - PTG_FirstSec r + 1)) (filter rec_counts rs)"

text \<open>The walk over the sorted used blocks: the free blocks between them, and \<open>lpnext\<close>.\<close>

fun free_walk :: "u64 \<Rightarrow> u64 \<Rightarrow> dsk_pos list \<Rightarrow> dsk_pos list \<times> u64" where
  "free_walk spt lpnext [] = ([], lpnext)"
| "free_walk spt lpnext ((start, sz) # us) =
    (let (fs, lp) = free_walk spt (start + sz) us in
     (if start < lpnext then fs
      else if start - lpnext > spt then (lpnext, start - lpnext) # fs else fs, lp))"

definition free_list :: "u64 \<Rightarrow> u64 \<Rightarrow> u64 \<Rightarrow> dsk_pos list \<Rightarrow> dsk_pos list" where
  "free_list spt userfirst userlast us =
    (let (fs, lp) = free_walk spt userfirst us in
     fs @ (if userlast > lp \<and> userlast - lp > spt then [(lp, userlast - lp + 1)] else []))"

definition DFBA_AF :: u32 where "DFBA_AF = 0x20"

definition make_fsp :: "nat \<Rightarrow> dsk_pos list \<Rightarrow> freeblock list" where
  "make_fsp ssize fs = map (\<lambda>(i, s, l). \<lparr> fb_start = s, fb_length = l, fb_index = i,
     fb_flags = DFBA_PRIMARY OR
       (if s AND (of_nat (4096 div ssize) - 1) = 0 then DFBA_AF else 0) \<rparr>) (enumerate 0 fs)"

text \<open>The part of \<open>scan_disk\<close> after \<open>scan_gpt\<close>, for a disk without partitions in the MBR.\<close>

definition gpt_views :: "hdd_info \<Rightarrow> hdd_info option" where
  "gpt_views hi =
    (let rs = the (ptg hi); (n, ixs) = number_recs 0 (zip (gpt_index hi) rs);
         pt = fst (the (ghead hi)) in
     map_option (\<lambda>us. hi\<lparr>gpt_index := ixs, gpt_view := n,
         fsp := make_fsp (hd_ssize hi)
           (free_list (ucast (lvm_spt hi)) (GPT_UserFirst pt) (GPT_UserLast pt) us)\<rparr>)
       (qsort dsk_pos_compare (gpt_used rs)))"

end
