(* ===== verification/GptFlush.thy ===== *)
theory GptFlush
  imports GptScan
begin

text \<open>
  The flush of a GPT against the scan and against a failing device: what a complete copy on the
  medium is, what every prefix of the four writes leaves intact, and that the scan of a flushed
  disk finds what was written.
\<close>

section \<open>A complete copy on the medium\<close>

text \<open>The records of the copy whose header is in sector \<open>pos\<close>, if both sums agree.\<close>

definition sector_run :: "(nat \<Rightarrow> u8 list) \<Rightarrow> nat \<Rightarrow> nat \<Rightarrow> u8 list" where
  "sector_run m pos n = concat (map m [pos..<pos + n])"

lemma sector_run_cong:
  "(\<And>s. pos \<le> s \<Longrightarrow> s < pos + n \<Longrightarrow> m' s = m s) \<Longrightarrow> sector_run m' pos n = sector_run m pos n"
  unfolding sector_run_def by (rule arg_cong [where f = concat]) simp

definition gpt_copy :: "nat \<Rightarrow> (nat \<Rightarrow> u8 list) \<Rightarrow> u64 \<Rightarrow> gpt_record list option" where
  "gpt_copy secs m pos = (let h = hdr_view (m (unat pos)); n = unat (GPT_PtCout h);
       bs = sector_run m (unat (GPT_PtInfo h)) secs in
     if GPT_Sign h = GPT_SIGNMAIN \<and> GPT_Hdr1Pos h = pos
       \<and> GPT_HdrCRC h = hdr_crc (h\<lparr>GPT_HdrCRC := 0\<rparr>)
       \<and> GPT_PtCRC h = crc32 (crc32 0 None) (Some (take (GPT_RECSIZE * n) bs))
     then Some (recs_view n bs) else None)"

lemma gpt_copy_cong:
  assumes "m' (unat pos) = m (unat pos)"
    and "\<And>s. unat (GPT_PtInfo (hdr_view (m (unat pos)))) \<le> s \<Longrightarrow>
           s < unat (GPT_PtInfo (hdr_view (m (unat pos)))) + secs \<Longrightarrow> m' s = m s"
  shows "gpt_copy secs m' pos = gpt_copy secs m pos"
  unfolding gpt_copy_def Let_def assms(1)
  by (simp only: sector_run_cong [OF assms(2)])

section \<open>Buffers and sectors\<close>

lemma length_split [simp]: "length (split_sectors ssize n bs) = n"
  by (simp add: split_sectors_def)

lemma take_fields: "take (ssize * n) bs @ field (ssize * n) ssize bs = take (ssize * Suc n) bs"
  by (metis field_def mult_Suc_right add.commute take_add)

lemma concat_split: "concat (split_sectors ssize n bs) = take (ssize * n) bs"
  by (induction n) (simp_all add: split_sectors_def take_fields)

section \<open>The writes\<close>

lemma write_failed: "rc \<noteq> E_OK \<Longrightarrow> fold (\<lambda>(pos, bs) (rc, io).
      if rc \<noteq> E_OK then (rc, io)
      else (let r = dev_write io pos bs in
            (if fst r = length bs then E_OK else E_DSK_ERRWRITE, snd r))) ws (rc, io) = (rc, io)"
  by (induction ws) auto

lemma write_all_Nil: "write_all [] io = (E_OK, io)"
  by (simp add: write_all_def)

lemma write_all_Cons: "write_all ((pos, bs) # ws) io = (let r = dev_write io pos bs in
    if fst r = length bs then write_all ws (snd r) else (E_DSK_ERRWRITE, snd r))"
  by (simp add: write_all_def Let_def write_failed)

lemmas write_all_steps = write_all_Nil write_all_Cons

text \<open>\<open>region\<close>: the sectors of a write. A write changes no other sector, and a complete one
  leaves its data there.\<close>

definition region :: "u64 \<times> u8 list list \<Rightarrow> nat set" where
  "region w = {unat (fst w)..<unat (fst w) + length (snd w)}"

lemma diskwrite_frame:
  "s \<notin> region (pos, bs) \<Longrightarrow> media (snd (dev_write io pos bs)) s = media io s"
  by (auto simp: dev_write_def Let_def put_media_def region_def)

lemma diskwrite_data:
  "fst (dev_write io pos bs) = length bs \<Longrightarrow> i < length bs \<Longrightarrow>
   media (snd (dev_write io pos bs)) (unat pos + i) = bs ! i"
  by (auto simp: dev_write_def Let_def put_media_def)

lemma diskwrite_unread [simp]: "unread (snd (dev_write io pos bs)) = unread io"
  by (simp add: dev_write_def Let_def)

definition holds_data :: "(nat \<Rightarrow> u8 list) \<Rightarrow> u64 \<times> u8 list list \<Rightarrow> bool" where
  "holds_data m w \<longleftrightarrow> (\<forall>i<length (snd w). m (unat (fst w) + i) = snd w ! i)"

lemma in_region: "i < length (snd w) \<Longrightarrow> unat (fst w) + i \<in> region w"
  by (simp add: region_def)

lemma write_all_frame:
  "\<forall>w\<in>set ws. s \<notin> region w \<Longrightarrow> media (snd (write_all ws io)) s = media io s"
  by (induction ws arbitrary: io) (auto simp: write_all_steps Let_def diskwrite_frame)

lemma write_all_unread [simp]: "unread (snd (write_all ws io)) = unread io"
  by (induction ws arbitrary: io) (auto simp: write_all_steps Let_def)

lemma write_all_keeps:
  "holds_data (media io) w \<Longrightarrow> \<forall>v\<in>set ws. region w \<inter> region v = {} \<Longrightarrow>
   holds_data (media (snd (write_all ws io))) w"
  unfolding holds_data_def
proof (intro allI impI)
  fix i
  assume w: "\<forall>i<length (snd w). media io (unat (fst w) + i) = snd w ! i"
    and apart: "\<forall>v\<in>set ws. region w \<inter> region v = {}" and i: "i < length (snd w)"
  have "\<forall>v\<in>set ws. unat (fst w) + i \<notin> region v"
    using apart in_region [OF i] by blast
  then show "media (snd (write_all ws io)) (unat (fst w) + i) = snd w ! i"
    using w i by (simp add: write_all_frame)
qed

lemma write_all_data:
  "fst (write_all ws io) = E_OK \<Longrightarrow> sorted_wrt (\<lambda>v w. region v \<inter> region w = {}) ws \<Longrightarrow>
   w \<in> set ws \<Longrightarrow> holds_data (media (snd (write_all ws io))) w"
proof (induction ws arbitrary: io)
  case (Cons v ws)
  obtain pos bs where v: "v = (pos, bs)" by (cases v)
  let ?r = "dev_write io pos bs"
  have full: "fst ?r = length bs" "fst (write_all ws (snd ?r)) = E_OK"
    using Cons.prems(1) by (auto simp: v write_all_Cons Let_def split: if_splits)
  have here: "holds_data (media (snd ?r)) v"
    using diskwrite_data [OF full(1)] by (simp add: holds_data_def v)
  show ?case
  proof (cases "w = v")
    case True
    then show ?thesis
      using here full Cons.prems(2) write_all_keeps [of "snd ?r" v ws]
      by (simp add: v write_all_Cons Let_def)
  next
    case False
    then show ?thesis
      using Cons.IH [OF full(2)] Cons.prems full by (simp add: v write_all_Cons Let_def)
  qed
qed simp

text \<open>Two writes, then two more: either the sectors of the last two are untouched, or the first
  two are complete.\<close>

lemma write_all_halves:
  "(\<forall>s. s \<notin> (\<Union>v\<in>set vs. region v) \<longrightarrow> media (snd (write_all (vs @ ws) io)) s = media io s)
   \<or> (\<exists>io'. write_all vs io = (E_OK, io') \<and> write_all (vs @ ws) io = write_all ws io')"
proof (induction vs arbitrary: io)
  case Nil
  then show ?case by (simp add: write_all_Nil)
next
  case (Cons v vs)
  obtain pos bs where v: "v = (pos, bs)" by (cases v)
  show ?case
  proof (cases "fst (dev_write io pos bs) = length bs")
    case True
    then show ?thesis
      using Cons [of "snd (dev_write io pos bs)"]
      by (auto simp: v write_all_Cons Let_def diskwrite_frame)
  next
    case False
    then show ?thesis by (simp add: v write_all_Cons Let_def diskwrite_frame)
  qed
qed

section \<open>A written copy is a complete copy\<close>

lemma sector_run_data:
  "holds_data m (pos, bs) \<Longrightarrow> sector_run m (unat pos) (length bs) = concat bs"
  unfolding sector_run_def holds_data_def
  by (rule arg_cong [where f = concat], rule nth_equalityI) simp_all

lemma seal_fields [simp]:
  "GPT_Sign (seal_hdr h) = GPT_Sign h" "GPT_Hdr1Pos (seal_hdr h) = GPT_Hdr1Pos h"
  "GPT_Hdr2Pos (seal_hdr h) = GPT_Hdr2Pos h" "GPT_PtInfo (seal_hdr h) = GPT_PtInfo h"
  "GPT_PtCout (seal_hdr h) = GPT_PtCout h" "GPT_PtCRC (seal_hdr h) = GPT_PtCRC h"
  "GPT_GUID (seal_hdr h) = GPT_GUID h" "GPT_UserFirst (seal_hdr h) = GPT_UserFirst h"
  "GPT_UserLast (seal_hdr h) = GPT_UserLast h" "GPT_HdrSize (seal_hdr h) = GPT_HdrSize h"
  "GPT_PtEntrySize (seal_hdr h) = GPT_PtEntrySize h"
  by (simp_all add: seal_hdr_def)

lemma seal_crc: "GPT_HdrCRC (seal_hdr h) = hdr_crc (seal_hdr h\<lparr>GPT_HdrCRC := 0\<rparr>)"
  by (simp add: seal_hdr_def)

text \<open>What a flush starts from: a table that fills its sectors, headers of whole sectors that
  point at each other, and four regions of the disk that do not meet.\<close>

definition hdr_shape :: "nat \<Rightarrow> gpt_record list \<Rightarrow> gpt_sector \<Rightarrow> bool" where
  "hdr_shape ssize rs b \<longleftrightarrow> GPT_Sign (fst b) = GPT_SIGNMAIN \<and> length (GPT_GUID (fst b)) = 16
     \<and> unat (GPT_PtCout (fst b)) = length rs \<and> DISK_GPT_SIZE + length (snd b) = ssize"

definition flush_ready :: "hdd_info \<Rightarrow> gpt_record list \<Rightarrow> gpt_sector \<Rightarrow> gpt_sector \<Rightarrow> bool" where
  "flush_ready hi rs b1 b2 \<longleftrightarrow> (\<forall>r\<in>set rs. rec_ok r)
     \<and> GPT_RECSIZE * length rs + length (ptg_tail hi) = hd_ssize hi * gpt_sectors hi
     \<and> hdr_shape (hd_ssize hi) rs b1 \<and> hdr_shape (hd_ssize hi) rs b2
     \<and> GPT_Hdr1Pos (fst b2) = GPT_Hdr2Pos (fst b1)
     \<and> sorted_wrt (\<lambda>v w. region v \<inter> region w = {}) (flush_writes hi rs b1 b2)"

lemma copy_written:
  assumes m: "holds_data m (GPT_PtInfo h, table_sectors hi rs)"
    "holds_data m (GPT_Hdr1Pos h, [sector_bytes (seal_hdr h, pad)])"
    and h: "hdr_shape (hd_ssize hi) rs (h, pad)" "GPT_PtCRC h = table_crc rs"
    and rs: "\<forall>r\<in>set rs. rec_ok r"
    "GPT_RECSIZE * length rs + length (ptg_tail hi) = hd_ssize hi * gpt_sectors hi"
  shows "gpt_copy (gpt_sectors hi) m (GPT_Hdr1Pos h) = Some rs"
proof -
  have "m (unat (GPT_Hdr1Pos h)) = hdr_bytes (seal_hdr h) @ pad"
    using m(2) by (simp add: holds_data_def sector_bytes_def)
  then have view: "hdr_view (m (unat (GPT_Hdr1Pos h))) = seal_hdr h"
    using h(1) by (simp add: hdr_view_bytes hdr_shape_def)
  have "concat (table_sectors hi rs) = recs_bytes rs @ ptg_tail hi"
    using rs by (simp add: table_sectors_def concat_split length_recs)
  then have table: "sector_run m (unat (GPT_PtInfo h)) (gpt_sectors hi) = recs_bytes rs @ ptg_tail hi"
    using sector_run_data [OF m(1)] by (simp add: table_sectors_def)
  have n: "unat (GPT_PtCout h) = length rs" using h(1) by (simp add: hdr_shape_def)
  have "take (GPT_RECSIZE * length rs) (recs_bytes rs @ ptg_tail hi) = recs_bytes rs"
    using rs by (simp add: length_recs)
  then show ?thesis
    using h seal_crc [of h] rs
    by (simp add: gpt_copy_def view table n table_crc_def hdr_shape_def recs_view_bytes)
qed

lemma flush_result:
  assumes "ptg hi = Some rs" "ghead hi = Some (pt0, pad)" "gpthead hi \<noteq> 0"
    "flush_hdrs hi rs pt0 pad = (pt, Inr (pt2, pad2))"
  shows "dsk_flushgpt hi io =
    (let b1 = (seal_hdr pt, pad); b2 = (seal_hdr (pt2\<lparr>GPT_PtCRC := GPT_PtCRC pt\<rparr>), pad2);
         r = write_all (flush_writes hi rs b1 b2) io in
     (fst r, hi\<lparr>ghead := Some b1, ghead2 := Some b2\<rparr>, snd r))"
  using assms by (simp add: dsk_flushgpt_def Let_def)

lemma flush_crc:
  "flush_hdrs hi rs pt0 pad = (pt, r) \<Longrightarrow> unat (GPT_PtCout pt) = length rs \<Longrightarrow> GPT_PtCRC pt = table_crc rs"
  by (auto simp: flush_hdrs_def make_hdr2_def Let_def split: option.splits if_splits)

lemma writes_regions:
  "flush_writes hi rs b1 b2 = [(GPT_PtInfo (fst b2), table_sectors hi rs),
     (GPT_Hdr2Pos (fst b1), [sector_bytes b2])] @ [(GPT_PtInfo (fst b1), table_sectors hi rs),
     (GPT_Hdr1Pos (fst b1), [sector_bytes b1])]"
  by (simp add: flush_writes_def)

lemma region_seal:
  "map region (flush_writes hi rs (seal_hdr pt, pad) (seal_hdr (pt2\<lparr>GPT_PtCRC := c\<rparr>), pad2))
   = map region (flush_writes hi rs (pt, pad) (pt2, pad2))"
  by (simp add: flush_writes_def region_def)

lemma flush_apart:
  assumes "flush_ready hi rs (pt, pad) (pt2, pad2)"
  shows "sorted_wrt (\<lambda>v w. region v \<inter> region w = {})
    (flush_writes hi rs (seal_hdr pt, pad) (seal_hdr (pt2\<lparr>GPT_PtCRC := c\<rparr>), pad2))"
proof -
  have "sorted_wrt (\<lambda>a b. a \<inter> b = {}) (map region (flush_writes hi rs (pt, pad) (pt2, pad2)))"
    using assms by (simp add: flush_ready_def sorted_wrt_map)
  then have "sorted_wrt (\<lambda>a b. a \<inter> b = {})
    (map region (flush_writes hi rs (seal_hdr pt, pad) (seal_hdr (pt2\<lparr>GPT_PtCRC := c\<rparr>), pad2)))"
    by (simp only: region_seal)
  then show ?thesis by (simp add: sorted_wrt_map)
qed

text \<open>C26: A device may fail at any sector of a flush. Then the first copy of the table is as it
  was, or the second one is complete and new; after a flush without an error both are; and no
  sector outside the four regions changes.\<close>

theorem gpt_flush_safe:
  assumes state: "ptg hi = Some rs" "ghead hi = Some (pt0, pad)" "gpthead hi \<noteq> 0"
    and hdrs: "flush_hdrs hi rs pt0 pad = (pt, Inr (pt2, pad2))"
    and ready: "flush_ready hi rs (pt, pad) (pt2, pad2)"
    and sync: "GPT_PtInfo (hdr_view (media io (unat (GPT_Hdr1Pos pt)))) = GPT_PtInfo pt"
    and flush: "dsk_flushgpt hi io = (rc, hi', io')"
  shows "(gpt_copy (gpt_sectors hi) (media io') (GPT_Hdr1Pos pt)
           = gpt_copy (gpt_sectors hi) (media io) (GPT_Hdr1Pos pt)
         \<or> gpt_copy (gpt_sectors hi) (media io') (GPT_Hdr2Pos pt) = Some rs)
    \<and> (rc = E_OK \<longrightarrow> gpt_copy (gpt_sectors hi) (media io') (GPT_Hdr1Pos pt) = Some rs
           \<and> gpt_copy (gpt_sectors hi) (media io') (GPT_Hdr2Pos pt) = Some rs)
    \<and> (\<forall>s. (\<forall>w\<in>set (flush_writes hi rs (pt, pad) (pt2, pad2)). s \<notin> region w)
           \<longrightarrow> media io' s = media io s)"
proof -
  let ?S = "gpt_sectors hi"
  define h2 where "h2 = pt2\<lparr>GPT_PtCRC := GPT_PtCRC pt\<rparr>"
  define t2 where "t2 = (GPT_PtInfo pt2, table_sectors hi rs)"
  define s2 where "s2 = (GPT_Hdr2Pos pt, [sector_bytes (seal_hdr h2, pad2)])"
  define t1 where "t1 = (GPT_PtInfo pt, table_sectors hi rs)"
  define s1 where "s1 = (GPT_Hdr1Pos pt, [sector_bytes (seal_hdr pt, pad)])"
  have ws: "flush_writes hi rs (seal_hdr pt, pad) (seal_hdr h2, pad2) = [t2, s2] @ [t1, s1]"
    by (simp add: flush_writes_def t1_def t2_def s1_def s2_def h2_def)
  have run: "write_all ([t2, s2] @ [t1, s1]) io = (rc, io')"
    using flush flush_result [OF state hdrs, of io]
    unfolding Let_def h2_def [symmetric] ws by (simp only: prod.inject prod_eq_iff fst_conv snd_conv)
  have apart: "sorted_wrt (\<lambda>v w. region v \<inter> region w = {}) ([t2, s2] @ [t1, s1])"
    using flush_apart [OF ready, of "GPT_PtCRC pt"] by (simp only: ws [symmetric] h2_def)
  have crc: "GPT_PtCRC pt = table_crc rs"
    using flush_crc [OF hdrs] ready by (simp add: flush_ready_def hdr_shape_def)
  note shape = ready [unfolded flush_ready_def]
  have copy1: "gpt_copy ?S m (GPT_Hdr1Pos pt) = Some rs"
    if "holds_data m t1" "holds_data m s1" for m
    using copy_written [of m pt hi rs pad] that shape crc by (simp add: t1_def s1_def)
  have copy2: "gpt_copy ?S m (GPT_Hdr2Pos pt) = Some rs"
    if "holds_data m t2" "holds_data m s2" for m
    using copy_written [of m h2 hi rs pad2] that shape crc
    by (simp add: hdr_shape_def h2_def t2_def s2_def)
  have both: "rc = E_OK \<longrightarrow> gpt_copy ?S (media io') (GPT_Hdr1Pos pt) = Some rs
           \<and> gpt_copy ?S (media io') (GPT_Hdr2Pos pt) = Some rs"
    using write_all_data [OF _ apart, of io] copy1 copy2 by (simp add: run del: append_Cons append_Nil)
  have frame: "\<forall>s. (\<forall>w\<in>set (flush_writes hi rs (pt, pad) (pt2, pad2)). s \<notin> region w)
           \<longrightarrow> media io' s = media io s"
    using write_all_frame [of "[t2, s2] @ [t1, s1]" _ io] run
    by (simp add: flush_writes_def region_def t1_def t2_def s1_def s2_def)
  consider (early) "\<forall>s. s \<notin> region t2 \<union> region s2 \<longrightarrow> media io' s = media io s"
    | (late) io1 where "write_all [t2, s2] io = (E_OK, io1)" "write_all [t1, s1] io1 = (rc, io')"
    using write_all_halves [of "[t2, s2]" "[t1, s1]" io] run by (simp del: append_Cons append_Nil) auto
  then have "gpt_copy ?S (media io') (GPT_Hdr1Pos pt) = gpt_copy ?S (media io) (GPT_Hdr1Pos pt)
         \<or> gpt_copy ?S (media io') (GPT_Hdr2Pos pt) = Some rs"
  proof cases
    case early
    have "gpt_copy ?S (media io') (GPT_Hdr1Pos pt) = gpt_copy ?S (media io) (GPT_Hdr1Pos pt)"
    proof (rule gpt_copy_cong)
      have "unat (GPT_Hdr1Pos pt) \<in> region s1" by (simp add: region_def s1_def)
      then show "media io' (unat (GPT_Hdr1Pos pt)) = media io (unat (GPT_Hdr1Pos pt))"
        using early apart by (auto simp: disjoint_iff)
      fix s
      assume "unat (GPT_PtInfo (hdr_view (media io (unat (GPT_Hdr1Pos pt))))) \<le> s"
        "s < unat (GPT_PtInfo (hdr_view (media io (unat (GPT_Hdr1Pos pt))))) + ?S"
      then have "s \<in> region t1"
        using sync by (simp add: region_def table_sectors_def t1_def)
      then show "media io' s = media io s"
        using early apart by (auto simp: disjoint_iff)
    qed
    then show ?thesis by simp
  next
    case late
    have "holds_data (media io1) w" if "w \<in> {t2, s2}" for w
      using write_all_data [of "[t2, s2]" io w] late(1) apart that by simp
    then have "holds_data (media io') w" if "w \<in> {t2, s2}" for w
      using write_all_keeps [of io1 w "[t1, s1]"] late(2) apart that by auto
    then show ?thesis using copy2 by simp
  qed
  with both frame show ?thesis by blast
qed

section \<open>A state to apply it to\<close>

text \<open>A disk of 100 sectors with a table of four records in one sector.\<close>

definition demo_hdr :: disk_gpt where
  "demo_hdr = \<lparr>GPT_Sign = GPT_SIGNMAIN, GPT_Revision = 0x10000, GPT_HdrSize = 92, GPT_HdrCRC = 0,
     GPT_Reserved1 = 0, GPT_Hdr1Pos = 1, GPT_Hdr2Pos = 99, GPT_UserFirst = 3, GPT_UserLast = 97,
     GPT_GUID = replicate 16 7, GPT_PtInfo = 2, GPT_PtCout = 4, GPT_PtEntrySize = 128,
     GPT_PtCRC = 0\<rparr>"

definition demo_rec :: "u64 \<Rightarrow> u64 \<Rightarrow> gpt_record" where
  "demo_rec a b = zero_rec\<lparr>PTG_TypeGUID := replicate 16 1, PTG_FirstSec := a, PTG_LastSec := b\<rparr>"

definition demo_recs :: "gpt_record list" where
  "demo_recs = [demo_rec 10 19, demo_rec 40 59, zero_rec, zero_rec]"

definition demo_pad :: "u8 list" where "demo_pad = replicate 420 0"

definition demo_hi :: hdd_info where
  "demo_hi = \<lparr>hd_ssize = 512, hd_total = 100, lvm_spt = 3, scan_rc = E_OK, gpt_present = True,
     hybrid = False, gpthead = 1, gpt_size = 4, gpt_sectors = 1, gpt_view = 2,
     ptg = Some demo_recs, ptg_tail = [], gpt_index = [0, 1, 0xFFFFFFFF, 0xFFFFFFFF],
     ghead = Some (demo_hdr, demo_pad), ghead2 = None, fsp = []\<rparr>"

definition demo_io :: "nat \<Rightarrow> dskio" where
  "demo_io n = \<lparr>media = (\<lambda>s. if s = 1 then hdr_bytes demo_hdr @ demo_pad else []), left = n,
     unread = (\<lambda>s. False)\<rparr>"

definition demo_pt :: disk_gpt where
  "demo_pt = demo_hdr\<lparr>GPT_PtCRC := table_crc demo_recs\<rparr>"

definition demo_pt2 :: disk_gpt where
  "demo_pt2 = demo_pt\<lparr>GPT_PtInfo := 98, GPT_Hdr1Pos := 99, GPT_Hdr2Pos := 1\<rparr>"

lemma demo_recs_ok: "\<forall>r\<in>set demo_recs. rec_ok r"
  by (simp add: demo_recs_def demo_rec_def) (simp add: rec_ok_def zero_rec_def)

lemma demo_hdrs: "flush_hdrs demo_hi demo_recs demo_hdr demo_pad = (demo_pt, Inr (demo_pt2, demo_pad))"
  by (simp add: flush_hdrs_def make_hdr2_def demo_hi_def Let_def)
    (simp add: demo_pt_def demo_pt2_def demo_hdr_def demo_recs_def)

lemma demo_ready: "flush_ready demo_hi demo_recs (demo_pt, demo_pad) (demo_pt2, demo_pad)"
  using demo_recs_ok
  by (simp add: flush_ready_def hdr_shape_def flush_writes_def region_def table_sectors_def)
    (simp add: demo_hi_def demo_pt_def demo_pt2_def demo_hdr_def demo_pad_def GPT_RECSIZE_def
      DISK_GPT_SIZE_def demo_recs_def)

lemma demo_sync: "GPT_PtInfo (hdr_view (media (demo_io n) (unat (GPT_Hdr1Pos demo_pt)))) = GPT_PtInfo demo_pt"
  by (simp add: demo_io_def demo_pt_def demo_hdr_def hdr_view_bytes)

lemma demo_state: "ptg demo_hi = Some demo_recs" "ghead demo_hi = Some (demo_hdr, demo_pad)"
  "gpthead demo_hi \<noteq> 0"
  by (simp_all add: demo_hi_def)

lemma gpt_flush_safe_witness:
  "let r = dsk_flushgpt demo_hi (demo_io 2) in
     (gpt_copy 1 (media (snd (snd r))) 1 = gpt_copy 1 (media (demo_io 2)) 1
      \<or> gpt_copy 1 (media (snd (snd r))) 99 = Some demo_recs)"
  using gpt_flush_safe [OF demo_state demo_hdrs demo_ready demo_sync, of 2]
  by (simp add: Let_def prod_eq_iff demo_pt_def demo_hdr_def demo_hi_def)

section \<open>Scan of a flushed disk\<close>

text \<open>What \<open>scan_gpt\<close> asks of the headers beyond their sums.\<close>

definition scannable :: "hdd_info \<Rightarrow> gpt_record list \<Rightarrow> gpt_sector \<Rightarrow> gpt_sector \<Rightarrow> bool" where
  "scannable hi rs b1 b2 \<longleftrightarrow> size_valid (hd_ssize hi) \<and> gpthead hi = GPT_Hdr1Pos (fst b1)
     \<and> (\<forall>b\<in>{b1, b2}. GPT_PtEntrySize (fst b) = of_nat GPT_RECSIZE
          \<and> GPT_HdrSize (fst b) \<ge> of_nat DISK_GPT_SIZE \<and> u16_at 418 (snd b) \<noteq> 0xAA55)
     \<and> GPT_PtCout (fst b1) \<le> 0x100000 \<and> gpt_sectors hi = table_sectors_of hi (length rs)
     \<and> GPT_Hdr2Pos (fst b1) \<noteq> 0 \<and> GPT_Hdr2Pos (fst b1) \<noteq> - 1 \<and> GPT_Hdr2Pos (fst b1) < hd_total hi
     \<and> GPT_PtInfo (fst b2) > GPT_UserLast (fst b1)"

lemma read_all: "(\<And>s. \<not> unread io s) \<Longrightarrow> dev_read io pos n = map (media io) [unat pos..<unat pos + n]"
  by (simp add: dev_read_def takeWhile_eq_all_conv [THEN iffD2])

lemma sectortype_hdr:
  assumes "\<And>s. \<not> unread io s" "media io (unat pos) = hdr_bytes h @ pad" "length (GPT_GUID h) = 16"
    "size_valid (hd_ssize hi)" "u16_at 418 pad \<noteq> 0xAA55" "GPT_Sign h = GPT_SIGNMAIN"
    "GPT_PtEntrySize h = of_nat GPT_RECSIZE" "GPT_HdrSize h \<ge> of_nat DISK_GPT_SIZE"
  shows "dsk_sectortype hi io pos buf = (DSKST_GPTHEAD, hdr_bytes h @ pad)"
proof -
  have "u16_at 510 (hdr_bytes h @ pad) = u16_at 418 pad"
    using assms(3) by (simp add: u16_at_def field_skip DISK_GPT_SIZE_def)
  then show ?thesis
    using assms by (simp add: dsk_sectortype_def read_all dsk_datatype_def hdr_view_bytes Let_def)
qed

lemma load_table_written:
  assumes "\<And>s. \<not> unread io s" "holds_data (media io) (pos, table_sectors hi rs)"
    "\<forall>r\<in>set rs. rec_ok r" "gpt_sectors h0 = gpt_sectors hi" "gpt_size h0 = length rs"
    "GPT_RECSIZE * length rs + length (ptg_tail hi) = hd_ssize hi * gpt_sectors hi"
  shows "load_table pos io h0 = (True, h0\<lparr>ptg := Some rs, ptg_tail := ptg_tail hi\<rparr>)"
proof -
  have "concat (map (media io) [unat pos..<unat pos + gpt_sectors hi]) = concat (table_sectors hi rs)"
    using sector_run_data [OF assms(2)] by (simp add: sector_run_def table_sectors_def)
  also have "\<dots> = recs_bytes rs @ ptg_tail hi"
    using assms by (simp add: table_sectors_def concat_split length_recs)
  finally show ?thesis
    using assms by (simp add: load_table_def read_all Let_def recs_view_bytes length_recs)
qed

lemma hdr_sector_bytes: "length (GPT_GUID h) = 16 \<Longrightarrow> hdr_sector (hdr_bytes h @ pad) = (h, pad)"
  by (simp add: hdr_sector_def hdr_view_bytes)

text \<open>C27: After a flush without an error a scan of the disk ends without an error and finds the
  same table, the same two headers and the same bytes behind the table.\<close>

theorem gpt_flush_scan:
  assumes state: "ptg hi = Some rs" "ghead hi = Some (pt0, pad)" "gpthead hi \<noteq> 0"
    and hdrs: "flush_hdrs hi rs pt0 pad = (pt, Inr (pt2, pad2))"
    and ready: "flush_ready hi rs (pt, pad) (pt2, pad2)"
    and scan: "scannable hi rs (pt, pad) (pt2, pad2)"
    and flush: "dsk_flushgpt hi io = (E_OK, hi', io')"
    and reads: "\<And>s. \<not> unread io s"
    and same: "hd_ssize h0 = hd_ssize hi" "hd_total h0 = hd_total hi" "gpthead h0 = gpthead hi"
  shows "\<exists>h1. scan_gpt setdisksize io' h0 = (E_OK, h1) \<and> ptg h1 = Some rs \<and> ghead h1 = ghead hi'
    \<and> ghead2 h1 = ghead2 hi' \<and> ptg_tail h1 = ptg_tail hi"
proof -
  define h2 where "h2 = pt2\<lparr>GPT_PtCRC := GPT_PtCRC pt\<rparr>"
  let ?ws = "flush_writes hi rs (seal_hdr pt, pad) (seal_hdr h2, pad2)"
  have run: "write_all ?ws io = (E_OK, io')" and
    hi': "ghead hi' = Some (seal_hdr pt, pad)" "ghead2 hi' = Some (seal_hdr h2, pad2)"
    using flush flush_result [OF state hdrs, of io]
    unfolding Let_def h2_def [symmetric] by (auto simp only: prod.inject prod_eq_iff fst_conv snd_conv) simp_all
  have "holds_data (media io') w" if "w \<in> set ?ws" for w
    using write_all_data [of ?ws io w] flush_apart [OF ready, of "GPT_PtCRC pt"] run that
    by (simp add: h2_def)
  then have "holds_data (media io') (?ws ! 1)" "holds_data (media io') (?ws ! 2)"
    "holds_data (media io') (?ws ! 3)"
    by (simp_all add: flush_writes_def)
  then have data: "holds_data (media io') (GPT_PtInfo pt, table_sectors hi rs)"
    "media io' (unat (GPT_Hdr1Pos pt)) = hdr_bytes (seal_hdr pt) @ pad"
    "media io' (unat (GPT_Hdr2Pos pt)) = hdr_bytes (seal_hdr h2) @ pad2"
    by (simp_all add: flush_writes_def) (simp_all add: holds_data_def sector_bytes_def)
  have reads': "\<And>s. \<not> unread io' s"
    using reads write_all_unread [of ?ws io] run by simp
  note shape = ready [unfolded flush_ready_def hdr_shape_def]
    and scan' = scan [unfolded scannable_def]
  have t1: "dsk_sectortype h io' (GPT_Hdr1Pos pt) buf = (DSKST_GPTHEAD, hdr_bytes (seal_hdr pt) @ pad)"
    if "hd_ssize h = hd_ssize hi" for h buf
    using shape scan' that by (intro sectortype_hdr reads' data) simp_all
  have t2: "dsk_sectortype h io' (GPT_Hdr2Pos pt) buf = (DSKST_GPTHEAD, hdr_bytes (seal_hdr h2) @ pad2)"
    if "hd_ssize h = hd_ssize hi" for h buf
    using shape scan' that by (intro sectortype_hdr reads' data) (simp_all add: h2_def)
  have views: "hdr_view (hdr_bytes (seal_hdr pt) @ pad) = seal_hdr pt"
    "hdr_view (hdr_bytes (seal_hdr h2) @ pad2) = seal_hdr h2"
    "hdr_sector (hdr_bytes (seal_hdr pt) @ pad) = (seal_hdr pt, pad)"
    "hdr_sector (hdr_bytes (seal_hdr h2) @ pad2) = (seal_hdr h2, pad2)"
    using shape by (simp_all add: hdr_view_bytes hdr_sector_bytes h2_def)
  have load: "load_table (GPT_PtInfo pt) io' h = (True, h\<lparr>ptg := Some rs, ptg_tail := ptg_tail hi\<rparr>)"
    if "gpt_sectors h = gpt_sectors hi" "gpt_size h = length rs" for h
    using shape that by (intro load_table_written reads' data) simp_all
  have secs: "table_sectors_of h0 (length rs) = gpt_sectors hi"
    using scan' same by (simp add: table_sectors_of_def)
  have nle: "\<not> hd_total hi \<le> GPT_Hdr2Pos pt" "\<not> GPT_PtInfo h2 \<le> GPT_UserLast pt"
    "\<not> 0x100000 < GPT_PtCout pt"
    using scan' by (simp_all add: not_le not_less h2_def)
  show ?thesis
    using scan' shape same hi' nle
    by (simp add: scan_gpt_def Let_def t1 t2 views load secs scan_hdr2_def table_sectors_of_def
        split: prod.split)
qed

lemma demo_flushed:
  "dsk_flushgpt demo_hi (demo_io 4) = (E_OK, fst (snd (dsk_flushgpt demo_hi (demo_io 4))),
     snd (snd (dsk_flushgpt demo_hi (demo_io 4))))"
proof -
  have "fst (dsk_flushgpt demo_hi (demo_io 4)) = E_OK"
    unfolding flush_result [OF demo_state demo_hdrs] Let_def fst_conv
    by (simp add: flush_writes_def write_all_steps dev_write_def table_sectors_def Let_def)
      (simp add: demo_hi_def demo_io_def)
  then show ?thesis by (simp add: prod_eq_iff)
qed

lemma demo_pad_u16: "u16_at 418 demo_pad = 0"
proof -
  have "field 418 2 demo_pad = replicate 2 0" by (simp add: demo_pad_def field_def)
  also have "\<dots> = [0, 0]" by (simp add: eval_nat_numeral)
  finally show ?thesis by (simp add: u16_at_def)
qed

lemma demo_scannable: "scannable demo_hi demo_recs (demo_pt, demo_pad) (demo_pt2, demo_pad)"
  by (simp add: scannable_def size_valid_def table_sectors_of_def Let_def demo_pad_u16)
    (simp add: demo_hi_def demo_pt_def demo_pt2_def demo_hdr_def demo_recs_def
      GPT_RECSIZE_def DISK_GPT_SIZE_def)

lemma gpt_flush_scan_witness:
  "\<exists>h1. scan_gpt (\<lambda>s. False) (snd (snd (dsk_flushgpt demo_hi (demo_io 4)))) demo_hi = (E_OK, h1)
     \<and> ptg h1 = Some demo_recs"
  using gpt_flush_scan [OF demo_state demo_hdrs demo_ready demo_scannable demo_flushed _ refl refl refl]
  by (auto simp: demo_io_def)

section \<open>A header without a second position\<close>

lemma un_le_zeros: "un_le (replicate n 0) = 0"
  by (induction n) simp_all

lemma field_zeros: "field ofs n (replicate k 0) = replicate (min n (k - ofs)) 0"
  by (simp add: field_def)

lemma load_table_heads [simp]:
  "ghead (snd (load_table pos io hi)) = ghead hi" "ghead2 (snd (load_table pos io hi)) = ghead2 hi"
  "gpthead (snd (load_table pos io hi)) = gpthead hi" "ptg (snd (load_table pos io hi)) \<noteq> None"
  by (simp_all add: load_table_def Let_def)

lemma scan_without_backup:
  assumes scan: "scan_gpt setdisksize io hi = (E_OK, h1)"
    and read: "\<not> unread io (unat (gpthead hi))"
    and none: "GPT_Hdr2Pos (hdr_view (media io (unat (gpthead hi)))) \<in> {0, - 1}"
  shows "ghead h1 = Some (hdr_sector (media io (unat (gpthead hi))))
    \<and> ghead2 h1 = Some (hdr_sector (replicate (hd_ssize hi) 0)) \<and> ptg h1 \<noteq> None
    \<and> GPT_Hdr1Pos (hdr_view (media io (unat (gpthead hi)))) = gpthead hi \<and> gpthead h1 = gpthead hi"
proof -
  define b where "b = media io (unat (gpthead hi))"
  obtain t where tb: "dsk_sectortype hi io (gpthead hi) (replicate (hd_ssize hi) 0) = (t, b)"
    using read by (simp add: dsk_sectortype_def dev_read_def b_def)
  have same: "scan_hdr2 setdisksize io (hdr_view b) h = (E_OK, h)" for h
    using none by (auto simp: scan_hdr2_def b_def)
  have keep: "ghead h' = ghead h \<and> ghead2 h' = ghead2 h \<and> gpthead h' = gpthead h \<and> ptg h' \<noteq> None"
    if "load_table pos io h = (c, h')" for pos h c h'
    using load_table_heads [of pos io h] by (simp add: that)
  from scan show ?thesis
    unfolding b_def [symmetric]
    by (simp add: scan_gpt_def Let_def tb same split: if_splits prod.splits option.splits)
      (auto dest!: keep)
qed

text \<open>C28: A header whose second position is 0 or all ones counts as one without a second copy.
  The scan accepts it, but leaves a zeroed buffer as the second header instead of none, so that the
  next flush takes 0 for the place of the second table: the first write goes to sector 0, the master
  boot record.\<close>

theorem gpt_flush_sector0:
  assumes scan: "scan_gpt setdisksize io hi = (E_OK, h1)"
    and read: "\<not> unread io (unat (gpthead hi))"
    and none: "GPT_Hdr2Pos (hdr_view (media io (unat (gpthead hi)))) \<in> {0, - 1}"
    and pos: "gpthead hi \<noteq> 0" "GPT_PtInfo (hdr_view (media io (unat (gpthead hi)))) \<noteq> 0"
    and takes: "0 < gpt_sectors h1" "gpt_sectors h1 \<le> left io2"
    and flush: "dsk_flushgpt h1 io2 = (rc, h2, io3)"
  shows "\<exists>rs b2. ptg h1 = Some rs \<and> ghead2 h2 = Some b2
    \<and> media io3 0 \<in> {table_sectors h1 rs ! 0, sector_bytes b2}"
proof -
  let ?b = "media io (unat (gpthead hi))"
  define pad where "pad = drop DISK_GPT_SIZE ?b"
  define z where "z = hdr_view (replicate (hd_ssize hi) 0)"
  define zpad where "zpad = drop DISK_GPT_SIZE (replicate (hd_ssize hi) (0 :: u8))"
  obtain rs where h1: "ptg h1 = Some rs" "ghead h1 = Some (hdr_view ?b, pad)"
    "ghead2 h1 = Some (z, zpad)" "GPT_Hdr1Pos (hdr_view ?b) = gpthead hi" "gpthead h1 = gpthead hi"
    using scan_without_backup [OF scan read none] by (auto simp: hdr_sector_def pad_def z_def zpad_def)
  define pt where "pt = (hdr_view ?b)\<lparr>GPT_PtCRC := table_crc (take (unat (GPT_PtCout (hdr_view ?b))) rs)\<rparr>"
  have hdrs: "flush_hdrs h1 rs (hdr_view ?b) pad = (pt, Inr (z, zpad))"
    using h1 by (simp add: flush_hdrs_def pt_def)
  define b2 where "b2 = (seal_hdr (z\<lparr>GPT_PtCRC := GPT_PtCRC pt\<rparr>), zpad)"
  define t2 where "t2 = table_sectors h1 rs"
  let ?late = "[(GPT_PtInfo pt, t2), (GPT_Hdr1Pos pt, [sector_bytes (seal_hdr pt, pad)])]"
  have z: "GPT_PtInfo z = 0" by (simp add: z_def hdr_view_def field_zeros un_le_zeros)
  have run: "ghead2 h2 = Some b2"
    "io3 = snd (write_all ((0, t2) # (GPT_Hdr2Pos pt, [sector_bytes b2]) # ?late) io2)"
    using flush flush_result [OF h1(1,2) _ hdrs, of io2] h1 pos
    by (auto simp: Let_def flush_writes_def b2_def t2_def z)
  have len: "length t2 = gpt_sectors h1" by (simp add: t2_def table_sectors_def)
  let ?io = "snd (dev_write io2 0 t2)"
  have first: "fst (dev_write io2 0 t2) = length t2" "media ?io 0 = t2 ! 0"
    using takes len by (simp_all add: dev_write_def Let_def put_media_def)
  have out: "0 \<notin> region w" if "w \<in> set ?late" for w
    using that pos h1 by (auto simp: region_def pt_def unat_gt_0)
  have keep: "media (snd (write_all ?late io)) 0 = media io 0" for io
    using write_all_frame [of ?late 0 io] out by blast
  let ?r = "dev_write ?io (GPT_Hdr2Pos pt) [sector_bytes b2]"
  have "media (snd ?r) 0 \<in> {t2 ! 0, sector_bytes b2}"
    using first by (auto simp: dev_write_def Let_def put_media_def)
  then have "media io3 0 \<in> {t2 ! 0, sector_bytes b2}"
    using first keep [of "snd ?r"] unfolding run(2)
    by (simp add: write_all_Cons [of 0] write_all_Cons [of "GPT_Hdr2Pos pt"] Let_def del: insert_iff)
  then show ?thesis using h1(1) run(1) by (auto simp: t2_def)
qed

definition lone_hdr :: disk_gpt where "lone_hdr = demo_hdr\<lparr>GPT_Hdr2Pos := - 1\<rparr>"

definition lone_io :: dskio where
  "lone_io = \<lparr>media = (\<lambda>s. if s = 1 then hdr_bytes lone_hdr @ demo_pad else replicate 512 0),
     left = 1, unread = (\<lambda>s. False)\<rparr>"

definition lone_scan :: "qserr \<times> hdd_info" where
  "lone_scan = scan_gpt (\<lambda>s. False) lone_io demo_hi"

lemma lone_view: "hdr_view (media lone_io (unat (gpthead demo_hi))) = lone_hdr"
  by (simp add: lone_io_def demo_hi_def hdr_view_bytes lone_hdr_def demo_hdr_def)

lemma lone_type: "dsk_sectortype demo_hi lone_io (gpthead demo_hi) buf
    = (DSKST_GPTHEAD, hdr_bytes lone_hdr @ demo_pad)"
  by (rule sectortype_hdr)
    (simp_all add: demo_pad_u16 size_valid_def lone_io_def lone_hdr_def demo_hi_def demo_hdr_def
      GPT_RECSIZE_def DISK_GPT_SIZE_def)

lemma lone_scanned: "fst lone_scan = E_OK \<and> gpt_sectors (snd lone_scan) = 1"
proof -
  have "hdr_view (hdr_bytes lone_hdr @ demo_pad) = lone_hdr"
    by (simp add: hdr_view_bytes lone_hdr_def demo_hdr_def)
  moreover have "GPT_Hdr1Pos lone_hdr = gpthead demo_hi" "GPT_PtCout lone_hdr = 4"
    "GPT_Hdr2Pos lone_hdr = - 1"
    by (simp_all add: lone_hdr_def demo_hdr_def demo_hi_def)
  moreover have "table_sectors_of h 4 = 1" if "hd_ssize h = hd_ssize demo_hi" for h
    using that by (simp add: demo_hi_def table_sectors_of_def GPT_RECSIZE_def)
  moreover have "\<And>s. \<not> unread lone_io s" by (simp add: lone_io_def)
  ultimately show ?thesis
    unfolding lone_scan_def
    by (simp add: scan_gpt_def lone_type Let_def scan_hdr2_def load_table_def read_all split: prod.split)
qed

lemma lone_facts: "\<not> unread lone_io s" "left lone_io = 1" "GPT_Hdr2Pos lone_hdr = - 1"
  "GPT_PtInfo lone_hdr \<noteq> 0" "gpthead demo_hi \<noteq> 0"
  by (simp_all add: lone_io_def lone_hdr_def demo_hdr_def demo_hi_def)

lemma gpt_flush_sector0_witness:
  "\<exists>rs b2. ptg (snd lone_scan) = Some rs
     \<and> media (snd (snd (dsk_flushgpt (snd lone_scan) lone_io))) 0
       \<in> {table_sectors (snd lone_scan) rs ! 0, sector_bytes b2}"
proof -
  have scan: "scan_gpt (\<lambda>s. False) lone_io demo_hi = (E_OK, snd lone_scan)"
    using lone_scanned by (simp add: lone_scan_def prod_eq_iff)
  obtain rc h2 io3 where f: "dsk_flushgpt (snd lone_scan) lone_io = (rc, h2, io3)"
    by (metis surj_pair)
  show ?thesis
    using gpt_flush_sector0 [OF scan _ _ _ _ _ _ f] lone_scanned lone_view lone_facts
    by (auto simp: f)
qed

end
