(* ===== verification/GptTable.thy ===== *)
theory GptTable
  imports GptFlush
begin

text \<open>
  The partition table as a set of ranges of sectors: the comparators of the partition manager
  promise what \<open>qsort\<close> needs, the list of free blocks a scan builds holds every longer gap and
  nothing else, and a new partition keeps the ranges apart.
\<close>

section \<open>The comparators\<close>

interpretation ptrec: comparator ptrec_compare
  by unfold_locales (auto simp: ptrec_compare_def split: if_splits)

interpretation dskpos: comparator dsk_pos_compare
  by unfold_locales (auto simp: dsk_pos_compare_def split: if_splits)

lemma ptrec_le: "ptrec_compare r1 r2 \<le> 0 \<longleftrightarrow>
    PTG_FirstSec r2 = 0 \<or> PTG_FirstSec r1 \<noteq> 0 \<and> PTG_FirstSec r1 \<le> PTG_FirstSec r2"
  by (auto simp: ptrec_compare_def split: if_splits)

lemma dskpos_le: "dsk_pos_compare a b \<le> 0 \<longleftrightarrow> fst a \<le> fst b"
  by (auto simp: dsk_pos_compare_def split: if_splits)

section \<open>Symmetric relations and permutations\<close>

lemma sorted_wrt_mset:
  assumes "symp R" "mset xs = mset ys" "sorted_wrt R xs"
  shows "sorted_wrt R ys"
  using assms(2,3)
proof (induction xs arbitrary: ys)
  case (Cons x xs)
  obtain as bs where ys: "ys = as @ x # bs"
    using Cons.prems(1) by (metis list.set_intros(1) mset_eq_setD split_list)
  have "mset xs = mset (as @ bs)" using Cons.prems(1) by (simp add: ys)
  then have "sorted_wrt R (as @ bs)" "set xs = set (as @ bs)"
    using Cons.IH [of "as @ bs"] Cons.prems(2) mset_eq_setD [of xs "as @ bs"] by simp_all
  moreover from this(2) have "\<forall>y\<in>set as \<union> set bs. R x y" using Cons.prems(2) by auto
  ultimately show ?case
    using assms(1) by (auto simp: ys sorted_wrt_append dest: sympD)
qed simp

section \<open>Ranges of sectors\<close>

text \<open>A block of a free list or a used range, in natural numbers.\<close>

definition blk_sectors :: "dsk_pos \<Rightarrow> nat set" where
  "blk_sectors b = {unat (fst b)..<unat (fst b) + unat (snd b)}"

definition rec_sectors :: "gpt_record \<Rightarrow> nat set" where
  "rec_sectors r = (if PTG_FirstSec r = 0 then {} else {unat (PTG_FirstSec r)..unat (PTG_LastSec r)})"

definition apart :: "gpt_record \<Rightarrow> gpt_record \<Rightarrow> bool" where
  "apart r1 r2 \<longleftrightarrow> rec_sectors r1 \<inter> rec_sectors r2 = {}"

lemma symp_apart: "symp apart"
  by (auto simp: symp_def apart_def)

text \<open>The partitions of a table have at least two sectors, lie in the usable range of the disk
  and do not overlap.\<close>

definition table_fits :: "u64 \<Rightarrow> u64 \<Rightarrow> gpt_record list \<Rightarrow> bool" where
  "table_fits f l rs \<longleftrightarrow>
    (\<forall>r\<in>set rs. PTG_FirstSec r \<noteq> 0 \<longrightarrow> f \<le> PTG_FirstSec r \<and> PTG_FirstSec r < PTG_LastSec r \<and> PTG_LastSec r \<le> l)
    \<and> sorted_wrt apart rs"

lemma table_fits_mset: "mset rs = mset rs' \<Longrightarrow> table_fits f l rs \<Longrightarrow> table_fits f l rs'"
  unfolding table_fits_def using sorted_wrt_mset [OF symp_apart] mset_eq_setD by metis

section \<open>The walk over the used blocks\<close>

text \<open>\<open>chain lp us lim\<close>: the used blocks follow each other from \<open>lp\<close> on and end before \<open>lim\<close>.\<close>

fun chain :: "nat \<Rightarrow> dsk_pos list \<Rightarrow> nat \<Rightarrow> bool" where
  "chain lp [] lim \<longleftrightarrow> lp \<le> lim"
| "chain lp (u # us) lim \<longleftrightarrow> lp \<le> unat (fst u) \<and> snd u \<noteq> 0 \<and> chain (unat (fst u) + unat (snd u)) us lim"

lemma chain_le: "chain lp us lim \<Longrightarrow> lp \<le> lim"
  by (induction us arbitrary: lp) fastforce+

lemma unat_sum: "unat a + unat b < 2 ^ 64 \<Longrightarrow> unat (a + b :: u64) = unat a + unat b"
  by (simp add: unat_word_ariths)

lemma unat_less: "unat (w :: u64) < 2 ^ 64"
  using unsigned_less [of w] by simp

lemma unat_minus: "b \<le> a \<Longrightarrow> unat (a - b :: u64) = unat a - unat b"
  by (simp add: unat_sub_if' word_le_nat_alt)

lemma free_walk_step:
  assumes "chain (unat lp) (u # us) lim" "lim < 2 ^ 64"
  shows "free_walk spt lp (u # us) = (let r = free_walk spt (fst u + snd u) us in
      (if fst u - lp > spt then (lp, fst u - lp) # fst r else fst r, snd r))"
    and "unat (fst u + snd u) = unat (fst u) + unat (snd u)"
    and "chain (unat (fst u + snd u)) us lim"
    and "unat (fst u - lp) = unat (fst u) - unat lp"
proof -
  have le: "unat lp \<le> unat (fst u)" and lim: "unat (fst u) + unat (snd u) \<le> lim"
    using assms chain_le by auto
  then show e: "unat (fst u + snd u) = unat (fst u) + unat (snd u)"
    using assms(2) by (intro unat_sum) simp
  show "chain (unat (fst u + snd u)) us lim" using assms(1) by (simp add: e)
  show "unat (fst u - lp) = unat (fst u) - unat lp"
    using le by (intro unat_minus) (simp add: word_le_nat_alt)
  show "free_walk spt lp (u # us) = (let r = free_walk spt (fst u + snd u) us in
      (if fst u - lp > spt then (lp, fst u - lp) # fst r else fst r, snd r))"
    using le by (cases u) (auto simp: Let_def case_prod_beta word_le_nat_alt [symmetric] not_less)
qed

lemma free_walk_end:
  "chain (unat lp) us lim \<Longrightarrow> lim < 2 ^ 64 \<Longrightarrow>
   unat lp \<le> unat (snd (free_walk spt lp us)) \<and> unat (snd (free_walk spt lp us)) \<le> lim
   \<and> (\<forall>u\<in>set us. blk_sectors u \<subseteq> {unat lp..<unat (snd (free_walk spt lp us))})"
proof (induction us arbitrary: lp)
  case (Cons u us)
  note step = free_walk_step [OF Cons.prems]
  have "unat lp \<le> unat (fst u)" using Cons.prems(1) by simp
  then show ?case
    using Cons.IH [OF step(3) Cons.prems(2)] step(2)
    by (fastforce simp: step(1) Let_def blk_sectors_def)
qed simp

lemma free_walk_blocks:
  "chain (unat lp) us lim \<Longrightarrow> lim < 2 ^ 64 \<Longrightarrow> b \<in> set (fst (free_walk spt lp us)) \<Longrightarrow>
   snd b > spt \<and> blk_sectors b \<subseteq> {unat lp..<unat (snd (free_walk spt lp us))}
   \<and> unat (fst b) + unat (snd b) \<le> lim \<and> (\<forall>u\<in>set us. blk_sectors b \<inter> blk_sectors u = {})"
proof (induction us arbitrary: lp)
  case (Cons u us)
  note step = free_walk_step [OF Cons.prems(1,2)]
  let ?r = "free_walk spt (fst u + snd u) us"
  have le: "unat lp \<le> unat (fst u)" using Cons.prems(1) by simp
  note fin = free_walk_end [OF step(3) Cons.prems(2), of spt]
  show ?case
  proof (cases "b \<in> set (fst ?r)")
    case True
    then have "snd b > spt" "blk_sectors b \<subseteq> {unat (fst u) + unat (snd u)..<unat (snd ?r)}"
      "unat (fst b) + unat (snd b) \<le> lim" "\<forall>v\<in>set us. blk_sectors b \<inter> blk_sectors v = {}"
      using Cons.IH [OF step(3) Cons.prems(2) True] step(2) by auto
    moreover have "blk_sectors u \<subseteq> {unat lp..<unat (fst u) + unat (snd u)}"
      using le by (auto simp: blk_sectors_def)
    ultimately show ?thesis
      using le by (auto simp: step(1) Let_def) fastforce+
  next
    case False
    then have b: "b = (lp, fst u - lp)" "fst u - lp > spt"
      using Cons.prems(3) by (auto simp: step(1) Let_def split: if_splits)
    then have sec: "blk_sectors b = {unat lp..<unat (fst u)}"
      using step(4) le by (simp add: blk_sectors_def)
    have "blk_sectors b \<inter> blk_sectors v = {}" if "v \<in> set (u # us)" for v
    proof (cases "v = u")
      case False
      then have "blk_sectors v \<subseteq> {unat (fst u) + unat (snd u)..<unat (snd ?r)}"
        using fin that step(2) by auto
      then show ?thesis by (fastforce simp: sec)
    qed (unfold sec, auto simp: blk_sectors_def)
    then show ?thesis
      using b sec fin step(2,4) le by (auto simp: step(1) Let_def)
  qed
qed simp

lemma free_walk_covers:
  "chain (unat lp) us lim \<Longrightarrow> lim < 2 ^ 64 \<Longrightarrow> x \<in> {unat lp..<unat (snd (free_walk spt lp us))} \<Longrightarrow>
   (\<exists>b\<in>set (fst (free_walk spt lp us)). x \<in> blk_sectors b)
   \<or> (\<exists>y\<in>{x..x + unat spt}. \<exists>u\<in>set us. y \<in> blk_sectors u)"
proof (induction us arbitrary: lp)
  case (Cons u us)
  note step = free_walk_step [OF Cons.prems(1,2)]
  have le: "unat lp \<le> unat (fst u)" "snd u \<noteq> 0" using Cons.prems(1) by simp_all
  consider "x < unat (fst u)" | "x \<in> blk_sectors u" | "unat (fst u) + unat (snd u) \<le> x"
    by (fastforce simp: blk_sectors_def not_less)
  then show ?case
  proof cases
    case 1
    show ?thesis
    proof (cases "fst u - lp > spt")
      case True
      then show ?thesis
        using 1 Cons.prems(3) step(4) le by (auto simp: step(1) Let_def blk_sectors_def)
    next
      case False
      then have "unat (fst u) - unat lp \<le> unat spt"
        using step(4) by (simp add: not_less word_le_nat_alt)
      then have "unat (fst u) \<in> {x..x + unat spt}" using 1 Cons.prems(3) by auto
      moreover have "unat (fst u) \<in> blk_sectors u"
        using le by (simp add: blk_sectors_def unat_gt_0)
      ultimately show ?thesis by auto
    qed
  next
    case 2
    then show ?thesis by auto
  next
    case 3
    then have "x \<in> {unat (fst u + snd u)..<unat (snd (free_walk spt (fst u + snd u) us))}"
      using Cons.prems(3) step(2) by (simp add: step(1) Let_def)
    from Cons.IH [OF step(3) Cons.prems(2) this] show ?thesis
      by (auto simp: step(1) Let_def)
  qed
qed simp

section \<open>The used blocks of a table that fits\<close>

lemma sorted_chain:
  "sorted_wrt (\<lambda>a b. fst a \<le> fst b) us \<Longrightarrow> sorted_wrt (\<lambda>a b. blk_sectors a \<inter> blk_sectors b = {}) us \<Longrightarrow>
   \<forall>u\<in>set us. lp \<le> unat (fst u) \<and> snd u \<noteq> 0 \<and> unat (fst u) + unat (snd u) \<le> lim \<Longrightarrow> lp \<le> lim \<Longrightarrow>
   chain lp us lim"
proof (induction us arbitrary: lp)
  case (Cons u us)
  have "unat (fst u) + unat (snd u) \<le> unat (fst v)" if v: "v \<in> set us" for v
  proof (rule ccontr)
    assume "\<not> unat (fst u) + unat (snd u) \<le> unat (fst v)"
    moreover have "unat (fst u) \<le> unat (fst v)" "0 < unat (snd v)"
      using Cons.prems(1,3) v by (auto simp: word_le_nat_alt unat_gt_0)
    ultimately have "unat (fst v) \<in> blk_sectors u \<inter> blk_sectors v"
      by (simp add: blk_sectors_def)
    then show False using Cons.prems(2) v by auto
  qed
  then show ?case using Cons by simp
qed simp

lemma used_block:
  assumes "PTG_FirstSec r \<noteq> 0" "PTG_FirstSec r < PTG_LastSec r"
  shows "unat (PTG_LastSec r - PTG_FirstSec r + 1) = unat (PTG_LastSec r) - unat (PTG_FirstSec r) + 1"
    and "blk_sectors (PTG_FirstSec r, PTG_LastSec r - PTG_FirstSec r + 1) = rec_sectors r"
    and "PTG_LastSec r - PTG_FirstSec r + 1 \<noteq> 0"
proof -
  have e: "unat (PTG_LastSec r - PTG_FirstSec r) = unat (PTG_LastSec r) - unat (PTG_FirstSec r)"
    using assms by (intro unat_minus) simp
  moreover have "unat (PTG_LastSec r) < 2 ^ 64" "0 < unat (PTG_FirstSec r)"
    using assms(1) unat_less [of "PTG_LastSec r"] by (simp_all add: unat_gt_0)
  ultimately show s: "unat (PTG_LastSec r - PTG_FirstSec r + 1) = unat (PTG_LastSec r) - unat (PTG_FirstSec r) + 1"
    by (subst unat_sum) auto
  have "unat (PTG_FirstSec r) < unat (PTG_LastSec r)" using assms(2) by (simp add: word_less_nat_alt)
  then show "blk_sectors (PTG_FirstSec r, PTG_LastSec r - PTG_FirstSec r + 1) = rec_sectors r"
    using assms(1) s by (auto simp: blk_sectors_def rec_sectors_def)
  show "PTG_LastSec r - PTG_FirstSec r + 1 \<noteq> 0" using s by (metis add_eq_0_iff_both_eq_0 one_neq_zero unat_0)
qed

lemma fits_counts: "table_fits f l rs \<Longrightarrow> r \<in> set rs \<Longrightarrow> rec_counts r \<longleftrightarrow> PTG_FirstSec r \<noteq> 0"
  by (auto simp: table_fits_def rec_counts_def)

lemma used_set:
  assumes "table_fits f l rs"
  shows "blk_sectors ` set (gpt_used rs) = {s \<in> rec_sectors ` set rs. s \<noteq> {}}"
proof -
  have one: "blk_sectors (PTG_FirstSec r, PTG_LastSec r - PTG_FirstSec r + 1) = rec_sectors r \<and> rec_sectors r \<noteq> {}"
    if "rec_counts r" for r
    using that used_block(2) [of r] by (auto simp: rec_counts_def rec_sectors_def word_less_nat_alt)
  have counts: "rec_counts r" if "r \<in> set rs" "rec_sectors r \<noteq> {}" for r
    using that fits_counts [OF assms] by (auto simp: rec_sectors_def split: if_splits)
  have "blk_sectors ` set (gpt_used rs) = rec_sectors ` {r \<in> set rs. rec_counts r}"
    unfolding gpt_used_def set_map set_filter image_image by (rule image_cong) (simp_all add: one)
  also have "{r \<in> set rs. rec_counts r} = {r \<in> set rs. rec_sectors r \<noteq> {}}"
    using one counts by blast
  finally show ?thesis by blast
qed

lemma used_chain:
  assumes fits: "table_fits f l rs" and fl: "f \<le> l"
    and q: "qsort dsk_pos_compare (gpt_used rs) = Some us"
  shows "chain (unat f) us (unat l + 1) \<and> set us = set (gpt_used rs)"
proof -
  have us: "mset us = mset (gpt_used rs)" "sorted_wrt (\<lambda>a b. fst a \<le> fst b) us"
    using dskpos.qsort_ends [of "gpt_used rs"] q by (auto simp: dskpos_le)
  have "sorted_wrt apart (filter rec_counts rs)"
    using fits by (simp add: table_fits_def sorted_wrt_filter)
  then have "sorted_wrt (\<lambda>a b. blk_sectors a \<inter> blk_sectors b = {}) (gpt_used rs)"
    unfolding gpt_used_def sorted_wrt_map
    by (rule sorted_wrt_mono_rel [rotated]) (auto simp: apart_def used_block rec_counts_def)
  then have "sorted_wrt (\<lambda>a b. blk_sectors a \<inter> blk_sectors b = {}) us"
    by (rule sorted_wrt_mset [rotated -1]) (auto simp: us symp_def)
  moreover have set: "set us = set (gpt_used rs)" using us(1) mset_eq_setD by blast
  moreover have "unat f \<le> unat (fst u) \<and> snd u \<noteq> 0 \<and> unat (fst u) + unat (snd u) \<le> unat l + 1"
    if u: "u \<in> set us" for u
  proof -
    obtain r where r: "r \<in> set rs" "rec_counts r" "u = (PTG_FirstSec r, PTG_LastSec r - PTG_FirstSec r + 1)"
      using u unfolding set by (auto simp: gpt_used_def)
    then have "f \<le> PTG_FirstSec r" "PTG_FirstSec r < PTG_LastSec r" "PTG_LastSec r \<le> l" "PTG_FirstSec r \<noteq> 0"
      using fits by (auto simp: table_fits_def rec_counts_def)
    then show ?thesis
      using used_block [of r] by (simp add: r word_le_nat_alt word_less_nat_alt)
  qed
  ultimately show ?thesis
    using us(2) fl by (intro conjI sorted_chain) (auto simp: word_le_nat_alt)
qed

section \<open>Theorems\<close>

definition fb_sectors :: "freeblock \<Rightarrow> nat set" where
  "fb_sectors fb = blk_sectors (fb_start fb, fb_length fb)"

lemma fsp_sectors: "fb \<in> set (make_fsp ssize fs) \<Longrightarrow> \<exists>b\<in>set fs. fb_start fb = fst b \<and> fb_length fb = snd b"
  by (force simp: make_fsp_def enumerate_eq_zip dest: set_zip_rightD)

lemma fsp_of: "b \<in> set fs \<Longrightarrow> \<exists>fb\<in>set (make_fsp ssize fs). fb_start fb = fst b \<and> fb_length fb = snd b"
proof -
  assume "b \<in> set fs"
  then obtain i where i: "i < length fs" "fs ! i = b" by (auto simp: in_set_conv_nth)
  have "make_fsp ssize fs ! i \<in> set (make_fsp ssize fs)"
    using i by (intro nth_mem) (simp add: make_fsp_def)
  moreover have "fb_start (make_fsp ssize fs ! i) = fst b \<and> fb_length (make_fsp ssize fs ! i) = snd b"
    using i by (simp add: make_fsp_def nth_enumerate_eq case_prod_beta)
  ultimately show ?thesis by blast
qed

text \<open>What a list of free blocks is for: no block meets a partition or leaves the usable range.\<close>

definition fsp_sound :: "u64 \<Rightarrow> u64 \<Rightarrow> gpt_record list \<Rightarrow> freeblock list \<Rightarrow> bool" where
  "fsp_sound f l rs fbs \<longleftrightarrow> (\<forall>fb\<in>set fbs. fb_sectors fb \<subseteq> {unat f..unat l}
     \<and> unat (fb_start fb) + unat (fb_length fb) \<le> unat l + 1
     \<and> (\<forall>r\<in>set rs. fb_sectors fb \<inter> rec_sectors r = {}))"

lemma unat_not_max: "l \<noteq> - 1 \<Longrightarrow> unat (l :: u64) + 1 < 2 ^ 64"
proof -
  assume "l \<noteq> - 1"
  then have "unat l \<noteq> unat (- 1 :: u64)" using word_unat_eq_iff by blast
  moreover have "unat (- 1 :: u64) = 2 ^ 64 - 1"
    by (simp add: unsigned_minus_1_eq_mask mask_eq_exp_minus_1)
  ultimately show ?thesis using unat_less [of l] by linarith
qed

lemma free_list_ok:
  assumes chain: "chain (unat f) us (unat l + 1)" and l: "l \<noteq> - 1"
    and b: "b \<in> set (free_list spt f l us)"
  shows "snd b > spt \<and> blk_sectors b \<subseteq> {unat f..unat l} \<and> unat (fst b) + unat (snd b) \<le> unat l + 1
    \<and> (\<forall>u\<in>set us. blk_sectors b \<inter> blk_sectors u = {})"
proof -
  note lim = unat_not_max [OF l]
  note fin = free_walk_end [OF chain lim, of spt]
  define lp where "lp = snd (free_walk spt f us)"
  show ?thesis
  proof (cases "b \<in> set (fst (free_walk spt f us))")
    case True
    from free_walk_blocks [OF chain lim True] fin show ?thesis by fastforce
  next
    case False
    then have tail: "lp < l" "l - lp > spt" "b = (lp, l - lp + 1)"
      using b by (auto simp: free_list_def lp_def case_prod_beta split: if_splits)
    have d: "unat (l - lp) = unat l - unat lp" using tail(1) by (intro unat_minus) simp
    then have s: "unat (l - lp + 1) = unat l - unat lp + 1" using lim by (subst unat_sum) auto
    have "spt < l - lp + 1" using tail(2) d s by (simp add: word_less_nat_alt)
    moreover have "unat lp < unat l" using tail(1) by (simp add: word_less_nat_alt)
    then have "blk_sectors b = {unat lp..unat l}" using s tail(3) by (auto simp: blk_sectors_def)
    moreover have "unat f \<le> unat lp" "\<forall>u\<in>set us. blk_sectors u \<subseteq> {unat f..<unat lp}"
      using fin by (simp_all add: lp_def)
    ultimately show ?thesis using s tail(3) \<open>unat lp < unat l\<close> by fastforce
  qed
qed

lemma free_list_covers:
  assumes chain: "chain (unat f) us (unat l + 1)" and l: "l \<noteq> - 1"
    and x: "{x..x + unat spt + 1} \<subseteq> {unat f..unat l}"
    and free: "\<forall>u\<in>set us. {x..x + unat spt + 1} \<inter> blk_sectors u = {}"
  shows "\<exists>b\<in>set (free_list spt f l us). x \<in> blk_sectors b"
proof -
  note lim = unat_not_max [OF l]
  define lp where "lp = snd (free_walk spt f us)"
  have "x \<in> {unat f..unat l}" "x + unat spt + 1 \<in> {unat f..unat l}"
    by (rule subsetD [OF x], simp)+
  then have range: "unat f \<le> x" "x + unat spt + 1 \<le> unat l" by simp_all
  show ?thesis
  proof (cases "x < unat lp")
    case True
    then have "x \<in> {unat f..<unat (snd (free_walk spt f us))}" using range by (simp add: lp_def)
    from free_walk_covers [OF chain lim this] free show ?thesis
      by (fastforce simp: free_list_def case_prod_beta)
  next
    case False
    then have lt: "lp < l" using range by (simp add: word_less_nat_alt)
    then have d: "unat (l - lp) = unat l - unat lp" by (intro unat_minus) simp
    then have s: "unat (l - lp + 1) = unat l - unat lp + 1" using lim by (subst unat_sum) auto
    have "l - lp > spt" using d range False by (simp add: word_less_nat_alt)
    then have "(lp, l - lp + 1) \<in> set (free_list spt f l us)"
      using lt by (simp add: free_list_def case_prod_beta lp_def)
    moreover have "x \<in> blk_sectors (lp, l - lp + 1)"
      using False range s by (simp add: blk_sectors_def)
    ultimately show ?thesis by blast
  qed
qed

text \<open>C29: For a table whose partitions fit, the scan finds a list of free blocks: each is longer
  than a track, lies in the usable range and meets no partition; and every run of free sectors
  longer than a track and a sector begins in one of them.\<close>

theorem gpt_free_blocks:
  assumes "ptg hi = Some rs" "ghead hi = Some (pt, pad)" "GPT_UserFirst pt = f" "GPT_UserLast pt = l"
    and fits: "table_fits f l rs" "f \<le> l" "l \<noteq> - 1"
  shows "\<exists>hi'. gpt_views hi = Some hi' \<and> fsp_sound f l rs (fsp hi')
    \<and> (\<forall>fb\<in>set (fsp hi'). unat (fb_length fb) > unat (lvm_spt hi))
    \<and> (\<forall>x. {x..x + unat (lvm_spt hi) + 1} \<subseteq> {unat f..unat l}
          \<and> (\<forall>r\<in>set rs. {x..x + unat (lvm_spt hi) + 1} \<inter> rec_sectors r = {})
        \<longrightarrow> (\<exists>fb\<in>set (fsp hi'). x \<in> fb_sectors fb))"
proof -
  let ?spt = "ucast (lvm_spt hi) :: u64"
  have "uint ?spt = uint (lvm_spt hi)" by (rule uint_up_ucast) (simp add: is_up)
  then have spt: "unat ?spt = unat (lvm_spt hi)" by (simp only: unat_eq_nat_uint)
  obtain us where us: "qsort dsk_pos_compare (gpt_used rs) = Some us"
    using dskpos.qsort_ends by blast
  note chain = used_chain [OF fits(1,2) us]
  have same: "blk_sectors ` set us = {s \<in> rec_sectors ` set rs. s \<noteq> {}}"
    using used_set [OF fits(1)] chain by simp
  let ?fs = "free_list ?spt f l us"
  have "\<exists>hi'. gpt_views hi = Some hi' \<and> fsp hi' = make_fsp (hd_ssize hi) ?fs"
    using assms(1-4) us by (simp add: gpt_views_def Let_def case_prod_beta)
  then obtain hi' where hi': "gpt_views hi = Some hi'" "fsp hi' = make_fsp (hd_ssize hi) ?fs" by blast
  have ok: "snd b > ?spt \<and> blk_sectors b \<subseteq> {unat f..unat l} \<and> unat (fst b) + unat (snd b) \<le> unat l + 1
      \<and> (\<forall>r\<in>set rs. blk_sectors b \<inter> rec_sectors r = {})" if "b \<in> set ?fs" for b
  proof -
    have "\<forall>s\<in>blk_sectors ` set us. blk_sectors b \<inter> s = {}"
      using free_list_ok [OF conjunct1 [OF chain] fits(3) that] by blast
    then have "\<forall>r\<in>set rs. blk_sectors b \<inter> rec_sectors r = {}" unfolding same by blast
    then show ?thesis using free_list_ok [OF conjunct1 [OF chain] fits(3) that] by blast
  qed
  have "fsp_sound f l rs (fsp hi')"
    unfolding fsp_sound_def hi'(2)
  proof
    fix fb
    assume "fb \<in> set (make_fsp (hd_ssize hi) ?fs)"
    from fsp_sectors [OF this] obtain b where "b \<in> set ?fs" "fb_start fb = fst b" "fb_length fb = snd b"
      by blast
    then show "fb_sectors fb \<subseteq> {unat f..unat l} \<and> unat (fb_start fb) + unat (fb_length fb) \<le> unat l + 1
      \<and> (\<forall>r\<in>set rs. fb_sectors fb \<inter> rec_sectors r = {})"
      using ok [of b] by (simp add: fb_sectors_def)
  qed
  moreover have "\<forall>fb\<in>set (fsp hi'). unat (fb_length fb) > unat (lvm_spt hi)"
    using ok fsp_sectors spt unfolding hi'(2) by (metis word_less_nat_alt)
  moreover have "\<exists>fb\<in>set (fsp hi'). x \<in> fb_sectors fb"
    if x: "{x..x + unat (lvm_spt hi) + 1} \<subseteq> {unat f..unat l}"
      "\<forall>r\<in>set rs. {x..x + unat (lvm_spt hi) + 1} \<inter> rec_sectors r = {}" for x
  proof -
    have "\<forall>s\<in>blk_sectors ` set us. {x..x + unat (lvm_spt hi) + 1} \<inter> s = {}"
      unfolding same using x(2) by blast
    then obtain b where b: "b \<in> set ?fs" "x \<in> blk_sectors b"
      using free_list_covers [OF conjunct1 [OF chain] fits(3), of x ?spt] x(1) spt by auto
    obtain fb where "fb \<in> set (fsp hi')" "fb_start fb = fst b" "fb_length fb = snd b"
      using fsp_of [OF b(1), of "hd_ssize hi"] by (auto simp: hi'(2))
    moreover from this b(2) have "x \<in> fb_sectors fb" by (simp add: fb_sectors_def)
    ultimately show ?thesis by blast
  qed
  ultimately show ?thesis using hi'(1) by blast
qed

lemma demo_fits: "table_fits 3 97 demo_recs"
  by (simp add: table_fits_def demo_recs_def demo_rec_def zero_rec_def apart_def rec_sectors_def)

lemma gpt_free_blocks_witness:
  "\<exists>hi'. gpt_views demo_hi = Some hi' \<and> fsp_sound 3 97 demo_recs (fsp hi')
    \<and> (\<exists>fb\<in>set (fsp hi'). 22 \<in> fb_sectors fb)"
proof -
  have spt: "unat (lvm_spt demo_hi) = 3" by (simp add: demo_hi_def)
  have none: "\<forall>r\<in>set demo_recs. {22..26} \<inter> rec_sectors r = {}"
    by (simp add: demo_recs_def demo_rec_def zero_rec_def rec_sectors_def)
  obtain hi' where hi': "gpt_views demo_hi = Some hi'" "fsp_sound 3 97 demo_recs (fsp hi')"
    "\<And>x. {x..4 + x} \<subseteq> {3..97} \<Longrightarrow> \<forall>r\<in>set demo_recs. {x..4 + x} \<inter> rec_sectors r = {}
       \<Longrightarrow> \<exists>fb\<in>set (fsp hi'). x \<in> fb_sectors fb"
    using gpt_free_blocks [OF demo_state(1,2) _ _ demo_fits] by (auto simp: spt demo_hdr_def)
  show ?thesis using hi'(1,2) hi'(3) [of 22] none by auto
qed

section \<open>A new partition\<close>

lemma find_pos_first:
  "find_pos P xs = Some i \<Longrightarrow> i < length xs \<and> P (xs ! i)"
  by (simp add: find_pos_Some)

lemma new_record_fields [simp]:
  "PTG_FirstSec (new_record start sz t g n u) = start"
  "PTG_LastSec (new_record start sz t g n u) = start + sz - 1"
  by (simp_all add: new_record_def)

text \<open>The slot is the only record that begins at \<open>start\<close>.\<close>

lemma make_slot_ok:
  assumes free: "\<exists>r\<in>set rs. PTG_FirstSec r = 0" and start: "start \<noteq> 0"
    and new: "\<forall>r\<in>set rs. PTG_FirstSec r \<noteq> start"
  shows "\<exists>widx srt ii. make_slot start rs = Some (widx, srt) \<and> ii < length rs \<and> PTG_FirstSec (rs ! ii) = 0
    \<and> widx < length srt \<and> srt ! widx = (rs ! ii)\<lparr>PTG_FirstSec := start\<rparr>
    \<and> mset srt = add_mset ((rs ! ii)\<lparr>PTG_FirstSec := start\<rparr>) (mset rs - {#rs ! ii#})
    \<and> sorted_wrt (\<lambda>a b. ptrec_compare a b \<le> 0) srt"
proof -
  obtain ii where ii: "find_pos (\<lambda>r. PTG_FirstSec r = 0) rs = Some ii"
    using free find_pos_None [of "\<lambda>r. PTG_FirstSec r = 0" rs] by (cases "find_pos (\<lambda>r. PTG_FirstSec r = 0) rs") auto
  then have pos: "ii < length rs" "PTG_FirstSec (rs ! ii) = 0" by (auto dest: find_pos_first)
  let ?new = "(rs ! ii)\<lparr>PTG_FirstSec := start\<rparr>"
  obtain srt where srt: "qsort ptrec_compare (rs[ii := ?new]) = Some srt" "mset srt = mset (rs[ii := ?new])"
    "sorted_wrt (\<lambda>a b. ptrec_compare a b \<le> 0) srt"
    using ptrec.qsort_ends by blast
  have ms: "mset srt = add_mset ?new (mset rs - {#rs ! ii#})"
    using srt(2) pos by (simp add: mset_update)
  have "?new \<in> set srt" using ms by (metis set_mset_mset union_single_eq_member)
  then obtain widx where w: "find_pos (\<lambda>r. PTG_FirstSec r = start) srt = Some widx"
    using find_pos_None [of "\<lambda>r. PTG_FirstSec r = start" srt]
    by (cases "find_pos (\<lambda>r. PTG_FirstSec r = start) srt") auto
  then have w': "widx < length srt" "PTG_FirstSec (srt ! widx) = start" by (auto dest: find_pos_first)
  have "srt ! widx \<in># add_mset ?new (mset rs - {#rs ! ii#})"
    using w'(1) ms by (metis nth_mem set_mset_mset)
  then have "srt ! widx = ?new" using w'(2) new in_diffD by fastforce
  then show ?thesis
    using ii srt w w' pos ms by (intro exI [of _ widx] exI [of _ srt] exI [of _ ii]) (simp add: make_slot_def)
qed

lemma sorted_same_key:
  assumes "sorted_wrt (\<lambda>a b. ptrec_compare a b \<le> 0) rs" "i < length rs"
    "PTG_FirstSec r = PTG_FirstSec (rs ! i)"
  shows "sorted_wrt (\<lambda>a b. ptrec_compare a b \<le> 0) (rs[i := r])"
  using assms by (auto simp: sorted_wrt_iff_nth_less nth_list_update ptrec_le)

lemma swap_in_record:
  assumes fits: "table_fits f l rs" and ii: "ii < length rs" "PTG_FirstSec (rs ! ii) = 0"
    and ms: "mset rs' = add_mset ne (mset rs - {#rs ! ii#})"
    and ne: "PTG_FirstSec ne \<noteq> 0" "f \<le> PTG_FirstSec ne" "PTG_FirstSec ne < PTG_LastSec ne"
      "PTG_LastSec ne \<le> l" "\<forall>r\<in>set rs. rec_sectors ne \<inter> rec_sectors r = {}"
  shows "table_fits f l rs'"
proof -
  let ?rs = "ne # take ii rs @ drop (Suc ii) rs"
  have "mset rs = add_mset (rs ! ii) (mset (take ii rs @ drop (Suc ii) rs))"
    by (subst id_take_nth_drop [OF ii(1)]) simp
  then have "mset ?rs = mset rs'" by (simp add: ms)
  moreover have "sorted_wrt apart (take ii rs @ drop (Suc ii) rs)"
  proof -
    have "sorted_wrt apart (take ii rs @ rs ! ii # drop (Suc ii) rs)"
      using fits id_take_nth_drop [OF ii(1)] by (simp add: table_fits_def)
    then show ?thesis by (auto simp: sorted_wrt_append)
  qed
  then have "table_fits f l ?rs"
    using fits ne by (auto simp: table_fits_def apart_def dest: in_set_takeD in_set_dropD)
  ultimately show ?thesis using table_fits_mset by blast
qed

text \<open>C30: A partition is made in a block that is free of others: when the table fits and the free
  blocks are sound, a creation with at least two sectors, without wrap-around, for which a block and
  an unused record exist flushes a table that still fits and is sorted, with the unused records at
  its end; it has all the old partitions and the new one.\<close>

theorem gpt_create_fits:
  assumes state: "gs_hi st = Some hi" "scan_rc hi = E_OK" "gpt_present hi" "\<not> hybrid hi" "ptg hi = Some rs"
    and fits: "table_fits f l rs" "f \<noteq> 0" and sound: "fsp_sound f l rs (fsp hi)" and l: "l \<noteq> - 1"
    and block: "find (fits_block start sz) (fsp hi) = Some fb"
    and free: "\<exists>r\<in>set rs. PTG_FirstSec r = 0"
    and size: "sz = 0 \<longrightarrow> 2 \<le> unat (fb_start fb) + unat (fb_length fb) - unat start"
      "sz \<noteq> 0 \<longrightarrow> 2 \<le> unat sz \<and> unat start + unat sz < 2 ^ 64"
  shows "\<exists>rs' ne old. dsk_gptcreate rescan aliases typename unnamed guid start sz DFBA_PRIMARY targ st
      = Some (update_rescan rescan st (hi\<lparr>ptg := Some rs'\<rparr>))
    \<and> table_fits f l rs' \<and> sorted_wrt (\<lambda>a b. ptrec_compare a b \<le> 0) rs'
    \<and> old \<in># mset rs \<and> PTG_FirstSec old = 0 \<and> mset rs' = add_mset ne (mset rs - {#old#})
    \<and> PTG_FirstSec ne = start
    \<and> unat (PTG_LastSec ne) + 1 = (if sz = 0 then unat (fb_start fb) + unat (fb_length fb) else unat start + unat sz)"
proof -
  have fb: "fb \<in> set (fsp hi)" "fits_block start sz fb" "fsp hi \<noteq> []"
    using block by (auto simp: find_Some_iff)
  note s = sound [unfolded fsp_sound_def, rule_format, OF fb(1)]
  have lim: "unat l + 1 < 2 ^ 64" using unat_not_max [OF l] .
  have e: "unat (fb_start fb + fb_length fb) = unat (fb_start fb) + unat (fb_length fb)"
    using s lim by (intro unat_sum) simp
  then have range: "unat (fb_start fb) \<le> unat start" "unat start < unat (fb_start fb) + unat (fb_length fb)"
    using fb(2) by (simp_all add: fits_block_def word_le_nat_alt word_less_nat_alt)
  let ?sz = "if sz = 0 then fb_start fb + fb_length fb - start else sz"
  have sz: "2 \<le> unat ?sz" "unat start + unat ?sz \<le> unat (fb_start fb) + unat (fb_length fb)"
    "unat start + unat ?sz = (if sz = 0 then unat (fb_start fb) + unat (fb_length fb) else unat start + unat sz)"
  proof -
    have "unat (fb_start fb + fb_length fb - start) = unat (fb_start fb) + unat (fb_length fb) - unat start"
      using e range by (subst unat_minus) (simp_all add: word_le_nat_alt)
    moreover have "unat (start + sz) = unat start + unat sz" if "sz \<noteq> 0"
      using size(2) that by (intro unat_sum) simp
    ultimately show "2 \<le> unat ?sz" "unat start + unat ?sz \<le> unat (fb_start fb) + unat (fb_length fb)"
      "unat start + unat ?sz = (if sz = 0 then unat (fb_start fb) + unat (fb_length fb) else unat start + unat sz)"
      using size fb(2) e range by (auto simp: fits_block_def word_le_nat_alt)
  qed
  have lastv: "unat (start + ?sz - 1) = unat start + unat ?sz - 1"
  proof -
    have "unat (start + ?sz) = unat start + unat ?sz" using sz s lim by (intro unat_sum) simp
    then show ?thesis using sz(1) by (subst unat_minus) (simp_all add: word_le_nat_alt)
  qed
  have inblock: "{unat start..unat (start + ?sz - 1)} \<subseteq> fb_sectors fb"
    using range sz lastv by (auto simp: fb_sectors_def blk_sectors_def)
  have start0: "start \<noteq> 0"
  proof -
    have "unat start \<in> fb_sectors fb" using range by (simp add: fb_sectors_def blk_sectors_def)
    then have "unat f \<le> unat start" using s by auto
    then show ?thesis using fits(2) by (metis le_zero_eq unat_0 unat_eq_zero)
  qed
  let ?t = "case targ of Alias k \<Rightarrow> aliases ! k | Guid g \<Rightarrow> g"
  define ne where "ne = new_record start ?sz ?t guid (typename ?t) unnamed"
  have ne: "PTG_FirstSec ne = start" "PTG_LastSec ne = start + ?sz - 1" by (simp_all add: ne_def)
  have sec: "rec_sectors ne \<subseteq> fb_sectors fb"
    using inblock start0 by (simp add: rec_sectors_def ne)
  have meet: "\<forall>r\<in>set rs. rec_sectors ne \<inter> rec_sectors r = {}"
    using sec s by blast
  have new: "\<forall>r\<in>set rs. PTG_FirstSec r \<noteq> start"
  proof (rule ballI, rule notI)
    fix r
    assume r: "r \<in> set rs" "PTG_FirstSec r = start"
    then have "unat start \<in> rec_sectors r"
      using fits start0 by (auto simp: table_fits_def rec_sectors_def word_less_nat_alt)
    moreover have "unat start \<in> rec_sectors ne"
      using start0 lastv sz by (simp add: rec_sectors_def ne)
    ultimately show False using meet r(1) by blast
  qed
  obtain widx srt ii where slot: "make_slot start rs = Some (widx, srt)" "ii < length rs"
    "PTG_FirstSec (rs ! ii) = 0" "widx < length srt" "srt ! widx = (rs ! ii)\<lparr>PTG_FirstSec := start\<rparr>"
    "mset srt = add_mset ((rs ! ii)\<lparr>PTG_FirstSec := start\<rparr>) (mset rs - {#rs ! ii#})"
    "sorted_wrt (\<lambda>a b. ptrec_compare a b \<le> 0) srt"
    using make_slot_ok [OF free start0 new] by blast
  let ?rs = "srt[widx := ne]"
  have ms: "mset ?rs = add_mset ne (mset rs - {#rs ! ii#})"
    using slot(4,5,6) by (simp add: mset_update)
  have run: "dsk_gptcreate rescan aliases typename unnamed guid start sz DFBA_PRIMARY targ st
      = Some (update_rescan rescan st (hi\<lparr>ptg := Some ?rs\<rparr>))"
    using state fb(3) block slot(1) by (simp add: dsk_gptcreate_def Let_def ne_def)
  have fine: "f \<le> PTG_FirstSec ne" "PTG_FirstSec ne < PTG_LastSec ne" "PTG_LastSec ne \<le> l"
  proof -
    have "unat start \<in> fb_sectors fb" "unat (start + ?sz - 1) \<in> fb_sectors fb"
      by (rule subsetD [OF inblock], use lastv sz in simp)+
    then have "unat f \<le> unat start" "unat (start + ?sz - 1) \<le> unat l" using s by auto
    moreover have "unat start < unat (start + ?sz - 1)" using lastv sz(1) by simp
    ultimately show "f \<le> PTG_FirstSec ne" "PTG_FirstSec ne < PTG_LastSec ne" "PTG_LastSec ne \<le> l"
      by (simp_all only: ne word_le_nat_alt word_less_nat_alt)
  qed
  have "table_fits f l ?rs"
    using swap_in_record [OF fits(1) slot(2,3) ms _ fine meet] start0 ne(1) by simp
  moreover have "sorted_wrt (\<lambda>a b. ptrec_compare a b \<le> 0) ?rs"
    using sorted_same_key [OF slot(7,4), of ne] slot(5) ne(1) by simp
  moreover have "rs ! ii \<in># mset rs" using slot(2) by simp
  moreover have "unat (PTG_LastSec ne) + 1 = unat start + unat ?sz" unfolding ne(2) lastv using sz(1) by simp
  ultimately show ?thesis using run ms slot(3) ne(1) sz(3) by metis
qed

definition demo_st :: gptst where
  "demo_st = \<lparr>gs_hi = Some (demo_hi\<lparr>fsp := [\<lparr>fb_start = 20, fb_length = 20, fb_index = 0, fb_flags = 1\<rparr>]\<rparr>),
     gs_io = demo_io 4, gs_vols = []\<rparr>"

lemma gpt_create_fits_witness:
  "\<exists>rs'. dsk_gptcreate (\<lambda>hi io. hi) [replicate 16 1] (\<lambda>t. None) [67] (replicate 16 9) 22 5 DFBA_PRIMARY (Alias 0) demo_st
      = Some (update_rescan (\<lambda>hi io. hi) demo_st ((the (gs_hi demo_st))\<lparr>ptg := Some rs'\<rparr>))
    \<and> table_fits 3 97 rs'"
proof -
  let ?fb = "\<lparr>fb_start = 20, fb_length = 20, fb_index = 0, fb_flags = 1\<rparr> :: freeblock"
  let ?hi = "demo_hi\<lparr>fsp := [?fb]\<rparr>"
  have st: "gs_hi demo_st = Some ?hi" by (simp add: demo_st_def)
  have "scan_rc ?hi = E_OK" "gpt_present ?hi" "\<not> hybrid ?hi" "ptg ?hi = Some demo_recs"
    by (simp_all add: demo_hi_def)
  moreover have "fsp_sound 3 97 demo_recs (fsp ?hi)"
    by (auto simp: fsp_sound_def fb_sectors_def blk_sectors_def demo_recs_def demo_rec_def zero_rec_def rec_sectors_def)
  moreover have "find (fits_block 22 5) (fsp ?hi) = Some ?fb"
    by (simp add: fits_block_def)
  moreover have "\<exists>r\<in>set demo_recs. PTG_FirstSec r = 0"
    by (simp add: demo_recs_def zero_rec_def)
  ultimately show ?thesis
    using gpt_create_fits [OF st _ _ _ _ demo_fits, of 22 5 ?fb "\<lambda>hi io. hi" "[replicate 16 1]"
        "\<lambda>t. None" "[67]" "replicate 16 9" "Alias 0"] st
    by auto
qed

end
