(* ===== verification/MemPool.thy ===== *)
theory MemPool
  imports QsPrelude
begin

text \<open>
  The loader's memory manager, init/misc/membase.c: physical memory above \<open>phmembase\<close> is cut
  into 64 KB blocks; five parallel tables (size table, r/o bits, signatures, owners, free list
  heads) describe them and every free area carries a header with a doubly linked list of the
  areas of the same size. Here are the state and every operation; MemPoolInv holds the proofs.

  A block is named by its index from \<open>memtable\<close> (address \<open>memtable + (i << 16)\<close>); a pointer to a
  header is the index of its block, \<open>None\<close> the null pointer. Sizes are numbers below \<open>2^32\<close>, with
  the wrap-around of \<open>Round64k\<close> written out. A panic (\<open>halterr\<close>, \<open>exit_pm32\<close>) does not return: it
  is an error value.
\<close>

section \<open>Data\<close>

datatype mem_halt =
    MEMHLT_MEMTABLE | MEMHLT_FBSIZEERR | MEMHLT_REALLOCRO | MEMHLT_WRONGADDR
  | MEMHLT_FBSIGN | MEMHLT_FBHEADER | QERR_NOMEMORY | MEM_LOOP

definition FFFF :: nat where "FFFF = 4294967295"
definition FREE_SIGN :: nat where "FREE_SIGN = 1162170950"

definition QSMA_READONLY :: u32 where "QSMA_READONLY = 1"
definition QSMA_RETERR :: u32 where "QSMA_RETERR = 2"
definition QSMA_NOCLEAR :: u32 where "QSMA_NOCLEAR = 4"
definition QSMA_LOCAL :: u32 where "QSMA_LOCAL = 8"
definition QSMA_MAXADDR :: u32 where "QSMA_MAXADDR = 16"
definition QSMA_MINADDR :: u32 where "QSMA_MINADDR = 32"

record free_block =
  fb_sign :: nat
  fb_prev :: "nat option"
  fb_next :: "nat option"
  fb_size :: nat

record mempool =
  mp_base :: nat
  memblocks :: nat
  memtable :: "nat list"
  memheapres :: "bool list"
  memsignlst :: "nat list"
  memowner :: "nat option list"
  memftable :: "nat option list"
  mp_hdr :: "nat \<Rightarrow> free_block"
  mp_data :: "nat \<Rightarrow> u8"

text \<open>\<open>Round64k(x) >> 16\<close> in 32-bit arithmetic.\<close>

definition blk64 :: "nat \<Rightarrow> nat" where
  "blk64 x = ((x + 65535) mod 4294967296) div 65536"

text \<open>The number of rounds of \<open>while (--n)\<close>.\<close>

definition dec32 :: "nat \<Rightarrow> nat" where
  "dec32 n = (n + 4294967295) mod 4294967296"

definition availmem :: "mempool \<Rightarrow> nat" where
  "availmem s = memblocks s * 65536"

definition blk_addr :: "mempool \<Rightarrow> nat \<Rightarrow> nat" where
  "blk_addr s p = mp_base s + p * 65536"

section \<open>Checks\<close>

definition hrchk :: "mempool \<Rightarrow> nat \<Rightarrow> bool" where
  "hrchk s pos = memheapres s ! pos"

definition addrcheck :: "mempool \<Rightarrow> nat \<Rightarrow> mem_halt + unit" where
  "addrcheck s addr = guard_err
     (\<not> (addr < mp_base s \<or> mp_base s + availmem s \<le> addr \<or> (addr - mp_base s) mod 65536 \<noteq> 0))
     MEMHLT_WRONGADDR"

definition fbcheck :: "free_block \<Rightarrow> mem_halt + unit" where
  "fbcheck fb = guard_err (fb_sign fb = FREE_SIGN) MEMHLT_FBSIGN"

definition fb_chkhdr :: "mempool \<Rightarrow> free_block \<Rightarrow> bool \<Rightarrow> mem_halt + unit" where
  "fb_chkhdr s fb first = guard_err
     (\<not> (first \<and> fb_prev fb \<noteq> None \<or> (case fb_next fb of None \<Rightarrow> False | Some q \<Rightarrow> memblocks s \<le> q)))
     MEMHLT_FBHEADER"

section \<open>Free lists\<close>

definition fb_add :: "mempool \<Rightarrow> nat \<Rightarrow> nat \<Rightarrow> mem_halt + mempool" where
  "fb_add s p size64k =
     (let old = memftable s ! size64k;
          h1 = (mp_hdr s)(p := (mp_hdr s p)\<lparr>fb_prev := None, fb_next := old\<rparr>) in
      rbind (case old of None \<Rightarrow> Inr () | Some q \<Rightarrow> fbcheck (h1 q)) (\<lambda>_.
        let h2 = (case old of None \<Rightarrow> h1 | Some q \<Rightarrow> h1(q := (h1 q)\<lparr>fb_prev := Some p\<rparr>));
            h3 = h2(p := (h2 p)\<lparr>fb_sign := FREE_SIGN, fb_size := size64k\<rparr>) in
        Inr (s\<lparr>mp_hdr := h3, memftable := (memftable s)[size64k := Some p]\<rparr>)))"

definition fb_del :: "mempool \<Rightarrow> nat \<Rightarrow> nat \<Rightarrow> mem_halt + mempool" where
  "fb_del s p size64k =
     (let fb = mp_hdr s p; pfb = fb_prev fb; nfb = fb_next fb in
      rbind (if size64k = 0 then Inr (fb_size fb)
             else rbind (guard_err (fb_size fb = size64k) MEMHLT_FBSIZEERR) (\<lambda>_. Inr size64k)) (\<lambda>k.
      rbind (fbcheck fb) (\<lambda>_.
        let h1 = (mp_hdr s)(p := fb\<lparr>fb_sign := 0\<rparr>);
            h2 = (case pfb of None \<Rightarrow> h1 | Some q \<Rightarrow> h1(q := (h1 q)\<lparr>fb_next := nfb\<rparr>));
            ft = (case pfb of None \<Rightarrow> (memftable s)[k := nfb] | Some q \<Rightarrow> memftable s);
            h3 = (case nfb of None \<Rightarrow> h2 | Some q \<Rightarrow> h2(q := (h2 q)\<lparr>fb_prev := pfb\<rparr>)) in
        Inr (s\<lparr>mp_hdr := h3, memftable := ft\<rparr>))))"

section \<open>Allocation\<close>

text \<open>
  The walk of \<open>alloc_worker\<close> over the free lists. \<open>al\<close> is the placement (\<open>1\<close> highest, \<open>-1\<close>
  lowest address, \<open>0\<close> first fit); the result is the best area so far and its size. The walk of one
  list has the number of blocks as fuel; a longer list can only be a cycle and is \<open>MEM_LOOP\<close>.
\<close>

fun scan_chain :: "mempool \<Rightarrow> int \<Rightarrow> nat \<Rightarrow> nat \<Rightarrow> nat option \<Rightarrow> (nat \<times> nat) option
    \<Rightarrow> mem_halt + (nat \<times> nat) option" where
  "scan_chain s al ii fuel None res = Inr res"
| "scan_chain s al ii 0 (Some p) res = Inl MEM_LOOP"
| "scan_chain s al ii (Suc fuel) (Some p) res =
     (let fb = mp_hdr s p in
      rbind (fbcheck fb) (\<lambda>_.
      rbind (fb_chkhdr s fb (memftable s ! ii = Some p)) (\<lambda>_.
      rbind (guard_err (memtable s ! p = 0) MEMHLT_MEMTABLE) (\<lambda>_.
        if (case res of None \<Rightarrow> True | Some (ps, fbsize) \<Rightarrow> al \<noteq> 0 \<and> (p < ps) = (al < 0))
        then (if al = 0 then Inr (Some (p, ii))
              else scan_chain s al ii fuel (fb_next fb) (Some (p, ii)))
        else scan_chain s al ii fuel (fb_next fb) res))))"

function scan_sizes :: "mempool \<Rightarrow> int \<Rightarrow> nat \<Rightarrow> (nat \<times> nat) option
    \<Rightarrow> mem_halt + (nat \<times> nat) option" where
  "scan_sizes s al ii res =
     (if ii < memblocks s then
        (case memftable s ! ii of
           None \<Rightarrow> scan_sizes s al (Suc ii) res
         | Some p \<Rightarrow>
             (case scan_chain s al ii (memblocks s) (Some p) res of
                Inl e \<Rightarrow> Inl e
              | Inr r \<Rightarrow> if al = 0 then Inr r else scan_sizes s al (Suc ii) r))
      else Inr res)"
  by pat_completeness auto
termination
  by (relation "measure (\<lambda>(s, al, ii, res). memblocks s - ii)") auto

declare scan_sizes.simps [simp del]

text \<open>\<open>while (--sz) if (mt[++ps]) mterr(); else mt[ps] = FFFF;\<close>\<close>

fun mark_used :: "nat list \<Rightarrow> nat \<Rightarrow> nat \<Rightarrow> mem_halt + nat list" where
  "mark_used mt ps 0 = Inr mt"
| "mark_used mt ps (Suc n) =
     (if mt ! Suc ps \<noteq> 0 then Inl MEMHLT_MEMTABLE
      else mark_used (mt[Suc ps := FFFF]) (Suc ps) n)"

text \<open>The placement: on a BIOS host (no \<open>EFI_BUILD\<close>) the default is the lowest address.\<close>

definition alloc_align :: "bool \<Rightarrow> u32 \<Rightarrow> int" where
  "alloc_align efi fl =
     (let al = (if fl AND QSMA_MAXADDR \<noteq> 0 then 1 else if fl AND QSMA_MINADDR \<noteq> 0 then -1 else 0)
      in if \<not> efi \<and> al = 0 then -1 else al)"

definition alloc_worker :: "bool \<Rightarrow> mempool \<Rightarrow> nat \<Rightarrow> u32 \<Rightarrow> nat \<Rightarrow> nat option
    \<Rightarrow> mem_halt + (mempool \<times> nat option)" where
  "alloc_worker efi s usize fl sig opq =
     (let al = alloc_align efi fl; sz = blk64 usize in
      rbind (scan_sizes s al sz None) (\<lambda>res.
      case res of
        None \<Rightarrow> Inr (s, None)
      | Some (p0, fbsize) \<Rightarrow>
          rbind (fb_del s p0 fbsize) (\<lambda>s1.
          rbind (if al > 0 \<and> fbsize > sz then fb_add s1 p0 (fbsize - sz)
                 else if fbsize \<noteq> sz then fb_add s1 (p0 + sz) (fbsize - sz)
                 else Inr s1) (\<lambda>s2.
          let ps = (if al > 0 \<and> fbsize > sz then p0 + (fbsize - sz) else p0);
              ro = (fl AND QSMA_READONLY \<noteq> 0);
              s3 = s2\<lparr>memtable := (memtable s2)[ps := usize],
                      memsignlst := (memsignlst s2)[ps := sig],
                      memowner := (memowner s2)[ps := (if ro then None else opq)],
                      memheapres := (memheapres s2)[ps := ro]\<rparr> in
          rbind (mark_used (memtable s3) ps (dec32 sz)) (\<lambda>mt.
          Inr (s3\<lparr>memtable := mt\<rparr>, Some ps))))))"

text \<open>\<open>memset(base + off, 0, n)\<close> on the bytes of the pool.\<close>

definition zero_bytes :: "(nat \<Rightarrow> u8) \<Rightarrow> nat \<Rightarrow> nat \<Rightarrow> (nat \<Rightarrow> u8)" where
  "zero_bytes d off n = (\<lambda>a. if off \<le> a \<and> a < off + n then 0 else d a)"

definition copy_bytes :: "(nat \<Rightarrow> u8) \<Rightarrow> nat \<Rightarrow> nat \<Rightarrow> nat \<Rightarrow> (nat \<Rightarrow> u8)" where
  "copy_bytes d dst src n = (\<lambda>a. if dst \<le> a \<and> a < dst + n then d (src + (a - dst)) else d a)"

text \<open>
  \<open>alloc_common\<close>: one attempt, then the low-memory notification (\<open>lowmem\<close>, the callbacks
  registered in the START module, may release memory) and a second attempt.
\<close>

definition alloc_common :: "bool \<Rightarrow> (mempool \<Rightarrow> mempool) \<Rightarrow> nat option \<Rightarrow> mempool \<Rightarrow> nat \<Rightarrow> nat
    \<Rightarrow> u32 \<Rightarrow> mem_halt + (mempool \<times> nat option)" where
  "alloc_common efi lowmem ctx s usize sig fl =
     (if usize = 0 then Inr (s, None)
      else
        let opq = (if fl AND QSMA_LOCAL \<noteq> 0 then ctx else None) in
        rbind (if usize < availmem s then
                 rbind (alloc_worker efi s usize fl sig opq) (\<lambda>(s1, rc).
                 if rc = None then alloc_worker efi (lowmem s1) usize fl sig opq else Inr (s1, rc))
               else Inr (s, None)) (\<lambda>(s2, rc).
        case rc of
          None \<Rightarrow> if fl AND QSMA_RETERR = 0 then Inl QERR_NOMEMORY else Inr (s2, None)
        | Some p \<Rightarrow>
            Inr (if fl AND QSMA_NOCLEAR = 0
                 then s2\<lparr>mp_data := zero_bytes (mp_data s2) (p * 65536) usize\<rparr> else s2,
                 Some p)))"

section \<open>Release\<close>

text \<open>\<open>while (stp--) if (mt[stp]) break; ++stp\<close>\<close>

fun scan_back :: "nat list \<Rightarrow> nat \<Rightarrow> nat" where
  "scan_back mt 0 = 0"
| "scan_back mt (Suc k) = (if mt ! k \<noteq> 0 then Suc k else scan_back mt k)"

definition hlp_memfree :: "mempool \<Rightarrow> nat \<Rightarrow> mem_halt + mempool" where
  "hlp_memfree s addr =
     rbind (addrcheck s addr) (\<lambda>_.
       let pos = (addr - mp_base s) div 65536; mt = memtable s in
       if mt ! pos = 0 \<or> mt ! pos = FFFF then Inl MEMHLT_MEMTABLE
       else if hrchk s pos then Inr s
       else
         let sz = blk64 (mt ! pos); stp = scan_back mt pos in
         rbind (if stp \<noteq> pos then fb_del s stp (pos - stp) else Inr s) (\<lambda>s1.
         rbind (guard_err (sz \<le> 1 \<or> memchrn_pos (take (sz - 1) (drop (pos + 1) mt)) FFFF = None)
                  MEMHLT_MEMTABLE) (\<lambda>_.
         let s2 = s1\<lparr>memtable := fill mt pos sz 0\<rparr> in
         if pos + sz < memblocks s \<and> memtable s2 ! (pos + sz) = 0 then
           let k = fb_size (mp_hdr s2 (pos + sz)) in
           rbind (fb_del s2 (pos + sz) 0) (\<lambda>s3. fb_add s3 stp (pos - stp + (sz + k)))
         else fb_add s2 stp (pos - stp + sz))))"

definition hlp_memgetsize :: "mempool \<Rightarrow> nat \<Rightarrow> mem_halt + nat" where
  "hlp_memgetsize s addr =
     rbind (addrcheck s addr) (\<lambda>_.
       let pos = (addr - mp_base s) div 65536 in
       if hrchk s pos then Inl MEMHLT_REALLOCRO else Inr (memtable s ! pos))"

section \<open>Resizing\<close>

definition realloc_inplace :: "mempool \<Rightarrow> nat \<Rightarrow> nat \<Rightarrow> mempool" where
  "realloc_inplace s pos newsize =
     (let old = memtable s ! pos in
      s\<lparr>mp_data := (if old < newsize then zero_bytes (mp_data s) (pos * 65536 + old) (newsize - old)
                    else mp_data s),
        memtable := (memtable s)[pos := newsize]\<rparr>)"

definition realloc_shrink :: "mempool \<Rightarrow> nat \<Rightarrow> nat \<Rightarrow> nat \<Rightarrow> nat \<Rightarrow> mem_halt + mempool" where
  "realloc_shrink s pos newsize sz nsz =
     (let s1 = s\<lparr>memtable := fill ((memtable s)[pos := newsize]) (pos + nsz) (sz - nsz) 0\<rparr> in
      if pos + sz < memblocks s \<and> memtable s1 ! (pos + sz) = 0 then
        let k = fb_size (mp_hdr s1 (pos + sz)) in
        rbind (fb_del s1 (pos + sz) 0) (\<lambda>s2. fb_add s2 (pos + nsz) (sz + k - nsz))
      else fb_add s1 (pos + nsz) (sz - nsz))"

definition realloc_expand :: "mempool \<Rightarrow> nat \<Rightarrow> nat \<Rightarrow> nat \<Rightarrow> nat \<Rightarrow> mem_halt + mempool" where
  "realloc_expand s pos newsize sz nsz =
     (let k = fb_size (mp_hdr s (pos + sz)); old = memtable s ! pos in
      rbind (fb_del s (pos + sz) 0) (\<lambda>s1.
      rbind (if sz + k > nsz then fb_add s1 (pos + nsz) (sz + k - nsz) else Inr s1) (\<lambda>s2.
      Inr (s2\<lparr>memtable := (fill (memtable s2) (pos + sz) (nsz - sz) FFFF)[pos := newsize],
              mp_data := zero_bytes (mp_data s2) (pos * 65536 + old) (newsize - old)\<rparr>))))"

definition realloc_move :: "bool \<Rightarrow> mempool \<Rightarrow> nat \<Rightarrow> nat \<Rightarrow> nat
    \<Rightarrow> mem_halt + (mempool \<times> nat option)" where
  "realloc_move efi s addr pos newsize =
     rbind (alloc_worker efi s newsize 0 (memsignlst s ! pos) (memowner s ! pos)) (\<lambda>(s1, rc).
     case rc of
       None \<Rightarrow> Inr (s1, None)
     | Some p \<Rightarrow>
         let old = memtable s1 ! pos;
             d1 = copy_bytes (mp_data s1) (p * 65536) (pos * 65536) old;
             d2 = (if old < newsize then zero_bytes d1 (p * 65536 + old) (newsize - old) else d1) in
         rbind (hlp_memfree (s1\<lparr>mp_data := d2\<rparr>) addr) (\<lambda>s2. Inr (s2, Some p)))"

definition hlp_memrealloc :: "bool \<Rightarrow> mempool \<Rightarrow> nat \<Rightarrow> nat \<Rightarrow> mem_halt + (mempool \<times> nat option)" where
  "hlp_memrealloc efi s addr newsize0 =
     rbind (addrcheck s addr) (\<lambda>_.
       let newsize = (if newsize0 = 0 then 1 else newsize0);
           pos = (addr - mp_base s) div 65536 in
       if hrchk s pos then Inl MEMHLT_REALLOCRO
       else
         let sz = blk64 (memtable s ! pos); nsz = blk64 newsize in
         if sz = nsz then Inr (realloc_inplace s pos newsize, Some pos)
         else if nsz < sz then
           rbind (realloc_shrink s pos newsize sz nsz) (\<lambda>s1. Inr (s1, Some pos))
         else if pos + sz < memblocks s \<and> memtable s ! (pos + sz) = 0
                 \<and> nsz \<le> sz + fb_size (mp_hdr s (pos + sz)) then
           rbind (realloc_expand s pos newsize sz nsz) (\<lambda>s1. Inr (s1, Some pos))
         else realloc_move efi s addr pos newsize)"

section \<open>Reserving a fixed area\<close>

datatype reserve_result = QSMR_SUCCESS | QSMR_TRUNCATED | QSMR_OUTOFRANGE | QSMR_USED

definition memreserve :: "mempool \<Rightarrow> nat \<Rightarrow> nat \<Rightarrow> bool
    \<Rightarrow> mem_halt + (mempool \<times> reserve_result \<times> nat option)" where
  "memreserve s physaddr len0 ro =
     (if physaddr < mp_base s \<or> mp_base s + availmem s \<le> physaddr
      then Inr (s, QSMR_OUTOFRANGE, None)
      else
        let lim = mp_base s + availmem s;
            trunc = ((physaddr + len0) mod 4294967296 > lim);
            len1 = (if trunc then lim - physaddr else len0);
            ofs = (physaddr - mp_base s) mod 65536;
            len = (len1 + ofs) mod 4294967296;
            pa = physaddr - ofs;
            pos = (pa - mp_base s) div 65536;
            sz = blk64 len; mt = memtable s in
        if memchrn_pos (take sz (drop pos mt)) 0 \<noteq> None then Inr (s, QSMR_USED, None)
        else
          let ii = scan_back mt pos; fbsz = fb_size (mp_hdr s ii) in
          rbind (fb_del s ii 0) (\<lambda>s1.
          rbind (if pos - ii \<noteq> 0 then fb_add s1 ii (pos - ii) else Inr s1) (\<lambda>s2.
          rbind (if pos + sz < ii + fbsz then fb_add s2 (pos + sz) (ii + fbsz - (pos + sz))
                 else Inr s2) (\<lambda>s3.
          let s4 = s3\<lparr>memtable := (memtable s3)[pos := len],
                      memheapres := (if ro then (memheapres s3)[pos := True] else memheapres s3),
                      memsignlst := (memsignlst s3)[pos := 1987274098]\<rparr> in
          rbind (mark_used (memtable s4) pos (dec32 sz)) (\<lambda>mt'.
          Inr (s4\<lparr>memtable := mt'\<rparr>, (if trunc then QSMR_TRUNCATED else QSMR_SUCCESS), Some pos))))))"

section \<open>Process exit, queries\<close>

text \<open>\<open>mem_procexit\<close>: the loop over the block table, releasing the blocks of the process.\<close>

fun procexit_from :: "nat \<Rightarrow> nat list \<Rightarrow> mempool \<Rightarrow> mem_halt + mempool" where
  "procexit_from pid [] s = Inr s"
| "procexit_from pid (ii # is) s =
     (let v = memtable s ! ii in
      if v \<noteq> 0 \<and> v < FFFF \<and> memowner s ! ii = Some pid
      then rbind (hlp_memfree s (blk_addr s ii)) (procexit_from pid is)
      else procexit_from pid is s)"

definition mem_procexit :: "mempool \<Rightarrow> nat \<Rightarrow> mem_halt + mempool" where
  "mem_procexit s pid = procexit_from pid [0..<memblocks s] s"

definition hlp_memqconst :: "mempool \<Rightarrow> nat \<Rightarrow> (nat \<times> nat) list" where
  "hlp_memqconst s pairsize =
     take pairsize
       (map (\<lambda>ii. (blk_addr s ii, memtable s ! ii))
          (filter (\<lambda>ii. memheapres s ! ii \<and> memtable s ! ii \<noteq> 0 \<and> memtable s ! ii \<noteq> FFFF
                     \<and> memtable s ! ii < 65536 - 4096) [0..<memblocks s]))"

fun avail_chain :: "mempool \<Rightarrow> nat \<Rightarrow> nat \<Rightarrow> nat option \<Rightarrow> nat \<Rightarrow> mem_halt + nat" where
  "avail_chain s ii fuel None rc = Inr rc"
| "avail_chain s ii 0 (Some p) rc = Inl MEM_LOOP"
| "avail_chain s ii (Suc fuel) (Some p) rc =
     (let fb = mp_hdr s p in
      rbind (fbcheck fb) (\<lambda>_.
      rbind (fb_chkhdr s fb (memftable s ! ii = Some p)) (\<lambda>_.
        avail_chain s ii fuel (fb_next fb) ((rc + ii * 65536) mod 4294967296))))"

text \<open>\<open>hlp_memavail\<close>: sizes from the largest down; total free bytes and the largest area.\<close>

fun avail_sizes :: "mempool \<Rightarrow> nat \<Rightarrow> nat \<Rightarrow> nat \<Rightarrow> mem_halt + (nat \<times> nat)" where
  "avail_sizes s 0 rc mb = Inr (rc, mb)"
| "avail_sizes s (Suc ii) rc mb =
     (case memftable s ! ii of
        None \<Rightarrow> avail_sizes s ii rc mb
      | Some p \<Rightarrow>
          rbind (avail_chain s ii (memblocks s) (Some p) rc) (\<lambda>rc'.
            avail_sizes s ii rc' (if mb = 0 then ii * 65536 else mb)))"

definition hlp_memavail :: "mempool \<Rightarrow> mem_halt + (nat \<times> nat \<times> nat)" where
  "hlp_memavail s = rbind (avail_sizes s (memblocks s) 0 0) (\<lambda>(rc, mb). Inr (rc, mb, availmem s))"

text \<open>\<open>hlp_memused\<close>: bytes used by a process (\<open>None\<close>: all, the pid \<open>FFFF\<close> of the call) and the
  range of their addresses.\<close>

definition mem_counts :: "mempool \<Rightarrow> nat \<Rightarrow> nat \<Rightarrow> bool" where
  "mem_counts s pid ii =
     (let v = memtable s ! ii in
      v \<noteq> 0 \<and> v < FFFF \<and>
      (pid = FFFF \<or>
       \<not> ((pid \<noteq> 0) \<noteq> (memowner s ! ii \<noteq> None)) \<and> (pid = 0 \<or> memowner s ! ii = Some pid)))"

definition hlp_memused :: "mempool \<Rightarrow> nat \<Rightarrow> nat \<times> (nat \<times> nat) option" where
  "hlp_memused s pid =
     (case foldl (\<lambda>(tot, ul, uh) ii.
        if mem_counts s pid ii then
          let a = blk_addr s ii; b = blk64 (memtable s ! ii) * 65536 in
          (tot + b, min ul a, max uh (a + b - 1))
        else (tot, ul, uh))
      (0, FFFF, 0) [0..<memblocks s] of
        (tot, ul, uh) \<Rightarrow> (tot, if tot = 0 then None else Some (ul, uh)))"

section \<open>Initialisation\<close>

text \<open>
  \<open>memmgr_init\<close>: the tables are placed at the start of the pool and cleared (\<open>memblocks >> 3\<close> bytes
  of the r/o bits: the bits of a last partial byte keep what the memory held, \<open>junk\<close>; byte 0 is set
  to 1), then one free area is created and every hole of the physical memory map is reserved read-only.
\<close>

definition tables_size :: "nat \<Rightarrow> nat" where
  "tables_size blocks = blocks * 4 * 4 + blocks div 8"

definition mem_setup :: "nat \<Rightarrow> nat \<Rightarrow> (nat \<Rightarrow> bool) \<Rightarrow> (nat \<Rightarrow> free_block) \<Rightarrow> (nat \<Rightarrow> u8) \<Rightarrow> mempool" where
  "mem_setup base blocks junk hdr dat =
     (let sz = tables_size blocks; used = blk64 sz in
      \<lparr>mp_base = base, memblocks = blocks,
       memtable = fill ((replicate blocks 0)[0 := sz]) 1 (dec32 used) FFFF,
       memheapres = map (\<lambda>i. if i < 8 \<or> i < 8 * (blocks div 8) then i = 0 else junk i) [0..<blocks],
       memsignlst = (replicate blocks 0)[0 := 2763306],
       memowner = replicate blocks None,
       memftable = (replicate blocks None)[blocks - used := Some used],
       mp_hdr = hdr(used := \<lparr>fb_sign = FREE_SIGN, fb_prev = None, fb_next = None, fb_size = blocks - used\<rparr>),
       mp_data = dat\<rparr>)"

fun reserve_holes :: "mempool \<Rightarrow> (nat \<times> nat) list \<Rightarrow> mem_halt + mempool" where
  "reserve_holes s (a # b # rest) =
     (let epos = (fst a + snd a) div 65536 * 65536; bpos = blk64 (fst b) * 65536 in
      rbind (if bpos > epos
             then rbind (memreserve s epos (bpos - epos) True) (\<lambda>(s1, _). Inr s1) else Inr s)
        (\<lambda>s1. reserve_holes s1 (b # rest)))"
| "reserve_holes s _ = Inr s"

definition memmgr_init :: "nat \<Rightarrow> nat \<Rightarrow> (nat \<times> nat) list \<Rightarrow> (nat \<Rightarrow> bool) \<Rightarrow> (nat \<Rightarrow> free_block)
    \<Rightarrow> (nat \<Rightarrow> u8) \<Rightarrow> mem_halt + mempool" where
  "memmgr_init base headblock physmem junk hdr dat =
     (let top = last physmem;
          blocks = ((fst top + snd top + 4294967296 - base) mod 4294967296) div 65536 in
      reserve_holes (mem_setup base blocks junk hdr dat) (drop headblock physmem))"

end
