(* ===== verification/MemPoolInv.thy ===== *)
theory MemPoolInv
  imports MemPool
begin

text \<open>
  The invariant of the memory manager (MemPool) and the layers its proofs rest on: maximal runs of
  free blocks and how carving and joining change them; the doubly linked lists of headers
  (\<open>fb_add\<close>, \<open>fb_del\<close>) against abstract lists; the walk of the lists; the size table under
  placement and release of a block; and allocation (\<open>alloc_worker\<close>).
\<close>

section \<open>Maximal runs of a set of block indexes\<close>

definition run :: "nat set \<Rightarrow> nat \<Rightarrow> nat \<Rightarrow> bool" where
  "run Z p k \<longleftrightarrow> 0 < k \<and> {p..<p + k} \<subseteq> Z \<and> p + k \<notin> Z \<and> (p = 0 \<or> p - 1 \<notin> Z)"

lemma run_in: "run Z p k \<Longrightarrow> p \<le> i \<Longrightarrow> i < p + k \<Longrightarrow> i \<in> Z"
  by (auto simp: run_def)

lemma run_overlap:
  assumes "run Z p k" and "run Z q j" and "i < p + k" and "i < q + j" and "p \<le> i" and "q \<le> i"
  shows "p = q"
proof (rule ccontr)
  have *: False if "run Z p k" "run Z q j" "i < p + k" "q \<le> i" "p < q" for p k q j
  proof -
    have "q - 1 \<in> Z" using that by (intro run_in [OF that(1)]) auto
    then show False using that(2,5) by (auto simp: run_def)
  qed
  assume "p \<noteq> q"
  then consider "p < q" | "q < p" by linarith
  then show False using *[of p k q j] *[of q j p k] assms by cases auto
qed

lemma run_len_unique: "run Z p k \<Longrightarrow> run Z p j \<Longrightarrow> k = j"
proof (rule ccontr)
  have *: False if "run Z p k" "run Z p j" "k < j" for k j
    using that run_in [of Z p j "p + k"] by (auto simp: run_def)
  assume "run Z p k" "run Z p j" "k \<noteq> j"
  then show False using *[of k j] *[of j k] by (cases "k < j") auto
qed

lemma run_split_imp:
  assumes r: "run Z p k" and sub: "p \<le> x" "x + m \<le> p + k" "0 < m"
    and q: "run (Z - {x..<x + m}) q j"
  shows "(run Z q j \<and> q \<noteq> p) \<or> (q = p \<and> j = x - p \<and> p < x)
       \<or> (q = x + m \<and> j = p + k - (x + m) \<and> 0 < j)"
proof -
  let ?Z = "Z - {x..<x + m}"
  from q have j: "0 < j" and qin: "\<And>i. q \<le> i \<Longrightarrow> i < q + j \<Longrightarrow> i \<in> Z \<and> \<not> (x \<le> i \<and> i < x + m)"
    and qend: "q + j \<notin> ?Z" and qbeg: "q = 0 \<or> q - 1 \<notin> ?Z"
    by (auto simp: run_def subset_iff)
  have beg: "q = p" if "p \<le> q" "q < x"
  proof (rule ccontr)
    assume "q \<noteq> p"
    then have "q - 1 \<in> ?Z" using that sub r by (auto intro: run_in)
    then show False using qbeg \<open>q \<noteq> p\<close> that by auto
  qed
  consider (left) "p \<le> q" "q < x" | (right) "x + m \<le> q" "q < p + k" | (out) "q < p \<or> p + k \<le> q"
    using qin[of q] j by (meson le_add1 less_add_same_cancel1 linorder_not_le order_refl)
  then show ?thesis
  proof cases
    case left
    have "q + j \<le> x" using qin[of x] left sub by (cases "q + j \<le> x") auto
    moreover have "x \<le> q + j"
    proof (rule ccontr)
      assume "\<not> x \<le> q + j"
      then have "q + j \<in> ?Z" using left sub r by (auto intro: run_in)
      then show False using qend by simp
    qed
    ultimately show ?thesis using beg[OF left] left by auto
  next
    case right
    have "q = x + m"
    proof (rule ccontr)
      assume "q \<noteq> x + m"
      then have "q - 1 \<in> ?Z" using right sub r by (auto intro: run_in)
      then show False using qbeg \<open>q \<noteq> x + m\<close> right by auto
    qed
    moreover have "q + j \<le> p + k" using qin[of "p + k"] right r
      by (cases "q + j \<le> p + k") (auto simp: run_def)
    moreover have "p + k \<le> q + j"
    proof (rule ccontr)
      assume "\<not> p + k \<le> q + j"
      then have "q + j \<in> ?Z" using right sub r by (auto intro: run_in)
      then show False using qend by simp
    qed
    ultimately show ?thesis using j by auto
  next
    case out
    have disj: "q + j \<le> p \<or> p + k \<le> q"
    proof (rule ccontr)
      assume "\<not> (q + j \<le> p \<or> p + k \<le> q)"
      then have "q < p" and "p < q + j" using out by auto
      have "p - 1 \<in> Z" using qin[of "p - 1"] \<open>q < p\<close> \<open>p < q + j\<close> by auto
      then show False using r \<open>q < p\<close> by (auto simp: run_def)
    qed
    have "run Z q j" unfolding run_def
    proof (intro conjI)
      show "0 < j" by (rule j)
      show "{q..<q + j} \<subseteq> Z" using qin by auto
      show "q + j \<notin> Z"
      proof
        assume a: "q + j \<in> Z"
        then have "x \<le> q + j \<and> q + j < x + m" using qend by auto
        then have "q + j = p" using disj sub by auto
        then have "p - 1 \<in> Z" and "0 < p" using qin[of "p - 1"] j by auto
        then show False using r by (auto simp: run_def)
      qed
      show "q = 0 \<or> q - 1 \<notin> Z"
      proof (rule ccontr)
        assume a: "\<not> (q = 0 \<or> q - 1 \<notin> Z)"
        then have "x \<le> q - 1 \<and> q - 1 < x + m" using qbeg by auto
        then have "q = p + k" using disj sub j by auto
        moreover have "q \<in> Z" using qin[of q] j by auto
        ultimately show False using r by (auto simp: run_def)
      qed
    qed
    moreover have "q \<noteq> p" using out j r by (auto simp: run_def)
    ultimately show ?thesis by simp
  qed
qed

lemma run_split:
  assumes r: "run Z p k" and sub: "p \<le> x" "x + m \<le> p + k" "0 < m"
  shows "run (Z - {x..<x + m}) q j \<longleftrightarrow>
     (run Z q j \<and> q \<noteq> p) \<or> (q = p \<and> j = x - p \<and> p < x)
       \<or> (q = x + m \<and> j = p + k - (x + m) \<and> 0 < j)"
proof (rule iffI)
  assume "(run Z q j \<and> q \<noteq> p) \<or> (q = p \<and> j = x - p \<and> p < x)
       \<or> (q = x + m \<and> j = p + k - (x + m) \<and> 0 < j)"
  then consider (old) "run Z q j" "q \<noteq> p" | (left) "q = p" "j = x - p" "p < x"
    | (right) "q = x + m" "j = p + k - (x + m)" "0 < j" by blast
  then show "run (Z - {x..<x + m}) q j"
  proof cases
    case old
    have "\<not> (x \<le> i \<and> i < x + m)" if "q \<le> i" "i < q + j" for i
      using run_overlap[OF r old(1), of i] old(2) that sub by auto
    then show ?thesis using old(1) by (auto simp: run_def subset_iff)
  next
    case left
    then show ?thesis using r sub by (auto simp: run_def subset_iff)
  next
    case right
    then show ?thesis using r sub by (auto simp: run_def subset_iff)
  qed
qed (rule run_split_imp [OF assms])


section \<open>Doubly linked lists of headers\<close>

definition hdr_ok :: "nat \<Rightarrow> free_block \<Rightarrow> bool" where
  "hdr_ok k fb \<longleftrightarrow> fb_sign fb = FREE_SIGN \<and> fb_size fb = k"

fun dlseg :: "(nat \<Rightarrow> free_block) \<Rightarrow> nat \<Rightarrow> nat option \<Rightarrow> nat option \<Rightarrow> nat list \<Rightarrow> nat option \<Rightarrow> bool" where
  "dlseg h k pv cur [] nxt \<longleftrightarrow> cur = nxt"
| "dlseg h k pv cur (x # xs) nxt \<longleftrightarrow>
     cur = Some x \<and> hdr_ok k (h x) \<and> fb_prev (h x) = pv \<and> dlseg h k (Some x) (fb_next (h x)) xs nxt"

definition lastp :: "nat option \<Rightarrow> nat list \<Rightarrow> nat option" where
  "lastp pv xs = (if xs = [] then pv else Some (last xs))"

lemma lastp_simps [simp]: "lastp pv [] = pv" "lastp pv (x # xs) = lastp (Some x) xs"
  by (auto simp: lastp_def)

lemma dlseg_append:
  "dlseg h k pv cur (xs @ ys) nxt \<longleftrightarrow>
   (\<exists>m. dlseg h k pv cur xs m \<and> dlseg h k (lastp pv xs) m ys nxt)"
  by (induction xs arbitrary: pv cur) auto

lemma dlseg_cong:
  "(\<And>x. x \<in> set xs \<Longrightarrow> h' x = h x) \<Longrightarrow> dlseg h' k pv cur xs nxt = dlseg h k pv cur xs nxt"
  by (induction xs arbitrary: pv cur) auto

lemma dlseg_hdr: "dlseg h k pv cur xs nxt \<Longrightarrow> x \<in> set xs \<Longrightarrow> hdr_ok k (h x)"
  by (induction xs arbitrary: pv cur) auto

lemma dlseg_set_prev:
  assumes "dlseg h k pv (Some z) (z # zs) nxt" and "z \<notin> set zs"
  shows "dlseg (h(z := (h z)\<lparr>fb_prev := pv'\<rparr>)) k pv' (Some z) (z # zs) nxt"
proof -
  have "dlseg (h(z := (h z)\<lparr>fb_prev := pv'\<rparr>)) k (Some z) (fb_next (h z)) zs nxt
      = dlseg h k (Some z) (fb_next (h z)) zs nxt"
    using assms(2) by (intro dlseg_cong) auto
  then show ?thesis using assms by (simp add: hdr_ok_def)
qed

lemma dlseg_set_next:
  assumes "dlseg h k pv cur (ys @ [y]) nxt" and "y \<notin> set ys"
  shows "dlseg (h(y := (h y)\<lparr>fb_next := m\<rparr>)) k pv cur (ys @ [y]) m"
proof -
  obtain c where c: "dlseg h k pv cur ys c" "dlseg h k (lastp pv ys) c [y] nxt"
    using assms(1) by (auto simp: dlseg_append)
  have "dlseg (h(y := (h y)\<lparr>fb_next := m\<rparr>)) k pv cur ys c"
    using c(1) assms(2) by (subst dlseg_cong [where h = h]) auto
  then show ?thesis using c(2) by (auto simp: dlseg_append hdr_ok_def)
qed

text \<open>
  The free lists: \<open>L k\<close> is the list whose head is \<open>memftable[k]\<close>. A block is on one list at most.
\<close>

definition flists :: "nat \<Rightarrow> nat option list \<Rightarrow> (nat \<Rightarrow> free_block) \<Rightarrow> (nat \<Rightarrow> nat list) \<Rightarrow> bool" where
  "flists n ft h L \<longleftrightarrow> length ft = n
     \<and> (\<forall>k<n. dlseg h k None (ft ! k) (L k) None)
     \<and> (\<forall>k. distinct (L k)) \<and> (\<forall>k j p. p \<in> set (L k) \<longrightarrow> p \<in> set (L j) \<longrightarrow> k = j)
     \<and> (\<forall>k. L k \<noteq> [] \<longrightarrow> 0 < k \<and> k < n)"

lemma flists_dl: "flists n ft h L \<Longrightarrow> k < n \<Longrightarrow> dlseg h k None (ft ! k) (L k) None"
  by (simp add: flists_def)

lemma flists_hdr: "flists n ft h L \<Longrightarrow> p \<in> set (L k) \<Longrightarrow> hdr_ok k (h p) \<and> 0 < k \<and> k < n"
  unfolding flists_def by (metis dlseg_hdr emptyE empty_set)

definition st_flists :: "mempool \<Rightarrow> (nat \<Rightarrow> nat list) \<Rightarrow> bool" where
  "st_flists s L = flists (memblocks s) (memftable s) (mp_hdr s) L"

lemma fb_add_ok:
  assumes fl: "st_flists s L" and new: "\<And>j. p \<notin> set (L j)" and k: "0 < k" "k < memblocks s"
  shows "\<exists>ft h. fb_add s p k = Inr (s\<lparr>mp_hdr := h, memftable := ft\<rparr>)
      \<and> st_flists (s\<lparr>mp_hdr := h, memftable := ft\<rparr>) (L(k := p # L k))
      \<and> (\<forall>q. (\<forall>j. q \<notin> set (L j)) \<longrightarrow> q \<noteq> p \<longrightarrow> h q = mp_hdr s q)"
proof -
  let ?old = "memftable s ! k"
  let ?h1 = "(mp_hdr s)(p := (mp_hdr s p)\<lparr>fb_prev := None, fb_next := ?old\<rparr>)"
  let ?h2 = "case ?old of None \<Rightarrow> ?h1 | Some q \<Rightarrow> ?h1(q := (?h1 q)\<lparr>fb_prev := Some p\<rparr>)"
  let ?h3 = "?h2(p := (?h2 p)\<lparr>fb_sign := FREE_SIGN, fb_size := k\<rparr>)"
  let ?ft = "(memftable s)[k := Some p]"
  have dl: "dlseg (mp_hdr s) k None ?old (L k) None"
    using fl k by (simp add: st_flists_def flists_dl)
  have oldin: "\<And>q. ?old = Some q \<Longrightarrow> \<exists>zs. L k = q # zs"
    using dl by (cases "L k") auto
  have hq: "\<And>q. ?old = Some q \<Longrightarrow> q \<noteq> p \<and> fb_sign (mp_hdr s q) = FREE_SIGN"
  proof -
    fix q assume q: "?old = Some q"
    then obtain zs where "L k = q # zs" using oldin by blast
    then show "q \<noteq> p \<and> fb_sign (mp_hdr s q) = FREE_SIGN"
      using new[of k] dl by (auto simp: hdr_ok_def)
  qed
  have eq: "fb_add s p k = Inr (s\<lparr>mp_hdr := ?h3, memftable := ?ft\<rparr>)"
    unfolding fb_add_def Let_def using hq by (auto simp: fbcheck_def split: option.splits)
  have outside: "?h3 x = mp_hdr s x" if "x \<noteq> p" "x \<notin> set (L k)" for x
    using oldin that by (auto split: option.splits)
  have other: "dlseg ?h3 j None (?ft ! j) (L j) None" if "j < memblocks s" "j \<noteq> k" for j
  proof -
    have "dlseg ?h3 j None (memftable s ! j) (L j) None = dlseg (mp_hdr s) j None (memftable s ! j) (L j) None"
      using fl new that by (intro dlseg_cong outside) (auto simp: st_flists_def flists_def)
    then show ?thesis using fl that by (simp add: st_flists_def flists_dl)
  qed
  have this_list: "dlseg ?h3 k None (Some p) (p # L k) None"
  proof (cases ?old)
    case None
    then have "L k = []" using dl by (cases "L k") auto
    then show ?thesis using None by (simp add: hdr_ok_def)
  next
    case (Some q)
    then obtain zs where zs: "L k = q # zs" using oldin by blast
    have "dlseg ((mp_hdr s)(q := (mp_hdr s q)\<lparr>fb_prev := Some p\<rparr>)) k (Some p) (Some q) (q # zs) None"
      using dl zs Some fl by (intro dlseg_set_prev [where pv = None]) (auto simp: st_flists_def flists_def, metis distinct.simps(2))
    moreover have "dlseg ?h3 k (Some p) (Some q) (q # zs) None
        = dlseg ((mp_hdr s)(q := (mp_hdr s q)\<lparr>fb_prev := Some p\<rparr>)) k (Some p) (Some q) (q # zs) None"
      using new[of k] zs Some hq by (intro dlseg_cong) auto
    ultimately show ?thesis using zs Some hq by (simp add: hdr_ok_def)
  qed
  have fl': "flists (memblocks s) ?ft ?h3 (L(k := p # L k))"
    unfolding flists_def
  proof (intro conjI allI impI)
    fix j assume "j < memblocks s"
    then show "dlseg ?h3 j None (?ft ! j) ((L(k := p # L k)) j) None"
      using this_list other[of j] fl k by (cases "j = k") (auto simp: st_flists_def flists_def)
  qed (use fl new k in \<open>auto simp: st_flists_def flists_def split: if_splits\<close>)
  show ?thesis
    using eq fl' outside by (intro exI[of _ ?ft] exI[of _ ?h3]) (auto simp: st_flists_def)
qed


text \<open>Unlinking: \<open>h2\<close> closes the gap on the left, \<open>h3\<close> on the right.\<close>

lemma dlseg_unlink_left:
  assumes d: "dlseg h k None cur (ys @ x # zs) None" and dist: "distinct (ys @ x # zs)"
  defines "pfb \<equiv> fb_prev (h x)" and "nfb \<equiv> fb_next (h x)"
  shows "dlseg (case pfb of None \<Rightarrow> h | Some q \<Rightarrow> h(q := (h q)\<lparr>fb_next := nfb\<rparr>)) k None
           (case pfb of None \<Rightarrow> nfb | Some q \<Rightarrow> cur) ys nfb"
proof (cases ys rule: rev_cases)
  case Nil
  then show ?thesis using d by (simp add: pfb_def nfb_def)
next
  case (snoc ys' y)
  have "dlseg h k None cur (ys' @ [y]) (Some x) \<and> pfb = Some y"
    using d snoc by (auto simp: dlseg_append pfb_def lastp_def)
  then show ?thesis
    using dlseg_set_next [of h k None cur ys' y "Some x" nfb] dist snoc by simp
qed

lemma dlseg_unlink_right:
  assumes d: "dlseg h k pv (fb_next (h x)) zs None" and dist: "distinct zs"
  shows "dlseg (case fb_next (h x) of None \<Rightarrow> h | Some q \<Rightarrow> h(q := (h q)\<lparr>fb_prev := pv'\<rparr>)) k pv'
           (fb_next (h x)) zs None"
proof (cases zs)
  case Nil
  then show ?thesis using d by simp
next
  case (Cons z zs')
  then show ?thesis
    using d dist dlseg_set_prev [of h k pv z zs' None pv'] by auto
qed

lemma fb_del_ok:
  assumes fl: "st_flists s L" and x: "x \<in> set (L k)" and sz: "usize = 0 \<or> usize = k"
  shows "\<exists>ft h. fb_del s x usize = Inr (s\<lparr>mp_hdr := h, memftable := ft\<rparr>)
      \<and> st_flists (s\<lparr>mp_hdr := h, memftable := ft\<rparr>) (L(k := remove1 x (L k)))
      \<and> (\<forall>q. (\<forall>j. q \<notin> set (L j)) \<longrightarrow> h q = mp_hdr s q)"
proof -
  let ?h = "mp_hdr s" and ?fb = "mp_hdr s x"
  let ?pfb = "fb_prev ?fb" and ?nfb = "fb_next ?fb"
  let ?h1 = "?h(x := ?fb\<lparr>fb_sign := 0\<rparr>)"
  let ?h2 = "case ?pfb of None \<Rightarrow> ?h1 | Some q \<Rightarrow> ?h1(q := (?h1 q)\<lparr>fb_next := ?nfb\<rparr>)"
  let ?ft = "case ?pfb of None \<Rightarrow> (memftable s)[k := ?nfb] | Some q \<Rightarrow> memftable s"
  let ?h3 = "case ?nfb of None \<Rightarrow> ?h2 | Some q \<Rightarrow> ?h2(q := (?h2 q)\<lparr>fb_prev := ?pfb\<rparr>)"
  have hk: "hdr_ok k ?fb" "0 < k" "k < memblocks s"
    using flists_hdr fl x by (auto simp: st_flists_def)
  have eq: "fb_del s x usize = Inr (s\<lparr>mp_hdr := ?h3, memftable := ?ft\<rparr>)"
    using sz hk by (auto simp: fb_del_def Let_def fbcheck_def hdr_ok_def)
  obtain ys zs where split: "L k = ys @ x # zs" using x by (auto simp: in_set_conv_decomp)
  have dist: "distinct (ys @ x # zs)" using fl split by (metis flists_def st_flists_def)
  have dl: "dlseg ?h k None (memftable s ! k) (ys @ x # zs) None"
    using fl hk split by (metis flists_dl st_flists_def)
  have parts: "dlseg ?h k (Some x) ?nfb zs None" and pf: "?pfb = lastp None ys"
    using dl by (auto simp: dlseg_append)
  have pin: "\<And>q. ?pfb = Some q \<Longrightarrow> q \<in> set ys"
    using pf by (auto simp: lastp_def split: if_splits)
  have nin: "\<And>q. ?nfb = Some q \<Longrightarrow> q \<in> set zs" using parts by (cases zs) auto
  have outside: "?h3 q = ?h q" if "q \<notin> set (L k)" for q
    using that pin nin split by (auto split: option.splits)
  have left: "dlseg ?h3 k None (case ?pfb of None \<Rightarrow> ?nfb | Some q \<Rightarrow> memftable s ! k) ys ?nfb"
  proof (subst dlseg_cong [where h = "case ?pfb of None \<Rightarrow> ?h | Some q \<Rightarrow> ?h(q := (?h q)\<lparr>fb_next := ?nfb\<rparr>)"])
    fix q assume "q \<in> set ys"
    then show "?h3 q = (case ?pfb of None \<Rightarrow> ?h | Some q \<Rightarrow> ?h(q := (?h q)\<lparr>fb_next := ?nfb\<rparr>)) q"
      using dist nin by (auto split: option.splits)
  qed (use dlseg_unlink_left [OF dl dist] in simp)
  have right: "dlseg ?h3 k ?pfb ?nfb zs None"
  proof (subst dlseg_cong [where h = "case ?nfb of None \<Rightarrow> ?h | Some q \<Rightarrow> ?h(q := (?h q)\<lparr>fb_prev := ?pfb\<rparr>)"])
    fix q assume "q \<in> set zs"
    then show "?h3 q = (case ?nfb of None \<Rightarrow> ?h | Some q \<Rightarrow> ?h(q := (?h q)\<lparr>fb_prev := ?pfb\<rparr>)) q"
      using dist pin by (auto split: option.splits)
  qed (use dlseg_unlink_right [OF parts] dist in simp)
  have ftk: "?ft ! k = (case ?pfb of None \<Rightarrow> ?nfb | Some q \<Rightarrow> memftable s ! k)"
    using hk fl by (auto simp: st_flists_def flists_def split: option.splits)
  have this_list: "dlseg ?h3 k None (?ft ! k) (ys @ zs) None"
    unfolding dlseg_append ftk
    by (rule exI [of _ ?nfb], rule conjI [OF left], rule subst [OF pf, where P = "\<lambda>v. dlseg ?h3 k v ?nfb zs None"], rule right)
  have rem: "remove1 x (L k) = ys @ zs" using split dist by (simp add: remove1_append)
  have fl': "flists (memblocks s) ?ft ?h3 (L(k := remove1 x (L k)))"
    unfolding flists_def
  proof (intro conjI allI impI)
    fix j assume j: "j < memblocks s"
    show "dlseg ?h3 j None (?ft ! j) ((L(k := remove1 x (L k))) j) None"
    proof (cases "j = k")
      case True
      then show ?thesis using this_list rem by simp
    next
      case False
      have "dlseg ?h3 j None (memftable s ! j) (L j) None = dlseg ?h j None (memftable s ! j) (L j) None"
        using fl False by (intro dlseg_cong outside) (auto simp: st_flists_def flists_def)
      moreover have "?ft ! j = memftable s ! j" using False by (auto split: option.splits)
      ultimately show ?thesis using False fl j by (simp add: st_flists_def flists_dl)
    qed
  next
    show "length ?ft = memblocks s" using fl by (auto simp: st_flists_def flists_def split: option.splits)
  next
    fix j
    show "distinct ((L(k := remove1 x (L k))) j)" using fl by (auto simp: st_flists_def flists_def)
  next
    fix i j p
    assume "p \<in> set ((L(k := remove1 x (L k))) i)" "p \<in> set ((L(k := remove1 x (L k))) j)"
    then have "p \<in> set (L i)" "p \<in> set (L j)" using set_remove1_subset [of x "L k"] by (auto split: if_splits)
    moreover have "\<forall>k j p. p \<in> set (L k) \<longrightarrow> p \<in> set (L j) \<longrightarrow> k = j"
      using fl by (simp add: st_flists_def flists_def)
    ultimately show "i = j" by blast
  next
    fix j assume "(L(k := remove1 x (L k))) j \<noteq> []"
    then have "L j \<noteq> []" using x by (auto split: if_splits)
    moreover have "\<forall>k. L k \<noteq> [] \<longrightarrow> 0 < k \<and> k < memblocks s"
      using fl by (simp add: st_flists_def flists_def)
    ultimately show "0 < j" "j < memblocks s" by blast+
  qed
  show ?thesis
    using eq fl' outside by (intro exI[of _ ?ft] exI[of _ ?h3]) (auto simp: st_flists_def)
qed


section \<open>The invariant\<close>

definition freeset :: "mempool \<Rightarrow> nat set" where
  "freeset s = {i. i < memblocks s \<and> memtable s ! i = 0}"

definition used_head :: "nat list \<Rightarrow> nat \<Rightarrow> bool" where
  "used_head mt p \<longleftrightarrow> mt ! p \<noteq> 0 \<and> mt ! p \<noteq> FFFF"

text \<open>Every block size is followed by its middle marks, and every middle mark belongs to a block.\<close>

definition mt_inv :: "nat \<Rightarrow> nat list \<Rightarrow> bool" where
  "mt_inv n mt \<longleftrightarrow> length mt = n
     \<and> (\<forall>p<n. used_head mt p \<longrightarrow> 0 < blk64 (mt ! p) \<and> p + blk64 (mt ! p) \<le> n
              \<and> (\<forall>i. p < i \<and> i < p + blk64 (mt ! p) \<longrightarrow> mt ! i = FFFF))
     \<and> (\<forall>i<n. mt ! i = FFFF \<longrightarrow> (\<exists>p<i. used_head mt p \<and> i < p + blk64 (mt ! p)))"

definition mp_wf :: "mempool \<Rightarrow> bool" where
  "mp_wf s \<longleftrightarrow> length (memheapres s) = memblocks s \<and> length (memsignlst s) = memblocks s
     \<and> length (memowner s) = memblocks s \<and> 0 < memblocks s \<and> memblocks s \<le> 65535
     \<and> memtable s ! 0 \<noteq> 0 \<and> memheapres s ! 0 \<and> (\<forall>i<memblocks s. memtable s ! i \<le> FFFF)
     \<and> mp_base s + memblocks s * 65536 \<le> 4294967296"

definition lists_exact :: "mempool \<Rightarrow> (nat \<Rightarrow> nat list) \<Rightarrow> bool" where
  "lists_exact s L \<longleftrightarrow> st_flists s L \<and> (\<forall>k p. p \<in> set (L k) \<longleftrightarrow> run (freeset s) p k)"

definition mp_inv :: "mempool \<Rightarrow> bool" where
  "mp_inv s \<longleftrightarrow> mp_wf s \<and> mt_inv (memblocks s) (memtable s) \<and> (\<exists>L. lists_exact s L)"

lemma run_bound: "run (freeset s) p k \<Longrightarrow> p + k \<le> memblocks s"
  using run_in [of "freeset s" p k "p + k - 1"] by (force simp: run_def freeset_def)

lemma run_pos: "mp_wf s \<Longrightarrow> run (freeset s) p k \<Longrightarrow> 0 < p"
  using run_in [of "freeset s" p k p] by (cases p) (auto simp: run_def freeset_def mp_wf_def)

lemma lists_exact_length: "lists_exact s L \<Longrightarrow> length (L k) \<le> memblocks s"
proof -
  assume l: "lists_exact s L"
  have "set (L k) \<subseteq> {..<memblocks s}"
  proof
    fix p assume "p \<in> set (L k)"
    then have "run (freeset s) p k" using l by (simp add: lists_exact_def)
    then show "p \<in> {..<memblocks s}" using run_in [of "freeset s" p k p] by (auto simp: freeset_def run_def)
  qed
  moreover have "distinct (L k)" using l by (simp add: lists_exact_def st_flists_def flists_def)
  ultimately show ?thesis
    by (metis card_lessThan card_mono distinct_card finite_lessThan)
qed

section \<open>The walk of the free lists\<close>

fun pick :: "int \<Rightarrow> nat \<Rightarrow> (nat \<times> nat) option \<Rightarrow> nat \<Rightarrow> (nat \<times> nat) option" where
  "pick al ii None p = Some (p, ii)"
| "pick al ii (Some (ps, k)) p = (if (p < ps) = (al < 0) then Some (p, ii) else Some (ps, k))"

definition next_in :: "mempool \<Rightarrow> nat \<Rightarrow> bool" where
  "next_in s p \<longleftrightarrow> (case fb_next (mp_hdr s p) of None \<Rightarrow> True | Some q \<Rightarrow> q < memblocks s)"

lemma scan_chain_eq:
  assumes "al \<noteq> 0" and "dlseg (mp_hdr s) ii pv cur xs None" and "length xs \<le> fuel"
    and "\<And>p. p \<in> set xs \<Longrightarrow> p < memblocks s \<and> memtable s ! p = 0"
    and "\<And>p. p \<in> set xs \<Longrightarrow> memftable s ! ii = Some p \<Longrightarrow> fb_prev (mp_hdr s p) = None"
  shows "scan_chain s al ii fuel cur res = Inr (foldl (pick al ii) res xs)"
  using assms(2-)
proof (induction xs arbitrary: pv cur fuel res)
  case Nil
  then show ?case by simp
next
  case (Cons x xs)
  obtain f where f: "fuel = Suc f" using Cons.prems(2) by (cases fuel) auto
  have d: "dlseg (mp_hdr s) ii (Some x) (fb_next (mp_hdr s x)) xs None"
    and cur: "cur = Some x" and ok: "hdr_ok ii (mp_hdr s x)" using Cons.prems(1) by auto
  have nx: "case fb_next (mp_hdr s x) of None \<Rightarrow> True | Some q \<Rightarrow> q < memblocks s"
    using d Cons.prems(3) by (cases xs) auto
  have IH: "scan_chain s al ii f (fb_next (mp_hdr s x)) r = Inr (foldl (pick al ii) r xs)" for r
    using d Cons.prems by (intro Cons.IH) (auto simp: f)
  have chk: "fbcheck (mp_hdr s x) = Inr ()"
    "fb_chkhdr s (mp_hdr s x) (memftable s ! ii = Some x) = Inr ()"
    using ok nx Cons.prems(4)[of x]
    by (auto simp: fbcheck_def hdr_ok_def fb_chkhdr_def guard_err_def split: option.splits)
  show ?case
    using assms(1) chk Cons.prems(3)[of x] IH f cur
    by (cases res) (auto simp: Let_def split: if_splits)
qed

text \<open>\<open>res\<close> is the best of the areas in \<open>S\<close> for the placement.\<close>

definition chosen :: "int \<Rightarrow> (nat \<times> nat) option \<Rightarrow> (nat \<times> nat) set \<Rightarrow> bool" where
  "chosen al res S = (case res of None \<Rightarrow> S = {}
     | Some (p, k) \<Rightarrow> (p, k) \<in> S \<and> (\<forall>(q, j) \<in> S. (al < 0 \<longrightarrow> p \<le> q) \<and> (0 < al \<longrightarrow> q \<le> p)))"

lemma chosen_pick:
  assumes "al \<noteq> 0" and "chosen al res S"
  shows "chosen al (pick al ii res p) (insert (p, ii) S)"
proof (cases res)
  case None
  then show ?thesis using assms by (simp add: chosen_def)
next
  case (Some r)
  obtain ps k where r: "r = (ps, k)" by (cases r)
  have "(ps, k) \<in> S" "\<forall>(q, j) \<in> S. (al < 0 \<longrightarrow> ps \<le> q) \<and> (0 < al \<longrightarrow> q \<le> ps)"
    using assms(2) Some r by (auto simp: chosen_def)
  then show ?thesis using assms(1) Some r by (fastforce simp: chosen_def)
qed

lemma chosen_foldl:
  assumes "al \<noteq> 0" and "chosen al res S"
  shows "chosen al (foldl (pick al ii) res xs) (S \<union> (\<lambda>p. (p, ii)) ` set xs)"
  using assms(2)
proof (induction xs arbitrary: res S)
  case Nil
  then show ?case by simp
next
  case (Cons x xs)
  have "chosen al (foldl (pick al ii) (pick al ii res x) xs) (insert (x, ii) S \<union> (\<lambda>p. (p, ii)) ` set xs)"
    using chosen_pick [OF assms(1) Cons.prems] by (rule Cons.IH)
  then show ?case by simp
qed

lemma scan_list_prems:
  assumes l: "lists_exact s L" and ii: "ii < memblocks s"
  shows "dlseg (mp_hdr s) ii None (memftable s ! ii) (L ii) None"
    and "p \<in> set (L ii) \<Longrightarrow> p < memblocks s \<and> memtable s ! p = 0"
    and "p \<in> set (L ii) \<Longrightarrow> memftable s ! ii = Some p \<Longrightarrow> fb_prev (mp_hdr s p) = None"
proof -
  show d: "dlseg (mp_hdr s) ii None (memftable s ! ii) (L ii) None"
    using l ii unfolding lists_exact_def st_flists_def by (blast intro: flists_dl)
  show "p < memblocks s \<and> memtable s ! p = 0" if "p \<in> set (L ii)"
  proof -
    have "run (freeset s) p ii" using that l by (simp add: lists_exact_def)
    then show ?thesis using run_in [of "freeset s" p ii p] by (auto simp: run_def freeset_def)
  qed
  show "fb_prev (mp_hdr s p) = None" if "p \<in> set (L ii)" "memftable s ! ii = Some p"
    using d that by (cases "L ii") auto
qed

definition fit_runs :: "mempool \<Rightarrow> nat \<Rightarrow> (nat \<times> nat) set" where
  "fit_runs s sz = {(p, k). run (freeset s) p k \<and> sz \<le> k}"

lemma run_less: "mp_wf s \<Longrightarrow> run (freeset s) p k \<Longrightarrow> k < memblocks s"
  using run_bound [of s p k] run_pos [of s p k] by simp

lemma scan_chain_list:
  assumes "lists_exact s L" and "ii < memblocks s" and "al \<noteq> 0"
  shows "scan_chain s al ii (memblocks s) (memftable s ! ii) res = Inr (foldl (pick al ii) res (L ii))"
  using assms lists_exact_length [OF assms(1)]
  by (intro scan_chain_eq [OF assms(3) scan_list_prems(1)]) (auto dest: scan_list_prems(2,3))

lemma scan_sizes_chosen:
  assumes wf: "mp_wf s" and l: "lists_exact s L" and al: "al \<noteq> 0"
    and "chosen al res {(p, k). run (freeset s) p k \<and> sz \<le> k \<and> k < ii}" and "sz \<le> ii"
  shows "\<exists>r. scan_sizes s al ii res = Inr r \<and> chosen al r (fit_runs s sz)"
  using assms(4,5)
proof (induction "memblocks s - ii" arbitrary: ii res)
  case 0
  have "{(p, k). run (freeset s) p k \<and> sz \<le> k \<and> k < ii} = fit_runs s sz"
    using 0 run_less [OF wf] by (fastforce simp: fit_runs_def)
  then show ?case using 0 by (simp add: scan_sizes.simps)
next
  case (Suc d)
  have ii: "ii < memblocks s" using Suc.hyps(2) by simp
  let ?res' = "foldl (pick al ii) res (L ii)"
  have set_eq: "{(p, k). run (freeset s) p k \<and> sz \<le> k \<and> k < ii} \<union> (\<lambda>p. (p, ii)) ` set (L ii)
      = {(p, k). run (freeset s) p k \<and> sz \<le> k \<and> k < Suc ii}"
    using l Suc.prems(2) by (auto simp: lists_exact_def less_Suc_eq)
  have ch: "chosen al ?res' {(p, k). run (freeset s) p k \<and> sz \<le> k \<and> k < Suc ii}"
    using chosen_foldl [OF al Suc.prems(1), of ii "L ii"] set_eq by simp
  have step: "scan_sizes s al ii res = scan_sizes s al (Suc ii) ?res'"
  proof (cases "memftable s ! ii")
    case None
    then have "L ii = []" using scan_list_prems(1) [OF l ii] by (cases "L ii") auto
    then show ?thesis using None ii by (simp add: scan_sizes.simps [of s al ii])
  next
    case (Some p)
    then show ?thesis using scan_chain_list [OF l ii al, of res] ii al
      by (simp add: scan_sizes.simps [of s al ii])
  qed
  show ?case unfolding step using Suc.hyps(2) Suc.prems(2) ch by (intro Suc.hyps(1)) auto
qed

text \<open>First fit: the first list that is not empty, hence the smallest area that fits.\<close>

lemma scan_sizes_first:
  assumes wf: "mp_wf s" and l: "lists_exact s L" and "sz \<le> ii"
    and none: "\<And>p k. run (freeset s) p k \<Longrightarrow> sz \<le> k \<Longrightarrow> ii \<le> k"
  shows "\<exists>r. scan_sizes s 0 ii None = Inr r \<and> (case r of None \<Rightarrow> fit_runs s sz = {}
     | Some (p, k) \<Rightarrow> (p, k) \<in> fit_runs s sz \<and> (\<forall>(q, j) \<in> fit_runs s sz. k \<le> j))"
  using assms(3,4)
proof (induction "memblocks s - ii" arbitrary: ii)
  case 0
  then have "fit_runs s sz = {}" using run_less [OF wf] by (fastforce simp: fit_runs_def)
  then show ?case using 0 by (simp add: scan_sizes.simps)
next
  case (Suc d)
  have ii: "ii < memblocks s" using Suc.hyps(2) by simp
  note d = scan_list_prems(1) [OF l ii]
  show ?case
  proof (cases "memftable s ! ii")
    case None
    then have nil: "L ii = []" using d by (cases "L ii") auto
    have "Suc ii \<le> k" if "run (freeset s) p k" "sz \<le> k" for p k
    proof -
      have "k \<noteq> ii" using nil that(1) l by (metis emptyE empty_set lists_exact_def)
      then show ?thesis using Suc.prems(2) [OF that] by simp
    qed
    then show ?thesis using Suc.hyps None ii Suc.prems(1) by (simp add: scan_sizes.simps [of s 0 ii])
  next
    case (Some p)
    then obtain xs where xs: "L ii = p # xs" using d by (cases "L ii") auto
    have p: "hdr_ok ii (mp_hdr s p)" "fb_prev (mp_hdr s p) = None" using d Some xs by auto
    have dx: "dlseg (mp_hdr s) ii (Some p) (fb_next (mp_hdr s p)) xs None" using d Some xs by simp
    have nx: "case fb_next (mp_hdr s p) of None \<Rightarrow> True | Some q \<Rightarrow> q < memblocks s"
      using dx scan_list_prems(2) [OF l ii] xs by (cases xs) auto
    have pz: "memtable s ! p = 0" using scan_list_prems(2) [OF l ii, of p] xs by simp
    obtain m where m: "memblocks s = Suc m" using ii by (cases "memblocks s") auto
    have "scan_chain s 0 ii (memblocks s) (Some p) None = Inr (Some (p, ii))"
      using p nx pz unfolding m
      by (auto simp: Let_def fbcheck_def hdr_ok_def fb_chkhdr_def guard_err_def m split: option.splits)
    moreover have "(p, ii) \<in> fit_runs s sz"
    proof -
      have "run (freeset s) p ii" using xs l by (metis list.set_intros(1) lists_exact_def)
      then show ?thesis using Suc.prems(1) by (simp add: fit_runs_def)
    qed
    ultimately show ?thesis using Some ii Suc.prems(2)
      by (auto simp: scan_sizes.simps [of s 0 ii] fit_runs_def)
  qed
qed


section \<open>The size table under placement and release\<close>

lemma blk64_pos: "0 < v \<Longrightarrow> v \<le> 4294901760 \<Longrightarrow> 0 < blk64 v \<and> blk64 v = (v + 65535) div 65536"
  by (simp add: blk64_def)

lemma blk64_le: "blk64 v \<le> 65535"
  by (simp add: blk64_def less_mult_imp_div_less flip: less_Suc_eq_le)

lemma blk64_covers: "v \<le> 4294901760 \<Longrightarrow> v \<le> blk64 v * 65536"
  by (simp add: blk64_def)

lemma blk64_FFFF [simp]: "blk64 FFFF = 0"
  by (simp add: blk64_def FFFF_def)

lemma dec32_pos: "0 < n \<Longrightarrow> n \<le> 65536 \<Longrightarrow> dec32 n = n - 1"
  by (simp add: dec32_def mod_if)

text \<open>A block of \<open>v\<close> bytes placed at \<open>x\<close>; the block at \<open>x\<close> released.\<close>

definition place :: "nat list \<Rightarrow> nat \<Rightarrow> nat \<Rightarrow> nat list" where
  "place mt x v = fill (mt[x := v]) (Suc x) (blk64 v - 1) FFFF"

definition wipe :: "nat list \<Rightarrow> nat \<Rightarrow> nat list" where
  "wipe mt x = fill mt x (blk64 (mt ! x)) 0"

lemma length_place [simp]: "length (place mt x v) = length mt"
  by (simp add: place_def)

lemma length_wipe [simp]: "length (wipe mt x) = length mt"
  by (simp add: wipe_def)

lemma nth_place: "i < length mt \<Longrightarrow> place mt x v ! i =
    (if i = x then v else if x < i \<and> i < x + blk64 v then FFFF else mt ! i)"
  by (auto simp: place_def nth_list_update)

lemma nth_wipe: "i < length mt \<Longrightarrow> wipe mt x ! i =
    (if x \<le> i \<and> i < x + blk64 (mt ! x) then 0 else mt ! i)"
  by (simp add: wipe_def)

lemma mark_used_ok:
  assumes "\<And>i. ps < i \<Longrightarrow> i \<le> ps + m \<Longrightarrow> mt ! i = 0" and "ps + m < length mt"
  shows "mark_used mt ps m = Inr (fill mt (Suc ps) m FFFF)"
  using assms
proof (induction m arbitrary: mt ps)
  case 0
  then show ?case by simp
next
  case (Suc m)
  have "mark_used (mt[Suc ps := FFFF]) (Suc ps) m = Inr (fill (mt[Suc ps := FFFF]) (Suc (Suc ps)) m FFFF)"
    using Suc.prems by (intro Suc.IH) auto
  then show ?case using Suc.prems(1)[of "Suc ps"] by (simp add: fill_Suc)
qed

lemma mt_head: "mt_inv n mt \<Longrightarrow> p < n \<Longrightarrow> used_head mt p \<Longrightarrow>
    0 < blk64 (mt ! p) \<and> p + blk64 (mt ! p) \<le> n"
  by (simp add: mt_inv_def)

lemma mt_middle: "mt_inv n mt \<Longrightarrow> p < n \<Longrightarrow> used_head mt p \<Longrightarrow> p < i \<Longrightarrow> i < p + blk64 (mt ! p)
    \<Longrightarrow> mt ! i = FFFF"
  by (simp add: mt_inv_def)

lemma mt_cover: "mt_inv n mt \<Longrightarrow> i < n \<Longrightarrow> mt ! i = FFFF \<Longrightarrow>
    \<exists>p<i. used_head mt p \<and> i < p + blk64 (mt ! p)"
  by (simp add: mt_inv_def)

lemma mt_len: "mt_inv n mt \<Longrightarrow> length mt = n"
  by (simp add: mt_inv_def)

lemma FFFF_nz [simp]: "FFFF \<noteq> 0" "0 \<noteq> FFFF"
  by (simp_all add: FFFF_def)

lemma mt_inv_place:
  assumes inv: "mt_inv n mt" and free: "\<And>i. x \<le> i \<Longrightarrow> i < x + blk64 v \<Longrightarrow> mt ! i = 0"
    and b: "0 < blk64 v" "x + blk64 v \<le> n" and v: "v \<noteq> 0"
  shows "mt_inv n (place mt x v)"
proof -
  have v': "v \<noteq> FFFF" using b(1) by auto
  note len = mt_len [OF inv]
  note nth = nth_place [of _ mt x v, unfolded len]
  have sep: "p + blk64 (mt ! p) \<le> x \<or> x + blk64 v \<le> p" if "p < n" "used_head mt p" for p
  proof (rule ccontr)
    assume a: "\<not> (p + blk64 (mt ! p) \<le> x \<or> x + blk64 v \<le> p)"
    show False
    proof (cases "p < x")
      case True
      then have "mt ! x = FFFF" using a mt_middle [OF inv that, of x] by simp
      then show False using free[of x] b by simp
    next
      case False
      then show False using free[of p] a that by (simp add: used_head_def)
    qed
  qed
  have head: "used_head (place mt x v) p \<longleftrightarrow> p = x \<or> used_head mt p" if "p < n" for p
    using that v v' free[of p] by (auto simp: used_head_def nth)
  show ?thesis unfolding mt_inv_def
  proof (intro conjI allI impI)
    show "length (place mt x v) = n" using len by simp
  next
    fix p assume p: "p < n" "used_head (place mt x v) p"
    then have h: "p = x \<or> p \<noteq> x \<and> used_head mt p" using head by blast
    have px: "place mt x v ! p = mt ! p" if "p \<noteq> x"
      using sep[of p] h that p nth by (auto simp: used_head_def)
    show "0 < blk64 (place mt x v ! p)" "p + blk64 (place mt x v ! p) \<le> n"
      using h b px mt_head [OF inv p(1)] p nth by (cases "p = x"; simp)+
    fix i assume i: "p < i \<and> i < p + blk64 (place mt x v ! p)"
    show "place mt x v ! i = FFFF"
    proof (cases "p = x")
      case True
      then show ?thesis using i p b nth by simp
    next
      case False
      then have "mt ! i = FFFF" and "i < n"
        using h px i mt_middle [OF inv p(1), of i] mt_head [OF inv p(1)] by auto
      moreover have "\<not> (x \<le> i \<and> i < x + blk64 v)" using free[of i] calculation by auto
      ultimately show ?thesis using nth b(1) by auto
    qed
  next
    fix i assume i: "i < n" "place mt x v ! i = FFFF"
    show "\<exists>p<i. used_head (place mt x v) p \<and> i < p + blk64 (place mt x v ! p)"
    proof (cases "x < i \<and> i < x + blk64 v")
      case True
      then show ?thesis using head b nth by (intro exI[of _ x]) auto
    next
      case False
      then have "i \<noteq> x \<and> mt ! i = FFFF" using i v' nth by (cases "i = x") auto
      then have "mt ! i = FFFF" by simp
      then obtain p where p: "p < i" "used_head mt p" "i < p + blk64 (mt ! p)"
        using mt_cover [OF inv i(1)] by blast
      have "p < n" using p i by simp
      then have "place mt x v ! p = mt ! p"
        using nth free[of p] p(2) b(1) by (auto simp: used_head_def)
      then show ?thesis using p head[of p] \<open>p < n\<close> by (intro exI[of _ p]) auto
    qed
  qed
qed

lemma mt_inv_wipe:
  assumes inv: "mt_inv n mt" and x: "x < n" "used_head mt x"
  shows "mt_inv n (wipe mt x)"
proof -
  note len = mt_len [OF inv]
  note nth = nth_wipe [of _ mt x, unfolded len]
  note hx = mt_head [OF inv x]
  have sep: "p + blk64 (mt ! p) \<le> x \<or> x + blk64 (mt ! x) \<le> p"
    if "p < n" "used_head mt p" "p \<noteq> x" for p
    using mt_middle [OF inv that(1,2), of x] mt_middle [OF inv x, of p] that x
    unfolding used_head_def by (meson linorder_neqE_nat linorder_not_le)
  have head: "used_head (wipe mt x) p \<longleftrightarrow> p \<noteq> x \<and> used_head mt p" if "p < n" for p
    using that hx sep[of p] mt_middle [OF inv x, of p]
    by (auto simp: used_head_def nth)
  have keep: "wipe mt x ! p = mt ! p" if "p < n" "used_head mt p" "p \<noteq> x" for p
    using sep [OF that] that nth by (auto simp: used_head_def)
  show ?thesis unfolding mt_inv_def
  proof (intro conjI allI impI)
    show "length (wipe mt x) = n" using len by simp
  next
    fix p assume p: "p < n" "used_head (wipe mt x) p"
    then have h: "p \<noteq> x" "used_head mt p" using head by auto
    show "0 < blk64 (wipe mt x ! p)" "p + blk64 (wipe mt x ! p) \<le> n"
      using keep [OF p(1) h(2,1)] mt_head [OF inv p(1) h(2)] by auto
    fix i assume "p < i \<and> i < p + blk64 (wipe mt x ! p)"
    then have i: "p < i" "i < p + blk64 (mt ! p)" using keep [OF p(1) h(2,1)] by auto
    have "i < n" using i mt_head [OF inv p(1) h(2)] by simp
    moreover have "mt ! i = FFFF" using mt_middle [OF inv p(1) h(2)] i by simp
    moreover have "\<not> (x \<le> i \<and> i < x + blk64 (mt ! x))"
      using sep [OF p(1) h(2,1)] i x by auto
    ultimately show "wipe mt x ! i = FFFF" using nth by auto
  next
    fix i assume i: "i < n" "wipe mt x ! i = FFFF"
    then have ni: "\<not> (x \<le> i \<and> i < x + blk64 (mt ! x))" "mt ! i = FFFF" using nth by (auto split: if_splits)
    then obtain p where p: "p < i" "used_head mt p" "i < p + blk64 (mt ! p)"
      using mt_cover [OF inv i(1)] by blast
    have "p \<noteq> x" using p ni by auto
    then show "\<exists>p<i. used_head (wipe mt x) p \<and> i < p + blk64 (wipe mt x ! p)"
      using p i head[of p] keep[of p] by (intro exI[of _ p]) auto
  qed
qed


section \<open>Carving a used area out of a free one, and giving it back\<close>

lemma lists_exact_wf: "lists_exact s L \<Longrightarrow> length (memftable s) = memblocks s"
  by (simp add: lists_exact_def st_flists_def flists_def)

text \<open>What the list operations leave alone.\<close>

definition same_but_lists :: "mempool \<Rightarrow> mempool \<Rightarrow> bool" where
  "same_but_lists s s' \<longleftrightarrow> (\<exists>h ft. s' = s\<lparr>mp_hdr := h, memftable := ft\<rparr>)"

lemma same_but_listsD:
  "same_but_lists s s' \<Longrightarrow> memtable s' = memtable s \<and> memblocks s' = memblocks s \<and> mp_base s' = mp_base s
    \<and> memheapres s' = memheapres s \<and> memsignlst s' = memsignlst s \<and> memowner s' = memowner s
    \<and> mp_data s' = mp_data s"
  by (auto simp: same_but_lists_def)

lemma same_but_lists_refl [simp]: "same_but_lists s s"
  unfolding same_but_lists_def by (rule exI [of _ "mp_hdr s"], rule exI [of _ "memftable s"]) simp

lemma same_but_lists_trans: "same_but_lists s s1 \<Longrightarrow> same_but_lists s1 s2 \<Longrightarrow> same_but_lists s s2"
  unfolding same_but_lists_def
proof -
  assume "\<exists>h ft. s1 = s\<lparr>mp_hdr := h, memftable := ft\<rparr>" "\<exists>h ft. s2 = s1\<lparr>mp_hdr := h, memftable := ft\<rparr>"
  then obtain h ft h' ft' where "s1 = s\<lparr>mp_hdr := h, memftable := ft\<rparr>" "s2 = s1\<lparr>mp_hdr := h', memftable := ft'\<rparr>"
    by blast
  then have "s2 = s\<lparr>mp_hdr := h', memftable := ft'\<rparr>" by simp
  then show "\<exists>h ft. s2 = s\<lparr>mp_hdr := h, memftable := ft\<rparr>" by blast
qed

text \<open>\<open>holds s A\<close>: the free lists hold exactly the areas of \<open>A\<close>.\<close>

definition holds :: "mempool \<Rightarrow> (nat \<times> nat) set \<Rightarrow> bool" where
  "holds s A \<longleftrightarrow> (\<exists>L. st_flists s L \<and> (\<forall>k p. p \<in> set (L k) \<longleftrightarrow> (p, k) \<in> A))"

definition runs_of :: "nat set \<Rightarrow> (nat \<times> nat) set" where
  "runs_of Z = {(p, k). run Z p k}"

lemma mp_inv_holds: "mp_inv s \<longleftrightarrow> mp_wf s \<and> mt_inv (memblocks s) (memtable s) \<and> holds s (runs_of (freeset s))"
  by (auto simp: mp_inv_def lists_exact_def holds_def runs_of_def)

lemma holds_del:
  assumes "holds s A" and "(p, k) \<in> A" and "usize = 0 \<or> usize = k"
  shows "\<exists>s'. fb_del s p usize = Inr s' \<and> same_but_lists s s' \<and> holds s' (A - {(p, k)})
      \<and> (\<forall>q. (\<forall>j. (q, j) \<notin> A) \<longrightarrow> mp_hdr s' q = mp_hdr s q)"
proof -
  obtain L where L: "st_flists s L" "\<forall>k p. p \<in> set (L k) \<longleftrightarrow> (p, k) \<in> A"
    using assms(1) by (auto simp: holds_def)
  have p: "p \<in> set (L k)" using L(2) assms(2) by blast
  obtain ft h where r: "fb_del s p usize = Inr (s\<lparr>mp_hdr := h, memftable := ft\<rparr>)"
    "st_flists (s\<lparr>mp_hdr := h, memftable := ft\<rparr>) (L(k := remove1 p (L k)))"
    "\<forall>q. (\<forall>j. q \<notin> set (L j)) \<longrightarrow> h q = mp_hdr s q"
    using fb_del_ok [OF L(1) p assms(3)] by blast
  have "distinct (L k)" using L(1) by (simp add: st_flists_def flists_def)
  then have "\<forall>j q. q \<in> set ((L(k := remove1 p (L k))) j) \<longleftrightarrow> (q, j) \<in> A - {(p, k)}"
    using L(2) by auto
  then have "holds (s\<lparr>mp_hdr := h, memftable := ft\<rparr>) (A - {(p, k)})"
    unfolding holds_def using r(2) by blast
  then show ?thesis using r L(2) by (auto simp: same_but_lists_def)
qed

lemma holds_add:
  assumes "holds s A" and new: "\<And>j. (p, j) \<notin> A" and "0 < k" "k < memblocks s"
  shows "\<exists>s'. fb_add s p k = Inr s' \<and> same_but_lists s s' \<and> holds s' (insert (p, k) A)
      \<and> (\<forall>q. (\<forall>j. (q, j) \<notin> A) \<longrightarrow> q \<noteq> p \<longrightarrow> mp_hdr s' q = mp_hdr s q)"
proof -
  obtain L where L: "st_flists s L" "\<forall>k p. p \<in> set (L k) \<longleftrightarrow> (p, k) \<in> A"
    using assms(1) by (auto simp: holds_def)
  have p: "\<And>j. p \<notin> set (L j)" using L(2) new by blast
  obtain ft h where r: "fb_add s p k = Inr (s\<lparr>mp_hdr := h, memftable := ft\<rparr>)"
    "st_flists (s\<lparr>mp_hdr := h, memftable := ft\<rparr>) (L(k := p # L k))"
    "\<forall>q. (\<forall>j. q \<notin> set (L j)) \<longrightarrow> q \<noteq> p \<longrightarrow> h q = mp_hdr s q"
    using fb_add_ok [OF L(1) p assms(3,4)] by blast
  have "\<forall>j q. q \<in> set ((L(k := p # L k)) j) \<longleftrightarrow> (q, j) \<in> insert (p, k) A"
    using L(2) by auto
  then have "holds (s\<lparr>mp_hdr := h, memftable := ft\<rparr>) (insert (p, k) A)"
    unfolding holds_def using r(2) by blast
  then show ?thesis using r L(2) by (auto simp: same_but_lists_def)
qed

lemma holds_hdr: "holds s A \<Longrightarrow> (p, k) \<in> A \<Longrightarrow> fb_size (mp_hdr s p) = k \<and> fb_sign (mp_hdr s p) = FREE_SIGN"
  unfolding holds_def st_flists_def using flists_hdr by (metis hdr_ok_def)

lemma holds_cong:
  "memftable s' = memftable s \<Longrightarrow> mp_hdr s' = mp_hdr s \<Longrightarrow> memblocks s' = memblocks s \<Longrightarrow>
   holds s' A = holds s A"
  by (simp add: holds_def st_flists_def)

text \<open>Removing the area \<open>[x, x + m)\<close> from the free area \<open>(p, k)\<close>, remainders kept.\<close>

definition carve :: "(nat \<times> nat) set \<Rightarrow> nat \<Rightarrow> nat \<Rightarrow> nat \<Rightarrow> nat \<Rightarrow> (nat \<times> nat) set" where
  "carve A p k x m = (A - {(p, k)}) \<union> (if p < x then {(p, x - p)} else {})
     \<union> (if x + m < p + k then {(x + m, p + k - (x + m))} else {})"

lemma runs_of_carve:
  assumes "run Z p k" and "p \<le> x" "x + m \<le> p + k" "0 < m"
  shows "runs_of (Z - {x..<x + m}) = carve (runs_of Z) p k x m"
proof -
  have "(q, j) \<in> runs_of (Z - {x..<x + m}) \<longleftrightarrow> (q, j) \<in> carve (runs_of Z) p k x m" for q j
    using run_split [OF assms, of q j] run_len_unique [OF assms(1), of j] assms
    by (auto simp: runs_of_def carve_def)
  then show ?thesis by (auto simp: set_eq_iff)
qed

lemma runs_only_start: "run Z p k \<Longrightarrow> p < q \<Longrightarrow> q < p + k \<Longrightarrow> (q, j) \<notin> runs_of Z"
  using run_overlap [of Z p k q j q] by (auto simp: runs_of_def run_def)

lemma runs_len_only: "run Z p k \<Longrightarrow> (p, j) \<in> runs_of Z \<Longrightarrow> j = k"
  using run_len_unique by (auto simp: runs_of_def)

text \<open>Giving back a used area \<open>[x, x + m)\<close>: the reverse of carving it from the joined area.\<close>

lemma runs_of_join:
  assumes used: "\<And>i. x \<le> i \<Longrightarrow> i < x + m \<Longrightarrow> i \<notin> Z" and m: "0 < m"
    and left: "p = x \<or> p < x \<and> run Z p (x - p)" and nl: "p = x \<longrightarrow> x = 0 \<or> x - 1 \<notin> Z"
    and right: "r = 0 \<and> x + m \<notin> Z \<or> run Z (x + m) r"
  shows "runs_of (Z \<union> {x..<x + m}) =
     insert (p, x - p + m + r) (runs_of Z - {(p, x - p), (x + m, r)})"
proof -
  let ?Z = "Z \<union> {x..<x + m}" and ?k = "x - p + m + r"
  have px: "p \<le> x" using left by auto
  have r: "run ?Z p ?k"
    unfolding run_def
  proof (intro conjI)
    show "0 < ?k" using m by simp
    show "{p..<p + ?k} \<subseteq> ?Z"
    proof
      fix i assume "i \<in> {p..<p + ?k}"
      then consider "p \<le> i" "i < x" | "x \<le> i" "i < x + m" | "x + m \<le> i" "i < x + m + r"
        using px by fastforce
      then show "i \<in> ?Z"
        using left right run_in [of Z p "x - p" i] run_in [of Z "x + m" r i] px by cases auto
    qed
    have "x + m + r \<notin> Z" using right by (auto simp: run_def)
    then show "p + ?k \<notin> ?Z" using px m by auto
    show "p = 0 \<or> p - 1 \<notin> ?Z" using left nl m by (auto simp: run_def)
  qed
  have Z: "?Z - {x..<x + m} = Z" using used by auto
  have c: "runs_of Z = carve (runs_of ?Z) p ?k x m"
    using runs_of_carve [OF r px _ m] px unfolding Z by simp
  have "(p, x - p) \<notin> runs_of ?Z" "(x + m, r) \<notin> runs_of ?Z"
    using runs_len_only [OF r] runs_only_start [OF r, of "x + m"] m px right
    by (auto simp: runs_of_def run_def)
  moreover have "(p, ?k) \<in> runs_of ?Z" using r by (simp add: runs_of_def)
  ultimately show ?thesis using px m unfolding c carve_def by auto
qed


section \<open>Allocation\<close>

lemma freeset_place:
  assumes "length (memtable s) = memblocks s" "x + blk64 v \<le> memblocks s" "0 < blk64 v" "v \<noteq> 0"
    and "memtable s' = place (memtable s) x v" "memblocks s' = memblocks s"
  shows "freeset s' = freeset s - {x..<x + blk64 v}"
  using assms by (auto simp: freeset_def nth_place split: if_splits)

lemma freeset_wipe:
  assumes "length (memtable s) = memblocks s" "x + blk64 (memtable s ! x) \<le> memblocks s"
    and "memtable s' = wipe (memtable s) x" "memblocks s' = memblocks s"
  shows "freeset s' = freeset s \<union> {x..<x + blk64 (memtable s ! x)}"
  using assms by (auto simp: freeset_def nth_wipe split: if_splits)

text \<open>The list work of an allocation of \<open>m\<close> blocks at \<open>x\<close> in the free area \<open>(p, k)\<close>.\<close>

lemma carve_lists:
  assumes h: "holds s (runs_of (freeset s))" and wf: "mp_wf s" and r: "run (freeset s) p k"
    and m: "0 < m" "m \<le> k"
  shows "\<exists>s1 s2. fb_del s p k = Inr s1 \<and>
      (if k \<noteq> m then fb_add s1 (p + m) (k - m) else Inr s1) = Inr s2 \<and> same_but_lists s s2 \<and>
      holds s2 (runs_of (freeset s - {p..<p + m}))"
    and "m < k \<Longrightarrow> \<exists>s1 s2. fb_del s p k = Inr s1 \<and> fb_add s1 p (k - m) = Inr s2 \<and> same_but_lists s s2 \<and>
      holds s2 (runs_of (freeset s - {p + k - m..<p + k}))"
proof -
  have in_A: "(p, k) \<in> runs_of (freeset s)" using r by (simp add: runs_of_def)
  have kb: "k < memblocks s" by (rule run_less [OF wf r])
  obtain s1 where s1: "fb_del s p k = Inr s1" "same_but_lists s s1" "holds s1 (runs_of (freeset s) - {(p, k)})"
    using holds_del [OF h in_A, of k] by blast
  note sb = same_but_listsD [OF s1(2)]
  show "\<exists>s1 s2. fb_del s p k = Inr s1 \<and>
      (if k \<noteq> m then fb_add s1 (p + m) (k - m) else Inr s1) = Inr s2 \<and> same_but_lists s s2 \<and>
      holds s2 (runs_of (freeset s - {p..<p + m}))"
  proof (cases "m = k")
    case True
    have "runs_of (freeset s - {p..<p + m}) = runs_of (freeset s) - {(p, k)}"
      using runs_of_carve [OF r, of p m] True m by (simp add: carve_def)
    then show ?thesis using s1 True by auto
  next
    case False
    have "(p + m, j) \<notin> runs_of (freeset s) - {(p, k)}" for j
      using runs_only_start [OF r, of "p + m" j] m False by auto
    moreover have "0 < k - m" "k - m < memblocks s1" using False m kb sb by auto
    ultimately obtain s2 where
      s2: "fb_add s1 (p + m) (k - m) = Inr s2" "same_but_lists s1 s2"
        "holds s2 (insert (p + m, k - m) (runs_of (freeset s) - {(p, k)}))"
      using holds_add [OF s1(3), of "p + m" "k - m"] by blast
    have "runs_of (freeset s - {p..<p + m}) = insert (p + m, k - m) (runs_of (freeset s) - {(p, k)})"
      using runs_of_carve [OF r, of p m] False m by (simp add: carve_def)
    then show ?thesis using False same_but_lists_trans [OF s1(2) s2(2)] s1(1) s2(1,3)
      by (intro exI [of _ s1] exI [of _ s2]) simp
  qed
  show "\<exists>s1 s2. fb_del s p k = Inr s1 \<and> fb_add s1 p (k - m) = Inr s2 \<and> same_but_lists s s2 \<and>
      holds s2 (runs_of (freeset s - {p + k - m..<p + k}))" if lt: "m < k"
  proof -
    have "(p, j) \<notin> runs_of (freeset s) - {(p, k)}" for j
      using runs_len_only [OF r, of j] by auto
    moreover have "0 < k - m" "k - m < memblocks s1" using lt m kb sb by auto
    ultimately obtain s2 where
      s2: "fb_add s1 p (k - m) = Inr s2" "same_but_lists s1 s2"
        "holds s2 (insert (p, k - m) (runs_of (freeset s) - {(p, k)}))"
      using holds_add [OF s1(3), of p "k - m"] by blast
    have "runs_of (freeset s - {p + k - m..<p + k}) = insert (p, k - m) (runs_of (freeset s) - {(p, k)})"
    proof -
      have "p < p + k - m" "p + k - m - p = k - m" using lt by auto
      then show ?thesis using runs_of_carve [OF r, of "p + k - m" m] lt m by (simp add: carve_def)
    qed
    then show ?thesis using same_but_lists_trans [OF s1(2) s2(2)] s1(1) s2(1,3)
      by (intro exI [of _ s1] exI [of _ s2]) simp
  qed
qed

text \<open>The tables after an allocation: all five of them.\<close>

definition alloc_tables :: "mempool \<Rightarrow> mempool \<Rightarrow> nat \<Rightarrow> nat \<Rightarrow> nat \<Rightarrow> nat option \<Rightarrow> bool \<Rightarrow> bool" where
  "alloc_tables s s' x usize sig own ro \<longleftrightarrow>
     memtable s' = place (memtable s) x usize \<and> memsignlst s' = (memsignlst s)[x := sig]
     \<and> memowner s' = (memowner s)[x := own] \<and> memheapres s' = (memheapres s)[x := ro]
     \<and> mp_base s' = mp_base s \<and> memblocks s' = memblocks s \<and> mp_data s' = mp_data s"

definition alloc_pos :: "int \<Rightarrow> nat \<Rightarrow> nat \<Rightarrow> nat \<Rightarrow> nat" where
  "alloc_pos al p k m = (if 0 < al then p + k - m else p)"

lemma mp_inv_place:
  assumes "mp_wf s" "mt_inv (memblocks s) (memtable s)"
    and t: "alloc_tables s s' x usize sig own ro" and h: "holds s' (runs_of (freeset s'))"
    and free: "\<And>i. x \<le> i \<Longrightarrow> i < x + blk64 usize \<Longrightarrow> memtable s ! i = 0"
    and b: "0 < blk64 usize" "x + blk64 usize \<le> memblocks s" "usize \<noteq> 0"
    and u: "usize \<le> FFFF"
  shows "mp_inv s'"
proof -
  have len: "length (memtable s) = memblocks s" using assms(2) by (rule mt_len)
  have x0: "x \<noteq> 0"
  proof
    assume "x = 0"
    then show False using free[of x] b assms(1) by (simp add: mp_wf_def)
  qed
  have "mt_inv (memblocks s) (memtable s')"
    using mt_inv_place [OF assms(2) free b] t by (simp add: alloc_tables_def)
  moreover have "mp_wf s'"
    using assms(1) t len b x0 u by (auto simp: mp_wf_def alloc_tables_def nth_place)
  ultimately show ?thesis using t h by (simp add: mp_inv_holds alloc_tables_def)
qed

lemma alloc_worker_None:
  assumes "scan_sizes s (alloc_align efi fl) (blk64 usize) None = Inr None"
  shows "alloc_worker efi s usize fl sig opq = Inr (s, None)"
  using assms by (simp add: alloc_worker_def Let_def)

lemma alloc_worker_Some:
  assumes inv: "mp_inv s" and sz: "0 < usize" "usize \<le> 4294901760"
    and scan: "scan_sizes s (alloc_align efi fl) (blk64 usize) None = Inr (Some (p, k))"
    and r: "run (freeset s) p k" "blk64 usize \<le> k"
  defines "x \<equiv> alloc_pos (alloc_align efi fl) p k (blk64 usize)" and "ro \<equiv> fl AND QSMA_READONLY \<noteq> 0"
  shows "\<exists>s'. alloc_worker efi s usize fl sig opq = Inr (s', Some x) \<and> mp_inv s'
      \<and> alloc_tables s s' x usize sig (if ro then None else opq) ro"
proof -
  let ?al = "alloc_align efi fl" and ?m = "blk64 usize"
  have m: "0 < ?m" using blk64_pos [OF sz] by simp
  have wf: "mp_wf s" and mt: "mt_inv (memblocks s) (memtable s)" and h: "holds s (runs_of (freeset s))"
    using inv by (auto simp: mp_inv_holds)
  note len = mt_len [OF mt]
  have x: "p \<le> x" "x + ?m \<le> p + k" using r by (auto simp: x_def alloc_pos_def)
  have free: "\<And>i. x \<le> i \<Longrightarrow> i < x + ?m \<Longrightarrow> memtable s ! i = 0"
    using run_in [OF r(1)] x by (auto simp: freeset_def)
  have xb: "x + ?m \<le> memblocks s" using run_bound [OF r(1)] x by simp
  have dec: "dec32 ?m = ?m - 1" using m blk64_le [of usize] by (intro dec32_pos) auto
  obtain s1 s2 where s12: "fb_del s p k = Inr s1"
    "(if 0 < ?al \<and> ?m < k then fb_add s1 p (k - ?m)
      else if k \<noteq> ?m then fb_add s1 (p + ?m) (k - ?m) else Inr s1) = Inr s2"
    "same_but_lists s s2" "holds s2 (runs_of (freeset s - {x..<x + ?m}))"
  proof (cases "0 < ?al \<and> ?m < k")
    case True
    then have "{p + k - ?m..<p + k} = {x..<x + ?m}" using r by (auto simp: x_def alloc_pos_def)
    then show ?thesis using carve_lists(2) [OF h wf r(1) m r(2)] True that by auto
  next
    case False
    then have px: "p = x" using r by (auto simp: x_def alloc_pos_def)
    obtain s1 s2 where c: "fb_del s p k = Inr s1" "same_but_lists s s2"
      "(if k \<noteq> ?m then fb_add s1 (p + ?m) (k - ?m) else Inr s1) = Inr s2"
      "holds s2 (runs_of (freeset s - {p..<p + ?m}))"
      using carve_lists(1) [OF h wf r(1) m r(2)] by blast
    show ?thesis by (rule that [OF c(1)]) (use c False px in \<open>auto\<close>)
  qed
  note sb = same_but_listsD [OF s12(3)]
  let ?s3 = "s2\<lparr>memtable := (memtable s2)[x := usize], memsignlst := (memsignlst s2)[x := sig],
      memowner := (memowner s2)[x := (if ro then None else opq)], memheapres := (memheapres s2)[x := ro]\<rparr>"
  have "mark_used ((memtable s)[x := usize]) x (?m - 1) = Inr (place (memtable s) x usize)"
    unfolding place_def using free xb m len by (intro mark_used_ok) auto
  then have aw: "alloc_worker efi s usize fl sig opq = Inr (?s3\<lparr>memtable := place (memtable s) x usize\<rparr>, Some x)"
    unfolding alloc_worker_def Let_def scan
    using s12(1,2) sb dec r by (auto simp: x_def alloc_pos_def ro_def)
  let ?s' = "?s3\<lparr>memtable := place (memtable s) x usize\<rparr>"
  have t: "alloc_tables s ?s' x usize sig (if ro then None else opq) ro"
    using sb by (simp add: alloc_tables_def)
  have "freeset ?s' = freeset s - {x..<x + ?m}"
    using sb len xb m sz by (intro freeset_place) auto
  then have "holds ?s' (runs_of (freeset ?s'))"
    using s12(4) by (simp add: holds_def st_flists_def)
  then have "mp_inv ?s'" using mp_inv_place [OF wf mt t _ free m xb] sz by (auto simp: FFFF_def)
  then show ?thesis using aw t by blast
qed

lemma alloc_align_cases: "alloc_align efi fl = 1 \<or> alloc_align efi fl = -1 \<or> alloc_align efi fl = 0 \<and> efi"
  by (auto simp: alloc_align_def Let_def)

text \<open>The area chosen: the lowest, the highest or, on EFI by default, a smallest one that fits.\<close>

definition alloc_choice :: "int \<Rightarrow> mempool \<Rightarrow> nat \<Rightarrow> nat \<Rightarrow> nat \<Rightarrow> bool" where
  "alloc_choice al s m p k \<longleftrightarrow> run (freeset s) p k \<and> m \<le> k
     \<and> (\<forall>q j. run (freeset s) q j \<longrightarrow> m \<le> j \<longrightarrow>
          (al < 0 \<longrightarrow> p \<le> q) \<and> (0 < al \<longrightarrow> q \<le> p) \<and> (al = 0 \<longrightarrow> k \<le> j))"

lemma scan_sizes_choice:
  assumes inv: "mp_inv s"
  shows "(scan_sizes s al m None = Inr None \<and> fit_runs s m = {})
      \<or> (\<exists>p k. scan_sizes s al m None = Inr (Some (p, k)) \<and> alloc_choice al s m p k)"
proof -
  obtain L where wf: "mp_wf s" and l: "lists_exact s L" using inv by (auto simp: mp_inv_def)
  show ?thesis
  proof (cases "al = 0")
    case True
    obtain r where "scan_sizes s 0 m None = Inr r" "case r of None \<Rightarrow> fit_runs s m = {}
        | Some (p, k) \<Rightarrow> (p, k) \<in> fit_runs s m \<and> (\<forall>(q, j) \<in> fit_runs s m. k \<le> j)"
      using scan_sizes_first [OF wf l, of m m] by blast
    then show ?thesis using True
      by (cases r) (auto simp: fit_runs_def alloc_choice_def)
  next
    case False
    have "chosen al None {(p, k). run (freeset s) p k \<and> m \<le> k \<and> k < m}"
      by (auto simp: chosen_def)
    then obtain r where r: "scan_sizes s al m None = Inr r" "chosen al r (fit_runs s m)"
      using scan_sizes_chosen [OF wf l False, of None m m] by blast
    show ?thesis
    proof (cases r)
      case None
      then show ?thesis using r by (simp add: chosen_def)
    next
      case (Some pk)
      obtain p k where pk: "pk = (p, k)" by (cases pk)
      have "(p, k) \<in> fit_runs s m" and
        best: "\<And>q j. (q, j) \<in> fit_runs s m \<Longrightarrow> (al < 0 \<longrightarrow> p \<le> q) \<and> (0 < al \<longrightarrow> q \<le> p)"
        using r(2) Some pk by (auto simp: chosen_def)
      then have "alloc_choice al s m p k" using False by (simp add: alloc_choice_def fit_runs_def)
      then show ?thesis using r(1) Some pk by blast
    qed
  qed
qed

lemma alloc_worker_ok:
  assumes inv: "mp_inv s" and sz: "0 < usize" "usize \<le> 4294901760"
  shows "(alloc_worker efi s usize fl sig opq = Inr (s, None) \<and> fit_runs s (blk64 usize) = {})
     \<or> (\<exists>s' p k. let x = alloc_pos (alloc_align efi fl) p k (blk64 usize); ro = (fl AND QSMA_READONLY \<noteq> 0) in
           alloc_worker efi s usize fl sig opq = Inr (s', Some x) \<and> mp_inv s'
           \<and> alloc_choice (alloc_align efi fl) s (blk64 usize) p k
           \<and> alloc_tables s s' x usize sig (if ro then None else opq) ro)"
  using scan_sizes_choice [OF inv, of "alloc_align efi fl" "blk64 usize"]
proof
  assume "scan_sizes s (alloc_align efi fl) (blk64 usize) None = Inr None \<and> fit_runs s (blk64 usize) = {}"
  then show ?thesis using alloc_worker_None by blast
next
  assume "\<exists>p k. scan_sizes s (alloc_align efi fl) (blk64 usize) None = Inr (Some (p, k))
      \<and> alloc_choice (alloc_align efi fl) s (blk64 usize) p k"
  then obtain p k where pk: "scan_sizes s (alloc_align efi fl) (blk64 usize) None = Inr (Some (p, k))"
    "alloc_choice (alloc_align efi fl) s (blk64 usize) p k" by blast
  have c: "run (freeset s) p k" "blk64 usize \<le> k" using pk(2) by (auto simp: alloc_choice_def)
  from alloc_worker_Some [OF inv sz pk(1) c, of sig opq] pk(2) show ?thesis
    unfolding Let_def by blast
qed

end
