(* ===== verification/MemPoolOps.thy ===== *)
theory MemPoolOps
  imports MemPoolInv
begin

text \<open>
  The other operations of the memory manager under the invariant of MemPoolInv: release, resizing,
  reservation of a fixed area, process exit, the free space query and the initial state.
\<close>

section \<open>Addresses\<close>

lemma addr_of_blk [simp]: "x < memblocks s \<Longrightarrow> addrcheck s (blk_addr s x) = Inr ()"
  by (simp add: addrcheck_def blk_addr_def availmem_def)

lemma blk_of_addr [simp]: "(blk_addr s x - mp_base s) div 65536 = x"
  by (simp add: blk_addr_def)

lemma hlp_memfree_used:
  assumes "x < memblocks s" "used_head (memtable s) x" "\<not> memheapres s ! x"
  shows "hlp_memfree s (blk_addr s x) = 
     (let mt = memtable s; m = blk64 (mt ! x); p = scan_back mt x in
        rbind (if p \<noteq> x then fb_del s p (x - p) else Inr s) (\<lambda>s1.
        rbind (guard_err (m \<le> 1 \<or> memchrn_pos (take (m - 1) (drop (x + 1) mt)) FFFF = None)
                  MEMHLT_MEMTABLE) (\<lambda>_.
        let s2 = s1\<lparr>memtable := wipe mt x\<rparr> in
        if x + m < memblocks s \<and> memtable s2 ! (x + m) = 0 then
          let k = fb_size (mp_hdr s2 (x + m)) in
          rbind (fb_del s2 (x + m) 0) (\<lambda>s3. fb_add s3 p (x - p + (m + k)))
        else fb_add s2 p (x - p + m))))"
  using assms
  by (simp add: hlp_memfree_def hrchk_def used_head_def wipe_def Let_def)

section \<open>Searching the start of a free area\<close>

lemma scan_back_spec:
  "scan_back mt x \<le> x \<and> (\<forall>i. scan_back mt x \<le> i \<longrightarrow> i < x \<longrightarrow> mt ! i = 0)
   \<and> (scan_back mt x = 0 \<or> mt ! (scan_back mt x - 1) \<noteq> 0)"
  by (induction x) (auto simp: less_Suc_eq)

lemma run_exists:
  assumes "x \<in> Z" and "x = 0 \<or> x - 1 \<notin> Z" and bnd: "Z \<subseteq> {..<n}"
  shows "\<exists>k. run Z x k"
proof -
  let ?P = "\<lambda>k. 0 < k \<and> x + k \<notin> Z"
  have ex: "?P (Suc n)" using bnd by auto
  have k: "?P (LEAST k. ?P k)" by (rule LeastI [where P = ?P, OF ex])
  have least: "\<And>j. j < (LEAST k. ?P k) \<Longrightarrow> \<not> ?P j" by (rule not_less_Least)
  have "x + j \<in> Z" if "j < (LEAST k. ?P k)" for j
    using least [OF that] assms(1) by (cases "j = 0") auto
  then have "{x..<x + (LEAST k. ?P k)} \<subseteq> Z"
    by (auto simp: subset_iff) (metis add_diff_inverse_nat nat_add_left_cancel_less linorder_not_less)
  then show ?thesis using k assms(2) by (auto simp: run_def)
qed

lemma freeset_bound: "freeset s \<subseteq> {..<memblocks s}"
  by (auto simp: freeset_def)

lemma used_not_free:
  assumes "mt_inv (memblocks s) (memtable s)" "x < memblocks s" "used_head (memtable s) x"
    and "x \<le> i" "i < x + blk64 (memtable s ! x)"
  shows "i \<notin> freeset s"
  using mt_middle [OF assms(1-3), of i] assms(3-5)
  by (cases "i = x") (auto simp: freeset_def used_head_def)

lemma left_run:
  assumes "mt_inv (memblocks s) (memtable s)" "x < memblocks s" "x \<notin> freeset s"
  defines "p \<equiv> scan_back (memtable s) x"
  shows "p \<le> x" and "p < x \<Longrightarrow> run (freeset s) p (x - p)" and "p = x \<longrightarrow> x = 0 \<or> x - 1 \<notin> freeset s"
  using scan_back_spec [of "memtable s" x] assms(2,3) unfolding p_def[symmetric]
  by (auto simp: run_def freeset_def)

section \<open>Release\<close>

text \<open>The list work when the blocks \<open>[x, x + m)\<close> become free: \<open>p\<close> starts the free area to the
  left (or is \<open>x\<close>), \<open>r\<close> is the size of the one to the right (or \<open>0\<close>).\<close>

definition right_size :: "mempool \<Rightarrow> nat \<Rightarrow> nat" where
  "right_size s y = (if y \<in> freeset s then fb_size (mp_hdr s y) else 0)"

lemma right_run:
  assumes "holds s (runs_of (freeset s))" and "0 < y \<longrightarrow> y - 1 \<notin> freeset s"
  shows "right_size s y = 0 \<and> y \<notin> freeset s \<or> run (freeset s) y (right_size s y)"
proof (cases "y \<in> freeset s")
  case True
  then obtain k where "run (freeset s) y k"
    using run_exists [OF True _ freeset_bound] assms(2) by (cases y) auto
  moreover have "fb_size (mp_hdr s y) = k"
    using holds_hdr [OF assms(1), of y k] calculation by (simp add: runs_of_def)
  ultimately show ?thesis using True by (simp add: right_size_def)
qed (simp add: right_size_def)

lemma give_left:
  assumes h: "holds s A" and l: "p = x \<or> (p, x - p) \<in> A"
    and new: "\<And>j. (p, j) \<in> A \<Longrightarrow> p \<noteq> x \<and> j = x - p"
  shows "\<exists>s1. (if p \<noteq> x then fb_del s p (x - p) else Inr s) = Inr s1 \<and> same_but_lists s s1
     \<and> (\<forall>q. (\<forall>j. (q, j) \<notin> A) \<longrightarrow> mp_hdr s1 q = mp_hdr s q) \<and> holds s1 (A - {(p, x - p)})"
proof (cases "p = x")
  case True
  then have "A - {(p, x - p)} = A" using new by auto
  then show ?thesis using True h by auto
next
  case False
  then show ?thesis using holds_del [OF h, of p "x - p" "x - p"] l by auto
qed

lemma give_right:
  assumes h: "holds s B" and r: "r = 0 \<or> (y, r) \<in> B" and new: "\<And>j. (p, j) \<notin> B"
    and b: "0 < k" "k < memblocks s"
  shows "\<exists>s1 s2. (if r \<noteq> 0 then fb_del s y 0 else Inr s) = Inr s1 \<and> fb_add s1 p k = Inr s2
     \<and> same_but_lists s s2 \<and> holds s2 (insert (p, k) (B - {(y, r)}))"
proof -
  have "\<exists>s1. (if r \<noteq> 0 then fb_del s y 0 else Inr s) = Inr s1 \<and> same_but_lists s s1 \<and> holds s1 (B - {(y, r)})"
  proof (cases "r = 0")
    case True
    have "(y, 0) \<notin> B" using h flists_hdr unfolding holds_def st_flists_def by (metis less_irrefl)
    then have "B - {(y, r)} = B" using True by auto
    then show ?thesis using True h by auto
  next
    case False
    then show ?thesis using holds_del [OF h, of y r 0] r by auto
  qed
  then obtain s1 where s1: "(if r \<noteq> 0 then fb_del s y 0 else Inr s) = Inr s1" "same_but_lists s s1"
    "holds s1 (B - {(y, r)})" by blast
  have n: "(p, j) \<notin> B - {(y, r)}" for j using new by blast
  have "k < memblocks s1" using b(2) same_but_listsD [OF s1(2)] by simp
  from holds_add [OF s1(3) n b(1) this] obtain s2 where
    s2: "fb_add s1 p k = Inr s2" "same_but_lists s1 s2" "holds s2 (insert (p, k) (B - {(y, r)}))" by blast
  show ?thesis using s1(1) s2(1,3) same_but_lists_trans [OF s1(2) s2(2)] by blast
qed

text \<open>What a release leaves alone.\<close>

definition table_step :: "mempool \<Rightarrow> mempool \<Rightarrow> nat list \<Rightarrow> bool" where
  "table_step s s' mt \<longleftrightarrow> memtable s' = mt \<and> memblocks s' = memblocks s \<and> mp_base s' = mp_base s
    \<and> memheapres s' = memheapres s \<and> memsignlst s' = memsignlst s \<and> memowner s' = memowner s"

lemma table_step_inv:
  assumes "mp_wf s" and "table_step s s' mt" and "mt_inv (memblocks s) mt" and "mt ! 0 \<noteq> 0"
    and "\<And>i. i < memblocks s \<Longrightarrow> mt ! i \<le> FFFF"
    and "holds s' (runs_of (freeset s'))"
  shows "mp_inv s'"
  using assms by (auto simp: mp_inv_holds mp_wf_def table_step_def)

lemma hlp_memfree_ok:
  assumes inv: "mp_inv s" and x: "x < memblocks s" "used_head (memtable s) x" and ro: "\<not> memheapres s ! x"
  shows "\<exists>s'. hlp_memfree s (blk_addr s x) = Inr s' \<and> mp_inv s'
     \<and> table_step s s' (wipe (memtable s) x) \<and> mp_data s' = mp_data s"
proof -
  let ?mt = "memtable s" and ?m = "blk64 (memtable s ! x)" and ?A = "runs_of (freeset s)"
  have wf: "mp_wf s" and mt: "mt_inv (memblocks s) ?mt" and h: "holds s ?A"
    using inv by (auto simp: mp_inv_holds)
  have x0: "0 < x" using wf ro by (cases x) (auto simp: mp_wf_def)
  note len = mt_len [OF mt]
  have m: "0 < ?m" "x + ?m \<le> memblocks s" using mt_head [OF mt x] by auto
  have nf: "\<And>i. x \<le> i \<Longrightarrow> i < x + ?m \<Longrightarrow> i \<notin> freeset s" by (rule used_not_free [OF mt x])
  define p where "p = scan_back ?mt x"
  have p: "p \<le> x" "p < x \<Longrightarrow> run (freeset s) p (x - p)" "p = x \<longrightarrow> x = 0 \<or> x - 1 \<notin> freeset s"
    using left_run [OF mt x(1) nf] m by (auto simp: p_def)
  define r where "r = right_size s (x + ?m)"
  have r: "r = 0 \<and> x + ?m \<notin> freeset s \<or> run (freeset s) (x + ?m) r"
    unfolding r_def using m nf by (intro right_run [OF h]) auto
  have join: "runs_of (freeset s \<union> {x..<x + ?m})
      = insert (p, x - p + ?m + r) (?A - {(p, x - p), (x + ?m, r)})"
    using runs_of_join [OF nf m(1) _ p(3) r] p by fastforce
  have newp: "p \<noteq> x \<and> j = x - p" if "(p, j) \<in> ?A" for j
  proof -
    have rp: "run (freeset s) p j" using that by (simp add: runs_of_def)
    then have "p \<in> freeset s" by (auto simp: run_def)
    then have "p \<noteq> x" using nf m by auto
    then show ?thesis using p run_len_unique [OF rp] by auto
  qed
  have "p = x \<or> (p, x - p) \<in> ?A" using p by (auto simp: runs_of_def le_less)
  from give_left [OF h this newp] obtain s1 where
    s1: "(if p \<noteq> x then fb_del s p (x - p) else Inr s) = Inr s1" "same_but_lists s s1"
      "\<forall>q. (\<forall>j. (q, j) \<notin> ?A) \<longrightarrow> mp_hdr s1 q = mp_hdr s q" "holds s1 (?A - {(p, x - p)})" by blast
  note sb1 = same_but_listsD [OF s1(2)]
  let ?s2 = "s1\<lparr>memtable := wipe ?mt x\<rparr>"
  have h2: "holds ?s2 (?A - {(p, x - p)})" using s1(4) holds_cong [of ?s2 s1] by simp
  have yr: "r = 0 \<or> (x + ?m, r) \<in> ?A - {(p, x - p)}" using r p m by (auto simp: runs_of_def)
  have nn: "(p, j) \<notin> ?A - {(p, x - p)}" for j using newp by blast
  have bound: "x - p + ?m + r < memblocks s"
  proof -
    have "x + ?m + r \<le> memblocks s" using r m run_bound by auto
    moreover have "0 < p"
    proof (cases "p = x")
      case False
      then show ?thesis using p run_pos [OF wf] by auto
    qed (use x0 in simp)
    ultimately show ?thesis using p(1) by simp
  qed
  from give_right [OF h2 yr nn, of "x - p + ?m + r"] obtain s3 s4 where
    s34: "(if r \<noteq> 0 then fb_del ?s2 (x + ?m) 0 else Inr ?s2) = Inr s3"
      "fb_add s3 p (x - p + ?m + r) = Inr s4" "same_but_lists ?s2 s4"
      "holds s4 (insert (p, x - p + ?m + r) (?A - {(p, x - p)} - {(x + ?m, r)}))"
    using bound m sb1 by auto
  note sb4 = same_but_listsD [OF s34(3)]
  have guard: "?m \<le> 1 \<or> memchrn_pos (take (?m - 1) (drop (x + 1) ?mt)) FFFF = None"
    using mt_middle [OF mt x] m len by (auto simp: memchrn_pos_None in_set_conv_nth)
  have rcond: "x + ?m < memblocks s \<and> wipe ?mt x ! (x + ?m) = 0 \<longleftrightarrow> r \<noteq> 0"
  proof -
    have "x + ?m \<in> freeset s \<longleftrightarrow> r \<noteq> 0" using r run_in [of "freeset s" "x + ?m" r "x + ?m"] by (auto simp: run_def)
    then show ?thesis using len by (auto simp: freeset_def nth_wipe)
  qed
  have rk: "r \<noteq> 0 \<Longrightarrow> fb_size (mp_hdr ?s2 (x + ?m)) = r"
    using holds_hdr [OF h2] yr by auto
  have res: "hlp_memfree s (blk_addr s x) = Inr s4"
  proof -
    have "hlp_memfree s (blk_addr s x) = rbind (if p \<noteq> x then fb_del s p (x - p) else Inr s) (\<lambda>s1.
        let s2 = s1\<lparr>memtable := wipe ?mt x\<rparr> in
        if x + ?m < memblocks s \<and> memtable s2 ! (x + ?m) = 0 then
          let k = fb_size (mp_hdr s2 (x + ?m)) in
          rbind (fb_del s2 (x + ?m) 0) (\<lambda>s3. fb_add s3 p (x - p + (?m + k)))
        else fb_add s2 p (x - p + ?m))"
      unfolding hlp_memfree_used [OF x ro] Let_def p_def [symmetric] guard_err_True [OF guard] rbind_Inr ..
    also have "\<dots> = (let s2 = s1\<lparr>memtable := wipe ?mt x\<rparr> in
        if x + ?m < memblocks s \<and> memtable s2 ! (x + ?m) = 0 then
          let k = fb_size (mp_hdr s2 (x + ?m)) in
          rbind (fb_del s2 (x + ?m) 0) (\<lambda>s3. fb_add s3 p (x - p + (?m + k)))
        else fb_add s2 p (x - p + ?m))"
      unfolding s1(1) by simp
    also have "\<dots> = (if r \<noteq> 0 then rbind (fb_del ?s2 (x + ?m) 0) (\<lambda>s3. fb_add s3 p (x - p + (?m + r)))
         else fb_add ?s2 p (x - p + ?m))"
      using rcond rk by (simp add: Let_def)
    finally have "hlp_memfree s (blk_addr s x) =
        (if r \<noteq> 0 then rbind (fb_del ?s2 (x + ?m) 0) (\<lambda>s3. fb_add s3 p (x - p + (?m + r)))
         else fb_add ?s2 p (x - p + ?m))" .
    then show ?thesis using s34(1,2) by (cases "r = 0") (auto simp: add.assoc)
  qed
  have st: "table_step s s4 (wipe ?mt x)" using sb1 sb4 by (simp add: table_step_def)
  have fs4: "freeset s4 = freeset s \<union> {x..<x + ?m}"
    using freeset_wipe [OF len m(2)] st by (simp add: table_step_def)
  have h4: "holds s4 (runs_of (freeset s4))"
  proof -
    have "?A - {(p, x - p)} - {(x + ?m, r)} = ?A - {(p, x - p), (x + ?m, r)}" by blast
    then show ?thesis using s34(4) join fs4 by simp
  qed
  have "wipe ?mt x ! 0 \<noteq> 0" using wf x x0 len by (simp add: nth_wipe mp_wf_def)
  moreover have "wipe ?mt x ! i \<le> FFFF" if "i < memblocks s" for i
    using that wf len by (auto simp: nth_wipe mp_wf_def)
  ultimately have "mp_inv s4" using table_step_inv [OF wf st mt_inv_wipe [OF mt x] _ _ h4] by simp
  then show ?thesis using res st sb1 sb4 by auto
qed

end
