(* ===== verification/MemPoolRealloc.thy ===== *)
theory MemPoolRealloc
  imports MemPoolOps
begin

text \<open>
  Resizing of a block (\<open>hlp_memrealloc\<close>): in place, by giving back a tail, by taking the start of
  the free area behind the block, or by moving it. Whatever way is taken, the size table is that of
  the block released and placed again, and the kept bytes are those of the old block.
\<close>

section \<open>Lists\<close>

lemma fb_del_any: "holds s A \<Longrightarrow> (p, k) \<in> A \<Longrightarrow> fb_del s p 0 = fb_del s p k"
proof -
  assume "holds s A" "(p, k) \<in> A"
  then have e: "fb_size (mp_hdr s p) = k" using holds_hdr by blast
  have "(if k = 0 then Inr (fb_size (mp_hdr s p))
      else rbind (guard_err (fb_size (mp_hdr s p) = k) MEMHLT_FBSIZEERR) (\<lambda>_. Inr k)) = Inr k"
    using e by simp
  then show "fb_del s p 0 = fb_del s p k"
    unfolding fb_del_def Let_def by (simp only: e if_True refl)
qed

text \<open>Taking the first \<open>m\<close> blocks of the free area at \<open>p\<close>.\<close>

lemma take_first:
  assumes inv: "mp_inv s" and r: "run (freeset s) p k" and m: "0 < m" "m \<le> k"
  shows "\<exists>s1 s2. fb_del s p 0 = Inr s1 \<and>
      (if k \<noteq> m then fb_add s1 (p + m) (k - m) else Inr s1) = Inr s2 \<and> same_but_lists s s2 \<and>
      holds s2 (runs_of (freeset s - {p..<p + m}))"
proof -
  have h: "holds s (runs_of (freeset s))" "mp_wf s" using inv by (auto simp: mp_inv_holds)
  have "(p, k) \<in> runs_of (freeset s)" using r by (simp add: runs_of_def)
  then show ?thesis using carve_lists(1) [OF h r m] fb_del_any [OF h(1)] by simp
qed

text \<open>Giving back \<open>m\<close> used blocks at \<open>y\<close> whose left neighbour is in use.\<close>

lemma give_tail:
  assumes inv: "mp_inv s" and sb: "memblocks s1 = memblocks s" "mp_hdr s1 = mp_hdr s" "memftable s1 = memftable s"
    and used: "\<And>i. y - 1 \<le> i \<Longrightarrow> i < y + m \<Longrightarrow> i \<notin> freeset s" and m: "0 < m" "0 < y" "y + m \<le> memblocks s"
    and r: "r = right_size s (y + m)"
  shows "\<exists>s2 s3. (if r \<noteq> 0 then fb_del s1 (y + m) 0 else Inr s1) = Inr s2 \<and> fb_add s2 y (m + r) = Inr s3
     \<and> same_but_lists s1 s3 \<and> holds s3 (runs_of (freeset s \<union> {y..<y + m}))"
proof -
  let ?A = "runs_of (freeset s)"
  have wf: "mp_wf s" and h: "holds s ?A" using inv by (auto simp: mp_inv_holds)
  have h1: "holds s1 ?A" using h sb by (simp add: holds_def st_flists_def)
  have rr: "r = 0 \<and> y + m \<notin> freeset s \<or> run (freeset s) (y + m) r"
    unfolding r using m used by (intro right_run [OF h]) auto
  have nf: "\<And>i. y \<le> i \<Longrightarrow> i < y + m \<Longrightarrow> i \<notin> freeset s" "y - 1 \<notin> freeset s"
    using used [of "y - 1"] used m by auto
  have j: "runs_of (freeset s \<union> {y..<y + m}) = insert (y, m + r) (?A - {(y, 0), (y + m, r)})"
    using runs_of_join [OF nf(1) m(1) _ _ rr, of y] nf(2) by simp
  have ny: "(y, j) \<notin> ?A" for j
    using nf(1)[of y] m run_in [of "freeset s" y j y] by (auto simp: runs_of_def run_def)
  have "?A - {(y, 0), (y + m, r)} = ?A - {(y + m, r)}" using ny by auto
  moreover have "m + r < memblocks s1"
    using rr run_bound [of s "y + m" r] m sb by auto
  moreover have "r = 0 \<or> (y + m, r) \<in> ?A" using rr by (auto simp: runs_of_def)
  ultimately show ?thesis using give_right [OF h1 _ ny, of r "y + m" "m + r"] m j by auto
qed

section \<open>The three ways to stay\<close>

lemma blk64_bound: "v \<le> FFFF \<Longrightarrow> 0 < blk64 v \<Longrightarrow> v \<le> 4294901760"
proof (rule ccontr)
  assume a: "v \<le> FFFF" "0 < blk64 v" "\<not> v \<le> 4294901760"
  then have "(v + 65535) mod 4294967296 = v + 65535 - 4294967296"
    unfolding FFFF_def by (intro mod_if [THEN trans]) auto
  then show False using a by (simp add: blk64_def FFFF_def)
qed

lemma mt_bound:
  assumes "mp_inv s" "x < memblocks s" "used_head (memtable s) x"
  shows "memtable s ! x \<le> 4294901760"
proof (rule blk64_bound)
  show "memtable s ! x \<le> FFFF" using assms by (simp add: mp_inv_def mp_wf_def)
  show "0 < blk64 (memtable s ! x)" using assms mt_head by (auto simp: mp_inv_def)
qed

lemma blk64_mono: "v \<le> w \<Longrightarrow> w \<le> 4294901760 \<Longrightarrow> blk64 v \<le> blk64 w"
  by (simp add: blk64_def div_le_mono)

definition resized :: "mempool \<Rightarrow> mempool \<Rightarrow> nat \<Rightarrow> nat \<Rightarrow> nat \<Rightarrow> bool" where
  "resized s s' x y v \<longleftrightarrow> mp_inv s' \<and> memtable s' = place (wipe (memtable s) x) y v
     \<and> memblocks s' = memblocks s \<and> mp_base s' = mp_base s
     \<and> memheapres s' = (memheapres s)[y := False]
     \<and> memsignlst s' = (memsignlst s)[y := memsignlst s ! x]
     \<and> memowner s' = (memowner s)[y := memowner s ! x]
     \<and> (\<forall>i<v. mp_data s' (y * 65536 + i) = (if i < memtable s ! x then mp_data s (x * 65536 + i) else 0))
     \<and> (\<forall>a. a < y * 65536 \<or> y * 65536 + v \<le> a \<longrightarrow> mp_data s' a = mp_data s a)"

lemma place_wipe_same:
  assumes "mt_inv n mt" "x < n" "used_head mt x" "blk64 v = blk64 (mt ! x)"
  shows "place (wipe mt x) x v = mt[x := v]"
  using mt_middle [OF assms(1-3)] assms mt_len [OF assms(1)]
  by (intro nth_equalityI) (auto simp: nth_place nth_wipe nth_list_update)

lemma place_wipe_shrink:
  assumes "mt_inv n mt" "x < n" "used_head mt x" "0 < blk64 v" "blk64 v < blk64 (mt ! x)"
  shows "fill (mt[x := v]) (x + blk64 v) (blk64 (mt ! x) - blk64 v) 0 = place (wipe mt x) x v"
  using mt_middle [OF assms(1-3)] assms mt_len [OF assms(1)]
  by (intro nth_equalityI) (auto simp: nth_place nth_wipe nth_list_update)

lemma place_wipe_expand:
  assumes "mt_inv n mt" "x < n" "used_head mt x" "blk64 (mt ! x) < blk64 v" 
  shows "(fill mt (x + blk64 (mt ! x)) (blk64 v - blk64 (mt ! x)) FFFF)[x := v] = place (wipe mt x) x v"
  using mt_middle [OF assms(1-3)] assms mt_len [OF assms(1)]
  by (intro nth_equalityI) (auto simp: nth_place nth_wipe nth_list_update)

lemma mt_inv_replace:
  assumes mt: "mt_inv n mt" and x: "x < n" "used_head mt x" and v: "0 < v" "v \<le> 4294901760"
    and b: "x + blk64 v \<le> n" and beyond: "\<And>i. x + blk64 (mt ! x) \<le> i \<Longrightarrow> i < x + blk64 v \<Longrightarrow> mt ! i = 0"
  shows "mt_inv n (place (wipe mt x) x v)"
proof (rule mt_inv_place [OF mt_inv_wipe [OF mt x]])
  show "0 < blk64 v" using blk64_pos [OF v] by simp
  fix i assume "x \<le> i" "i < x + blk64 v"
  then show "wipe mt x ! i = 0" using beyond b mt_len [OF mt] by (auto simp: nth_wipe)
qed (use v b in auto)

lemma freeset_replace:
  assumes mt: "mt_inv (memblocks s) (memtable s)" and x: "x < memblocks s" "used_head (memtable s) x"
    and v: "0 < v" "v \<le> 4294901760" "x + blk64 v \<le> memblocks s"
    and st: "memtable s' = place (wipe (memtable s) x) x v" "memblocks s' = memblocks s"
  shows "freeset s' = (freeset s \<union> {x..<x + blk64 (memtable s ! x)}) - {x..<x + blk64 v}"
  using st x v blk64_pos [OF v(1,2)] mt_len [OF mt] mt_head [OF mt x]
  by (auto simp: freeset_def nth_place nth_wipe split: if_splits)

lemma table_step_resized:
  assumes inv: "mp_inv s" and x: "x < memblocks s" "used_head (memtable s) x" "0 < x"
    and v: "0 < v" "v \<le> 4294901760" and b: "x + blk64 v \<le> memblocks s"
    and beyond: "\<And>i. x + blk64 (memtable s ! x) \<le> i \<Longrightarrow> i < x + blk64 v \<Longrightarrow> memtable s ! i = 0"
    and st: "table_step s s' (place (wipe (memtable s) x) x v)"
    and h: "holds s' (runs_of ((freeset s \<union> {x..<x + blk64 (memtable s ! x)}) - {x..<x + blk64 v}))"
  shows "mp_inv s'"
proof -
  have wf: "mp_wf s" and mt: "mt_inv (memblocks s) (memtable s)" using inv by (auto simp: mp_inv_holds)
  have "freeset s' = (freeset s \<union> {x..<x + blk64 (memtable s ! x)}) - {x..<x + blk64 v}"
    using st by (intro freeset_replace [OF mt x(1,2) v b]) (auto simp: table_step_def)
  moreover have "place (wipe (memtable s) x) x v ! 0 \<noteq> 0"
    using x wf mt_len [OF mt] by (simp add: nth_place nth_wipe mp_wf_def)
  moreover have "place (wipe (memtable s) x) x v ! i \<le> FFFF" if "i < memblocks s" for i
    using that wf mt_len [OF mt] v by (auto simp: nth_place nth_wipe mp_wf_def FFFF_def)
  ultimately show ?thesis
    using table_step_inv [OF wf st mt_inv_replace [OF mt x(1,2) v b beyond]] h by simp
qed


lemma resized_stay:
  assumes "mp_inv s'" and "table_step s s' (place (wipe (memtable s) x) x v)"
    and "mp_data s' = (if memtable s ! x < v then zero_bytes (mp_data s) (x * 65536 + memtable s ! x) (v - memtable s ! x)
        else mp_data s)"
    and "\<not> memheapres s ! x"
  shows "resized s s' x x v"
proof -
  have "(memheapres s)[x := False] = memheapres s"
    using assms(4) list_update_id [of "memheapres s" x] by simp
  then show ?thesis using assms by (auto simp: resized_def table_step_def zero_bytes_def)
qed

lemma realloc_inplace_ok:
  assumes inv: "mp_inv s" and x: "x < memblocks s" "used_head (memtable s) x" "\<not> memheapres s ! x" "0 < x"
    and v: "0 < v" "v \<le> 4294901760" and eq: "blk64 (memtable s ! x) = blk64 v"
  shows "resized s (realloc_inplace s x v) x x v"
proof -
  let ?s' = "realloc_inplace s x v"
  have mt: "mt_inv (memblocks s) (memtable s)" and h: "holds s (runs_of (freeset s))"
    using inv by (auto simp: mp_inv_holds)
  have st: "table_step s ?s' (place (wipe (memtable s) x) x v)"
    using place_wipe_same [OF mt x(1,2)] eq by (simp add: table_step_def realloc_inplace_def Let_def)
  have "freeset s \<union> {x..<x + blk64 v} - {x..<x + blk64 v} = freeset s"
    using used_not_free [OF mt x(1,2)] eq by auto
  moreover have "holds ?s' A = holds s A" for A
    by (simp add: holds_def st_flists_def realloc_inplace_def Let_def)
  ultimately have "mp_inv ?s'"
    using h st eq v mt_head [OF mt x(1,2)] by (intro table_step_resized [OF inv x(1,2,4)]) auto
  then show ?thesis using st x by (intro resized_stay) (auto simp: realloc_inplace_def Let_def)
qed


lemma realloc_shrink_ok:
  assumes inv: "mp_inv s" and x: "x < memblocks s" "used_head (memtable s) x" "\<not> memheapres s ! x" "0 < x"
    and v: "0 < v" "v \<le> 4294901760" and lt: "blk64 v < blk64 (memtable s ! x)"
  shows "\<exists>s'. realloc_shrink s x v (blk64 (memtable s ! x)) (blk64 v) = Inr s' \<and> resized s s' x x v"
proof -
  let ?mt = "memtable s" and ?m = "blk64 (memtable s ! x)" and ?n = "blk64 v"
  have mt: "mt_inv (memblocks s) ?mt" and h: "holds s (runs_of (freeset s))"
    using inv by (auto simp: mp_inv_holds)
  note len = mt_len [OF mt]
  have n: "0 < ?n" using blk64_pos [OF v] by simp
  have mb: "x + ?m \<le> memblocks s" using mt_head [OF mt x(1,2)] by simp
  define s1 where "s1 = s\<lparr>memtable := place (wipe ?mt x) x v\<rparr>"
  define r where "r = right_size s (x + ?n + (?m - ?n))"
  have r0: "r \<noteq> 0 \<longleftrightarrow> x + ?m < memblocks s \<and> memtable s1 ! (x + ?m) = 0"
  proof -
    have "right_size s (x + ?m) \<noteq> 0 \<longleftrightarrow> x + ?m \<in> freeset s"
      using right_run [OF h, of "x + ?m"] used_not_free [OF mt x(1,2), of "x + ?m - 1"] lt n
      by (auto simp: right_size_def run_def)
    then show ?thesis using lt len by (auto simp: r_def s1_def freeset_def nth_place nth_wipe)
  qed
  have rk: "r \<noteq> 0 \<Longrightarrow> fb_size (mp_hdr s1 (x + ?m)) = r"
    using lt by (auto simp: r_def s1_def right_size_def split: if_splits)
  have used: "\<And>i. x + ?n - 1 \<le> i \<Longrightarrow> i < x + ?n + (?m - ?n) \<Longrightarrow> i \<notin> freeset s"
  proof -
    fix i assume "x + ?n - 1 \<le> i" "i < x + ?n + (?m - ?n)"
    then show "i \<notin> freeset s" using used_not_free [OF mt x(1,2), of i] n lt by linarith
  qed
  obtain s2 s3 where s23: "(if r \<noteq> 0 then fb_del s1 (x + ?m) 0 else Inr s1) = Inr s2"
    "fb_add s2 (x + ?n) (?m - ?n + r) = Inr s3" "same_but_lists s1 s3"
    "holds s3 (runs_of (freeset s \<union> {x + ?n..<x + ?m}))"
  proof -
    have e: "x + ?n + (?m - ?n) = x + ?m" using lt by simp
    have "\<exists>s2 s3. (if r \<noteq> 0 then fb_del s1 (x + ?n + (?m - ?n)) 0 else Inr s1) = Inr s2
       \<and> fb_add s2 (x + ?n) (?m - ?n + r) = Inr s3
       \<and> same_but_lists s1 s3 \<and> holds s3 (runs_of (freeset s \<union> {x + ?n..<x + ?n + (?m - ?n)}))"
      by (rule give_tail [OF inv _ _ _ used]) (use lt n mb in \<open>simp_all add: s1_def r_def\<close>)
    then show ?thesis unfolding e using that by blast
  qed
  have "realloc_shrink s x v ?m ?n = (if r \<noteq> 0 then rbind (fb_del s1 (x + ?m) 0) (\<lambda>s2. fb_add s2 (x + ?n) (?m + r - ?n))
      else fb_add s1 (x + ?n) (?m - ?n))"
    unfolding realloc_shrink_def Let_def place_wipe_shrink [OF mt x(1,2) n lt] s1_def [symmetric]
    using r0 rk by auto
  then have res: "realloc_shrink s x v ?m ?n = Inr s3"
    using s23(1,2) lt by (cases "r = 0") auto
  note sb = same_but_listsD [OF s23(3)]
  have st: "table_step s s3 (place (wipe ?mt x) x v)" using sb by (simp add: table_step_def s1_def)
  have "freeset s \<union> {x..<x + ?m} - {x..<x + ?n} = freeset s \<union> {x + ?n..<x + ?m}"
    using used_not_free [OF mt x(1,2)] lt by auto
  then have "mp_inv s3"
    using s23(4) st lt mb v by (intro table_step_resized [OF inv x(1,2,4)]) auto
  moreover have "v \<le> memtable s ! x"
  proof (rule ccontr)
    assume "\<not> v \<le> memtable s ! x"
    then show False using blk64_mono [of "memtable s ! x" v] lt v(2) by simp
  qed
  ultimately have "resized s s3 x x v" using st x sb by (intro resized_stay) (auto simp: s1_def)
  then show ?thesis using res by blast
qed

lemma realloc_expand_ok:
  assumes inv: "mp_inv s" and x: "x < memblocks s" "used_head (memtable s) x" "\<not> memheapres s ! x" "0 < x"
    and v: "0 < v" "v \<le> 4294901760" and lt: "blk64 (memtable s ! x) < blk64 v"
    and fr: "x + blk64 (memtable s ! x) \<in> freeset s"
    and fit: "blk64 v \<le> blk64 (memtable s ! x) + fb_size (mp_hdr s (x + blk64 (memtable s ! x)))"
  shows "\<exists>s'. realloc_expand s x v (blk64 (memtable s ! x)) (blk64 v) = Inr s' \<and> resized s s' x x v"
proof -
  let ?mt = "memtable s" and ?m = "blk64 (memtable s ! x)" and ?n = "blk64 v"
  have mt: "mt_inv (memblocks s) ?mt" and h: "holds s (runs_of (freeset s))"
    using inv by (auto simp: mp_inv_holds)
  note len = mt_len [OF mt]
  have m: "0 < ?m" using mt_head [OF mt x(1,2)] by simp
  define k where "k = fb_size (mp_hdr s (x + ?m))"
  have r: "run (freeset s) (x + ?m) k"
    using right_run [OF h, of "x + ?m"] used_not_free [OF mt x(1,2), of "x + ?m - 1"] m fr
    by (auto simp: right_size_def k_def)
  have nk: "0 < ?n - ?m" "?n - ?m \<le> k" using lt fit by (auto simp: k_def)
  obtain s1 s2 where s12: "fb_del s (x + ?m) 0 = Inr s1"
    "(if k \<noteq> ?n - ?m then fb_add s1 (x + ?m + (?n - ?m)) (k - (?n - ?m)) else Inr s1) = Inr s2"
    "same_but_lists s s2" "holds s2 (runs_of (freeset s - {x + ?m..<x + ?m + (?n - ?m)}))"
    using take_first [OF inv r nk] by blast
  note sb = same_but_listsD [OF s12(3)]
  have e: "(if ?m + k > ?n then fb_add s1 (x + ?n) (?m + k - ?n) else Inr s1) = Inr s2"
  proof -
    have "(k \<noteq> ?n - ?m) = (?m + k > ?n)" "x + ?m + (?n - ?m) = x + ?n" "k - (?n - ?m) = ?m + k - ?n"
      using nk lt by auto
    then show ?thesis using s12(2) by (simp only:)
  qed
  define s3 where "s3 = s2\<lparr>memtable := place (wipe ?mt x) x v,
      mp_data := zero_bytes (mp_data s) (x * 65536 + ?mt ! x) (v - ?mt ! x)\<rparr>"
  have res: "realloc_expand s x v ?m ?n = Inr s3"
    unfolding realloc_expand_def Let_def k_def [symmetric] s12(1) rbind_Inr e
    using sb place_wipe_expand [OF mt x(1,2) lt] by (simp add: s3_def)
  have st: "table_step s s3 (place (wipe ?mt x) x v)" using sb by (simp add: table_step_def s3_def)
  have xn: "x + ?n \<le> memblocks s" using run_bound [OF r] nk by simp
  have zero: "memtable s ! i = 0" if "x + ?m \<le> i" "i < x + ?n" for i
    using run_in [OF r, of i] that nk by (auto simp: freeset_def)
  have "freeset s \<union> {x..<x + ?m} - {x..<x + ?n} = freeset s - {x + ?m..<x + ?n}"
    using used_not_free [OF mt x(1,2)] lt by auto
  moreover have "holds s3 A = holds s2 A" for A by (simp add: holds_def st_flists_def s3_def)
  moreover have "x + ?m + (?n - ?m) = x + ?n" using lt by simp
  ultimately have h3: "holds s3 (runs_of (freeset s \<union> {x..<x + ?m} - {x..<x + ?n}))"
    using s12(4) by simp
  have i3: "mp_inv s3"
    by (rule table_step_resized [OF inv x(1,2,4) v xn _ st h3]) (rule zero)
  have "?mt ! x < v"
  proof (rule ccontr)
    assume "\<not> ?mt ! x < v"
    moreover have "?mt ! x \<le> 4294901760"
      by (rule mt_bound [OF inv x(1,2)])
    ultimately show False using lt blk64_mono [of v "?mt ! x"] by simp
  qed
  then have "resized s s3 x x v" using st x sb i3 by (intro resized_stay) (auto simp: s3_def)
  then show ?thesis using res by blast
qed


section \<open>Moving\<close>

lemma place_used_head:
  assumes "mt_inv n mt" "x < n" "used_head mt x" "y + blk64 v \<le> n"
    and "\<And>i. y \<le> i \<Longrightarrow> i < y + blk64 v \<Longrightarrow> mt ! i = 0"
  shows "place mt y v ! x = (if x = y \<and> blk64 v = 0 then v else mt ! x)"
  using assms mt_len [OF assms(1)] by (auto simp: nth_place used_head_def)

lemma place_wipe_commute:
  assumes mt: "mt_inv n mt" and x: "x < n" "used_head mt x" and y: "y + blk64 v \<le> n" "0 < blk64 v"
    and zero: "\<And>i. y \<le> i \<Longrightarrow> i < y + blk64 v \<Longrightarrow> mt ! i = 0"
  shows "wipe (place mt y v) x = place (wipe mt x) y v"
proof -
  note len = mt_len [OF mt]
  have sep: "i < x \<or> x + blk64 (mt ! x) \<le> i" if "y \<le> i" "i < y + blk64 v" for i
    using zero [OF that] mt_middle [OF mt x, of i] x by (cases "i = x") (force simp: used_head_def)+
  have px: "place mt y v ! x = mt ! x" using sep [of x] x len mt_head [OF mt x] y
    by (auto simp: nth_place)
  show ?thesis
  proof (rule nth_equalityI)
    fix i assume "i < length (wipe (place mt y v) x)"
    then have i: "i < length mt" by simp
    consider "y \<le> i" "i < y + blk64 v" | "i < y" | "y + blk64 v \<le> i" by linarith
    then show "wipe (place mt y v) x ! i = place (wipe mt x) y v ! i"
      using sep [of i] px i y by cases (auto simp: nth_place nth_wipe)
  qed simp
qed

lemma realloc_move_ok:
  assumes inv: "mp_inv s" and x: "x < memblocks s" "used_head (memtable s) x" "\<not> memheapres s ! x"
    and v: "0 < v" "v \<le> 4294901760" and lt: "memtable s ! x < v"
  shows "(realloc_move efi s (blk_addr s x) x v = Inr (s, None) \<and> fit_runs s (blk64 v) = {})
    \<or> (\<exists>s' y. realloc_move efi s (blk_addr s x) x v = Inr (s', Some y) \<and> resized s s' x y v)"
  using alloc_worker_ok [OF inv v, of efi 0 "memsignlst s ! x" "memowner s ! x"]
proof
  assume "alloc_worker efi s v 0 (memsignlst s ! x) (memowner s ! x) = Inr (s, None) \<and> fit_runs s (blk64 v) = {}"
  then show ?thesis by (simp add: realloc_move_def)
next
  assume "\<exists>s' p k. let xa = alloc_pos (alloc_align efi 0) p k (blk64 v); ro = (0::u32) AND QSMA_READONLY \<noteq> 0 in
           alloc_worker efi s v 0 (memsignlst s ! x) (memowner s ! x) = Inr (s', Some xa) \<and> mp_inv s'
           \<and> alloc_choice (alloc_align efi 0) s (blk64 v) p k
           \<and> alloc_tables s s' xa v (memsignlst s ! x) (if ro then None else memowner s ! x) ro"
  then obtain s1 p k where aw: "alloc_worker efi s v 0 (memsignlst s ! x) (memowner s ! x)
      = Inr (s1, Some (alloc_pos (alloc_align efi 0) p k (blk64 v)))"
    and i1: "mp_inv s1" and ch: "alloc_choice (alloc_align efi 0) s (blk64 v) p k"
    and t: "alloc_tables s s1 (alloc_pos (alloc_align efi 0) p k (blk64 v)) v (memsignlst s ! x) (memowner s ! x) False"
    by (auto simp: Let_def)
  define y where "y = alloc_pos (alloc_align efi 0) p k (blk64 v)"
  note t = t [folded y_def] and aw = aw [folded y_def]
  let ?mt = "memtable s"
  have mt: "mt_inv (memblocks s) ?mt" using inv by (auto simp: mp_inv_holds)
  note len = mt_len [OF mt]
  have n: "0 < blk64 v" using blk64_pos [OF v] by simp
  have y: "p \<le> y" "y + blk64 v \<le> p + k" and r: "run (freeset s) p k"
    using ch by (auto simp: alloc_choice_def y_def alloc_pos_def)
  have yb: "y + blk64 v \<le> memblocks s" using run_bound [OF r] y by simp
  have zero: "\<And>i. y \<le> i \<Longrightarrow> i < y + blk64 v \<Longrightarrow> ?mt ! i = 0"
    using run_in [OF r] y by (auto simp: freeset_def)
  have xy: "x \<noteq> y" using zero [of y] n x by (auto simp: used_head_def)
  have mx: "place ?mt y v ! x = ?mt ! x" using place_used_head [OF mt x(1,2) yb zero] xy by simp
  define d where "d = zero_bytes (copy_bytes (mp_data s) (y * 65536) (x * 65536) (?mt ! x)) (y * 65536 + ?mt ! x) (v - ?mt ! x)"
  let ?s2 = "s1\<lparr>mp_data := d\<rparr>"
  have t1: "memtable s1 = place ?mt y v" "memblocks s1 = memblocks s" "mp_base s1 = mp_base s"
    "mp_data s1 = mp_data s" "memheapres s1 = (memheapres s)[y := False]"
    "memsignlst s1 = (memsignlst s)[y := memsignlst s ! x]" "memowner s1 = (memowner s)[y := memowner s ! x]"
    using t by (auto simp: alloc_tables_def)
  have i2: "mp_inv ?s2" using i1 by (auto simp: mp_inv_holds mp_wf_def holds_def st_flists_def freeset_def)
  have "used_head (memtable ?s2) x" "\<not> memheapres ?s2 ! x" "x < memblocks ?s2"
    using x xy mx t1 by (auto simp: used_head_def)
  then obtain s3 where s3: "hlp_memfree ?s2 (blk_addr ?s2 x) = Inr s3" "mp_inv s3"
    "table_step ?s2 s3 (wipe (memtable ?s2) x)" "mp_data s3 = mp_data ?s2"
    using hlp_memfree_ok [OF i2, of x] by blast
  have "realloc_move efi s (blk_addr s x) x v = Inr (s3, Some y)"
    using aw s3(1) t1 mx lt by (simp add: realloc_move_def Let_def d_def blk_addr_def)
  moreover have "resized s s3 x y v"
    unfolding resized_def
  proof (intro conjI allI impI)
    show "memtable s3 = place (wipe ?mt x) y v"
      using s3(3) t1 place_wipe_commute [OF mt x(1,2) yb n zero] by (simp add: table_step_def)
  next
    fix i assume "i < v"
    then show "mp_data s3 (y * 65536 + i) = (if i < ?mt ! x then mp_data s (x * 65536 + i) else 0)"
      using s3(4) by (simp add: d_def zero_bytes_def copy_bytes_def)
  next
    fix a assume "a < y * 65536 \<or> y * 65536 + v \<le> a"
    then show "mp_data s3 a = mp_data s a"
      using s3(4) lt by (auto simp: d_def zero_bytes_def copy_bytes_def)
  qed (use s3 t1 in \<open>auto simp: table_step_def\<close>)
  ultimately show ?thesis by blast
qed

text \<open>All ways together.\<close>

lemma hlp_memrealloc_ok:
  assumes inv: "mp_inv s" and x: "x < memblocks s" "used_head (memtable s) x" "\<not> memheapres s ! x"
    and v: "0 < v" "v \<le> 4294901760"
  shows "(hlp_memrealloc efi s (blk_addr s x) v = Inr (s, None) \<and> fit_runs s (blk64 v) = {})
    \<or> (\<exists>s' y. hlp_memrealloc efi s (blk_addr s x) v = Inr (s', Some y) \<and> resized s s' x y v)"
proof -
  have x0: "0 < x" using inv x(3) by (cases x) (auto simp: mp_inv_def mp_wf_def)
  note x4 = x x0
  have mt: "mt_inv (memblocks s) (memtable s)" using inv by (auto simp: mp_inv_holds)
  have eq: "hlp_memrealloc efi s (blk_addr s x) v = (let sz = blk64 (memtable s ! x); nsz = blk64 v in
         if sz = nsz then Inr (realloc_inplace s x v, Some x)
         else if nsz < sz then rbind (realloc_shrink s x v sz nsz) (\<lambda>s1. Inr (s1, Some x))
         else if x + sz < memblocks s \<and> memtable s ! (x + sz) = 0
                 \<and> nsz \<le> sz + fb_size (mp_hdr s (x + sz)) then
           rbind (realloc_expand s x v sz nsz) (\<lambda>s1. Inr (s1, Some x))
         else realloc_move efi s (blk_addr s x) x v)"
    using x v by (simp add: hlp_memrealloc_def hrchk_def Let_def)
  consider "blk64 (memtable s ! x) = blk64 v" | "blk64 v < blk64 (memtable s ! x)"
    | "blk64 (memtable s ! x) < blk64 v" by linarith
  then show ?thesis
  proof cases
    case 1
    then show ?thesis using eq realloc_inplace_ok [OF inv x4 v 1] by (simp add: Let_def)
  next
    case 2
    then show ?thesis using eq realloc_shrink_ok [OF inv x4 v 2] by (auto simp: Let_def)
  next
    case 3
    have old: "memtable s ! x < v"
      using 3 blk64_mono [of v "memtable s ! x"] mt_bound [OF inv x(1,2)]
      by (cases "memtable s ! x < v") auto
    show ?thesis
    proof (cases "x + blk64 (memtable s ! x) \<in> freeset s
        \<and> blk64 v \<le> blk64 (memtable s ! x) + fb_size (mp_hdr s (x + blk64 (memtable s ! x)))")
      case True
      then show ?thesis using eq 3 realloc_expand_ok [OF inv x4 v 3] by (auto simp: Let_def freeset_def)
    next
      case False
      then have "hlp_memrealloc efi s (blk_addr s x) v = realloc_move efi s (blk_addr s x) x v"
        using eq 3 by (auto simp: Let_def freeset_def)
      then show ?thesis using realloc_move_ok [OF inv x v old] by simp
    qed
  qed
qed

end
