(* ===== verification/MemPoolAdmin.thy ===== *)
theory MemPoolAdmin
  imports MemPoolRealloc
begin

text \<open>
  Administration of the pool: the state after \<open>memmgr_init\<close>'s table setup, the reservation of
  fixed areas, the release of everything a process owns, and the free space query.
\<close>

section \<open>The initial state\<close>

lemma tables_blocks:
  assumes "2 \<le> n" "n \<le> 65535"
  shows "0 < blk64 (tables_size n)" "blk64 (tables_size n) < n" "tables_size n \<le> 4294901760"
    "0 < tables_size n"
proof -
  have t: "tables_size n \<le> n * 17" "16 * n \<le> tables_size n" by (auto simp: tables_size_def)
  then show ts: "tables_size n \<le> 4294901760" "0 < tables_size n" using assms by auto
  then show "0 < blk64 (tables_size n)" using blk64_pos by blast
  have "blk64 (tables_size n) = (tables_size n + 65535) div 65536" using ts blk64_pos by blast
  also have "\<dots> < n"
    using t assms by (intro less_mult_imp_div_less) auto
  finally show "blk64 (tables_size n) < n" .
qed

lemma mem_setup_ok:
  assumes n: "2 \<le> n" "n \<le> 65535" and b: "base + n * 65536 \<le> 4294967296"
  shows "mp_inv (mem_setup base n junk hdr dat)"
proof -
  let ?u = "blk64 (tables_size n)" and ?s = "mem_setup base n junk hdr dat"
  note u = tables_blocks [OF n]
  have dec: "dec32 ?u = ?u - 1" using u n by (intro dec32_pos) auto
  have mt: "memtable ?s = place (replicate n 0) 0 (tables_size n)"
    by (simp add: mem_setup_def Let_def place_def dec)
  have n_eq: "memblocks ?s = n" by (simp add: mem_setup_def Let_def)
  have nth: "memtable ?s ! i = (if i = 0 then tables_size n else if i < ?u then FFFF else 0)" if "i < n" for i
    unfolding mt using that by (simp add: nth_place)
  have tF: "tables_size n \<noteq> FFFF" using u by (auto simp: FFFF_def)
  have inv: "mt_inv n (memtable ?s)"
    unfolding mt_inv_def
  proof (intro conjI allI impI)
    show "length (memtable ?s) = n" by (simp add: mt)
    fix p assume p: "p < n" "used_head (memtable ?s) p"
    then have p0: "p = 0" using nth [of p] by (auto simp: used_head_def split: if_splits)
    then show "0 < blk64 (memtable ?s ! p)" "p + blk64 (memtable ?s ! p) \<le> n"
      using nth [of 0] u n by auto
    fix i assume "p < i \<and> i < p + blk64 (memtable ?s ! p)"
    then show "memtable ?s ! i = FFFF" using nth [of i] nth [of 0] p0 u n by auto
  next
    fix i assume i: "i < n" "memtable ?s ! i = FFFF"
    then have "0 < i" "i < ?u" using nth [of i] tF by (auto split: if_splits)
    then show "\<exists>p<i. used_head (memtable ?s) p \<and> i < p + blk64 (memtable ?s ! p)"
      using nth [of 0] n u tF by (intro exI [of _ 0]) (auto simp: used_head_def)
  qed
  have fs: "freeset ?s = {?u..<n}"
    using nth u n by (auto simp: freeset_def n_eq split: if_splits)
  have runs: "runs_of {?u..<n} = {(?u, n - ?u)}"
  proof -
    have r: "run {?u..<n} ?u (n - ?u)" using u by (auto simp: run_def)
    have "(p, k) = (?u, n - ?u)" if "run {?u..<n} p k" for p k
    proof -
      have p: "p \<in> {?u..<n}" "p = 0 \<or> p - 1 \<notin> {?u..<n}"
        using run_in [OF that, of p] that by (simp_all add: run_def)
      have "\<not> ?u < p"
      proof
        assume "?u < p"
        then have "p - 1 \<in> {?u..<n}" "p \<noteq> 0" using p(1) by auto
        then show False using p(2) by blast
      qed
      then have pu: "p = ?u" using p(1) by simp
      have "n - ?u = k" by (rule run_len_unique [OF r]) (rule that [unfolded pu])
      then show ?thesis unfolding pu by blast
    qed
    then show ?thesis using r unfolding runs_of_def by blast
  qed
  let ?L = "\<lambda>k. if k = n - ?u then [?u] else []"
  have "st_flists ?s ?L"
    using u n by (auto simp: st_flists_def flists_def mem_setup_def Let_def hdr_ok_def nth_list_update)
  then have "holds ?s (runs_of (freeset ?s))"
    unfolding holds_def fs runs by (intro exI [of _ ?L]) auto
  moreover have "mp_wf ?s"
    using nth n b u by (auto simp: mp_wf_def n_eq FFFF_def) (auto simp: mem_setup_def Let_def)
  ultimately show ?thesis using inv by (simp add: mp_inv_holds n_eq)
qed


section \<open>Process exit\<close>

text \<open>The blocks \<open>mem_procexit\<close> is to release: owned by the process, not read-only.\<close>

definition victim :: "mempool \<Rightarrow> nat \<Rightarrow> nat \<Rightarrow> bool" where
  "victim s pid x \<longleftrightarrow> x < memblocks s \<and> used_head (memtable s) x \<and> memowner s ! x = Some pid
     \<and> \<not> memheapres s ! x"

definition released :: "mempool \<Rightarrow> nat \<Rightarrow> nat set \<Rightarrow> nat list \<Rightarrow> bool" where
  "released s pid J mt \<longleftrightarrow> (\<forall>i<memblocks s. mt ! i =
     (if \<exists>x\<in>J. victim s pid x \<and> x \<le> i \<and> i < x + blk64 (memtable s ! x) then 0 else memtable s ! i))"

definition same_admin :: "mempool \<Rightarrow> mempool \<Rightarrow> bool" where
  "same_admin s s' \<longleftrightarrow> memblocks s' = memblocks s \<and> mp_base s' = mp_base s \<and> memheapres s' = memheapres s
     \<and> memsignlst s' = memsignlst s \<and> memowner s' = memowner s \<and> mp_data s' = mp_data s"

lemma used_head_lt: "mp_inv s \<Longrightarrow> x < memblocks s \<Longrightarrow>
    (memtable s ! x \<noteq> 0 \<and> memtable s ! x < FFFF) = used_head (memtable s) x"
  by (auto simp: used_head_def mp_inv_def mp_wf_def le_less)

lemma hlp_memfree_ro:
  assumes "x < memblocks s" "used_head (memtable s) x" "memheapres s ! x"
  shows "hlp_memfree s (blk_addr s x) = Inr s"
  using assms by (simp add: hlp_memfree_def hrchk_def used_head_def Let_def)

lemma wipe_other_head:
  assumes mt: "mt_inv n mt" and y: "y < n" "used_head mt y" and x: "x < n" "x \<noteq> y"
  shows "used_head (wipe mt y) x = used_head mt x" and "used_head mt x \<Longrightarrow> wipe mt y ! x = mt ! x"
proof -
  have "y < x \<Longrightarrow> x < y + blk64 (mt ! y) \<Longrightarrow> mt ! x = FFFF" using mt_middle [OF mt y] by simp
  then show "used_head (wipe mt y) x = used_head mt x" "used_head mt x \<Longrightarrow> wipe mt y ! x = mt ! x"
    using x mt_len [OF mt] by (auto simp: used_head_def nth_wipe)
qed

lemma procexit_from_ok:
  assumes "mp_inv s" and "distinct is" and "set is \<subseteq> {..<memblocks s}"
  shows "\<exists>s'. procexit_from pid is s = Inr s' \<and> mp_inv s' \<and> same_admin s s'
     \<and> released s pid (set is) (memtable s')"
  using assms
proof (induction "is" arbitrary: s)
  case Nil
  then show ?case by (simp add: same_admin_def released_def)
next
  case (Cons y js)
  have y: "y < memblocks s" and ny: "y \<notin> set js" using Cons.prems by auto
  have mt: "mt_inv (memblocks s) (memtable s)" using Cons.prems(1) by (simp add: mp_inv_def)
  note uh = used_head_lt [OF Cons.prems(1) y]
  show ?case
  proof (cases "victim s pid y")
    case True
    then have v: "used_head (memtable s) y" "memowner s ! y = Some pid" "\<not> memheapres s ! y"
      by (auto simp: victim_def)
    obtain s1 where s1: "hlp_memfree s (blk_addr s y) = Inr s1" "mp_inv s1"
      "table_step s s1 (wipe (memtable s) y)" "mp_data s1 = mp_data s"
      using hlp_memfree_ok [OF Cons.prems(1) y v(1,3)] by blast
    note t = s1(3) [unfolded table_step_def]
    have sub: "set js \<subseteq> {..<memblocks s1}" using Cons.prems t by auto
    obtain s' where s': "procexit_from pid js s1 = Inr s'" "mp_inv s'" "same_admin s1 s'"
      "released s1 pid (set js) (memtable s')"
      using Cons.IH [OF s1(2) _ sub] Cons.prems by auto
    have vic: "victim s1 pid x = victim s pid x \<and> (victim s pid x \<longrightarrow> memtable s1 ! x = memtable s ! x)"
      if "x \<in> set js" for x
    proof (cases "x < memblocks s")
      case True
      have "x \<noteq> y" using that ny by auto
      then show ?thesis using wipe_other_head [OF mt y v(1) True] t by (auto simp: victim_def)
    qed (use t in \<open>auto simp: victim_def\<close>)
    have "released s pid (set (y # js)) (memtable s')"
      unfolding released_def
    proof (intro allI impI)
      fix i assume i: "i < memblocks s"
      let ?P = "\<lambda>x. victim s pid x \<and> x \<le> i \<and> i < x + blk64 (memtable s ! x)"
      have "memtable s' ! i = (if \<exists>x\<in>set js. ?P x then 0 else memtable s1 ! i)"
        using s'(4) i t vic unfolding released_def by auto
      also have "memtable s1 ! i = (if ?P y then 0 else memtable s ! i)"
        using t i True mt_len [OF mt] by (auto simp: nth_wipe)
      finally show "memtable s' ! i = (if \<exists>x\<in>set (y # js). ?P x then 0 else memtable s ! i)" by auto
    qed
    moreover have "procexit_from pid (y # js) s = Inr s'"
      using uh v s1(1) s'(1) by (simp add: Let_def)
    moreover have "same_admin s s'" using s'(3) t s1(4) by (simp add: same_admin_def)
    ultimately show ?thesis using s'(2) by blast
  next
    case False
    have eq: "procexit_from pid (y # js) s = procexit_from pid js s"
      using False uh y hlp_memfree_ro [OF y] by (auto simp: victim_def Let_def)
    have "released s pid (set js) = released s pid (set (y # js))"
      using False by (auto simp: released_def fun_eq_iff)
    then show ?thesis using Cons.IH [OF Cons.prems(1)] Cons.prems(2,3) eq by auto
  qed
qed

lemma mem_procexit_ok:
  assumes "mp_inv s"
  shows "\<exists>s'. mem_procexit s pid = Inr s' \<and> mp_inv s' \<and> same_admin s s'
     \<and> released s pid {..<memblocks s} (memtable s')"
  using procexit_from_ok [OF assms, of "[0..<memblocks s]" pid]
  by (simp add: mem_procexit_def atLeast0LessThan)

section \<open>Free space\<close>

lemma avail_chain_eq:
  assumes "dlseg (mp_hdr s) ii pv cur xs None" and "length xs \<le> fuel"
    and "\<And>p. p \<in> set xs \<Longrightarrow> p < memblocks s"
    and "\<And>p. p \<in> set xs \<Longrightarrow> memftable s ! ii = Some p \<Longrightarrow> fb_prev (mp_hdr s p) = None"
    and "rc + length xs * ii * 65536 < 4294967296"
  shows "avail_chain s ii fuel cur rc = Inr (rc + length xs * ii * 65536)"
  using assms
proof (induction xs arbitrary: pv cur fuel rc)
  case Nil
  then show ?case by simp
next
  case (Cons x xs)
  obtain f where f: "fuel = Suc f" using Cons.prems(2) by (cases fuel) auto
  have d: "dlseg (mp_hdr s) ii (Some x) (fb_next (mp_hdr s x)) xs None"
    and cur: "cur = Some x" and ok: "hdr_ok ii (mp_hdr s x)" using Cons.prems(1) by auto
  have nx: "case fb_next (mp_hdr s x) of None \<Rightarrow> True | Some q \<Rightarrow> q < memblocks s"
    using d Cons.prems(3) by (cases xs) auto
  have IH: "avail_chain s ii f (fb_next (mp_hdr s x)) (rc + ii * 65536)
      = Inr (rc + ii * 65536 + length xs * ii * 65536)"
    using d Cons.prems by (intro Cons.IH) (auto simp: f algebra_simps)
  have chk: "fbcheck (mp_hdr s x) = Inr ()"
    "fb_chkhdr s (mp_hdr s x) (memftable s ! ii = Some x) = Inr ()"
    using ok nx Cons.prems(4)[of x]
    by (auto simp: fbcheck_def hdr_ok_def fb_chkhdr_def guard_err_def split: option.splits)
  have "(rc + ii * 65536) mod 4294967296 = rc + ii * 65536" using Cons.prems(5) by (simp add: algebra_simps)
  then show ?case using chk IH f cur by (simp add: Let_def algebra_simps)
qed

lemma avail_sizes_eq:
  assumes l: "lists_exact s L" and "ii \<le> memblocks s"
    and "rc + (\<Sum>k<ii. length (L k) * k * 65536) < 4294967296"
  shows "avail_sizes s ii rc mb = Inr (rc + (\<Sum>k<ii. length (L k) * k * 65536),
     if mb = 0 then (if \<exists>k<ii. L k \<noteq> [] then (GREATEST k. k < ii \<and> L k \<noteq> []) * 65536 else 0) else mb)"
  using assms(2,3)
proof (induction ii arbitrary: rc mb)
  case 0
  then show ?case by simp
next
  case (Suc ii)
  have ii: "ii < memblocks s" using Suc.prems by simp
  note d = scan_list_prems(1) [OF l ii]
  have hd0: "L ii \<noteq> [] \<Longrightarrow> 0 < ii" using l by (auto simp: lists_exact_def st_flists_def flists_def)
  show ?case
  proof (cases "memftable s ! ii")
    case None
    then have nil: "L ii = []" using d by (cases "L ii") auto
    have "(k < Suc ii \<and> L k \<noteq> []) = (k < ii \<and> L k \<noteq> [])" for k
      using nil by (metis less_Suc_eq)
    then have e: "avail_sizes s (Suc ii) rc mb = avail_sizes s ii rc mb"
      "(\<exists>k<Suc ii. L k \<noteq> []) = (\<exists>k<ii. L k \<noteq> [])"
      "(GREATEST k. k < Suc ii \<and> L k \<noteq> []) = (GREATEST k. k < ii \<and> L k \<noteq> [])"
      using None by simp_all
    show ?thesis unfolding e using Suc nil by (simp only: sum.lessThan_Suc) simp
  next
    case (Some p)
    then have ne: "L ii \<noteq> []" using d by (cases "L ii") auto
    have g: "(GREATEST k. k < Suc ii \<and> L k \<noteq> []) = ii" using ne by (intro Greatest_equality) auto
    have "avail_chain s ii (memblocks s) (memftable s ! ii) rc = Inr (rc + length (L ii) * ii * 65536)"
      using Suc.prems lists_exact_length [OF l] scan_list_prems(2,3) [OF l ii]
      by (intro avail_chain_eq [OF d]) auto
    then show ?thesis using Suc.IH [of "rc + length (L ii) * ii * 65536" "if mb = 0 then ii * 65536 else mb"]
      Suc.prems Some g ne hd0 by (auto simp: add.assoc)
  qed
qed

lemma free_total:
  assumes inv: "mp_inv s" and l: "lists_exact s L"
  shows "(\<Sum>k<memblocks s. length (L k) * k) = card (freeset s)"
proof -
  let ?A = "runs_of (freeset s)"
  have wf: "mp_wf s" using inv by (simp add: mp_inv_def)
  have fsU: "freeset s = (\<Union>(p, k)\<in>?A. {p..<p + k})"
  proof (intro equalityI subsetI)
    fix i assume i: "i \<in> freeset s"
    let ?p = "scan_back (memtable s) i"
    have sb: "?p \<le> i" "\<And>j. ?p \<le> j \<Longrightarrow> j < i \<Longrightarrow> memtable s ! j = 0" "?p = 0 \<or> memtable s ! (?p - 1) \<noteq> 0"
      using scan_back_spec [of "memtable s" i] by auto
    have pz: "?p \<in> freeset s" using sb i by (cases "?p = i") (auto simp: freeset_def)
    have "?p = 0 \<or> ?p - 1 \<notin> freeset s" using sb(3) by (auto simp: freeset_def)
    then obtain k where k: "run (freeset s) ?p k" using run_exists [OF pz _ freeset_bound] by blast
    have "i < ?p + k"
    proof (rule ccontr)
      assume "\<not> i < ?p + k"
      then have "?p + k \<in> freeset s"
        using sb(2) [of "?p + k"] i by (cases "?p + k = i") (auto simp: freeset_def)
      then show False using k by (simp add: run_def)
    qed
    then show "i \<in> (\<Union>(p, k)\<in>?A. {p..<p + k})" using k sb(1) by (force simp: runs_of_def)
  qed (auto simp: runs_of_def dest: run_in)
  have A: "?A = (\<Union>k<memblocks s. (\<lambda>p. (p, k)) ` set (L k))"
    using l run_less [OF wf] unfolding runs_of_def lists_exact_def by fast
  have disj: "{p..<p + k} \<inter> {q..<q + j} = {}" if "(p, k) \<in> ?A" "(q, j) \<in> ?A" "(p, k) \<noteq> (q, j)" for p k q j
  proof (rule ccontr)
    have r: "run (freeset s) p k" "run (freeset s) q j" using that by (auto simp: runs_of_def)
    assume "{p..<p + k} \<inter> {q..<q + j} \<noteq> {}"
    then obtain i where "p \<le> i" "i < p + k" "q \<le> i" "i < q + j"
      by (metis IntE atLeastLessThan_iff ex_in_conv)
    then have "p = q" using run_overlap [OF r] by blast
    then show False using that(3) r run_len_unique by blast
  qed
  have fin: "finite ?A" unfolding A by auto
  have "card (freeset s) = card (\<Union>(p, k)\<in>?A. {p..<p + k})" by (rule arg_cong [OF fsU])
  also have "\<dots> = (\<Sum>(p, k)\<in>?A. k)"
  proof -
    have "\<forall>a\<in>?A. \<forall>b\<in>?A. a \<noteq> b \<longrightarrow> (case a of (p, k) \<Rightarrow> {p..<p + k}) \<inter> (case b of (p, k) \<Rightarrow> {p..<p + k}) = {}"
      using disj by blast
    then have "card (\<Union>(p, k)\<in>?A. {p..<p + k}) = (\<Sum>a\<in>?A. card (case a of (p, k) \<Rightarrow> {p..<p + k}))"
      using fin by (intro card_UN_disjoint) auto
    also have "\<dots> = (\<Sum>(p, k)\<in>?A. k)" by (rule sum.cong) auto
    finally show ?thesis .
  qed
  also have "\<dots> = (\<Sum>k<memblocks s. \<Sum>(p, k)\<in>(\<lambda>p. (p, k)) ` set (L k). k)"
    unfolding A by (rule sum.UNION_disjoint) auto
  also have "\<dots> = (\<Sum>k<memblocks s. length (L k) * k)"
  proof (rule sum.cong [OF refl])
    fix k
    have "distinct (L k)" using l by (simp add: lists_exact_def st_flists_def flists_def)
    then show "(\<Sum>(p, k)\<in>(\<lambda>p. (p, k)) ` set (L k). k) = length (L k) * k"
      by (subst sum.reindex) (auto simp: inj_on_def distinct_card)
  qed
  finally show ?thesis by simp
qed

lemma hlp_memavail_ok:
  assumes inv: "mp_inv s"
  shows "\<exists>mb. hlp_memavail s = Inr (card (freeset s) * 65536, mb * 65536, availmem s)
     \<and> (freeset s = {} \<longrightarrow> mb = 0) \<and> (freeset s \<noteq> {} \<longrightarrow> (\<exists>p. run (freeset s) p mb))
     \<and> (\<forall>p k. run (freeset s) p k \<longrightarrow> k \<le> mb)"
proof -
  obtain L where l: "lists_exact s L" and wf: "mp_wf s" using inv by (auto simp: mp_inv_def)
  have tot: "(\<Sum>k<memblocks s. length (L k) * k * 65536) = card (freeset s) * 65536"
    using free_total [OF inv l] by (simp flip: sum_distrib_right)
  have cb: "card (freeset s) \<le> memblocks s"
    using card_mono [of "{..<memblocks s}" "freeset s"] freeset_bound by simp
  have lt: "0 + (\<Sum>k<memblocks s. length (L k) * k * 65536) < 4294967296"
    unfolding tot using cb wf by (simp add: mp_wf_def)
  have runs: "\<And>p k. run (freeset s) p k \<Longrightarrow> k < memblocks s \<and> L k \<noteq> []"
    using l run_less [OF wf] by (force simp: lists_exact_def)
  let ?P = "\<lambda>k. k < memblocks s \<and> L k \<noteq> []"
  define mb where "mb = (if \<exists>k<memblocks s. L k \<noteq> [] then (GREATEST k. ?P k) else 0)"
  have eq: "hlp_memavail s = Inr (card (freeset s) * 65536, mb * 65536, availmem s)"
    using avail_sizes_eq [OF l order_refl lt, of 0] unfolding hlp_memavail_def tot mb_def by auto
  have P: "?P mb \<and> (\<forall>k. ?P k \<longrightarrow> k \<le> mb)" if ex: "\<exists>k. ?P k"
  proof -
    have b: "\<And>k. ?P k \<Longrightarrow> k \<le> memblocks s" by simp
    obtain k0 where k0: "?P k0" using ex by blast
    have "mb = (GREATEST k. ?P k)" using ex by (simp add: mb_def)
    then show ?thesis
      using GreatestI_nat [of ?P, OF k0 b] Greatest_le_nat [of ?P, OF _ b] by simp
  qed
  have "\<exists>p. run (freeset s) p mb" if "\<exists>k. ?P k"
  proof -
    have "L mb \<noteq> []" using P [OF that] by simp
    then have "hd (L mb) \<in> set (L mb)" by simp
    then show ?thesis using l by (auto simp: lists_exact_def)
  qed
  moreover have "(\<exists>k. ?P k) = (freeset s \<noteq> {})"
  proof
    assume "freeset s \<noteq> {}"
    then have "0 < card (freeset s)" 
      using finite_subset [OF freeset_bound finite_lessThan] by (simp add: card_gt_0_iff)
    then show "\<exists>k. ?P k" using free_total [OF inv l] by (metis (no_types, lifting) lessThan_iff
        list.size(3) mult_0 neq0_conv sum.neutral)
  next
    assume "\<exists>k. ?P k"
    then obtain k where "L k \<noteq> []" by blast
    then have "hd (L k) \<in> set (L k)" by simp
    then have "run (freeset s) (hd (L k)) k" using l by (simp add: lists_exact_def)
    then show "freeset s \<noteq> {}" by (auto simp: run_def)
  qed
  moreover have "freeset s = {} \<Longrightarrow> mb = 0" using calculation(2) by (auto simp: mb_def)
  ultimately show ?thesis using eq runs P by blast
qed


section \<open>Reserving a fixed area\<close>

text \<open>The area \<open>memreserve\<close> works on: its first block and its length in bytes.\<close>

definition rsv_len :: "mempool \<Rightarrow> nat \<Rightarrow> nat \<Rightarrow> nat" where
  "rsv_len s pa len0 = min len0 (mp_base s + availmem s - pa) + (pa - mp_base s) mod 65536"

lemma memreserve_eq:
  assumes pa: "mp_base s \<le> pa" "pa < mp_base s + availmem s"
    and n: "memblocks s \<le> 65535" and nowrap: "pa + len0 < 4294967296"
  defines "pos \<equiv> (pa - mp_base s) div 65536" and "sz \<equiv> blk64 (rsv_len s pa len0)"
  shows "memreserve s pa len0 ro =
       (if memchrn_pos (take sz (drop pos (memtable s))) 0 \<noteq> None then Inr (s, QSMR_USED, None)
        else
          let ii = scan_back (memtable s) pos; fbsz = fb_size (mp_hdr s ii) in
          rbind (fb_del s ii 0) (\<lambda>s1.
          rbind (if pos - ii \<noteq> 0 then fb_add s1 ii (pos - ii) else Inr s1) (\<lambda>s2.
          rbind (if pos + sz < ii + fbsz then fb_add s2 (pos + sz) (ii + fbsz - (pos + sz))
                 else Inr s2) (\<lambda>s3.
          let s4 = s3\<lparr>memtable := (memtable s3)[pos := rsv_len s pa len0],
                      memheapres := (if ro then (memheapres s3)[pos := True] else memheapres s3),
                      memsignlst := (memsignlst s3)[pos := 1987274098]\<rparr> in
          rbind (mark_used (memtable s4) pos (dec32 sz)) (\<lambda>mt'.
          Inr (s4\<lparr>memtable := mt'\<rparr>,
               (if mp_base s + availmem s < pa + len0 then QSMR_TRUNCATED else QSMR_SUCCESS), Some pos))))))"
proof -
  obtain w where w: "pa = mp_base s + w" using pa(1) le_Suc_ex by blast
  have ofs: "w mod 65536 \<le> w" by simp
  have av: "availmem s < 4294967296" using n by (simp add: availmem_def)
  have pos: "(pa - (pa - mp_base s) mod 65536 - mp_base s) div 65536 = pos"
  proof -
    have "pa - w mod 65536 - mp_base s = w - w mod 65536" using w ofs by simp
    also have "\<dots> div 65536 = w div 65536" by (simp add: minus_mod_eq_div_mult)
    finally show ?thesis using w by (simp add: pos_def)
  qed
  have l1: "(if mp_base s + availmem s < pa + len0 then mp_base s + availmem s - pa else len0)
      = min len0 (mp_base s + availmem s - pa)" using pa by auto
  have "rsv_len s pa len0 < 4294967296"
    using av ofs pa nowrap unfolding rsv_len_def w by (simp add: min_def) linarith
  then have len: "(min len0 (mp_base s + availmem s - pa) + (pa - mp_base s) mod 65536) mod 4294967296 = rsv_len s pa len0"
    by (simp add: rsv_len_def)
  have c: "(pa < mp_base s \<or> mp_base s + availmem s \<le> pa) = False" "(pa + len0) mod 4294967296 = pa + len0"
    using pa nowrap by auto
  show ?thesis unfolding memreserve_def Let_def c pos l1 len sz_def [symmetric] if_False ..
qed

lemma carve_middle:
  assumes inv: "mp_inv s" and r: "run (freeset s) p k" and x: "p \<le> x" "x + m \<le> p + k" "0 < m"
  shows "\<exists>s1 s2 s3. fb_del s p 0 = Inr s1 \<and> (if x - p \<noteq> 0 then fb_add s1 p (x - p) else Inr s1) = Inr s2
     \<and> (if x + m < p + k then fb_add s2 (x + m) (p + k - (x + m)) else Inr s2) = Inr s3
     \<and> same_but_lists s s3 \<and> holds s3 (runs_of (freeset s - {x..<x + m}))"
proof -
  let ?A = "runs_of (freeset s)"
  have h: "holds s ?A" and wf: "mp_wf s" using inv by (auto simp: mp_inv_holds)
  have pk: "(p, k) \<in> ?A" using r by (simp add: runs_of_def)
  have kb: "k < memblocks s" by (rule run_less [OF wf r])
  obtain s1 where s1: "fb_del s p 0 = Inr s1" "same_but_lists s s1" "holds s1 (?A - {(p, k)})"
    using holds_del [OF h pk, of 0] by blast
  define B where "B = (?A - {(p, k)}) \<union> (if p < x then {(p, x - p)} else {})"
  have "\<exists>s2. (if x - p \<noteq> 0 then fb_add s1 p (x - p) else Inr s1) = Inr s2 \<and> same_but_lists s1 s2 \<and> holds s2 B"
  proof (cases "p < x")
    case True
    have "(p, j) \<notin> ?A - {(p, k)}" for j using runs_len_only [OF r, of j] by auto
    moreover have "0 < x - p" "x - p < memblocks s1" using True x kb same_but_listsD [OF s1(2)] by auto
    ultimately obtain s2 where "fb_add s1 p (x - p) = Inr s2" "same_but_lists s1 s2"
        "holds s2 (insert (p, x - p) (?A - {(p, k)}))"
      using holds_add [OF s1(3)] by blast
    then show ?thesis using True by (simp add: B_def)
  qed (use s1 x in \<open>simp add: B_def\<close>)
  then obtain s2 where s2: "(if x - p \<noteq> 0 then fb_add s1 p (x - p) else Inr s1) = Inr s2"
    "same_but_lists s1 s2" "holds s2 B" by blast
  have c: "runs_of (freeset s - {x..<x + m}) = B \<union> (if x + m < p + k then {(x + m, p + k - (x + m))} else {})"
    unfolding runs_of_carve [OF r x] carve_def B_def ..
  have sb2: "same_but_lists s s2" by (rule same_but_lists_trans [OF s1(2) s2(2)])
  have "\<exists>s3. (if x + m < p + k then fb_add s2 (x + m) (p + k - (x + m)) else Inr s2) = Inr s3
     \<and> same_but_lists s2 s3 \<and> holds s3 (runs_of (freeset s - {x..<x + m}))"
  proof (cases "x + m < p + k")
    case True
    have "(x + m, j) \<notin> B" for j
      using runs_only_start [OF r, of "x + m" j] True x by (auto simp: B_def)
    moreover have "0 < p + k - (x + m)" "p + k - (x + m) < memblocks s2"
      using True x kb same_but_listsD [OF sb2] by auto
    ultimately obtain s3 where "fb_add s2 (x + m) (p + k - (x + m)) = Inr s3" "same_but_lists s2 s3"
        "holds s3 (insert (x + m, p + k - (x + m)) B)"
      using holds_add [OF s2(3)] by blast
    then show ?thesis using True c by simp
  qed (use s2 c in simp)
  then obtain s3 where s3: "(if x + m < p + k then fb_add s2 (x + m) (p + k - (x + m)) else Inr s2) = Inr s3"
     "same_but_lists s2 s3" "holds s3 (runs_of (freeset s - {x..<x + m}))" by blast
  show ?thesis
    using s1(1) s2(1) s3(1,3) same_but_lists_trans [OF sb2 s3(2)] by blast
qed


definition reserved :: "mempool \<Rightarrow> mempool \<Rightarrow> nat \<Rightarrow> nat \<Rightarrow> bool \<Rightarrow> bool" where
  "reserved s s' pos len ro \<longleftrightarrow> memtable s' = place (memtable s) pos len
     \<and> memheapres s' = (if ro then (memheapres s)[pos := True] else memheapres s)
     \<and> memsignlst s' = (memsignlst s)[pos := 1987274098] \<and> memowner s' = memowner s
     \<and> memblocks s' = memblocks s \<and> mp_base s' = mp_base s \<and> mp_data s' = mp_data s"

lemma memreserve_used:
  assumes inv: "mp_inv s" and pa: "mp_base s \<le> pa" "pa < mp_base s + availmem s" "pa + len0 < 4294967296"
    and i: "i < blk64 (rsv_len s pa len0)" "(pa - mp_base s) div 65536 + i < memblocks s"
      "memtable s ! ((pa - mp_base s) div 65536 + i) \<noteq> 0"
  shows "memreserve s pa len0 ro = Inr (s, QSMR_USED, None)"
proof -
  let ?xs = "take (blk64 (rsv_len s pa len0)) (drop ((pa - mp_base s) div 65536) (memtable s))"
  have len: "length (memtable s) = memblocks s" and n: "memblocks s \<le> 65535"
    using inv by (auto simp: mp_inv_def mt_inv_def mp_wf_def)
  have "i < length ?xs \<and> ?xs ! i \<noteq> 0" using i len by simp
  then have "memchrn_pos ?xs 0 \<noteq> None" unfolding memchrn_pos_None by (meson nth_mem)
  then show ?thesis unfolding memreserve_eq [OF pa(1,2) n pa(3)] by simp
qed

lemma memreserve_ok:
  assumes inv: "mp_inv s" and pa: "mp_base s \<le> pa" "pa < mp_base s + availmem s" "pa + len0 < 4294967296"
    and l: "0 < rsv_len s pa len0" "rsv_len s pa len0 \<le> 4294901760"
    and free: "\<And>i. i < blk64 (rsv_len s pa len0) \<Longrightarrow> memtable s ! ((pa - mp_base s) div 65536 + i) = 0"
    and b: "(pa - mp_base s) div 65536 + blk64 (rsv_len s pa len0) \<le> memblocks s"
  shows "\<exists>s'. memreserve s pa len0 ro = Inr (s',
        (if mp_base s + availmem s < pa + len0 then QSMR_TRUNCATED else QSMR_SUCCESS),
        Some ((pa - mp_base s) div 65536))
     \<and> mp_inv s' \<and> reserved s s' ((pa - mp_base s) div 65536) (rsv_len s pa len0) ro"
proof -
  define pos where "pos = (pa - mp_base s) div 65536"
  define len where "len = rsv_len s pa len0"
  note free = free [folded pos_def len_def] and b = b [folded pos_def len_def] and l = l [folded len_def]
  let ?m = "blk64 len" and ?mt = "memtable s"
  have wf: "mp_wf s" and mt: "mt_inv (memblocks s) ?mt" and h: "holds s (runs_of (freeset s))"
    using inv by (auto simp: mp_inv_holds)
  have n: "memblocks s \<le> 65535" using wf by (simp add: mp_wf_def)
  note ln = mt_len [OF mt]
  have m: "0 < ?m" using blk64_pos [OF l] by simp
  have fin: "\<And>i. pos \<le> i \<Longrightarrow> i < pos + ?m \<Longrightarrow> i \<in> freeset s"
  proof -
    fix i assume "pos \<le> i" "i < pos + ?m"
    then show "i \<in> freeset s" using free [of "i - pos"] b by (simp add: freeset_def)
  qed
  define p where "p = scan_back ?mt pos"
  have sb: "p \<le> pos" "\<And>j. p \<le> j \<Longrightarrow> j < pos \<Longrightarrow> ?mt ! j = 0" "p = 0 \<or> ?mt ! (p - 1) \<noteq> 0"
    using scan_back_spec [of ?mt pos] by (auto simp: p_def)
  have posf: "pos \<in> freeset s" using fin m by simp
  have pz: "p \<in> freeset s" using sb posf by (cases "p = pos") (auto simp: freeset_def)
  have "p = 0 \<or> p - 1 \<notin> freeset s" using sb(3) by (auto simp: freeset_def)
  then obtain k where r: "run (freeset s) p k" using run_exists [OF pz _ freeset_bound] by blast
  have k: "fb_size (mp_hdr s p) = k" using holds_hdr [OF h, of p k] r by (simp add: runs_of_def)
  have fit: "pos + ?m \<le> p + k"
  proof (rule ccontr)
    assume "\<not> pos + ?m \<le> p + k"
    then have "p + k \<in> freeset s"
      using fin [of "p + k"] sb(2) [of "p + k"] posf by (cases "pos \<le> p + k") (auto simp: freeset_def)
    then show False using r by (simp add: run_def)
  qed
  obtain s1 s2 s3 where s: "fb_del s p 0 = Inr s1" "(if pos - p \<noteq> 0 then fb_add s1 p (pos - p) else Inr s1) = Inr s2"
    "(if pos + ?m < p + k then fb_add s2 (pos + ?m) (p + k - (pos + ?m)) else Inr s2) = Inr s3"
    "same_but_lists s s3" "holds s3 (runs_of (freeset s - {pos..<pos + ?m}))"
    using carve_middle [OF inv r sb(1) fit m] by blast
  note sb3 = same_but_listsD [OF s(4)]
  have none: "memchrn_pos (take ?m (drop pos ?mt)) 0 = None"
    using free b ln by (auto simp: memchrn_pos_None in_set_conv_nth)
  have dec: "dec32 ?m = ?m - 1" using m blk64_le [of len] by (intro dec32_pos) auto
  have mk: "mark_used (?mt[pos := len]) pos (?m - 1) = Inr (place ?mt pos len)"
    unfolding place_def
  proof (rule mark_used_ok)
    fix i assume "pos < i" "i \<le> pos + (?m - 1)"
    then show "?mt[pos := len] ! i = 0" using free [of "i - pos"] m by simp
  qed (use b m ln in simp)
  let ?s4 = "s3\<lparr>memtable := ?mt[pos := len],
      memheapres := (if ro then (memheapres s)[pos := True] else memheapres s),
      memsignlst := (memsignlst s)[pos := 1987274098]\<rparr>"
  let ?s' = "?s4\<lparr>memtable := place ?mt pos len\<rparr>"
  have res: "memreserve s pa len0 ro = Inr (?s',
      (if mp_base s + availmem s < pa + len0 then QSMR_TRUNCATED else QSMR_SUCCESS), Some pos)"
    unfolding memreserve_eq [OF pa(1,2) n pa(3)] pos_def [symmetric] len_def [symmetric]
      p_def [symmetric] none Let_def k s(1,2,3) rbind_Inr dec
    using sb3 mk by simp
  have rs: "reserved s ?s' pos len ro" using sb3 by (simp add: reserved_def)
  have "freeset ?s' = freeset s - {pos..<pos + ?m}"
    using sb3 ln b m l by (intro freeset_place) auto
  then have h': "holds ?s' (runs_of (freeset ?s'))" using s(5) by (simp add: holds_def st_flists_def)
  have "pos \<noteq> 0" using posf wf by (auto simp: freeset_def mp_wf_def intro: gr0I)
  then have "mp_wf ?s'" using wf sb3 b ln l by (auto simp: mp_wf_def nth_place FFFF_def)
  moreover have "mt_inv (memblocks s) (place ?mt pos len)"
    using free b m l by (intro mt_inv_place [OF mt]) (auto dest: le_Suc_ex)
  ultimately have "mp_inv ?s'" using h' sb3 by (simp add: mp_inv_holds)
  then show ?thesis using res rs unfolding pos_def [symmetric] len_def [symmetric] by blast
qed

end
