(* ===== verification/MemPoolSpec.thy ===== *)
theory MemPoolSpec
  imports MemPoolAdmin
begin

text \<open>
  What the memory manager promises its callers: the contract of a block allocator as a locale,
  its interpretation on \<open>alloc_worker\<close> and \<open>hlp_memfree\<close>, and the properties of the operations.
\<close>

section \<open>The contract of a block allocator\<close>

text \<open>A client allocates and releases its own blocks: \<open>Get n\<close> asks for \<open>n\<close> bytes, \<open>Put k\<close> releases
  the \<open>k\<close>th of the blocks it holds. It keeps the list of its handles.\<close>

datatype mem_req = Get nat | Put nat

definition drop_nth :: "nat \<Rightarrow> 'a list \<Rightarrow> 'a list" where
  "drop_nth k xs = take k xs @ drop (Suc k) xs"

fun serve :: "('s \<Rightarrow> nat \<Rightarrow> 'e + ('s \<times> nat option)) \<Rightarrow> ('s \<Rightarrow> nat \<Rightarrow> 'e + 's) \<Rightarrow> mem_req list
    \<Rightarrow> 's \<Rightarrow> (nat \<times> nat) list \<Rightarrow> 'e + ('s \<times> (nat \<times> nat) list)" where
  "serve al fr [] s hs = Inr (s, hs)"
| "serve al fr (Get n # rs) s hs =
     rbind (al s n) (\<lambda>(s1, rc).
       case rc of None \<Rightarrow> serve al fr rs s1 hs | Some p \<Rightarrow> serve al fr rs s1 ((p, n) # hs))"
| "serve al fr (Put k # rs) s hs =
     (if k < length hs then rbind (fr s (fst (hs ! k))) (\<lambda>s1. serve al fr rs s1 (drop_nth k hs))
      else serve al fr rs s hs)"

fun req_ok :: "nat \<Rightarrow> mem_req \<Rightarrow> bool" where
  "req_ok lim (Get n) = (0 < n \<and> n \<le> lim)"
| "req_ok lim (Put k) = True"

locale block_allocator =
  fixes inv :: "'s \<Rightarrow> bool"
    and live :: "'s \<Rightarrow> nat \<Rightarrow> nat option"
    and al :: "'s \<Rightarrow> nat \<Rightarrow> 'e + ('s \<times> nat option)"
    and fr :: "'s \<Rightarrow> nat \<Rightarrow> 'e + 's"
    and lim :: nat
  assumes al_total: "inv s \<Longrightarrow> 0 < n \<Longrightarrow> n \<le> lim \<Longrightarrow>
      al s n = Inr (s, None) \<or> (\<exists>s' p. al s n = Inr (s', Some p) \<and> inv s' \<and> live s p = None
         \<and> live s' = (live s)(p \<mapsto> n))"
    and fr_live: "inv s \<Longrightarrow> live s p = Some n \<Longrightarrow>
      \<exists>s'. fr s p = Inr s' \<and> inv s' \<and> live s' = (live s)(p := None)"
begin

text \<open>The client's view of the pool: the blocks \<open>m0\<close> of the others and its own handles.\<close>

definition view :: "(nat \<Rightarrow> nat option) \<Rightarrow> 's \<Rightarrow> (nat \<times> nat) list \<Rightarrow> bool" where
  "view m0 s hs \<longleftrightarrow> inv s \<and> distinct (map fst hs) \<and> dom m0 \<inter> fst ` set hs = {}
     \<and> live s = m0 ++ map_of hs"

lemma view_get:
  assumes "view m0 s hs" and "live s p = None" and "inv s'" and "live s' = (live s)(p \<mapsto> n)"
  shows "view m0 s' ((p, n) # hs)"
proof -
  have "m0 p = None" "map_of hs p = None"
    using assms(1,2) by (auto simp: view_def map_add_None)
  then have "p \<notin> dom m0" "p \<notin> fst ` set hs" by (auto simp: map_of_eq_None_iff)
  then show ?thesis using assms by (auto simp: view_def)
qed

lemma map_of_drop_nth:
  assumes "distinct (map fst hs)" and "k < length hs"
  shows "map_of (drop_nth k hs) = (map_of hs)(fst (hs ! k) := None)"
    and "set (drop_nth k hs) \<subseteq> set hs" and "distinct (map fst (drop_nth k hs))"
    and "fst (hs ! k) \<notin> fst ` set (drop_nth k hs)"
proof -
  have hs: "hs = take k hs @ hs ! k # drop (Suc k) hs" using assms(2) by (rule id_take_nth_drop)
  let ?a = "take k hs" and ?b = "drop (Suc k) hs" and ?p = "fst (hs ! k)"
  have d: "distinct (map fst (?a @ hs ! k # ?b))" using assms(1) hs by simp
  then have "?p \<notin> fst ` set ?a" "?p \<notin> fst ` set ?b" by auto
  then have "map_of ?a ?p = None" "map_of ?b ?p = None" by (auto simp: map_of_eq_None_iff)
  then have "map_of (?a @ ?b) = (map_of (?a @ hs ! k # ?b))(?p := None)"
    by (auto simp: fun_eq_iff map_add_def split: option.splits)
  then show "map_of (drop_nth k hs) = (map_of hs)(?p := None)" using hs by (simp add: drop_nth_def)
  show "set (drop_nth k hs) \<subseteq> set hs" by (auto simp: drop_nth_def dest: in_set_takeD in_set_dropD)
  show "distinct (map fst (drop_nth k hs))" using d by (auto simp: drop_nth_def)
  show "?p \<notin> fst ` set (drop_nth k hs)" unfolding drop_nth_def
    using \<open>?p \<notin> fst ` set ?a\<close> \<open>?p \<notin> fst ` set ?b\<close> by auto
qed

lemma view_put:
  assumes v: "view m0 s hs" and k: "k < length hs" and "inv s'" and "live s' = (live s)(fst (hs ! k) := None)"
  shows "view m0 s' (drop_nth k hs)"
proof -
  have d: "distinct (map fst hs)" using v by (simp add: view_def)
  note m = map_of_drop_nth [OF d k]
  have "m0 (fst (hs ! k)) = None" using v k nth_mem [OF k] by (auto simp: view_def)
  then have "(m0 ++ map_of hs)(fst (hs ! k) := None) = m0 ++ map_of (drop_nth k hs)"
    unfolding m(1) by (auto simp: fun_eq_iff map_add_def)
  moreover have "fst ` set (drop_nth k hs) \<subseteq> fst ` set hs" by (rule image_mono [OF m(2)])
  ultimately show ?thesis using assms(3,4) v m(3) by (auto simp: view_def)
qed

lemma live_handle: "view m0 s hs \<Longrightarrow> k < length hs \<Longrightarrow> live s (fst (hs ! k)) = Some (snd (hs ! k))"
proof -
  assume v: "view m0 s hs" "k < length hs"
  have "(fst (hs ! k), snd (hs ! k)) \<in> set hs" using nth_mem [OF v(2)] by simp
  then have "map_of hs (fst (hs ! k)) = Some (snd (hs ! k))"
    using v(1) by (intro map_of_is_SomeI) (auto simp: view_def)
  then have "(m0 ++ map_of hs) (fst (hs ! k)) = Some (snd (hs ! k))" by (rule map_add_find_right)
  then show "live s (fst (hs ! k)) = Some (snd (hs ! k))" using v(1) by (simp only: view_def)
qed

lemma serve_safe:
  assumes "view m0 s hs" and "\<forall>r\<in>set rs. req_ok lim r"
  shows "\<exists>s' hs'. serve al fr rs s hs = Inr (s', hs') \<and> view m0 s' hs'"
  using assms
proof (induction rs arbitrary: s hs)
  case Nil
  then show ?case by simp
next
  case (Cons r rs)
  have iv: "inv s" using Cons.prems(1) by (simp add: view_def)
  show ?case
  proof (cases r)
    case (Get n)
    then have "0 < n" "n \<le> lim" using Cons.prems(2) by auto
    from al_total [OF iv this] show ?thesis
    proof
      assume "al s n = Inr (s, None)"
      then show ?thesis using Cons Get by simp
    next
      assume "\<exists>s' p. al s n = Inr (s', Some p) \<and> inv s' \<and> live s p = None \<and> live s' = (live s)(p \<mapsto> n)"
      then obtain s' p where a: "al s n = Inr (s', Some p)" "inv s'" "live s p = None" "live s' = (live s)(p \<mapsto> n)"
        by blast
      have "view m0 s' ((p, n) # hs)" by (rule view_get [OF Cons.prems(1) a(3,2,4)])
      then show ?thesis using Cons.IH Cons.prems(2) Get a(1) by simp
    qed
  next
    case (Put k)
    show ?thesis
    proof (cases "k < length hs")
      case True
      obtain s' where f: "fr s (fst (hs ! k)) = Inr s'" "inv s'" "live s' = (live s)(fst (hs ! k) := None)"
        using fr_live [OF iv live_handle [OF Cons.prems(1) True]] by blast
      have "view m0 s' (drop_nth k hs)" by (rule view_put [OF Cons.prems(1) True f(2,3)])
      then show ?thesis using Cons.IH Cons.prems(2) Put f(1) True by simp
    next
      case False
      then show ?thesis using Cons Put by simp
    qed
  qed
qed

end

section \<open>The memory manager provides it\<close>

text \<open>The blocks a caller can release: heads of used areas that are not read-only.\<close>

definition live_blocks :: "mempool \<Rightarrow> nat \<Rightarrow> nat option" where
  "live_blocks s p = (if p < memblocks s \<and> used_head (memtable s) p \<and> \<not> memheapres s ! p
     then Some (memtable s ! p) else None)"

definition free_at :: "mempool \<Rightarrow> nat \<Rightarrow> mem_halt + mempool" where
  "free_at s p = hlp_memfree s (blk_addr s p)"

lemma live_place:
  assumes inv: "mp_inv s" and t: "alloc_tables s s' x v sig own False" and v: "0 < v" "v \<le> 4294901760"
    and b: "x + blk64 v \<le> memblocks s" and z: "\<And>i. x \<le> i \<Longrightarrow> i < x + blk64 v \<Longrightarrow> memtable s ! i = 0"
  shows "live_blocks s x = None \<and> live_blocks s' = (live_blocks s)(x \<mapsto> v)"
proof -
  have len: "length (memtable s) = memblocks s" "length (memheapres s) = memblocks s"
    using inv by (auto simp: mp_inv_def mt_inv_def mp_wf_def)
  have m: "0 < blk64 v" "v \<noteq> FFFF" using blk64_pos [OF v] v by (auto simp: FFFF_def)
  have "live_blocks s' p = ((live_blocks s)(x \<mapsto> v)) p" for p
  proof (cases "x < p \<and> p < x + blk64 v")
    case True
    then show ?thesis using t len b z [of p]
      by (auto simp: live_blocks_def alloc_tables_def nth_place used_head_def)
  next
    case False
    then have "p < memblocks s \<Longrightarrow> memtable s' ! p = (if p = x then v else memtable s ! p)"
      using t len b m by (auto simp: alloc_tables_def nth_place)
    then show ?thesis using t len b m v
      by (cases "p = x") (auto simp: live_blocks_def alloc_tables_def used_head_def)
  qed
  moreover have "live_blocks s x = None" using z [of x] m by (auto simp: live_blocks_def used_head_def)
  ultimately show ?thesis by auto
qed

lemma live_wipe:
  assumes inv: "mp_inv s" and x: "x < memblocks s" "used_head (memtable s) x"
    and t: "table_step s s' (wipe (memtable s) x)"
  shows "live_blocks s' = (live_blocks s)(x := None)"
proof -
  have mt: "mt_inv (memblocks s) (memtable s)" using inv by (simp add: mp_inv_def)
  have "live_blocks s' p = ((live_blocks s)(x := None)) p" for p
  proof (cases "p = x")
    case True
    then show ?thesis using t x mt_head [OF mt x] mt_len [OF mt]
      by (auto simp: live_blocks_def table_step_def nth_wipe used_head_def)
  next
    case False
    then show ?thesis using t wipe_other_head [OF mt x, of p]
      by (auto simp: live_blocks_def table_step_def)
  qed
  then show ?thesis by auto
qed

lemma alloc_worker_live:
  assumes inv: "mp_inv s" and v: "0 < v" "v \<le> 4294901760"
    and ro: "fl AND QSMA_READONLY = 0"
  shows "alloc_worker efi s v fl sig opq = Inr (s, None) \<or>
     (\<exists>s' x. alloc_worker efi s v fl sig opq = Inr (s', Some x) \<and> mp_inv s' \<and> live_blocks s x = None
        \<and> live_blocks s' = (live_blocks s)(x \<mapsto> v))"
  using alloc_worker_ok [OF inv v, of efi fl sig opq]
proof
  assume "\<exists>s' p k. let x = alloc_pos (alloc_align efi fl) p k (blk64 v); ro = (fl AND QSMA_READONLY \<noteq> 0) in
           alloc_worker efi s v fl sig opq = Inr (s', Some x) \<and> mp_inv s'
           \<and> alloc_choice (alloc_align efi fl) s (blk64 v) p k
           \<and> alloc_tables s s' x v sig (if ro then None else opq) ro"
  then obtain s' p k where a: "alloc_worker efi s v fl sig opq = Inr (s', Some (alloc_pos (alloc_align efi fl) p k (blk64 v)))"
    "mp_inv s'" "alloc_choice (alloc_align efi fl) s (blk64 v) p k"
    "alloc_tables s s' (alloc_pos (alloc_align efi fl) p k (blk64 v)) v sig opq False"
    using ro by (auto simp: Let_def)
  have r: "run (freeset s) p k" and m: "blk64 v \<le> k" using a(3) by (auto simp: alloc_choice_def)
  let ?x = "alloc_pos (alloc_align efi fl) p k (blk64 v)"
  have x: "p \<le> ?x" "?x + blk64 v \<le> p + k" using m by (auto simp: alloc_pos_def)
  have "live_blocks s ?x = None \<and> live_blocks s' = (live_blocks s)(?x \<mapsto> v)"
    using x run_bound [OF r] run_in [OF r]
    by (intro live_place [OF inv a(4) v]) (auto simp: freeset_def)
  then show ?thesis using a(1,2) by blast
qed simp

interpretation mp: block_allocator mp_inv live_blocks "\<lambda>s n. alloc_worker efi s n 0 sig opq" free_at 4294901760
proof (unfold_locales, goal_cases)
  case (1 s n)
  then show ?case using alloc_worker_live [of s n 0 efi sig opq] by simp
next
  case (2 s p n)
  then have x: "p < memblocks s" "used_head (memtable s) p" "\<not> memheapres s ! p"
    by (auto simp: live_blocks_def split: if_splits)
  then show ?case
    using hlp_memfree_ok [OF 2(1) x] live_wipe [OF 2(1) x(1,2)] unfolding free_at_def by blast
qed


section \<open>A concrete pool\<close>

text \<open>A pool of 16 blocks with a block of 70000 bytes of process 5 in it: the state the properties
  are applied to below.\<close>

definition demo0 :: mempool where
  "demo0 = mem_setup 1048576 16 (\<lambda>_. False) (\<lambda>_. \<lparr>fb_sign = 0, fb_prev = None, fb_next = None, fb_size = 0\<rparr>) (\<lambda>_. 9)"

definition demo :: mempool where
  "demo = (case alloc_worker False demo0 70000 0 7 (Some 5) of Inr (s, p) \<Rightarrow> s | Inl e \<Rightarrow> demo0)"

lemma demo0_inv: "mp_inv demo0"
  unfolding demo0_def by (rule mem_setup_ok) simp_all

lemma demo0_tables: "memblocks demo0 = 16" "mp_base demo0 = 1048576"
  "memtable demo0 = (replicate 16 0)[0 := 258]" "memheapres demo0 = map (\<lambda>i. i = 0) [0..<16]"
  by (simp_all add: demo0_def mem_setup_def tables_size_def blk64_def dec32_def Let_def)

lemma demo0_free: "freeset demo0 = {1..<16}"
  unfolding freeset_def demo0_tables by (auto simp: nth_list_update split: if_splits)

lemma run_interval: "run {a..<b} p k \<Longrightarrow> 0 < a \<Longrightarrow> p = a"
proof -
  assume r: "run {a..<b} p k" and "0 < a"
  have "p \<in> {a..<b}" using run_in [OF r, of p] r by (simp add: run_def)
  then have p: "a \<le> p" "p < b" by auto
  have "p = 0 \<or> p - 1 \<notin> {a..<b}" using r by (simp add: run_def)
  then show "p = a" using p \<open>0 < a\<close> by auto
qed

lemma demo_alloc: "mp_inv demo \<and> alloc_tables demo0 demo 1 70000 7 (Some 5) False"
proof -
  have r: "run (freeset demo0) 1 15" unfolding demo0_free by (auto simp: run_def)
  then have "(1, 15) \<in> fit_runs demo0 (blk64 70000)" by (simp add: fit_runs_def blk64_def)
  then have "fit_runs demo0 (blk64 70000) \<noteq> {}" by blast
  then obtain s' p k where a: "alloc_worker False demo0 70000 0 7 (Some 5)
      = Inr (s', Some (alloc_pos (alloc_align False 0) p k (blk64 70000)))"
    "mp_inv s'" "alloc_choice (alloc_align False 0) demo0 (blk64 70000) p k"
    "alloc_tables demo0 s' (alloc_pos (alloc_align False 0) p k (blk64 70000)) 70000 7 (Some 5) False"
    using alloc_worker_ok [OF demo0_inv, of 70000 False 0 7 "Some 5"] by (auto simp: Let_def)
  have "run {1..<16} p k" using a(3) by (simp add: alloc_choice_def demo0_free)
  then have "p = 1" by (rule run_interval) simp
  moreover have "alloc_align False 0 = -1" by (simp add: alloc_align_def)
  ultimately show ?thesis using a by (simp add: demo_def alloc_pos_def)
qed

lemma demo_inv: "mp_inv demo"
  using demo_alloc by blast

lemma demo_tables: "memblocks demo = 16" "mp_base demo = 1048576" "availmem demo = 1048576"
  "memheapres demo ! 1 = False"
  using demo_alloc by (simp_all add: alloc_tables_def demo0_tables availmem_def)

lemma demo_table: "i < 16 \<Longrightarrow> memtable demo ! i = (if i = 0 then 258 else if i = 1 then 70000 else if i = 2 then FFFF else 0)"
  using demo_alloc by (auto simp: alloc_tables_def demo0_tables nth_place blk64_def)

lemma demo_free: "freeset demo = {3..<16}"
  unfolding freeset_def demo_tables by (auto simp: demo_table split: if_splits)

lemma demo_head: "1 < memblocks demo \<and> used_head (memtable demo) 1 \<and> \<not> memheapres demo ! 1"
  using demo_tables(4) by (simp add: used_head_def demo_tables(1) demo_table FFFF_def)

section \<open>Allocation\<close>

lemma alloc_common_fit:
  assumes inv: "mp_inv s" and v: "0 < usize" "usize \<le> 4294901760"
    and fit: "fit_runs s (blk64 usize) \<noteq> {}"
  shows "\<exists>s' p k. let x = alloc_pos (alloc_align efi fl) p k (blk64 usize); ro = (fl AND QSMA_READONLY \<noteq> 0) in
      alloc_common efi lowmem ctx s usize sig fl =
        Inr (if fl AND QSMA_NOCLEAR = 0 then s'\<lparr>mp_data := zero_bytes (mp_data s') (x * 65536) usize\<rparr> else s', Some x)
      \<and> mp_inv s' \<and> alloc_choice (alloc_align efi fl) s (blk64 usize) p k
      \<and> alloc_tables s s' x usize sig (if ro \<or> fl AND QSMA_LOCAL = 0 then None else ctx) ro"
proof -
  let ?opq = "if fl AND QSMA_LOCAL \<noteq> 0 then ctx else None"
  obtain p0 k0 where pk: "run (freeset s) p0 k0" "blk64 usize \<le> k0" using fit by (auto simp: fit_runs_def)
  have "k0 < memblocks s" using run_less [OF _ pk(1)] inv by (simp add: mp_inv_def)
  then have lt: "usize < availmem s"
    using blk64_covers [OF v(2)] pk(2) by (simp add: availmem_def)
  obtain s' p k where a: "let x = alloc_pos (alloc_align efi fl) p k (blk64 usize); ro = (fl AND QSMA_READONLY \<noteq> 0) in
           alloc_worker efi s usize fl sig ?opq = Inr (s', Some x) \<and> mp_inv s'
           \<and> alloc_choice (alloc_align efi fl) s (blk64 usize) p k
           \<and> alloc_tables s s' x usize sig (if ro then None else ?opq) ro"
    using alloc_worker_ok [OF inv v, of efi fl sig ?opq] fit by blast
  have "(if fl AND QSMA_READONLY \<noteq> 0 then None else ?opq)
      = (if fl AND QSMA_READONLY \<noteq> 0 \<or> fl AND QSMA_LOCAL = 0 then None else ctx)" by simp
  then show ?thesis
    using a lt v(1) unfolding Let_def
    by (intro exI [of _ s'] exI [of _ p] exI [of _ k]) (simp add: alloc_common_def Let_def)
qed

lemma alloc_worker_nofit:
  assumes "mp_inv s" and "0 < usize" "usize \<le> 4294901760" and "fit_runs s (blk64 usize) = {}"
  shows "alloc_worker efi s usize fl sig opq = Inr (s, None)"
  using alloc_worker_ok [OF assms(1-3), of efi fl sig opq] assms(4)
  by (auto simp: fit_runs_def alloc_choice_def Let_def)

lemma alloc_common_nofit:
  assumes "mp_inv s" "mp_inv (lowmem s)" and v: "0 < usize" "usize \<le> 4294901760"
    and "fit_runs s (blk64 usize) = {}" "fit_runs (lowmem s) (blk64 usize) = {}"
  shows "alloc_common efi lowmem ctx s usize sig fl =
     (if fl AND QSMA_RETERR = 0 then Inl QERR_NOMEMORY
      else Inr (if usize < availmem s then lowmem s else s, None))"
  using alloc_worker_nofit [OF assms(1) v assms(5)] alloc_worker_nofit [OF assms(2) v assms(6)] v
  by (simp add: alloc_common_def Let_def)

text \<open>C1: \<open>alloc_common\<close> with enough free space: the call succeeds at the first attempt, in the
  lowest, highest or smallest suitable free area as the flags ask, every table is updated for the
  new block and for nothing else, its bytes are zeroed unless the caller declined, and the invariant
  (tables consistent, every maximal free area in the list of its size) still holds.\<close>

theorem alloc_common_correct:
  assumes "mp_inv s" and "0 < usize" and "usize \<le> 4294901760"
    and "fit_runs s (blk64 usize) \<noteq> {}"
  shows "\<exists>s' p k. let x = alloc_pos (alloc_align efi fl) p k (blk64 usize); ro = (fl AND QSMA_READONLY \<noteq> 0) in
      alloc_common efi lowmem ctx s usize sig fl =
        Inr (if fl AND QSMA_NOCLEAR = 0 then s'\<lparr>mp_data := zero_bytes (mp_data s') (x * 65536) usize\<rparr> else s', Some x)
      \<and> mp_inv s' \<and> alloc_choice (alloc_align efi fl) s (blk64 usize) p k
      \<and> alloc_tables s s' x usize sig (if ro \<or> fl AND QSMA_LOCAL = 0 then None else ctx) ro"
  by (rule alloc_common_fit [OF assms])

lemma demo_fit: "fit_runs demo (blk64 100000) \<noteq> {}"
proof -
  have "run (freeset demo) 3 13" unfolding demo_free by (auto simp: run_def)
  then have "(3, 13) \<in> fit_runs demo (blk64 100000)" by (simp add: fit_runs_def blk64_def)
  then show ?thesis by blast
qed

theorem alloc_common_correct_witness:
  "\<exists>s' p k. let x = alloc_pos (alloc_align False 0) p k (blk64 100000); ro = ((0::u32) AND QSMA_READONLY \<noteq> 0) in
      alloc_common False id None demo 100000 7 0 =
        Inr (if (0::u32) AND QSMA_NOCLEAR = 0 then s'\<lparr>mp_data := zero_bytes (mp_data s') (x * 65536) 100000\<rparr> else s', Some x)
      \<and> mp_inv s' \<and> alloc_choice (alloc_align False 0) demo (blk64 100000) p k
      \<and> alloc_tables demo s' x 100000 7 (if ro \<or> (0::u32) AND QSMA_LOCAL = 0 then None else None) ro"
  by (rule alloc_common_correct [OF demo_inv _ _ demo_fit]) simp_all

text \<open>C8: \<open>alloc_common\<close> when no free area is large enough, before and after the low-memory
  callbacks: the call panics, or returns the null pointer when the caller asked for that; the
  tables are those the callbacks left.\<close>

theorem alloc_common_no_memory:
  assumes "mp_inv s" "mp_inv (lowmem s)" and "0 < usize" "usize \<le> 4294901760"
    and "fit_runs s (blk64 usize) = {}" "fit_runs (lowmem s) (blk64 usize) = {}"
  shows "alloc_common efi lowmem ctx s usize sig fl =
     (if fl AND QSMA_RETERR = 0 then Inl QERR_NOMEMORY
      else Inr (if usize < availmem s then lowmem s else s, None))"
  using assms by (rule alloc_common_nofit)

lemma demo_no_fit: "fit_runs demo (blk64 1000000) = {}"
proof -
  have "k \<le> 13" if "run (freeset demo) p k" for p k
    using card_mono [of "{3..<16}" "{p..<p + k}"] that by (auto simp: run_def demo_free)
  then show ?thesis by (fastforce simp: fit_runs_def blk64_def)
qed

theorem alloc_common_no_memory_witness:
  "alloc_common False id None demo 1000000 7 QSMA_RETERR = Inr (demo, None)"
  using alloc_common_no_memory [OF demo_inv _ _ _ demo_no_fit, of id False None 7 QSMA_RETERR]
    demo_inv demo_no_fit demo_tables(3) by (simp add: QSMA_RETERR_def)

section \<open>Release and resizing\<close>

text \<open>C3: \<open>hlp_memfree\<close> on a block of the heap: the call returns, exactly the cells of the block
  become free, they are joined with both free neighbours, and the invariant holds, so the lists
  again hold every maximal free area under its size.\<close>

theorem hlp_memfree_correct:
  assumes "mp_inv s" and "x < memblocks s \<and> used_head (memtable s) x \<and> \<not> memheapres s ! x"
  shows "\<exists>s'. hlp_memfree s (blk_addr s x) = Inr s' \<and> mp_inv s'
     \<and> table_step s s' (wipe (memtable s) x) \<and> mp_data s' = mp_data s"
  using hlp_memfree_ok [OF assms(1)] assms(2) by blast

theorem hlp_memfree_correct_witness:
  "\<exists>s'. hlp_memfree demo (blk_addr demo 1) = Inr s' \<and> mp_inv s'
     \<and> table_step demo s' (wipe (memtable demo) 1) \<and> mp_data s' = mp_data demo"
  by (rule hlp_memfree_correct [OF demo_inv demo_head])

text \<open>C4: \<open>hlp_memrealloc\<close>, whatever way it takes (in place, giving back the tail, taking the free
  area behind, moving): the size table is that of the block released and placed again at the
  returned position, signature and owner follow, the first bytes are those of the old block, the
  new ones are zero and no byte outside the block changes; only when no area fits is the null
  pointer returned, and then nothing has changed.\<close>

theorem hlp_memrealloc_correct:
  assumes "mp_inv s" and "x < memblocks s \<and> used_head (memtable s) x \<and> \<not> memheapres s ! x"
    and "0 < v" and "v \<le> 4294901760"
  shows "(hlp_memrealloc efi s (blk_addr s x) v = Inr (s, None) \<and> fit_runs s (blk64 v) = {})
    \<or> (\<exists>s' y. hlp_memrealloc efi s (blk_addr s x) v = Inr (s', Some y) \<and> resized s s' x y v)"
  using hlp_memrealloc_ok [OF assms(1) _ _ _ assms(3,4)] assms(2) by blast

theorem hlp_memrealloc_correct_witness:
  "(hlp_memrealloc False demo (blk_addr demo 1) 200000 = Inr (demo, None) \<and> fit_runs demo (blk64 200000) = {})
    \<or> (\<exists>s' y. hlp_memrealloc False demo (blk_addr demo 1) 200000 = Inr (s', Some y) \<and> resized demo s' 1 y 200000)"
  by (rule hlp_memrealloc_correct [OF demo_inv demo_head]) simp_all

section \<open>Administration\<close>

text \<open>C5: \<open>mem_procexit\<close>: the loop over the block table never panics and releases the cells of
  every block the process owns that is not read-only, and of no other block.\<close>

theorem mem_procexit_correct:
  assumes "mp_inv s"
  shows "\<exists>s'. mem_procexit s pid = Inr s' \<and> mp_inv s' \<and> same_admin s s'
     \<and> released s pid {..<memblocks s} (memtable s')"
  by (rule mem_procexit_ok [OF assms])

theorem mem_procexit_correct_witness:
  "\<exists>s'. mem_procexit demo 5 = Inr s' \<and> mp_inv s' \<and> same_admin demo s'
     \<and> released demo 5 {..<memblocks demo} (memtable s')"
  by (rule mem_procexit_correct [OF demo_inv])

text \<open>C6: \<open>memreserve\<close> of a free range inside the pool: the range, extended down to a block
  border and cut at the end of the pool, becomes one block, the free areas before and behind it
  stay in the lists, and the caller learns whether the range was cut.\<close>

theorem memreserve_correct:
  assumes "mp_inv s" and "mp_base s \<le> pa" "pa < mp_base s + availmem s" "pa + len0 < 4294967296"
    and "0 < rsv_len s pa len0" "rsv_len s pa len0 \<le> 4294901760"
    and "(pa - mp_base s) div 65536 + blk64 (rsv_len s pa len0) \<le> memblocks s"
    and "\<forall>i<blk64 (rsv_len s pa len0). memtable s ! ((pa - mp_base s) div 65536 + i) = 0"
  shows "\<exists>s'. memreserve s pa len0 ro = Inr (s',
        (if mp_base s + availmem s < pa + len0 then QSMR_TRUNCATED else QSMR_SUCCESS),
        Some ((pa - mp_base s) div 65536))
     \<and> mp_inv s' \<and> reserved s s' ((pa - mp_base s) div 65536) (rsv_len s pa len0) ro"
  using assms(8) by (intro memreserve_ok [OF assms(1-6) _ assms(7)]) blast

theorem memreserve_correct_witness:
  "\<exists>s'. memreserve demo 1448576 100000 True = Inr (s', QSMR_SUCCESS, Some 6)
     \<and> mp_inv s' \<and> reserved demo s' 6 106784 True"
proof -
  have l: "rsv_len demo 1448576 100000 = 106784" by (simp add: rsv_len_def demo_tables)
  have b: "blk64 106784 = 2" by (simp add: blk64_def)
  have "memtable demo ! 6 = 0" "memtable demo ! 7 = 0" by (simp_all add: demo_table)
  then show ?thesis
    using memreserve_correct [OF demo_inv, of 1448576 100000 True] unfolding l b demo_tables
    by (auto simp: less_2_cases_iff)
qed

text \<open>C7: \<open>hlp_memavail\<close> reports the exact number of free bytes (no wrap-around) and the size of
  a largest free area.\<close>

theorem hlp_memavail_correct:
  assumes "mp_inv s"
  shows "\<exists>mb. hlp_memavail s = Inr (card (freeset s) * 65536, mb * 65536, availmem s)
     \<and> (freeset s = {} \<longrightarrow> mb = 0) \<and> (freeset s \<noteq> {} \<longrightarrow> (\<exists>p. run (freeset s) p mb))
     \<and> (\<forall>p k. run (freeset s) p k \<longrightarrow> k \<le> mb)"
  by (rule hlp_memavail_ok [OF assms])

theorem hlp_memavail_correct_witness:
  "\<exists>mb. hlp_memavail demo = Inr (card (freeset demo) * 65536, mb * 65536, availmem demo)
     \<and> (freeset demo = {} \<longrightarrow> mb = 0) \<and> (freeset demo \<noteq> {} \<longrightarrow> (\<exists>p. run (freeset demo) p mb))
     \<and> (\<forall>p k. run (freeset demo) p k \<longrightarrow> k \<le> mb)"
  by (rule hlp_memavail_correct [OF demo_inv])



end
