(* ===== verification/DLink.thy ===== *)
theory DLink
  imports QsPrelude
begin

text \<open>Doubly linked lists in a heap of nodes: the contract the mutex lists of the threads and the list
  of waiting threads share. A node is known by its address; \<open>None\<close> is the null pointer.\<close>

type_synonym addr = nat

definition upd :: "(addr \<Rightarrow> 'n option) \<Rightarrow> addr \<Rightarrow> ('n \<Rightarrow> 'n) \<Rightarrow> addr \<Rightarrow> 'n option" where
  "upd h a f = (case h a of None \<Rightarrow> h | Some n \<Rightarrow> h(a \<mapsto> f n))"

definition upd_opt :: "(addr \<Rightarrow> 'n option) \<Rightarrow> addr option \<Rightarrow> ('n \<Rightarrow> 'n) \<Rightarrow> addr \<Rightarrow> 'n option" where
  "upd_opt h p f = (case p of None \<Rightarrow> h | Some a \<Rightarrow> upd h a f)"

lemma upd_apply: "upd h a f b = (if a = b then map_option f (h b) else h b)"
  by (simp add: upd_def split: option.split)

lemma upd_opt_apply: "upd_opt h p f b = (if p = Some b then map_option f (h b) else h b)"
  by (auto simp: upd_opt_def upd_apply split: option.split)

lemma upd_opt_Some: "upd_opt h (Some a) f = upd h a f"
  by (simp add: upd_opt_def)

lemmas upd_simps = upd_apply upd_opt_apply

locale dlink =
  fixes prv :: "'n \<Rightarrow> addr option" and nxt :: "'n \<Rightarrow> addr option"
    and set_prv :: "addr option \<Rightarrow> 'n \<Rightarrow> 'n" and set_nxt :: "addr option \<Rightarrow> 'n \<Rightarrow> 'n"
  assumes prv_set_prv [simp]: "prv (set_prv p n) = p" and prv_set_nxt [simp]: "prv (set_nxt p n) = prv n"
    and nxt_set_nxt [simp]: "nxt (set_nxt p n) = p" and nxt_set_prv [simp]: "nxt (set_prv p n) = nxt n"
begin

text \<open>\<open>seg h p fp xs l tn\<close>: from the pointer \<open>fp\<close> the nodes \<open>xs\<close> follow each other, the first has \<open>p\<close>
  before it, \<open>l\<close> is the last one and \<open>tn\<close> what it points to.\<close>

fun seg :: "(addr \<Rightarrow> 'n option) \<Rightarrow> addr option \<Rightarrow> addr option \<Rightarrow> addr list \<Rightarrow> addr option \<Rightarrow> addr option \<Rightarrow> bool" where
  "seg h p fp [] l tn \<longleftrightarrow> fp = tn \<and> l = p"
| "seg h p fp (a # as) l tn \<longleftrightarrow> fp = Some a \<and> (\<exists>n. h a = Some n \<and> prv n = p \<and> seg h (Some a) (nxt n) as l tn)"

lemma seg_append: "seg h p fp (xs @ ys) l tn \<longleftrightarrow> (\<exists>l1 t1. seg h p fp xs l1 t1 \<and> seg h l1 t1 ys l tn)"
  by (induction xs arbitrary: p fp) auto

lemma seg_cong: "(\<And>a. a \<in> set xs \<Longrightarrow> map_option (\<lambda>n. (prv n, nxt n)) (h a) = map_option (\<lambda>n. (prv n, nxt n)) (h' a))
    \<Longrightarrow> seg h p fp xs l tn = seg h' p fp xs l tn"
proof (induction xs arbitrary: p fp)
  case (Cons a as)
  have e: "map_option (\<lambda>n. (prv n, nxt n)) (h a) = map_option (\<lambda>n. (prv n, nxt n)) (h' a)"
    by (rule Cons.prems) simp
  have s: "seg h p' fp' as l tn = seg h' p' fp' as l tn" for p' fp' by (rule Cons.IH) (simp add: Cons.prems)
  show ?case using e by (cases "h a"; cases "h' a") (auto simp: s)
qed simp

lemma seg_other: "b \<notin> set xs \<Longrightarrow> seg (h(b := v)) p fp xs l tn = seg h p fp xs l tn"
  by (rule seg_cong) auto

lemma seg_upd_other: "b \<notin> set xs \<Longrightarrow> seg (upd h b f) p fp xs l tn = seg h p fp xs l tn"
  by (rule seg_cong) (auto simp: upd_simps)

lemma seg_in: "seg h p fp xs l tn \<Longrightarrow> a \<in> set xs \<Longrightarrow> \<exists>n. h a = Some n"
  by (induction xs arbitrary: p fp) auto

lemma seg_snoc: "seg h p fp (xs @ [a]) l tn \<longleftrightarrow> l = Some a \<and> (\<exists>n. h a = Some n \<and> nxt n = tn \<and> seg h p fp xs (prv n) (Some a))"
  by (auto simp: seg_append)

text \<open>The node in front of a place, and the node behind it.\<close>

lemma seg_last: "seg h p fp xs l tn \<Longrightarrow> l = (if xs = [] then p else Some (last xs))"
  by (induction xs arbitrary: p fp) (auto split: if_splits)

lemma seg_first: "seg h p fp xs l tn \<Longrightarrow> fp = (if xs = [] then tn else Some (hd xs))"
  by (cases xs) auto

lemma set_last_nxt:
  assumes s: "seg h p fp xs (Some a) tn" and d: "distinct xs" and ne: "xs \<noteq> []"
  shows "seg (upd h a (set_nxt t)) p fp xs (Some a) t"
proof -
  obtain ys where xs: "xs = ys @ [a]" using seg_last [OF s] ne append_butlast_last_id by (metis option.inject)
  then show ?thesis using s d by (auto simp: seg_snoc seg_upd_other upd_simps)
qed

lemma set_first_prv:
  "seg h p (Some b) (b # zs) l tn \<Longrightarrow> b \<notin> set zs \<Longrightarrow> seg (upd h b (set_prv q)) q (Some b) (b # zs) l tn"
  by (auto simp: seg_upd_other upd_apply)

definition unlinked :: "(addr \<Rightarrow> 'n option) \<Rightarrow> addr \<Rightarrow> addr \<Rightarrow> 'n option" where
  "unlinked h a = (case h a of None \<Rightarrow> h
     | Some n \<Rightarrow> upd (upd_opt (upd_opt h (prv n) (set_nxt (nxt n))) (nxt n) (set_prv (prv n))) a (set_prv None \<circ> set_nxt None))"

lemma unlinked_seg:
  assumes s: "seg h None fp (xs @ a # ys) l None" and d: "distinct (xs @ a # ys)" and n: "h a = Some n"
  shows "seg (unlinked h a) None (if prv n = None then nxt n else fp) (xs @ ys)
      (if nxt n = None then prv n else l) None"
    and "prv n = (if xs = [] then None else Some (last xs))" and "nxt n = (if ys = [] then None else Some (hd ys))"
proof -
  obtain l1 t1 where s1: "seg h None fp xs l1 t1" and s2: "seg h l1 t1 (a # ys) l None"
    using s unfolding seg_append by blast
  have pn: "prv n = l1" "t1 = Some a" and s3: "seg h (Some a) (nxt n) ys l None" using s2 n by auto
  show p: "prv n = (if xs = [] then None else Some (last xs))" using seg_last [OF s1] pn by simp
  show q: "nxt n = (if ys = [] then None else Some (hd ys))" using seg_first [OF s3] by simp
  let ?h1 = "upd_opt h (prv n) (set_nxt (nxt n))" and ?h2 = "upd_opt (upd_opt h (prv n) (set_nxt (nxt n))) (nxt n) (set_prv (prv n))"
  have x: "seg ?h1 None (if prv n = None then nxt n else fp) xs l1 (nxt n)"
  proof (cases "xs = []")
    case True
    then show ?thesis using s1 p pn by simp
  next
    case False
    then have "seg (upd h (last xs) (set_nxt (nxt n))) None fp xs (Some (last xs)) (nxt n)"
      using s1 d seg_last [OF s1] by (intro set_last_nxt [where tn = t1]) auto
    then show ?thesis using False p pn by (simp add: upd_opt_def)
  qed
  have inx: "l1 = Some b \<Longrightarrow> b \<in> set xs" for b using p pn by (auto split: if_splits)
  have iny: "nxt n = Some b \<Longrightarrow> b \<in> set ys" for b using q by (auto split: if_splits)
  have y0: "seg ?h1 (Some a) (nxt n) ys l None"
    using s3 d inx pn by (subst seg_cong [where h' = h]) (auto simp: upd_simps)
  have y: "seg ?h2 (prv n) (nxt n) ys (if ys = [] then prv n else l) None"
  proof (cases ys)
    case Nil
    then show ?thesis using q by simp
  next
    case (Cons b zs)
    then have "nxt n = Some b" using q by simp
    moreover have "seg (upd ?h1 b (set_prv (prv n))) (prv n) (Some b) (b # zs) l None"
      using y0 d Cons calculation by (intro set_first_prv [where p = "Some a"]) auto
    ultimately show ?thesis using Cons by (simp add: upd_opt_Some del: seg.simps)
  qed
  have x2: "seg ?h2 None (if prv n = None then nxt n else fp) xs l1 (nxt n)"
    using x d iny by (subst seg_cong [where h' = ?h1]) (auto simp: upd_opt_apply [of ?h1])
  have u: "unlinked h a = upd ?h2 a (set_prv None \<circ> set_nxt None)" using n by (simp add: unlinked_def)
  have "seg ?h2 None (if prv n = None then nxt n else fp) (xs @ ys) (if ys = [] then prv n else l) None"
    unfolding seg_append using x2 y pn by blast
  then show "seg (unlinked h a) None (if prv n = None then nxt n else fp) (xs @ ys) (if nxt n = None then prv n else l) None"
    unfolding u using d q by (subst seg_upd_other) (auto split: if_splits)
qed

text \<open>A node that belongs to another list does not change but for its own links.\<close>

lemma unlinked_other:
  assumes s: "seg h None fp (xs @ a # ys) l None" and d: "distinct (xs @ a # ys)" and b: "b \<notin> set (xs @ a # ys)"
  shows "unlinked h a b = h b"
proof -
  obtain n where n: "h a = Some n" using seg_in [OF s] by auto
  show ?thesis using unlinked_seg(2,3) [OF s d n] b n
    by (auto simp: unlinked_def upd_simps split: if_splits)
qed

lemma unlinked_node:
  assumes "h a = Some n" "prv n \<noteq> Some a" "nxt n \<noteq> Some a"
  shows "unlinked h a a = Some (set_prv None (set_nxt None n))"
  using assms by (simp add: unlinked_def upd_simps)

text \<open>A new node at the front, and at the back.\<close>

lemma front_seg:
  assumes s: "seg h None fp xs l None" and d: "distinct xs" "a \<notin> set xs" and n: "h a = Some n" "prv n = None" "nxt n = fp"
  shows "seg (upd_opt h fp (set_prv (Some a))) None (Some a) (a # xs) (if xs = [] then Some a else l) None"
proof (cases xs)
  case Nil
  then show ?thesis using s n by (auto simp: upd_opt_def)
next
  case (Cons b zs)
  then have "fp = Some b" using s by simp
  then show ?thesis using Cons s d n by (auto simp: seg_upd_other upd_simps upd_opt_def)
qed

lemma back_seg:
  assumes s: "seg h None fp xs l None" and d: "distinct xs" "a \<notin> set xs" and n: "h a = Some n" "prv n = l" "nxt n = None"
  shows "seg (upd_opt h l (set_nxt (Some a))) None (if fp = None then Some a else fp) (xs @ [a]) (Some a) None"
proof (cases "xs = []")
  case True
  then show ?thesis using s n by (auto simp: upd_opt_def)
next
  case False
  have l: "l = Some (last xs)" using seg_last [OF s] False by simp
  have "seg (upd h (last xs) (set_nxt (Some a))) None fp xs (Some (last xs)) (Some a)"
    using s l d(1) False by (intro set_last_nxt [where tn = None]) auto
  moreover have "fp \<noteq> None" using seg_first [OF s] False by simp
  moreover have "last xs \<noteq> a" using False d(2) by (metis last_in_set)
  ultimately show ?thesis using l n by (auto simp: seg_snoc upd_opt_def upd_simps)
qed

end

end
