(* ===== verification/MtMutex.thy ===== *)
theory MtMutex
  imports DLink
begin

text \<open>
  The multitasking state and its mutexes (\<open>mtlib/mutex.c\<close>, \<open>mtlib/mtlib.h\<close>). Threads, mutexes,
  events and wait list entries are known by their addresses. The signature check of a handle is the
  question whether the address holds an object of the kind.
\<close>

section \<open>Data\<close>

datatype qserr = E_SYS_INVOBJECT | E_SYS_INVPARM | E_SYS_ZEROPTR | E_SYS_UNSUPPORTED
  | E_MT_DISABLED | E_MT_LOCKLIMIT | E_MT_SEMBUSY | E_MT_NOTOWNER | E_MT_WAITACTIVE | E_MT_BADTID | E_MT_BADPID

record mutex_data =
  mx_sft :: nat
  mx_owner :: "addr option"
  mx_prev :: "addr option"
  mx_next :: "addr option"
  mx_lockcnt :: nat
  mx_waitcnt :: nat

record event_data =
  ev_sft :: nat
  ev_waitcnt :: nat
  ev_state :: nat

datatype thr_state = THRD_RUNNING | THRD_SUSPENDED | THRD_WAITING | THRD_FINISHED

datatype wait_reason = THWR_NONE | THWR_CHILDEXEC | THWR_TIDMAIN | THWR_TIDEXIT | THWR_WAITOBJ | THWR_WAITLNCH

record mt_thrdata =
  ti_pid :: nat
  ti_tid :: nat
  ti_state :: thr_state
  ti_reason :: wait_reason
  ti_handle :: nat
  ti_first :: "addr option"
  ti_last :: u64
  ti_time :: u64
  ti_exit :: u32
  ti_session :: nat
  ti_signals :: bool
  ti_tlp :: bool
  ti_nosched :: bool

record mt_prcdata =
  pi_pid :: nat
  pi_list :: "addr option list"
  pi_threads :: nat
  pi_lwait :: bool
  pi_chainexit :: bool
  pi_exit :: u32

record mt_waitentry =
  htype :: nat
  group :: u32
  harg :: u64
  reserved :: u64

record we_list_entry =
  we_caller :: addr
  we_signaled :: int
  we_reterr :: "qserr option"
  we_clogic :: u32
  we_prev :: "addr option"
  we_next :: "addr option"
  we_sigf :: "u8 list"
  we_ents :: "mt_waitentry list"

record mt_state =
  muxs :: "addr \<Rightarrow> mutex_data option"
  evts :: "addr \<Rightarrow> event_data option"
  thrs :: "addr \<Rightarrow> mt_thrdata"
  pid_ptrs :: "mt_prcdata option list"
  pt_current :: addr
  wents :: "addr \<Rightarrow> we_list_entry option"
  we_first :: "addr option"
  we_last :: "addr option"
  results :: "u32 \<Rightarrow> u32 option"

definition MUTEX_MAXLOCK :: nat where "MUTEX_MAXLOCK = 65535"

section \<open>Operations\<close>

definition set_mux :: "addr \<Rightarrow> mutex_data \<Rightarrow> mt_state \<Rightarrow> mt_state" where
  "set_mux a mx s = s\<lparr>muxs := (muxs s)(a \<mapsto> mx)\<rparr>"

definition set_first :: "addr \<Rightarrow> addr option \<Rightarrow> mt_state \<Rightarrow> mt_state" where
  "set_first t p s = s\<lparr>thrs := (thrs s)(t := (thrs s t)\<lparr>ti_first := p\<rparr>)\<rparr>"

abbreviation link_prev :: "addr option \<Rightarrow> mutex_data \<Rightarrow> mutex_data" where "link_prev p m \<equiv> m\<lparr>mx_prev := p\<rparr>"
abbreviation link_next :: "addr option \<Rightarrow> mutex_data \<Rightarrow> mutex_data" where "link_next p m \<equiv> m\<lparr>mx_next := p\<rparr>"

definition mutex_capture :: "addr \<Rightarrow> addr \<Rightarrow> mt_state \<Rightarrow> mt_state \<times> qserr option" where
  "mutex_capture muxh who s =
     (case muxs s muxh of None \<Rightarrow> (s, Some E_SYS_INVOBJECT)
      | Some mx \<Rightarrow>
        (case mx_owner mx of
           Some own \<Rightarrow>
             if own = who then
               (if MUTEX_MAXLOCK \<le> mx_lockcnt mx then (s, Some E_MT_LOCKLIMIT)
                else (set_mux muxh (mx\<lparr>mx_lockcnt := mx_lockcnt mx + 1\<rparr>) s, None))
             else (s, Some E_MT_SEMBUSY)
         | None \<Rightarrow>
             let frst = ti_first (thrs s who);
                 s1 = set_mux muxh (mx\<lparr>mx_owner := Some who, mx_lockcnt := 1, mx_prev := None, mx_next := frst\<rparr>) s;
                 s2 = s1\<lparr>muxs := upd_opt (muxs s1) frst (link_prev (Some muxh))\<rparr>
             in (set_first who (Some muxh) s2, None)))"

text \<open>\<open>calloc\<close> returns the address \<open>rc\<close>.\<close>

definition muxev_create :: "addr \<Rightarrow> nat \<Rightarrow> bool \<Rightarrow> bool \<Rightarrow> mt_state \<Rightarrow> mt_state" where
  "muxev_create rc sft event signaled s =
     (if event then s\<lparr>evts := (evts s)(rc \<mapsto> \<lparr>ev_sft = sft, ev_waitcnt = 0, ev_state = (if signaled then 1 else 0)\<rparr>)\<rparr>
      else
        let s1 = set_mux rc \<lparr>mx_sft = sft, mx_owner = None, mx_prev = None, mx_next = None, mx_lockcnt = 0, mx_waitcnt = 0\<rparr> s
        in if signaled then fst (mutex_capture rc (pt_current s) s1) else s1)"

definition event_state :: "addr \<Rightarrow> mt_state \<Rightarrow> int" where
  "event_state evh s = (case evts s evh of None \<Rightarrow> -1 | Some ev \<Rightarrow> int (ev_state ev))"

definition mutex_unlink :: "addr \<Rightarrow> mt_state \<Rightarrow> mt_state" where
  "mutex_unlink a s =
     (case muxs s a of None \<Rightarrow> s
      | Some mx \<Rightarrow>
        let s1 = (case mx_prev mx of
                    Some p \<Rightarrow> s\<lparr>muxs := upd (muxs s) p (link_next (mx_next mx))\<rparr>
                  | None \<Rightarrow> (case mx_owner mx of None \<Rightarrow> s | Some t \<Rightarrow> set_first t (mx_next mx) s));
            s2 = s1\<lparr>muxs := upd_opt (muxs s1) (mx_next mx) (link_prev (mx_prev mx))\<rparr>
        in s2\<lparr>muxs := upd (muxs s2) a (link_prev None \<circ> link_next None)\<rparr>)"

text \<open>Counting of waits; the sum is a 32-bit one.\<close>

definition wcount :: "nat \<Rightarrow> int \<Rightarrow> nat" where
  "wcount c i = (if i < 0 \<and> int c \<le> - i then 0 else nat ((int c + i) mod 4294967296))"

definition mutex_wcounter :: "addr \<Rightarrow> int \<Rightarrow> mt_state \<Rightarrow> mt_state \<times> qserr option" where
  "mutex_wcounter a i s =
     (case muxs s a of Some mx \<Rightarrow> (set_mux a (mx\<lparr>mx_waitcnt := wcount (mx_waitcnt mx) i\<rparr>) s, None)
      | None \<Rightarrow>
        (case evts s a of Some ev \<Rightarrow> (s\<lparr>evts := (evts s)(a \<mapsto> ev\<lparr>ev_waitcnt := wcount (ev_waitcnt ev) i\<rparr>)\<rparr>, None)
         | None \<Rightarrow> (s, Some E_SYS_INVOBJECT)))"

definition mutex_release :: "addr \<Rightarrow> mt_state \<Rightarrow> mt_state \<times> qserr option" where
  "mutex_release a s =
     (case muxs s a of None \<Rightarrow> (s, Some E_SYS_INVOBJECT)
      | Some mx \<Rightarrow>
        if mx_owner mx = Some (pt_current s) then
          (if 1 < mx_lockcnt mx then (set_mux a (mx\<lparr>mx_lockcnt := mx_lockcnt mx - 1\<rparr>) s, None)
           else let s1 = mutex_unlink a s
                in (s1\<lparr>muxs := upd (muxs s1) a (\<lambda>m. m\<lparr>mx_owner := None, mx_lockcnt := 0\<rparr>)\<rparr>, None))
        else (s, Some E_MT_NOTOWNER))"

text \<open>All mutexes of a thread that ends; \<open>Inl ()\<close> is the panic for a list that holds a mutex of
  somebody else. The loop has no end when a release fails: then there is no value.\<close>

partial_function (option) mutex_release_all :: "addr \<Rightarrow> mt_state \<Rightarrow> (unit + mt_state) option" where
  "mutex_release_all th s =
     (case ti_first (thrs s th) of None \<Rightarrow> Some (Inr s)
      | Some a \<Rightarrow>
        (case muxs s a of None \<Rightarrow> Some (Inl ())
         | Some mx \<Rightarrow>
           if mx_owner mx \<noteq> Some th then Some (Inl ())
           else mutex_release_all th
             (fst (mutex_release a (if 1 < mx_lockcnt mx then set_mux a (mx\<lparr>mx_lockcnt := 1\<rparr>) s else s)))))"

definition muxev_free :: "addr \<Rightarrow> bool \<Rightarrow> mt_state \<Rightarrow> mt_state \<times> qserr option" where
  "muxev_free a force s =
     (case muxs s a of
        Some mx \<Rightarrow>
          if mx_owner mx \<noteq> None \<and> \<not> force then (s, Some E_MT_SEMBUSY)
          else if mx_waitcnt mx \<noteq> 0 \<and> \<not> force then (s, Some E_MT_WAITACTIVE)
          else let s1 = (if mx_owner mx \<noteq> None then mutex_unlink a s else s)
               in (s1\<lparr>muxs := (muxs s1)(a := None)\<rparr>, None)
      | None \<Rightarrow>
        (case evts s a of
           Some ev \<Rightarrow>
             if ev_waitcnt ev \<noteq> 0 \<and> \<not> force then (s, Some E_MT_WAITACTIVE)
             else (s\<lparr>evts := (evts s)(a := None)\<rparr>, None)
         | None \<Rightarrow> (s, Some E_SYS_INVOBJECT)))"

record qs_sysmutex_state =
  ms_pid :: nat
  ms_tid :: nat
  ms_state :: nat
  ms_waitcnt :: nat
  ms_sft :: nat
  ms_owner :: bool

definition mutex_state :: "addr \<Rightarrow> mt_state \<Rightarrow> (qs_sysmutex_state \<times> nat) option" where
  "mutex_state a s =
     (case muxs s a of None \<Rightarrow> None
      | Some mx \<Rightarrow>
        let cnt = (case mx_owner mx of None \<Rightarrow> 0 | Some _ \<Rightarrow> mx_lockcnt mx) in
        Some (\<lparr>ms_pid = (case mx_owner mx of None \<Rightarrow> 0 | Some t \<Rightarrow> ti_pid (thrs s t)),
               ms_tid = (case mx_owner mx of None \<Rightarrow> 0 | Some t \<Rightarrow> ti_tid (thrs s t)),
               ms_state = cnt, ms_waitcnt = mx_waitcnt mx, ms_sft = mx_sft mx,
               ms_owner = (mx_owner mx = Some (pt_current s))\<rparr>, cnt))"

section \<open>The mutex lists of the threads\<close>

interpretation ml: dlink mx_prev mx_next link_prev link_next
  by unfold_locales simp_all

text \<open>\<open>L t\<close> is the list of mutexes thread \<open>t\<close> owns, the latest first.\<close>

definition own_list :: "mt_state \<Rightarrow> addr \<Rightarrow> addr list \<Rightarrow> bool" where
  "own_list s t xs \<longleftrightarrow> distinct xs \<and> (\<exists>l. ml.seg (muxs s) None (ti_first (thrs s t)) xs l None)
     \<and> (\<forall>a. a \<in> set xs \<longleftrightarrow> (\<exists>m. muxs s a = Some m \<and> mx_owner m = Some t))"

definition mux_ok :: "mutex_data \<Rightarrow> bool" where
  "mux_ok m \<longleftrightarrow> (case mx_owner m of None \<Rightarrow> mx_lockcnt m = 0 \<and> mx_prev m = None \<and> mx_next m = None
     | Some _ \<Rightarrow> 0 < mx_lockcnt m \<and> mx_lockcnt m \<le> MUTEX_MAXLOCK)"

definition mt_rep :: "mt_state \<Rightarrow> (addr \<Rightarrow> addr list) \<Rightarrow> bool" where
  "mt_rep s L \<longleftrightarrow> (\<forall>t. own_list s t (L t)) \<and> (\<forall>a m. muxs s a = Some m \<longrightarrow> mux_ok m)"

text \<open>What a mutex shows to its users: nothing, free, or the owner and the depth.\<close>

definition lock_of :: "mt_state \<Rightarrow> addr \<Rightarrow> (addr \<times> nat) option" where
  "lock_of s a = (case muxs s a of None \<Rightarrow> None
     | Some m \<Rightarrow> (case mx_owner m of None \<Rightarrow> None | Some t \<Rightarrow> Some (t, mx_lockcnt m)))"

end
