(* ===== verification/MtMutexInv.thy ===== *)
theory MtMutexInv
  imports MtMutex
begin

text \<open>Every operation on mutexes keeps the lists of the threads, and does to the locks what it says.\<close>

section \<open>Lists\<close>

definition mux_view :: "addr \<Rightarrow> mutex_data option \<Rightarrow> (addr option \<times> addr option) option" where
  "mux_view t m = (case m of None \<Rightarrow> None | Some m \<Rightarrow> if mx_owner m = Some t then Some (mx_prev m, mx_next m) else None)"

lemma mux_view_simps [simp]:
  "mux_view t None = None"
  "mux_view t (Some m) = (if mx_owner m = Some t then Some (mx_prev m, mx_next m) else None)"
  by (simp_all add: mux_view_def)

lemma mux_view_own: "(\<exists>m. muxs s a = Some m \<and> mx_owner m = Some t) \<longleftrightarrow> mux_view t (muxs s a) \<noteq> None"
  by (cases "muxs s a") auto

lemma own_list_cong:
  assumes f: "ti_first (thrs s' t) = ti_first (thrs s t)"
    and v: "\<And>a. mux_view t (muxs s' a) = mux_view t (muxs s a)"
  shows "own_list s' t xs = own_list s t xs"
proof -
  have seg: "ml.seg (muxs s') None (ti_first (thrs s t)) xs l None = ml.seg (muxs s) None (ti_first (thrs s t)) xs l None"
    if "\<forall>a. a \<in> set xs \<longleftrightarrow> mux_view t (muxs s a) \<noteq> None" for l
  proof (rule ml.seg_cong)
    fix a assume "a \<in> set xs"
    then have "mux_view t (muxs s a) \<noteq> None" using that by blast
    then show "map_option (\<lambda>n. (mx_prev n, mx_next n)) (muxs s' a) = map_option (\<lambda>n. (mx_prev n, mx_next n)) (muxs s a)"
      using v [of a] by (cases "muxs s a"; cases "muxs s' a") (auto split: if_splits)
  qed
  show ?thesis unfolding own_list_def mux_view_own v f using seg by blast
qed

lemma mt_repD:
  assumes "mt_rep s L"
  shows "own_list s t (L t)" "muxs s a = Some m \<Longrightarrow> mux_ok m"
    and "a \<in> set (L t) \<longleftrightarrow> (\<exists>m. muxs s a = Some m \<and> mx_owner m = Some t)" "distinct (L t)"
    and "\<exists>l. ml.seg (muxs s) None (ti_first (thrs s t)) (L t) l None"
  using assms by (auto simp: mt_rep_def own_list_def)

lemma rep_first: "mt_rep s L \<Longrightarrow> ti_first (thrs s t) = (if L t = [] then None else Some (hd (L t)))"
  using mt_repD(5) ml.seg_first by blast

lemma mux_ok_links:
  "mx_owner m = Some t \<Longrightarrow> mux_ok (link_prev p m) = mux_ok m"
  "mx_owner m = Some t \<Longrightarrow> mux_ok (link_next p m) = mux_ok m"
  by (simp_all add: mux_ok_def)

section \<open>Capture\<close>

lemma capture_deeper:
  assumes r: "mt_rep s L" and m: "muxs s a = Some m" "mx_owner m = Some t" "0 < n" "n \<le> MUTEX_MAXLOCK"
  shows "mt_rep (set_mux a (m\<lparr>mx_lockcnt := n\<rparr>) s) L"
proof -
  have "own_list (set_mux a (m\<lparr>mx_lockcnt := n\<rparr>) s) u (L u) = own_list s u (L u)" for u
    using m by (intro own_list_cong) (auto simp: set_mux_def)
  then show ?thesis using r m by (auto simp: mt_rep_def set_mux_def mux_ok_def)
qed

lemma capture_free:
  assumes r: "mt_rep s L" and m: "muxs s a = Some m" "mx_owner m = None"
  shows "mt_rep (fst (mutex_capture a t s)) (L(t := a # L t))"
proof -
  let ?f = "ti_first (thrs s t)"
  let ?m = "m\<lparr>mx_owner := Some t, mx_lockcnt := 1, mx_prev := None, mx_next := ?f\<rparr>"
  let ?h = "(muxs s)(a \<mapsto> ?m)"
  let ?s' = "fst (mutex_capture a t s)"
  have s': "muxs ?s' = upd_opt ?h ?f (link_prev (Some a))" "thrs ?s' = (thrs s)(t := (thrs s t)\<lparr>ti_first := Some a\<rparr>)"
    using m by (simp_all add: mutex_capture_def set_mux_def set_first_def Let_def)
  have notin: "a \<notin> set (L u)" for u using mt_repD(3) [OF r] m by auto
  have f: "?f = (if L t = [] then None else Some (hd (L t)))" by (rule rep_first [OF r])
  have fin: "?f = Some b \<Longrightarrow> b \<in> set (L t)" for b using f by (auto split: if_splits)
  have own: "mx_owner b = Some t" if "?f = Some c" "muxs s c = Some b" for b c
    using fin [OF that(1)] mt_repD(3) [OF r] that(2) by force
  have "own_list ?s' u ((L(t := a # L t)) u)" for u
  proof (cases "u = t")
    case True
    obtain l where l: "ml.seg (muxs s) None ?f (L t) l None" using mt_repD(5) [OF r] by blast
    have "ml.seg ?h None ?f (L t) l None" using l notin ml.seg_other by blast
    then have "ml.seg (upd_opt ?h ?f (link_prev (Some a))) None (Some a) (a # L t) (if L t = [] then Some a else l) None"
      using notin mt_repD(4) [OF r] by (intro ml.front_seg) auto
    moreover have "b \<in> set (a # L t) \<longleftrightarrow> (\<exists>n. muxs ?s' b = Some n \<and> mx_owner n = Some t)" for b
      using mt_repD(3) [OF r] unfolding s' by (auto simp: upd_simps)
    ultimately show ?thesis using True notin mt_repD(4) [OF r] s' by (auto simp: own_list_def)
  next
    case False
    have "mux_view u (muxs ?s' b) = mux_view u (muxs s b)" for b
      using False m own unfolding s' by (cases "muxs s b") (auto simp: upd_simps)
    then show ?thesis using False mt_repD(1) [OF r, of u] s' by (subst own_list_cong [where s = s]) auto
  qed
  moreover have "mux_ok n" if "muxs ?s' b = Some n" for b n
  proof (cases "b = a")
    case True
    have "?f \<noteq> Some a" using fin notin by blast
    then show ?thesis using that True unfolding s' by (auto simp: upd_simps mux_ok_def MUTEX_MAXLOCK_def)
  next
    case False
    then show ?thesis using that mt_repD(2) [OF r, of b] own [of b] unfolding s'
      by (auto simp: upd_simps mux_ok_links split: if_splits)
  qed
  ultimately show ?thesis by (simp add: mt_rep_def)
qed

definition cap_list :: "mt_state \<Rightarrow> addr \<Rightarrow> addr \<Rightarrow> (addr \<Rightarrow> addr list) \<Rightarrow> addr \<Rightarrow> addr list" where
  "cap_list s a t L = (if (\<exists>m. muxs s a = Some m \<and> mx_owner m = None) then L(t := a # L t) else L)"

lemma capture_rep: "mt_rep s L \<Longrightarrow> mt_rep (fst (mutex_capture a t s)) (cap_list s a t L)"
proof (cases "muxs s a")
  case (Some m)
  assume r: "mt_rep s L"
  show ?thesis
  proof (cases "mx_owner m")
    case None
    then show ?thesis using capture_free [OF r Some] Some by (simp add: cap_list_def)
  next
    case (Some u)
    then show ?thesis using capture_deeper [OF r \<open>muxs s a = Some m\<close>, of u "mx_lockcnt m + 1"] \<open>muxs s a = Some m\<close> r
      by (simp add: cap_list_def mutex_capture_def)
  qed
qed (simp add: cap_list_def mutex_capture_def)

lemma capture_locks:
  assumes r: "mt_rep s L" and m: "muxs s a \<noteq> None"
  shows "mutex_capture a t s = (s', None) \<Longrightarrow> lock_of s' = (lock_of s)(a \<mapsto> (t, case lock_of s a of None \<Rightarrow> 1 | Some (u, n) \<Rightarrow> n + 1))"
    and "snd (mutex_capture a t s) = (case lock_of s a of None \<Rightarrow> None
       | Some (u, n) \<Rightarrow> if u \<noteq> t then Some E_MT_SEMBUSY else if MUTEX_MAXLOCK \<le> n then Some E_MT_LOCKLIMIT else None)"
    and "snd (mutex_capture a t s) \<noteq> None \<Longrightarrow> fst (mutex_capture a t s) = s"
proof -
  obtain mx where mx: "muxs s a = Some mx" using m by blast
  have fin: "ti_first (thrs s t) = Some b \<Longrightarrow> \<exists>n. muxs s b = Some n \<and> mx_owner n = Some t" for b
    using rep_first [OF r, of t] mt_repD(3) [OF r, of b t] by (auto split: if_splits)
  show "snd (mutex_capture a t s) = (case lock_of s a of None \<Rightarrow> None
       | Some (u, n) \<Rightarrow> if u \<noteq> t then Some E_MT_SEMBUSY else if MUTEX_MAXLOCK \<le> n then Some E_MT_LOCKLIMIT else None)"
    using mx by (auto simp: mutex_capture_def lock_of_def Let_def split: option.splits)
  show "snd (mutex_capture a t s) \<noteq> None \<Longrightarrow> fst (mutex_capture a t s) = s"
    using mx by (auto simp: mutex_capture_def Let_def split: option.splits if_splits)
  assume c: "mutex_capture a t s = (s', None)"
  show "lock_of s' = (lock_of s)(a \<mapsto> (t, case lock_of s a of None \<Rightarrow> 1 | Some (u, n) \<Rightarrow> n + 1))"
  proof (cases "mx_owner mx")
    case None
    have s': "muxs s' = upd_opt ((muxs s)(a \<mapsto> mx\<lparr>mx_owner := Some t, mx_lockcnt := 1, mx_prev := None, mx_next := ti_first (thrs s t)\<rparr>))
        (ti_first (thrs s t)) (link_prev (Some a))"
      using c mx None by (auto simp: mutex_capture_def set_mux_def set_first_def Let_def)
    show ?thesis using mx None s' by (auto simp: fun_eq_iff lock_of_def upd_simps split: option.splits)
  next
    case (Some u)
    then show ?thesis using c mx
      by (auto simp: fun_eq_iff lock_of_def mutex_capture_def set_mux_def split: option.splits if_splits)
  qed
qed


section \<open>Release\<close>

lemma unlink_muxs:
  "muxs s a = Some m \<Longrightarrow> muxs (mutex_unlink a s) = ml.unlinked (muxs s) a"
  by (auto simp: mutex_unlink_def ml.unlinked_def Let_def set_first_def upd_opt_def split: option.splits)

lemma unlink_first:
  "muxs s a = Some m \<Longrightarrow> mx_owner m = Some t \<Longrightarrow>
     ti_first (thrs (mutex_unlink a s) u) = (if u = t \<and> mx_prev m = None then mx_next m else ti_first (thrs s u))"
  by (auto simp: mutex_unlink_def Let_def set_first_def split: option.splits)

definition body :: "mutex_data \<Rightarrow> nat \<times> addr option \<times> nat \<times> nat" where
  "body m = (mx_sft m, mx_owner m, mx_lockcnt m, mx_waitcnt m)"

lemma body_links [simp]: "body (link_prev p m) = body m" "body (link_next p m) = body m"
  by (simp_all add: body_def)

lemma unlinked_body: "map_option body (ml.unlinked h a b) = map_option body (h b)"
  by (auto simp: ml.unlinked_def upd_simps option.map_comp comp_def split: option.splits)

lemma unlinked_SomeD:
  assumes "ml.unlinked h a b = Some m'"
  obtains m where "h b = Some m" "body m' = body m"
  using unlinked_body [of h a b] assms by (cases "h b") auto

lemma seg_split:
  assumes "a \<in> set xs"
  obtains us vs where "xs = us @ a # vs" using assms split_list by fast

lemma unlink_rep:
  assumes r: "mt_rep s L" and m: "muxs s a = Some m" "mx_owner m = Some t"
    and s': "muxs s' = (ml.unlinked (muxs s) a)(a := v)" "thrs s' = thrs (mutex_unlink a s)"
    and v: "v = None \<or> (\<exists>n. v = Some n \<and> mx_owner n = None \<and> mux_ok n)"
  shows "mt_rep s' (L(t := remove1 a (L t)))"
proof -
  have at: "a \<in> set (L t)" using mt_repD(3) [OF r] m by auto
  then obtain us vs where L: "L t = us @ a # vs" by (rule seg_split)
  have d: "distinct (us @ a # vs)" using mt_repD(4) [OF r, of t] L by simp
  then have rem: "remove1 a (L t) = us @ vs" using L by (simp add: remove1_append)
  obtain l where seg: "ml.seg (muxs s) None (ti_first (thrs s t)) (us @ a # vs) l None" using mt_repD(5) [OF r, of t] L by auto
  note un = ml.unlinked_seg [OF seg d m(1)]
  have keep: "ml.unlinked (muxs s) a b = muxs s b" if "b \<notin> set (L t)" for b
    using ml.unlinked_other [OF seg d] that L by simp
  have first: "ti_first (thrs s' u) = (if u = t \<and> mx_prev m = None then mx_next m else ti_first (thrs s u))" for u
    unfolding s' using unlink_first [OF m] .
  have nv: "mux_view u v = None" for u using v by auto
  have "own_list s' u ((L(t := remove1 a (L t))) u)" for u
  proof (cases "u = t")
    case True
    obtain l' where "ml.seg (ml.unlinked (muxs s) a) None (ti_first (thrs s' t)) (us @ vs) l' None"
      using un(1) first [of t] by (auto split: if_splits)
    then have "ml.seg (muxs s') None (ti_first (thrs s' t)) (us @ vs) l' None"
      unfolding s'(1) using d by (subst ml.seg_other) auto
    moreover have "b \<in> set (us @ vs) \<longleftrightarrow> (\<exists>n. muxs s' b = Some n \<and> mx_owner n = Some t)" for b
    proof (cases "b = a")
      case True
      then show ?thesis using d v s'(1) by auto
    next
      case False
      have "(\<exists>n. muxs s' b = Some n \<and> mx_owner n = Some t) \<longleftrightarrow> (\<exists>n. muxs s b = Some n \<and> mx_owner n = Some t)"
        using False unlinked_body [of "muxs s" a b] s'(1)
        by (cases "muxs s b"; cases "ml.unlinked (muxs s) a b") (auto simp: body_def)
      then show ?thesis using mt_repD(3) [OF r, of b t] L False by auto
    qed
    ultimately show ?thesis using True rem d by (auto simp: own_list_def)
  next
    case False
    have "mux_view u (muxs s' b) = mux_view u (muxs s b)" for b
    proof (cases "b = a")
      case True
      then show ?thesis using False m nv s' by simp
    next
      case b: False
      show ?thesis
      proof (cases "b \<in> set (L t)")
        case True
        then obtain n where n: "muxs s b = Some n" "mx_owner n = Some t" using mt_repD(3) [OF r] by blast
        then obtain n' where "ml.unlinked (muxs s) a b = Some n'" "mx_owner n' = Some t"
          using unlinked_body [of "muxs s" a b] by (cases "ml.unlinked (muxs s) a b") (auto simp: body_def)
        then show ?thesis using n b False s'(1) by simp
      qed (use b keep s'(1) in simp)
    qed
    then show ?thesis using False mt_repD(1) [OF r, of u] first by (subst own_list_cong [where s = s]) auto
  qed
  moreover have "mux_ok n" if n: "muxs s' b = Some n" for b n
  proof (cases "b = a")
    case True
    then show ?thesis using v n s'(1) by auto
  next
    case b: False
    show ?thesis
    proof (cases "b \<in> set (L t)")
      case True
      then obtain n0 where "muxs s b = Some n0" "mx_owner n0 = Some t" using mt_repD(3) [OF r] by blast
      then show ?thesis using mt_repD(2) [OF r, of b n0] unlinked_body [of "muxs s" a b] n b s'(1)
        by (auto simp: body_def mux_ok_def)
    qed (use b keep n s'(1) mt_repD(2) [OF r] in auto)
  qed
  ultimately show ?thesis by (simp add: mt_rep_def)
qed

definition rel_list :: "mt_state \<Rightarrow> addr \<Rightarrow> (addr \<Rightarrow> addr list) \<Rightarrow> addr \<Rightarrow> addr list" where
  "rel_list s a L = (if lock_of s a = Some (pt_current s, 1) then L(pt_current s := remove1 a (L (pt_current s))) else L)"

lemma unlinked_self:
  assumes r: "mt_rep s L" and m: "muxs s a = Some m" "mx_owner m = Some t"
  shows "ml.unlinked (muxs s) a a = Some (link_prev None (link_next None m))"
proof -
  have at: "a \<in> set (L t)" using mt_repD(3) [OF r] m by auto
  then obtain us vs where L: "L t = us @ a # vs" by (rule seg_split)
  have d: "distinct (us @ a # vs)" using mt_repD(4) [OF r, of t] L by simp
  obtain l where seg: "ml.seg (muxs s) None (ti_first (thrs s t)) (us @ a # vs) l None" using mt_repD(5) [OF r, of t] L by auto
  show ?thesis using ml.unlinked_seg(2,3) [OF seg d m(1)] d m(1)
    by (intro ml.unlinked_node) (auto split: if_splits)
qed

lemma release_last:
  assumes r: "mt_rep s L" and m: "muxs s a = Some m" "mx_owner m = Some (pt_current s)" "mx_lockcnt m \<le> 1"
  shows "mutex_release a s = (fst (mutex_release a s), None)"
    and "muxs (fst (mutex_release a s)) =
        (ml.unlinked (muxs s) a)(a \<mapsto> m\<lparr>mx_prev := None, mx_next := None, mx_owner := None, mx_lockcnt := 0\<rparr>)"
    and "thrs (fst (mutex_release a s)) = thrs (mutex_unlink a s)"
    and "pt_current (fst (mutex_release a s)) = pt_current s"
    and "mt_rep (fst (mutex_release a s)) (L(pt_current s := remove1 a (L (pt_current s))))"
proof -
  show 1: "mutex_release a s = (fst (mutex_release a s), None)" "thrs (fst (mutex_release a s)) = thrs (mutex_unlink a s)"
    using m by (simp_all add: mutex_release_def Let_def)
  show "pt_current (fst (mutex_release a s)) = pt_current s"
    using m by (auto simp: mutex_release_def mutex_unlink_def set_first_def Let_def split: option.splits)
  show 2: "muxs (fst (mutex_release a s)) =
        (ml.unlinked (muxs s) a)(a \<mapsto> m\<lparr>mx_prev := None, mx_next := None, mx_owner := None, mx_lockcnt := 0\<rparr>)"
    using m unlinked_self [OF r m(1,2)] by (auto simp: mutex_release_def Let_def unlink_muxs upd_def)
  show "mt_rep (fst (mutex_release a s)) (L(pt_current s := remove1 a (L (pt_current s))))"
    by (rule unlink_rep [OF r m(1,2) 2 1(2)]) (simp add: mux_ok_def)
qed

section \<open>Wait counts\<close>

lemma mux_ok_waitcnt: "mux_ok (m\<lparr>mx_waitcnt := n\<rparr>) = mux_ok m"
  by (simp add: mux_ok_def split: option.split)

lemma wcounter_rep:
  assumes r: "mt_rep s L"
  shows "mt_rep (fst (mutex_wcounter a i s)) L" "lock_of (fst (mutex_wcounter a i s)) = lock_of s"
proof -
  let ?s' = "fst (mutex_wcounter a i s)"
  have t: "thrs ?s' = thrs s" by (auto simp: mutex_wcounter_def set_mux_def split: option.splits)
  have v: "mux_view u (muxs ?s' b) = mux_view u (muxs s b)" for u b
    by (auto simp: mutex_wcounter_def set_mux_def split: option.splits)
  have "own_list ?s' u (L u)" for u using mt_repD(1) [OF r] t v by (subst own_list_cong [where s = s]) auto
  moreover have "mux_ok m" if "muxs ?s' b = Some m" for b m
    using that mt_repD(2) [OF r] by (auto simp: mutex_wcounter_def set_mux_def mux_ok_waitcnt split: option.splits if_splits)
  ultimately show "mt_rep ?s' L" by (simp add: mt_rep_def)
  show "lock_of ?s' = lock_of s"
    by (auto simp: fun_eq_iff lock_of_def mutex_wcounter_def set_mux_def split: option.splits)
qed

end
