(* ===== verification/MtWait.thy ===== *)
theory MtWait
  imports MtMutexInv
begin

text \<open>
  Waiting for several objects (\<open>mtlib/wobj.c\<close>): the list of waiting threads, the check of the
  conditions with its AND and OR groups, what a thread gets when it wakes up, and the actions on
  events (\<open>event_action\<close> of \<open>mtlib/mutex.c\<close>), which run the check.
\<close>

section \<open>The other modules\<close>

text \<open>The time stamp counter and what queues and keyboard answer during one check.\<close>

record mt_env =
  env_tsc :: u64
  env_keys :: "nat \<Rightarrow> bool"
  env_qavail :: "u64 \<Rightarrow> int"

definition WOBJ_OK :: u8 where "WOBJ_OK = 1"
definition WOBJ_MUXFREE :: u8 where "WOBJ_MUXFREE = 2"
definition WOBJ_SAVERES :: u8 where "WOBJ_SAVERES = 4"
definition WOBJ_EVFREE :: u8 where "WOBJ_EVFREE = 8"

lemmas wobj_flags = WOBJ_OK_def WOBJ_MUXFREE_def WOBJ_SAVERES_def WOBJ_EVFREE_def

abbreviation QWHT_TID :: nat where "QWHT_TID \<equiv> 1"
abbreviation QWHT_PID :: nat where "QWHT_PID \<equiv> 2"
abbreviation QWHT_CLOCK :: nat where "QWHT_CLOCK \<equiv> 3"
abbreviation QWHT_MUTEX :: nat where "QWHT_MUTEX \<equiv> 4"
abbreviation QWHT_KEY :: nat where "QWHT_KEY \<equiv> 5"
abbreviation QWHT_QUEUE :: nat where "QWHT_QUEUE \<equiv> 6"
abbreviation QWHT_SIGNAL :: nat where "QWHT_SIGNAL \<equiv> 7"
abbreviation QWHT_EVENT :: nat where "QWHT_EVENT \<equiv> 8"
abbreviation QWHT_HANDLE :: nat where "QWHT_HANDLE \<equiv> 9"

definition lo32 :: "u64 \<Rightarrow> u32" where "lo32 x = ucast x"
definition hi32 :: "u64 \<Rightarrow> u32" where "hi32 x = ucast (drop_bit 32 x)"
definition mk64 :: "u32 \<Rightarrow> u32 \<Rightarrow> u64" where "mk64 hi lo = push_bit 32 (ucast hi) OR ucast lo"

text \<open>\<open>tid\<close> and \<open>pid\<close> of the union, the address of the object in \<open>reserved\<close>.\<close>

definition we_id :: "mt_waitentry \<Rightarrow> nat" where "we_id e = unat (lo32 (harg e))"
definition we_obj :: "mt_waitentry \<Rightarrow> addr" where "we_obj e = unat (lo32 (reserved e))"

section \<open>Processes and threads\<close>

definition get_by_tid :: "mt_prcdata \<Rightarrow> nat \<Rightarrow> addr option" where
  "get_by_tid pd tid = (if tid = 0 \<or> length (pi_list pd) < tid then None else pi_list pd ! (tid - 1))"

fun pid_search :: "mt_prcdata option list \<Rightarrow> nat \<Rightarrow> mt_prcdata option" where
  "pid_search [] pid = None"
| "pid_search (None # ps) pid = pid_search ps pid"
| "pid_search (Some pd # ps) pid = (if pi_pid pd = pid \<and> \<not> pi_chainexit pd then Some pd else pid_search ps pid)"

definition get_by_pid :: "mt_state \<Rightarrow> nat \<Rightarrow> mt_prcdata option" where
  "get_by_pid s pid = pid_search (pid_ptrs s) pid"

text \<open>\<open>tiParent\<close> of a thread.\<close>

definition parent_of :: "mt_state \<Rightarrow> addr \<Rightarrow> mt_prcdata option" where
  "parent_of s t = (case find (\<lambda>p. case p of None \<Rightarrow> False | Some pd \<Rightarrow> Some t \<in> set (pi_list pd)) (pid_ptrs s) of
     None \<Rightarrow> None | Some p \<Rightarrow> p)"

definition set_state :: "addr \<Rightarrow> thr_state \<Rightarrow> mt_state \<Rightarrow> mt_state" where
  "set_state t st s = s\<lparr>thrs := (thrs s)(t := (thrs s t)\<lparr>ti_state := st\<rparr>)\<rparr>"

definition wake_thread :: "wait_reason \<Rightarrow> nat \<Rightarrow> mt_state \<Rightarrow> addr option \<Rightarrow> mt_state" where
  "wake_thread reason val s to =
     (case to of None \<Rightarrow> s
      | Some t \<Rightarrow> if ti_state (thrs s t) = THRD_WAITING \<and> ti_reason (thrs s t) = reason \<and> ti_handle (thrs s t) = val
                 then set_state t THRD_RUNNING s else s)"

definition update_wait_state :: "mt_prcdata \<Rightarrow> wait_reason \<Rightarrow> nat \<Rightarrow> mt_state \<Rightarrow> mt_state" where
  "update_wait_state pd reason val s = foldl (wake_thread reason val) s (pi_list pd)"

definition lwait_off :: "mt_prcdata \<Rightarrow> nat \<Rightarrow> mt_state \<Rightarrow> mt_state" where
  "lwait_off pd parent s =
     (if pi_threads pd = 1 \<and> pi_lwait pd \<and> pi_list pd \<noteq> [] then wake_thread THWR_WAITLNCH parent s (pi_list pd ! 0) else s)"

definition update_lwait :: "nat \<Rightarrow> nat \<Rightarrow> mt_state \<Rightarrow> mt_state" where
  "update_lwait parent child s =
     (if child \<noteq> 0 then (case get_by_pid s child of None \<Rightarrow> s | Some pd \<Rightarrow> lwait_off pd parent s)
      else foldl (\<lambda>s p. case p of None \<Rightarrow> s | Some pd \<Rightarrow> lwait_off pd parent s) s (pid_ptrs s))"

section \<open>The list of waiting threads\<close>

definition w_add :: "addr \<Rightarrow> mt_state \<Rightarrow> mt_state" where
  "w_add e s =
     s\<lparr>wents := upd_opt (upd (wents s) e (\<lambda>w. w\<lparr>we_prev := we_last s, we_next := None\<rparr>)) (we_last s) (\<lambda>w. w\<lparr>we_next := Some e\<rparr>),
       we_first := (case we_first s of None \<Rightarrow> Some e | Some f \<Rightarrow> Some f),
       we_last := Some e\<rparr>"

definition wcounts :: "int \<Rightarrow> mt_waitentry list \<Rightarrow> mt_state \<Rightarrow> mt_state" where
  "wcounts i es s = foldl (\<lambda>s we. if htype we = QWHT_MUTEX \<or> htype we = QWHT_EVENT then fst (mutex_wcounter (we_obj we) i s) else s) s es"

definition w_del :: "addr \<Rightarrow> mt_state \<Rightarrow> mt_state" where
  "w_del e s =
     (case wents s e of None \<Rightarrow> s
      | Some w \<Rightarrow>
        let s1 = (case we_prev w of Some p \<Rightarrow> s\<lparr>wents := upd (wents s) p (\<lambda>n. n\<lparr>we_next := we_next w\<rparr>)\<rparr>
                  | None \<Rightarrow> s\<lparr>we_first := we_next w\<rparr>);
            s2 = (case we_next w of Some n \<Rightarrow> s1\<lparr>wents := upd (wents s1) n (\<lambda>n. n\<lparr>we_prev := we_prev w\<rparr>)\<rparr>
                  | None \<Rightarrow> s1\<lparr>we_last := we_prev w\<rparr>);
            s3 = s2\<lparr>wents := upd (wents s2) e (\<lambda>n. n\<lparr>we_prev := None, we_next := None\<rparr>)\<rparr>
        in wcounts (- 1) (we_ents w) s3)"

definition w_free :: "addr \<Rightarrow> mt_state \<Rightarrow> mt_state" where
  "w_free e s = s\<lparr>wents := (wents s)(e := None)\<rparr>"

definition w_term :: "addr \<Rightarrow> thr_state \<Rightarrow> mt_state \<Rightarrow> mt_state" where
  "w_term wth newstate s =
     (if ti_state (thrs s wth) \<noteq> THRD_WAITING \<or> ti_reason (thrs s wth) \<noteq> THWR_WAITOBJ then s
      else let s1 = w_del (ti_handle (thrs s wth)) s
           in s1\<lparr>thrs := (thrs s1)(wth := (thrs s1 wth)\<lparr>ti_state := newstate, ti_reason := THWR_NONE\<rparr>)\<rparr>)"

section \<open>One condition\<close>

text \<open>The new flags of an entry, the entry (a result may be saved in it) and an error. \<open>who\<close> is the
  thread that waits, \<open>pid\<close> and \<open>tid\<close> what ends just now.\<close>

definition exit_flags :: "mt_waitentry \<Rightarrow> u8" where
  "exit_flags e = (if lo32 (reserved e) \<noteq> 0 then WOBJ_OK OR WOBJ_SAVERES else WOBJ_OK)"

definition check_entry :: "mt_env \<Rightarrow> mt_state \<Rightarrow> nat \<Rightarrow> nat \<Rightarrow> addr \<Rightarrow> mt_waitentry \<Rightarrow> u8 \<Rightarrow> u8 \<times> mt_waitentry \<times> qserr option" where
  "check_entry env s pid tid who e sf =
     (if htype e = QWHT_TID then
        (if pid \<noteq> 0 \<and> tid \<noteq> 0 \<and> ti_pid (thrs s who) = pid \<and> (we_id e = tid \<or> we_id e = 0) then
           (exit_flags e,
            e\<lparr>reserved := mk64 (case parent_of s who of None \<Rightarrow> 0
               | Some pd \<Rightarrow> (case get_by_tid pd tid of None \<Rightarrow> 0 | Some t \<Rightarrow> ti_exit (thrs s t))) (lo32 (reserved e))\<rparr>, None)
         else (sf, e, None))
      else if htype e = QWHT_PID then
        (if pid \<noteq> 0 \<and> tid = 0 \<and> we_id e = pid then
           (exit_flags e,
            e\<lparr>reserved := mk64 (case get_by_pid s pid of None \<Rightarrow> 0 | Some pd \<Rightarrow> pi_exit pd) (lo32 (reserved e))\<rparr>, None)
         else (sf, e, None))
      else if htype e = QWHT_CLOCK then
        (if harg e \<noteq> - 1 \<and> (harg e = 0 \<or> env_tsc env - reserved e > harg e) then WOBJ_OK else sf, e, None)
      else if htype e = QWHT_EVENT then
        (let st = event_state (we_obj e) s in
         if st < 0 then (sf, e, Some E_SYS_INVOBJECT)
         else (if st = 1 then WOBJ_OK else if st = 2 then WOBJ_EVFREE else 0, e, None))
      else if htype e = QWHT_MUTEX then
        (case mutex_state (we_obj e) s of None \<Rightarrow> (sf, e, Some E_SYS_INVOBJECT)
         | Some (ms, cnt) \<Rightarrow>
             (if cnt = 0 \<or> ti_pid (thrs s who) = ms_pid ms \<and> ti_tid (thrs s who) = ms_tid ms then WOBJ_MUXFREE else 0, e, None))
      else if htype e = QWHT_KEY then (if env_keys env (ti_session (thrs s who)) then WOBJ_OK else sf, e, None)
      else if htype e = QWHT_QUEUE then
        (let n = env_qavail env (harg e) in
         if n < 0 then (sf, e, Some E_SYS_INVOBJECT) else (if n > 0 then WOBJ_OK else 0, e, None))
      else if htype e = QWHT_SIGNAL then (if ti_signals (thrs s who) then WOBJ_OK else sf, e, None)
      else (sf, e, None))"

text \<open>All entries of a waiting thread that are not signaled yet: flags, entries, the last error, and
  whether one of the flags checked is set.\<close>

fun check_entries :: "mt_env \<Rightarrow> mt_state \<Rightarrow> nat \<Rightarrow> nat \<Rightarrow> addr \<Rightarrow> (mt_waitentry \<times> u8) list \<Rightarrow>
    (mt_waitentry \<times> u8) list \<times> qserr option \<times> bool" where
  "check_entries env s pid tid who [] = ([], None, False)"
| "check_entries env s pid tid who ((e, sf) # es) =
     (case check_entries env s pid tid who es of (es', err', up') \<Rightarrow>
        if sf AND WOBJ_OK = 0 then
          (case check_entry env s pid tid who e sf of (sf1, e1, err1) \<Rightarrow>
             ((e1, sf1) # es', case err' of Some x \<Rightarrow> Some x | None \<Rightarrow> err1, sf1 \<noteq> 0 \<or> up'))
        else ((e, sf) # es', err', up'))"

section \<open>Groups\<close>

text \<open>The loop over the entries: an ungrouped entry or a member of an OR group that is signaled ends it;
  an entry that is not takes its AND groups out. The result: ungrouped hit, groups, all flags seen.\<close>

fun group_scan :: "u32 \<Rightarrow> (u32 \<times> u8) list \<Rightarrow> u32 \<Rightarrow> u8 \<Rightarrow> bool \<times> u32 \<times> u8" where
  "group_scan clogic [] gs onf = (False, gs, onf)"
| "group_scan clogic ((g, on) # es) gs onf =
     (if g \<noteq> 0 then
        (let m_and = g AND clogic; m_or = g XOR m_and in
         if on \<noteq> 0 then
           (if m_or \<noteq> 0 then (False, gs OR m_or, onf OR on) else group_scan clogic es gs (onf OR on))
         else group_scan clogic es (gs AND NOT m_and) (onf OR on))
      else if on \<noteq> 0 then (True, gs, onf OR on)
      else group_scan clogic es gs (onf OR on))"

fun bsf_from :: "nat \<Rightarrow> nat \<Rightarrow> u32 \<Rightarrow> nat" where
  "bsf_from 0 i x = 32"
| "bsf_from (Suc k) i x = (if bit x i then i else bsf_from k (Suc i) x)"

definition bsf32 :: "u32 \<Rightarrow> nat" where "bsf32 x = bsf_from 32 0 x"

definition group_result :: "u32 \<Rightarrow> (u32 \<times> u8) list \<Rightarrow> int \<times> u8" where
  "group_result clogic es =
     (case group_scan clogic es clogic 0 of (zs, gs, onf) \<Rightarrow>
        (if zs then 0 else if gs \<noteq> 0 then int (bsf32 gs) + 1 else -1, onf))"

section \<open>Waking up\<close>

definition in_winner :: "int \<Rightarrow> mt_waitentry \<Rightarrow> bool" where
  "in_winner sg e = (let cv = (if sg = 0 then 0 else push_bit (nat sg - 1) (1::u32)) in group e = cv \<or> group e AND cv \<noteq> 0)"

definition event_reset :: "addr \<Rightarrow> mt_state \<Rightarrow> mt_state \<times> qserr option" where
  "event_reset evh s =
     (case evts s evh of None \<Rightarrow> (s, Some E_SYS_INVOBJECT)
      | Some ev \<Rightarrow> (s\<lparr>evts := (evts s)(evh \<mapsto> ev\<lparr>ev_state := 0\<rparr>)\<rparr>, None))"

text \<open>The objects of the winning group: free mutexes are captured for the thread, events of a single
  pulse are reset, exit codes are stored. The first error ends the loop.\<close>

fun grab_winner :: "int \<Rightarrow> addr \<Rightarrow> (mt_waitentry \<times> u8) list \<Rightarrow> mt_state \<Rightarrow> (mt_waitentry \<times> u8) list \<times> mt_state \<times> qserr option" where
  "grab_winner sg who [] s = ([], s, None)"
| "grab_winner sg who ((e, sf) # es) s =
     (if in_winner sg e \<and> htype e = QWHT_MUTEX \<and> sf AND WOBJ_MUXFREE \<noteq> 0 then
        (case mutex_capture (we_obj e) who s of
           (s1, Some err) \<Rightarrow> ((e, WOBJ_OK) # es, s1, Some err)
         | (s1, None) \<Rightarrow> (case grab_winner sg who es s1 of (es', s2, r) \<Rightarrow> ((e, WOBJ_OK) # es', s2, r)))
      else if in_winner sg e \<and> htype e = QWHT_EVENT \<and> sf AND WOBJ_EVFREE \<noteq> 0 then
        (case event_reset (we_obj e) s of
           (s1, Some err) \<Rightarrow> ((e, WOBJ_OK) # es, s1, Some err)
         | (s1, None) \<Rightarrow> (case grab_winner sg who es s1 of (es', s2, r) \<Rightarrow> ((e, WOBJ_OK) # es', s2, r)))
      else if in_winner sg e \<and> sf AND WOBJ_SAVERES \<noteq> 0 then
        (case grab_winner sg who es (s\<lparr>results := (results s)(lo32 (reserved e) \<mapsto> hi32 (reserved e))\<rparr>) of
           (es', s2, r) \<Rightarrow> ((e, WOBJ_OK) # es', s2, r))
      else (case grab_winner sg who es s of (es', s2, r) \<Rightarrow> ((e, sf) # es', s2, r)))"

definition put_entry :: "addr \<Rightarrow> we_list_entry \<Rightarrow> mt_state \<Rightarrow> mt_state" where
  "put_entry a w s = s\<lparr>wents := (wents s)(a \<mapsto> w)\<rparr>"

definition wake_caller :: "addr \<Rightarrow> we_list_entry \<Rightarrow> mt_state \<Rightarrow> mt_state" where
  "wake_caller a w s = (case parent_of s (we_caller w) of None \<Rightarrow> s | Some pd \<Rightarrow> update_wait_state pd THWR_WAITOBJ a s)"

text \<open>One waiting thread. The second result: its conditions hold (the value the special entry returns).\<close>

definition check_waiter :: "mt_env \<Rightarrow> nat \<Rightarrow> nat \<Rightarrow> addr \<Rightarrow> we_list_entry \<Rightarrow> mt_state \<Rightarrow> mt_state \<times> bool" where
  "check_waiter env pid tid a w s =
     (if 0 \<le> we_signaled w then (s, False)
      else case check_entries env s pid tid (we_caller w) (zip (we_ents w) (we_sigf w)) of (es, err, up) \<Rightarrow>
        let w1 = w\<lparr>we_ents := map fst es, we_sigf := map snd es, we_reterr := err\<rparr> in
        if err \<noteq> None then
          (let w2 = w1\<lparr>we_signaled := 0\<rparr> in (wake_caller a w2 (put_entry a w2 s), False))
        else if up then
          (case group_result (we_clogic w) (map (\<lambda>(e, sf). (group e, sf)) es) of (sg, onf) \<Rightarrow>
             if sg < 0 then (put_entry a w1 s, False)
             else if onf AND (WOBJ_MUXFREE OR WOBJ_EVFREE OR WOBJ_SAVERES) \<noteq> 0 then
               (case grab_winner sg (we_caller w) es s of (es2, s2, err2) \<Rightarrow>
                  let w2 = w1\<lparr>we_signaled := sg, we_sigf := map snd es2, we_reterr := err2\<rparr>
                  in (wake_caller a w2 (put_entry a w2 s2), True))
             else let w2 = w1\<lparr>we_signaled := sg\<rparr> in (wake_caller a w2 (put_entry a w2 s), True))
        else (put_entry a w1 s, False))"

text \<open>The walk over the list. Entries of a process or thread that ends are dropped.\<close>

partial_function (option) w_walk :: "mt_env \<Rightarrow> nat \<Rightarrow> nat \<Rightarrow> addr option \<Rightarrow> addr option \<Rightarrow> mt_state \<Rightarrow> bool \<Rightarrow> (mt_state \<times> bool) option" where
  "w_walk env pid tid special p s result =
     (case p of None \<Rightarrow> Some (s, result)
      | Some a \<Rightarrow>
        (case wents s a of None \<Rightarrow> None
         | Some w \<Rightarrow>
           if pid \<noteq> 0 \<and> ti_pid (thrs s (we_caller w)) = pid \<and> (tid = 0 \<or> ti_tid (thrs s (we_caller w)) = tid)
           then w_walk env pid tid special (we_next w) (w_free a (w_del a s)) result
           else (case check_waiter env pid tid a w s of (s1, hit) \<Rightarrow>
                   w_walk env pid tid special (we_next w) s1 (result \<or> hit \<and> special = Some a))))"

definition w_check_conditions :: "mt_env \<Rightarrow> nat \<Rightarrow> nat \<Rightarrow> addr option \<Rightarrow> mt_state \<Rightarrow> (mt_state \<times> bool) option" where
  "w_check_conditions env pid tid special s = w_walk env pid tid special (we_first s) s False"

section \<open>Events\<close>

datatype qeva = QEVA_RESET | QEVA_SET | QEVA_PULSE | QEVA_PULSEONE

definition put_event :: "addr \<Rightarrow> nat \<Rightarrow> mt_state \<Rightarrow> mt_state" where
  "put_event evh st s = s\<lparr>evts := upd (evts s) evh (\<lambda>ev. ev\<lparr>ev_state := st\<rparr>)\<rparr>"

definition event_action :: "mt_env \<Rightarrow> addr \<Rightarrow> qeva \<Rightarrow> mt_state \<Rightarrow> (mt_state \<times> qserr option) option" where
  "event_action env evh action s =
     (case evts s evh of None \<Rightarrow> Some (s, Some E_SYS_INVOBJECT)
      | Some ev \<Rightarrow>
        (case action of
           QEVA_RESET \<Rightarrow> Some (put_event evh 0 s, None)
         | QEVA_SET \<Rightarrow>
             (if ev_waitcnt ev \<noteq> 0 then map_option (\<lambda>(s1, r). (s1, None)) (w_check_conditions env 0 0 None (put_event evh 1 s))
              else Some (put_event evh 1 s, None))
         | _ \<Rightarrow>
             (if ev_waitcnt ev \<noteq> 0 then
                map_option (\<lambda>(s1, r). (put_event evh 0 s1, None))
                  (w_check_conditions env 0 0 None (put_event evh (if action = QEVA_PULSEONE then 2 else 1) s))
              else Some (put_event evh 0 s, None))))"

end
