(* ===== verification/MtWaitInv.thy ===== *)
theory MtWaitInv
  imports MtWait
begin

text \<open>The check of the conditions: the list it walks, what it keeps, and the logic of the groups.\<close>

section \<open>The list of waiting threads\<close>

abbreviation wlink_prev :: "addr option \<Rightarrow> we_list_entry \<Rightarrow> we_list_entry" where "wlink_prev p m \<equiv> m\<lparr>we_prev := p\<rparr>"
abbreviation wlink_next :: "addr option \<Rightarrow> we_list_entry \<Rightarrow> we_list_entry" where "wlink_next p m \<equiv> m\<lparr>we_next := p\<rparr>"

interpretation wl: dlink we_prev we_next wlink_prev wlink_next
  by unfold_locales simp_all

definition wait_list :: "mt_state \<Rightarrow> addr list \<Rightarrow> bool" where
  "wait_list s xs \<longleftrightarrow> distinct xs \<and> wl.seg (wents s) None (we_first s) xs (we_last s) None"

lemma wcounter_frame [simp]:
  "wents (fst (mutex_wcounter a i s)) = wents s" "we_first (fst (mutex_wcounter a i s)) = we_first s"
  "we_last (fst (mutex_wcounter a i s)) = we_last s" "thrs (fst (mutex_wcounter a i s)) = thrs s"
  "pid_ptrs (fst (mutex_wcounter a i s)) = pid_ptrs s" "pt_current (fst (mutex_wcounter a i s)) = pt_current s"
  by (auto simp: mutex_wcounter_def set_mux_def split: option.splits)

lemma wcounts_frame [simp]:
  "wents (wcounts i es s) = wents s" "we_first (wcounts i es s) = we_first s"
  "we_last (wcounts i es s) = we_last s" "thrs (wcounts i es s) = thrs s"
  "pid_ptrs (wcounts i es s) = pid_ptrs s" "pt_current (wcounts i es s) = pt_current s"
  unfolding wcounts_def by (induction es arbitrary: s) simp_all


lemma w_add_list:
  assumes l: "wait_list s xs" and e: "wents s e = Some w" "e \<notin> set xs"
  shows "wait_list (w_add e s) (xs @ [e])"
proof -
  let ?h = "upd (wents s) e (\<lambda>w. w\<lparr>we_prev := we_last s, we_next := None\<rparr>)"
  have s: "wl.seg ?h None (we_first s) xs (we_last s) None"
    using l e wl.seg_upd_other by (simp add: wait_list_def)
  have "wl.seg (upd_opt ?h (we_last s) (wlink_next (Some e))) None (if we_first s = None then Some e else we_first s) (xs @ [e]) (Some e) None"
    using l e by (intro wl.back_seg [OF s]) (auto simp: wait_list_def upd_simps)
  moreover have "(case we_first s of None \<Rightarrow> Some e | Some f \<Rightarrow> Some f) = (if we_first s = None then Some e else we_first s)"
    by (auto split: option.split)
  ultimately show ?thesis using l e by (simp add: wait_list_def w_add_def)
qed

lemma w_del_heap:
  assumes "wents s e = Some w"
  shows "wents (w_del e s) = wl.unlinked (wents s) e" "we_first (w_del e s) = (if we_prev w = None then we_next w else we_first s)"
    "we_last (w_del e s) = (if we_next w = None then we_prev w else we_last s)" "thrs (w_del e s) = thrs s"
    "pid_ptrs (w_del e s) = pid_ptrs s" "pt_current (w_del e s) = pt_current s"
proof -
  have f: "(\<lambda>n. n\<lparr>we_prev := None, we_next := None\<rparr>) = wlink_prev None \<circ> wlink_next None"
    by (rule ext) (simp add: comp_def we_list_entry.equality)
  show "wents (w_del e s) = wl.unlinked (wents s) e" "we_first (w_del e s) = (if we_prev w = None then we_next w else we_first s)"
    "we_last (w_del e s) = (if we_next w = None then we_prev w else we_last s)" "thrs (w_del e s) = thrs s"
    "pid_ptrs (w_del e s) = pid_ptrs s" "pt_current (w_del e s) = pt_current s"
    using assms by (auto simp: w_del_def wl.unlinked_def Let_def upd_opt_def f split: option.splits)
qed

lemma w_del_list:
  assumes l: "wait_list s (xs @ e # ys)"
  shows "wait_list (w_del e s) (xs @ ys)"
proof -
  have d: "distinct (xs @ e # ys)" and s: "wl.seg (wents s) None (we_first s) (xs @ e # ys) (we_last s) None"
    using l by (auto simp: wait_list_def)
  obtain w where w: "wents s e = Some w" using wl.seg_in [OF s] by auto
  show ?thesis using wl.unlinked_seg(1) [OF s d w] d w_del_heap [OF w] by (auto simp: wait_list_def)
qed

text \<open>What stays the same when a node that is in the list is only changed in its contents.\<close>

lemma put_entry_list:
  assumes l: "wait_list s xs" and w: "wents s a = Some w" "we_prev w' = we_prev w" "we_next w' = we_next w"
  shows "wait_list (put_entry a w' s) xs"
proof -
  have "wl.seg (wents (put_entry a w' s)) None (we_first s) xs (we_last s) None = wl.seg (wents s) None (we_first s) xs (we_last s) None"
    using w by (intro wl.seg_cong) (auto simp: put_entry_def)
  then show ?thesis using l by (simp add: wait_list_def put_entry_def)
qed

section \<open>Waking threads\<close>

lemma wake_thread_frame [simp]:
  "wents (wake_thread r v s to) = wents s" "we_first (wake_thread r v s to) = we_first s" "we_last (wake_thread r v s to) = we_last s"
  "muxs (wake_thread r v s to) = muxs s" "evts (wake_thread r v s to) = evts s" "pid_ptrs (wake_thread r v s to) = pid_ptrs s"
  "pt_current (wake_thread r v s to) = pt_current s"
  "ti_first (thrs (wake_thread r v s to) t) = ti_first (thrs s t)" "ti_pid (thrs (wake_thread r v s to) t) = ti_pid (thrs s t)"
  "ti_tid (thrs (wake_thread r v s to) t) = ti_tid (thrs s t)"
  by (auto simp: wake_thread_def set_state_def split: option.split)

lemma wake_thread_state:
  "ti_state (thrs (wake_thread r v s to) t) = (if to = Some t \<and> ti_state (thrs s t) = THRD_WAITING \<and> ti_reason (thrs s t) = r
      \<and> ti_handle (thrs s t) = v then THRD_RUNNING else ti_state (thrs s t))"
  "ti_reason (thrs (wake_thread r v s to) t) = ti_reason (thrs s t)" "ti_handle (thrs (wake_thread r v s to) t) = ti_handle (thrs s t)"
  by (auto simp: wake_thread_def set_state_def split: option.split)

lemma wakes_frame [simp]:
  "wents (foldl (wake_thread r v) s ts) = wents s" "we_first (foldl (wake_thread r v) s ts) = we_first s"
  "we_last (foldl (wake_thread r v) s ts) = we_last s" "muxs (foldl (wake_thread r v) s ts) = muxs s"
  "evts (foldl (wake_thread r v) s ts) = evts s" "pid_ptrs (foldl (wake_thread r v) s ts) = pid_ptrs s"
  "pt_current (foldl (wake_thread r v) s ts) = pt_current s"
  "ti_first (thrs (foldl (wake_thread r v) s ts) t) = ti_first (thrs s t)" "ti_pid (thrs (foldl (wake_thread r v) s ts) t) = ti_pid (thrs s t)"
  "ti_tid (thrs (foldl (wake_thread r v) s ts) t) = ti_tid (thrs s t)"
  by (induction ts arbitrary: s) simp_all

lemma wakes_state:
  "ti_state (thrs (foldl (wake_thread r v) s ts) t) = (if Some t \<in> set ts \<and> ti_state (thrs s t) = THRD_WAITING \<and> ti_reason (thrs s t) = r
      \<and> ti_handle (thrs s t) = v then THRD_RUNNING else ti_state (thrs s t))"
  by (induction ts arbitrary: s) (auto simp: wake_thread_state)

lemma wake_caller_frame [simp]:
  "wents (wake_caller a w s) = wents s" "we_first (wake_caller a w s) = we_first s" "we_last (wake_caller a w s) = we_last s"
  "muxs (wake_caller a w s) = muxs s" "evts (wake_caller a w s) = evts s" "pid_ptrs (wake_caller a w s) = pid_ptrs s"
  "pt_current (wake_caller a w s) = pt_current s"
  "ti_first (thrs (wake_caller a w s) t) = ti_first (thrs s t)" "ti_pid (thrs (wake_caller a w s) t) = ti_pid (thrs s t)"
  "ti_tid (thrs (wake_caller a w s) t) = ti_tid (thrs s t)"
  by (auto simp: wake_caller_def update_wait_state_def split: option.split)

lemma parent_of_in: "parent_of s t = Some pd \<Longrightarrow> Some t \<in> set (pi_list pd)"
  by (auto simp: parent_of_def find_Some_iff split: option.splits)

lemma wake_caller_runs:
  assumes "parent_of s (we_caller w) = Some pd"
    and "ti_state (thrs s (we_caller w)) = THRD_WAITING" "ti_reason (thrs s (we_caller w)) = THWR_WAITOBJ" "ti_handle (thrs s (we_caller w)) = a"
  shows "ti_state (thrs (wake_caller a w s) (we_caller w)) = THRD_RUNNING"
  using assms parent_of_in [OF assms(1)] by (simp add: wake_caller_def update_wait_state_def wakes_state)

lemma wake_caller_running:
  "ti_state (thrs s t) = THRD_RUNNING \<Longrightarrow> ti_state (thrs (wake_caller a w s) t) = THRD_RUNNING"
  by (auto simp: wake_caller_def update_wait_state_def wakes_state split: option.split)

section \<open>Grabbing\<close>

lemma capture_frame [simp]:
  "wents (fst (mutex_capture a t s)) = wents s" "we_first (fst (mutex_capture a t s)) = we_first s"
  "we_last (fst (mutex_capture a t s)) = we_last s" "pid_ptrs (fst (mutex_capture a t s)) = pid_ptrs s"
  "pt_current (fst (mutex_capture a t s)) = pt_current s"
  "ti_state (thrs (fst (mutex_capture a t s)) u) = ti_state (thrs s u)" "ti_reason (thrs (fst (mutex_capture a t s)) u) = ti_reason (thrs s u)"
  "ti_handle (thrs (fst (mutex_capture a t s)) u) = ti_handle (thrs s u)"
  "ti_pid (thrs (fst (mutex_capture a t s)) u) = ti_pid (thrs s u)" "ti_tid (thrs (fst (mutex_capture a t s)) u) = ti_tid (thrs s u)"
  by (auto simp: mutex_capture_def set_mux_def set_first_def Let_def split: option.splits)

text \<open>What the check keeps of the rest of the state: the list, the processes, running threads, locks.\<close>

definition kept :: "mt_state \<Rightarrow> mt_state \<Rightarrow> bool" where
  "kept s s' \<longleftrightarrow> pid_ptrs s' = pid_ptrs s \<and> pt_current s' = pt_current s
     \<and> ((\<exists>L. mt_rep s L) \<longrightarrow> (\<exists>L. mt_rep s' L) \<and> (\<forall>a t n. lock_of s a = Some (t, n) \<longrightarrow> (\<exists>k\<ge>n. lock_of s' a = Some (t, k))))
     \<and> (\<forall>t. ti_pid (thrs s' t) = ti_pid (thrs s t) \<and> ti_tid (thrs s' t) = ti_tid (thrs s t)
          \<and> (ti_state (thrs s t) = THRD_RUNNING \<longrightarrow> ti_state (thrs s' t) = THRD_RUNNING))"

lemma kept_refl [simp]: "kept s s"
  by (auto simp: kept_def)

lemma kept_trans [trans]:
  assumes 1: "kept s s1" and 2: "kept s1 s2"
  shows "kept s s2"
proof -
  have "\<exists>k\<ge>n. lock_of s2 a = Some (t, k)" if r: "\<exists>L. mt_rep s L" and l: "lock_of s a = Some (t, n)" for a t n
  proof -
    obtain k1 where k1: "n \<le> k1" "lock_of s1 a = Some (t, k1)" using 1 r l unfolding kept_def by blast
    have "\<exists>L. mt_rep s1 L" using 1 r unfolding kept_def by blast
    then obtain k2 where "k1 \<le> k2" "lock_of s2 a = Some (t, k2)" using 2 k1(2) unfolding kept_def by blast
    then show ?thesis using k1(1) by (meson order_trans)
  qed
  moreover have "(\<exists>L. mt_rep s L) \<longrightarrow> (\<exists>L. mt_rep s2 L)" using 1 2 unfolding kept_def by blast
  moreover have "pid_ptrs s2 = pid_ptrs s" "pt_current s2 = pt_current s" using 1 2 unfolding kept_def by simp_all
  moreover have "ti_pid (thrs s2 t) = ti_pid (thrs s t) \<and> ti_tid (thrs s2 t) = ti_tid (thrs s t)
          \<and> (ti_state (thrs s t) = THRD_RUNNING \<longrightarrow> ti_state (thrs s2 t) = THRD_RUNNING)" for t
    using 1 2 unfolding kept_def by simp
  ultimately show ?thesis unfolding kept_def by blast
qed

lemma kept_simple:
  assumes "pid_ptrs s' = pid_ptrs s" "pt_current s' = pt_current s" "muxs s' = muxs s"
    and "\<And>t. ti_first (thrs s' t) = ti_first (thrs s t)" "\<And>t. ti_pid (thrs s' t) = ti_pid (thrs s t)" "\<And>t. ti_tid (thrs s' t) = ti_tid (thrs s t)"
    and "\<And>t. ti_state (thrs s t) = THRD_RUNNING \<Longrightarrow> ti_state (thrs s' t) = THRD_RUNNING"
  shows "kept s s'"
proof -
  have "mt_rep s' L = mt_rep s L" for L using assms(3,4) by (simp add: mt_rep_def own_list_def)
  moreover have "lock_of s' = lock_of s" using assms(3) by (simp add: lock_of_def fun_eq_iff)
  ultimately show ?thesis using assms unfolding kept_def by auto
qed

lemma kept_put: "kept s (put_entry a w s)"
  by (rule kept_simple) (simp_all add: put_entry_def)

lemma kept_wake: "kept s (wake_caller a w s)"
  by (rule kept_simple) (simp_all add: wake_caller_running)

lemma kept_capture: "kept s (fst (mutex_capture a t s))"
proof -
  have l: "\<exists>k\<ge>n. lock_of (fst (mutex_capture a t s)) b = Some (u, k)" if r: "mt_rep s L" and l: "lock_of s b = Some (u, n)" for L b u n
  proof (cases "muxs s a = None")
    case True
    then have "fst (mutex_capture a t s) = s" by (simp add: mutex_capture_def)
    then show ?thesis using l by auto
  next
    case False
    show ?thesis
    proof (cases "snd (mutex_capture a t s)")
      case None
      then obtain s1 where e: "mutex_capture a t s = (s1, None)" by (metis prod.collapse)
      have "lock_of s1 = (lock_of s)(a \<mapsto> (t, case lock_of s a of None \<Rightarrow> 1 | Some (u, n) \<Rightarrow> n + 1))"
        by (rule capture_locks(1) [OF r False e])
      moreover have "lock_of s a = Some (u, n) \<Longrightarrow> u = t" using capture_locks(2) [OF r False, of t] None by (auto split: if_splits)
      ultimately show ?thesis using e l by (cases "b = a") auto
    next
      case (Some x)
      then show ?thesis using capture_locks(3) [OF r False, of t] l by auto
    qed
  qed
  then show ?thesis using capture_rep unfolding kept_def by (auto; blast)
qed

lemma kept_reset: "kept s (fst (event_reset a s))"
  by (rule kept_simple) (auto simp: event_reset_def split: option.split)

lemma reset_frame [simp]:
  "wents (fst (event_reset a s)) = wents s" "we_first (fst (event_reset a s)) = we_first s" "we_last (fst (event_reset a s)) = we_last s"
  "thrs (fst (event_reset a s)) = thrs s"
  by (auto simp: event_reset_def split: option.split)

definition gkept :: "mt_state \<Rightarrow> mt_state \<Rightarrow> bool" where
  "gkept s s' \<longleftrightarrow> kept s s' \<and> wents s' = wents s \<and> we_first s' = we_first s \<and> we_last s' = we_last s
     \<and> (\<forall>t. ti_state (thrs s' t) = ti_state (thrs s t) \<and> ti_reason (thrs s' t) = ti_reason (thrs s t) \<and> ti_handle (thrs s' t) = ti_handle (thrs s t))"

lemma gkept_trans: "gkept s s1 \<Longrightarrow> gkept s1 s2 \<Longrightarrow> gkept s s2"
  using kept_trans [of s s1 s2] by (simp add: gkept_def)

lemma gkept_capture: "mutex_capture a t s = (s1, x) \<Longrightarrow> gkept s s1"
  using kept_capture [of s a t] capture_frame [where a = a and t = t and s = s] by (simp add: gkept_def)

lemma gkept_reset: "event_reset a s = (s1, x) \<Longrightarrow> gkept s s1"
  using kept_reset [of s a] reset_frame [where a = a and s = s] by (simp add: gkept_def)

lemma gkept_result: "gkept s (s\<lparr>results := r\<rparr>)"
  unfolding gkept_def by (auto intro: kept_simple)

lemma gkept_refl: "gkept s s"
  by (simp add: gkept_def)

lemma grab_kept: "grab_winner sg who es s = (es', s', r) \<Longrightarrow> gkept s s' \<and> map fst es' = map fst es"
proof (induction es arbitrary: es' s s' r)
  case Nil
  then show ?case by (simp add: gkept_refl)
next
  case (Cons x es)
  obtain e sf where x: "x = (e, sf)" by (cases x)
  let ?m = "in_winner sg e \<and> htype e = QWHT_MUTEX \<and> sf AND WOBJ_MUXFREE \<noteq> 0"
  let ?v = "in_winner sg e \<and> htype e = QWHT_EVENT \<and> sf AND WOBJ_EVFREE \<noteq> 0"
  let ?r = "in_winner sg e \<and> sf AND WOBJ_SAVERES \<noteq> 0"
  have go: "gkept s s' \<and> map fst es' = map fst (x # es)"
    if "gkept s s1" and "(case grab_winner sg who es s1 of (e2, s2, r2) \<Rightarrow> ((e, f) # e2, s2, r2)) = (es', s', r)" for s1 f
  proof -
    obtain e2 s2 r2 where g: "grab_winner sg who es s1 = (e2, s2, r2)" by (metis prod_cases3)
    then show ?thesis using Cons.IH [OF g] that gkept_trans [OF that(1)] x by auto
  qed
  have stop: "gkept s s' \<and> map fst es' = map fst (x # es)"
    if "gkept s s1" and "((e, f) # es, s1, r1) = (es', s', r)" for s1 f r1
    using that x by auto
  let ?g = "\<lambda>f s1. case grab_winner sg who es s1 of (e2, s2, r2) \<Rightarrow> ((e, f) # e2, s2, r2)"
  have p: "grab_winner sg who ((e, sf) # es) s = (es', s', r)" using Cons.prems x by simp
  consider (m) ?m | (v) "\<not> ?m" ?v | (r) "\<not> ?m" "\<not> ?v" ?r | (n) "\<not> ?m" "\<not> ?v" "\<not> ?r" by blast
  then show ?case
  proof cases
    case m
    obtain s1 y where c: "mutex_capture (we_obj e) who s = (s1, y)" by fastforce
    have "grab_winner sg who ((e, sf) # es) s = (case y of None \<Rightarrow> ?g WOBJ_OK s1 | Some z \<Rightarrow> ((e, WOBJ_OK) # es, s1, Some z))"
      using m c by (simp split: option.split)
    then show ?thesis using p go [OF gkept_capture [OF c], of WOBJ_OK] stop [OF gkept_capture [OF c], of WOBJ_OK] by (cases y) simp_all
  next
    case v
    obtain s1 y where c: "event_reset (we_obj e) s = (s1, y)" by fastforce
    have "grab_winner sg who ((e, sf) # es) s = (case y of None \<Rightarrow> ?g WOBJ_OK s1 | Some z \<Rightarrow> ((e, WOBJ_OK) # es, s1, Some z))"
      using v c by (simp split: option.split)
    then show ?thesis using p go [OF gkept_reset [OF c], of WOBJ_OK] stop [OF gkept_reset [OF c], of WOBJ_OK] by (cases y) simp_all
  next
    case r
    have "grab_winner sg who ((e, sf) # es) s = ?g WOBJ_OK (s\<lparr>results := (results s)(lo32 (reserved e) \<mapsto> hi32 (reserved e))\<rparr>)"
      using r by auto
    then show ?thesis using p go [OF gkept_result, of WOBJ_OK] by simp
  next
    case n
    have "grab_winner sg who ((e, sf) # es) s = ?g sf s" using n by auto
    then show ?thesis using p go [OF gkept_refl, of sf] by simp
  qed
qed

section \<open>One waiting thread\<close>

lemma kept_wcounts: "kept s (wcounts i es s)"
  unfolding wcounts_def
proof (induction es arbitrary: s)
  case (Cons e es)
  have k: "kept s (fst (mutex_wcounter a i s))" for a s
  proof -
    have "lock_of s b = Some (t, n) \<Longrightarrow> mt_rep s L \<Longrightarrow> lock_of (fst (mutex_wcounter a i s)) b = Some (t, n)" for b t n L
      using wcounter_rep(2) by simp
    moreover have "\<exists>L. mt_rep s L \<Longrightarrow> \<exists>L. mt_rep (fst (mutex_wcounter a i s)) L" using wcounter_rep(1) by blast
    ultimately show ?thesis unfolding kept_def by auto
  qed
  have "kept s (if htype e = QWHT_MUTEX \<or> htype e = QWHT_EVENT then fst (mutex_wcounter (we_obj e) i s) else s)"
    using k by simp
  then show ?case unfolding foldl.simps by (rule kept_trans [OF _ Cons.IH])
qed simp

lemma kept_del: "kept s (w_del e s)"
proof (cases "wents s e")
  case (Some w)
  let ?s3 = "wcounts (- 1) (we_ents w)"
  obtain s3 where s3: "w_del e s = wcounts (- 1) (we_ents w) s3" "thrs s3 = thrs s" "pid_ptrs s3 = pid_ptrs s" "pt_current s3 = pt_current s" "muxs s3 = muxs s"
    using Some by (auto simp: w_del_def Let_def split: option.splits intro!: that)
  have "kept s s3" by (rule kept_simple) (simp_all add: s3)
  then show ?thesis unfolding s3(1) using kept_wcounts kept_trans by blast
qed (simp add: w_del_def)

definition same_wait :: "we_list_entry \<Rightarrow> we_list_entry \<Rightarrow> bool" where
  "same_wait w w' \<longleftrightarrow> we_prev w' = we_prev w \<and> we_next w' = we_next w \<and> we_caller w' = we_caller w"

definition waitkept :: "mt_state \<Rightarrow> addr \<Rightarrow> mt_state \<Rightarrow> bool" where
  "waitkept s a s' \<longleftrightarrow> kept s s' \<and> we_first s' = we_first s \<and> we_last s' = we_last s
     \<and> (\<forall>b. b \<noteq> a \<longrightarrow> wents s' b = wents s b)
     \<and> (\<forall>t. ti_reason (thrs s' t) = ti_reason (thrs s t) \<and> ti_handle (thrs s' t) = ti_handle (thrs s t))
     \<and> (\<forall>w. wents s a = Some w \<longrightarrow> (\<exists>w'. wents s' a = Some w' \<and> same_wait w w'))"

lemma wake_caller_rh [simp]:
  "ti_reason (thrs (wake_caller a w s) t) = ti_reason (thrs s t)" "ti_handle (thrs (wake_caller a w s) t) = ti_handle (thrs s t)"
proof -
  have "ti_reason (thrs (foldl (wake_thread r v) s ts) t) = ti_reason (thrs s t) \<and> ti_handle (thrs (foldl (wake_thread r v) s ts) t) = ti_handle (thrs s t)" for r v ts
    by (induction ts arbitrary: s) (auto simp: wake_thread_state)
  then show "ti_reason (thrs (wake_caller a w s) t) = ti_reason (thrs s t)" "ti_handle (thrs (wake_caller a w s) t) = ti_handle (thrs s t)"
    by (auto simp: wake_caller_def update_wait_state_def split: option.split)
qed

lemma waitkept_put: "wents s a = Some w \<Longrightarrow> same_wait w w' \<Longrightarrow> waitkept s a (put_entry a w' s)"
  using kept_put [of s a w'] by (simp add: waitkept_def put_entry_def)

lemma waitkept_wake: "waitkept s a s1 \<Longrightarrow> waitkept s a (wake_caller b w s1)"
  using kept_trans [OF _ kept_wake] by (simp add: waitkept_def)

lemma waitkept_grab: "gkept s s1 \<Longrightarrow> wents s a = Some w \<Longrightarrow> same_wait w w' \<Longrightarrow> waitkept s a (put_entry a w' s1)"
  using kept_trans [OF _ kept_put [of s1 a w'], of s] by (simp add: waitkept_def put_entry_def gkept_def)

lemma check_waiter_kept:
  assumes w: "wents s a = Some w" and c: "check_waiter env pid tid a w s = (s', hit)"
  shows "waitkept s a s'"
proof (cases "0 \<le> we_signaled w")
  case True
  then show ?thesis using w c by (auto simp: check_waiter_def waitkept_def same_wait_def)
next
  case False
  obtain es err up where e: "check_entries env s pid tid (we_caller w) (zip (we_ents w) (we_sigf w)) = (es, err, up)"
    by (metis prod_cases3)
  obtain sg onf where g: "group_result (we_clogic w) (map (\<lambda>(e, sf). (group e, sf)) es) = (sg, onf)" by fastforce
  obtain es2 s2 err2 where gr: "grab_winner sg (we_caller w) es s = (es2, s2, err2)" by (metis prod_cases3)
  have gk: "gkept s s2" using grab_kept [OF gr] by blast
  have sw: "same_wait w (w\<lparr>we_ents := x, we_sigf := y, we_reterr := z\<rparr>)"
    "same_wait w (w\<lparr>we_ents := x, we_sigf := y, we_reterr := z, we_signaled := i\<rparr>)" for x y z i
    by (simp_all add: same_wait_def)
  have sw2: "same_wait w (w\<lparr>we_ents := x, we_sigf := y', we_reterr := z', we_signaled := i\<rparr>)" for x y' z' i
    by (simp add: same_wait_def)
  note c' = c [unfolded check_waiter_def if_not_P [OF False] e prod.case Let_def g gr]
  show ?thesis
  proof (cases "err = None \<and> up \<and> 0 \<le> sg \<and> onf AND (WOBJ_MUXFREE OR WOBJ_EVFREE OR WOBJ_SAVERES) \<noteq> 0")
    case True
    let ?w2 = "w\<lparr>we_ents := map fst es, we_sigf := map snd es, we_reterr := err, we_signaled := sg, we_sigf := map snd es2, we_reterr := err2\<rparr>"
    have "s' = wake_caller a ?w2 (put_entry a ?w2 s2)"
      using c' True by simp
    moreover have "same_wait w ?w2" by (simp add: same_wait_def)
    ultimately show ?thesis using waitkept_wake waitkept_grab [OF gk w] by blast
  next
    case other: False
    show ?thesis
    proof (cases "err = None \<and> (\<not> up \<or> sg < 0)")
      case True
      then have "s' = put_entry a (w\<lparr>we_ents := map fst es, we_sigf := map snd es, we_reterr := err\<rparr>) s"
        using c' by (auto split: if_splits)
      then show ?thesis using waitkept_put [OF w] sw by blast
    next
      case signaled: False
      then have "\<exists>i. s' = wake_caller a (w\<lparr>we_ents := map fst es, we_sigf := map snd es, we_reterr := err, we_signaled := i\<rparr>)
          (put_entry a (w\<lparr>we_ents := map fst es, we_sigf := map snd es, we_reterr := err, we_signaled := i\<rparr>) s)"
        using c' other by (auto split: if_splits)
      then show ?thesis using waitkept_wake waitkept_put [OF w] sw by blast
    qed
  qed
qed

section \<open>The walk\<close>

definition leaves :: "nat \<Rightarrow> nat \<Rightarrow> mt_state \<Rightarrow> addr \<Rightarrow> bool" where
  "leaves pid tid s a = (case wents s a of None \<Rightarrow> False
     | Some w \<Rightarrow> pid \<noteq> 0 \<and> ti_pid (thrs s (we_caller w)) = pid \<and> (tid = 0 \<or> ti_tid (thrs s (we_caller w)) = tid))"

lemma waitkept_list:
  assumes k: "waitkept s a s'" and l: "wait_list s xs" and a: "a \<in> set xs"
  shows "wait_list s' xs"
proof -
  obtain w w' where w: "wents s a = Some w" "wents s' a = Some w'" "same_wait w w'"
    using k wl.seg_in a l unfolding waitkept_def wait_list_def by metis
  have "wl.seg (wents s') None (we_first s) xs (we_last s) None = wl.seg (wents s) None (we_first s) xs (we_last s) None"
  proof (rule wl.seg_cong)
    fix b show "map_option (\<lambda>n. (we_prev n, we_next n)) (wents s' b) = map_option (\<lambda>n. (we_prev n, we_next n)) (wents s b)"
      using k w by (cases "b = a") (auto simp: waitkept_def same_wait_def)
  qed
  then show ?thesis using l k by (simp add: wait_list_def waitkept_def)
qed

lemma waitkept_leaves:
  assumes k: "waitkept s a s'" and w: "wents s a = Some w"
  shows "leaves pid tid s' b = leaves pid tid s b"
proof -
  have t: "ti_pid (thrs s' t) = ti_pid (thrs s t)" "ti_tid (thrs s' t) = ti_tid (thrs s t)" for t
    using k by (simp_all add: waitkept_def kept_def)
  show ?thesis
  proof (cases "b = a")
    case True
    obtain w' where "wents s' a = Some w'" "we_caller w' = we_caller w" using k w by (auto simp: waitkept_def same_wait_def)
    then show ?thesis using True w t by (simp add: leaves_def)
  next
    case False
    then have "wents s' b = wents s b" using k by (simp add: waitkept_def)
    then show ?thesis using t by (simp add: leaves_def split: option.split)
  qed
qed

lemma w_walk_step:
  "wents s a = Some w \<Longrightarrow> w_walk env pid tid special (Some a) s res =
     (if leaves pid tid s a then w_walk env pid tid special (we_next w) (w_free a (w_del a s)) res
      else (case check_waiter env pid tid a w s of (s1, hit) \<Rightarrow>
              w_walk env pid tid special (we_next w) s1 (res \<or> hit \<and> special = Some a)))"
  by (subst w_walk.simps) (simp add: leaves_def)

lemma wait_list_next:
  assumes "wait_list s (us @ a # vs)" "wents s a = Some w"
  shows "we_next w = (if vs = [] then None else Some (hd vs))"
  using assms wl.unlinked_seg(3) [of "wents s" _ us a vs _ w] by (auto simp: wait_list_def)

lemma unlinked_caller: "map_option we_caller (wl.unlinked h a b) = map_option we_caller (h b)"
  by (auto simp: wl.unlinked_def upd_simps option.map_comp comp_def split: option.splits)

lemma w_walk_ok:
  assumes "wait_list s (us @ vs)"
  shows "\<exists>s' r. w_walk env pid tid special (if vs = [] then None else Some (hd vs)) s res = Some (s', r)
     \<and> wait_list s' (us @ filter (\<lambda>a. \<not> leaves pid tid s a) vs) \<and> kept s s'"
  using assms
proof (induction vs arbitrary: us s res)
  case Nil
  then show ?case by (auto simp: w_walk.simps)
next
  case (Cons a vs)
  have d: "distinct (us @ a # vs)" using Cons.prems by (simp add: wait_list_def)
  obtain w where w: "wents s a = Some w" using Cons.prems wl.seg_in unfolding wait_list_def by fastforce
  note nx = wait_list_next [OF Cons.prems w]
  show ?case
  proof (cases "leaves pid tid s a")
    case True
    let ?s1 = "w_free a (w_del a s)"
    have l: "wait_list ?s1 (us @ vs)"
      using w_del_list [OF Cons.prems] d by (auto simp: wait_list_def w_free_def wl.seg_other)
    have k: "kept s ?s1"
    proof -
      have "kept (w_del a s) ?s1" by (rule kept_simple) (simp_all add: w_free_def)
      then show ?thesis using kept_del kept_trans by blast
    qed
    have lv: "leaves pid tid ?s1 b = leaves pid tid s b" if "b \<in> set vs" for b
      using that d unlinked_caller [of "wents s" a b] w_del_heap [OF w]
      by (cases "wents s b"; cases "wl.unlinked (wents s) a b") (auto simp: leaves_def w_free_def)
    obtain s' r where ih: "w_walk env pid tid special (if vs = [] then None else Some (hd vs)) ?s1 res = Some (s', r)"
      "wait_list s' (us @ filter (\<lambda>a. \<not> leaves pid tid ?s1 a) vs)" "kept ?s1 s'"
      using Cons.IH [OF l, of res] by blast
    have "filter (\<lambda>a. \<not> leaves pid tid ?s1 a) vs = filter (\<lambda>a. \<not> leaves pid tid s a) vs"
      using lv by (intro filter_cong) auto
    then show ?thesis using ih True w_walk_step [OF w] nx kept_trans [OF k] by auto
  next
    case False
    obtain s1 hit where c: "check_waiter env pid tid a w s = (s1, hit)" by fastforce
    have k: "waitkept s a s1" by (rule check_waiter_kept [OF w c])
    have l: "wait_list s1 ((us @ [a]) @ vs)" using waitkept_list [OF k Cons.prems] by simp
    have lv: "leaves pid tid s1 b = leaves pid tid s b" for b by (rule waitkept_leaves [OF k w])
    obtain s' r where ih: "w_walk env pid tid special (if vs = [] then None else Some (hd vs)) s1 (res \<or> hit \<and> special = Some a) = Some (s', r)"
      "wait_list s' ((us @ [a]) @ filter (\<lambda>a. \<not> leaves pid tid s1 a) vs)" "kept s1 s'"
      using Cons.IH [OF l] by blast
    then show ?thesis using False w_walk_step [OF w] nx c lv kept_trans [of s s1] k by (auto simp: waitkept_def)
  qed
qed

lemma w_check_ok:
  assumes "wait_list s xs"
  shows "\<exists>s' r. w_check_conditions env pid tid special s = Some (s', r)
     \<and> wait_list s' (filter (\<lambda>a. \<not> leaves pid tid s a) xs) \<and> kept s s'"
proof -
  have "we_first s = (if xs = [] then None else Some (hd xs))" using wl.seg_first [of "wents s" None "we_first s" xs "we_last s" None] assms by (simp add: wait_list_def)
  then show ?thesis using w_walk_ok [of s "[]" xs] assms by (simp add: w_check_conditions_def)
qed

end
