(* ===== verification/MtSched.thy ===== *)
theory MtSched
  imports MtWaitInv
begin

text \<open>
  \<open>mt_waitobject\<close> (\<open>mtlib/wobj.c\<close>), the choice of the next thread in \<open>switch_context\<close>
  (\<open>mtlib/sched.c\<close>) and the table of timed callbacks (\<open>callat\<close> in \<open>mtlib/mutex.c\<close>).
\<close>

section \<open>Waiting for objects\<close>

text \<open>What other modules answer: the type of a handle, the address behind a mutex or event handle (or the
  helper is not installed), queues, the clock.\<close>

record mt_calls =
  io_handletype :: "u64 \<Rightarrow> nat"
  cvtmux :: "(u64 \<Rightarrow> qserr + u32) option"
  qe_available :: "u64 \<Rightarrow> int"
  sys_clock :: u64
  tsc_100mks :: u64

abbreviation IOFT_MUTEX :: nat where "IOFT_MUTEX \<equiv> 4"
abbreviation IOFT_QUEUE :: nat where "IOFT_QUEUE \<equiv> 5"
abbreviation IOFT_EVENT :: nat where "IOFT_EVENT \<equiv> 6"

definition real_type :: "mt_calls \<Rightarrow> mt_waitentry \<Rightarrow> qserr + mt_waitentry" where
  "real_type k we =
     (if htype we = QWHT_HANDLE then
        (let ht = io_handletype k (harg we) in
         if ht = IOFT_MUTEX then Inr (we\<lparr>htype := QWHT_MUTEX\<rparr>)
         else if ht = IOFT_QUEUE then Inr (we\<lparr>htype := QWHT_QUEUE\<rparr>)
         else if ht = IOFT_EVENT then Inr (we\<lparr>htype := QWHT_EVENT\<rparr>)
         else Inl E_SYS_INVPARM)
      else Inr we)"

definition check_param :: "mt_calls \<Rightarrow> mt_state \<Rightarrow> mt_waitentry \<Rightarrow> qserr + mt_waitentry" where
  "check_param k s we0 =
     rbind (real_type k we0) (\<lambda>we.
       if QWHT_EVENT < htype we then Inl E_SYS_INVPARM
       else if htype we = QWHT_TID then
         (if we_id we \<noteq> 0 \<and> (case parent_of s (pt_current s) of None \<Rightarrow> True | Some pd \<Rightarrow> get_by_tid pd (we_id we) = None)
          then Inl E_MT_BADTID else Inr we)
       else if htype we = QWHT_PID then
         (if get_by_pid s (we_id we) \<noteq> None then Inl E_MT_BADPID else Inr we)
       else if htype we = QWHT_EVENT \<or> htype we = QWHT_MUTEX then
         (case cvtmux k of None \<Rightarrow> Inl E_SYS_UNSUPPORTED
          | Some f \<Rightarrow> rbind (f (harg we)) (\<lambda>a. Inr (we\<lparr>reserved := mk64 (hi32 (reserved we)) a\<rparr>)))
       else if htype we = QWHT_QUEUE then (if qe_available k (harg we) < 0 then Inl E_SYS_INVPARM else Inr we)
       else Inr we)"

fun check_params :: "mt_calls \<Rightarrow> mt_state \<Rightarrow> mt_waitentry list \<Rightarrow> qserr + mt_waitentry list" where
  "check_params k s [] = Inr []"
| "check_params k s (we # ws) = rbind (check_param k s we) (\<lambda>w. rbind (check_params k s ws) (\<lambda>r. Inr (w # r)))"

text \<open>Clock values become ticks, waits are counted, a child that waits for the wait is released.\<close>

definition clock_ticks :: "mt_calls \<Rightarrow> u64 \<Rightarrow> u64" where
  "clock_ticks k tme =
     (if tme < sys_clock k then 0
      else let d = (tme - sys_clock k + 50) div 100 in if d > 68719476736 then - 1 else d * tsc_100mks k)"

fun setup_entries :: "mt_calls \<Rightarrow> u64 \<Rightarrow> mt_waitentry list \<Rightarrow> mt_state \<Rightarrow> mt_waitentry list \<times> mt_state" where
  "setup_entries k now [] s = ([], s)"
| "setup_entries k now (we # ws) s =
     (if htype we = QWHT_CLOCK then
        (case setup_entries k now ws s of (r, s1) \<Rightarrow> (we\<lparr>reserved := now, harg := clock_ticks k (harg we)\<rparr> # r, s1))
      else if htype we = QWHT_MUTEX \<or> htype we = QWHT_EVENT then
        (case setup_entries k now ws (fst (mutex_wcounter (we_obj we) 1 s)) of (r, s1) \<Rightarrow> (we # r, s1))
      else if htype we = QWHT_PID then
        (case setup_entries k now ws (update_lwait (ti_pid (thrs s (pt_current s))) (we_id we) s) of (r, s1) \<Rightarrow> (we # r, s1))
      else (case setup_entries k now ws s of (r, s1) \<Rightarrow> (we # r, s1)))"

datatype waited = Refused qserr | Returned mt_state "qserr option" int | Sleeps mt_state

text \<open>The end of a wait: the result, and the entry leaves the list.\<close>

definition finish_wait :: "addr \<Rightarrow> mt_state \<Rightarrow> waited" where
  "finish_wait nwe s =
     (case wents s nwe of None \<Rightarrow> Refused E_SYS_INVOBJECT
      | Some w \<Rightarrow> Returned (w_free nwe (w_del nwe s)) (we_reterr w) (we_signaled w))"

text \<open>\<open>nwe\<close> is the address the allocation returns; \<open>None\<close> never happens on a proper list.\<close>

definition mt_waitobject :: "mt_calls \<Rightarrow> mt_env \<Rightarrow> bool \<Rightarrow> addr \<Rightarrow> mt_waitentry list option \<Rightarrow> u32 \<Rightarrow> mt_state \<Rightarrow> waited option" where
  "mt_waitobject k env mt_on nwe lst glogic s =
     (case lst of None \<Rightarrow> Some (Refused E_SYS_ZEROPTR)
      | Some ws \<Rightarrow>
        if ws = [] then Some (Refused E_SYS_INVPARM)
        else if \<not> mt_on then Some (Refused E_MT_DISABLED)
        else case check_params k s ws of Inl err \<Rightarrow> Some (Refused err)
        | Inr es \<Rightarrow>
          (case setup_entries k (env_tsc env) es s of (es1, s1) \<Rightarrow>
             let w = \<lparr>we_caller = pt_current s, we_signaled = - 1, we_reterr = None, we_clogic = glogic, we_prev = None, we_next = None,
                      we_sigf = replicate (length es1) 0, we_ents = es1\<rparr>;
                 s2 = w_add nwe (put_entry nwe w s1)
             in (case w_check_conditions env 0 0 (Some nwe) s2 of None \<Rightarrow> None
                 | Some (s3, True) \<Rightarrow> Some (finish_wait nwe s3)
                 | Some (s3, False) \<Rightarrow>
                     Some (Sleeps (s3\<lparr>thrs := (thrs s3)(pt_current s3 := (thrs s3 (pt_current s3))
                        \<lparr>ti_state := THRD_WAITING, ti_reason := THWR_WAITOBJ, ti_handle := nwe\<rparr>)\<rparr>)))))"

section \<open>The next thread\<close>

record pick =
  pk_thread :: "addr option"
  pk_zthr :: "addr option"
  pk_ethr :: "addr option"
  pk_cdiff :: u64
  pk_ediff :: u64

definition set_tlp :: "addr \<Rightarrow> bool \<Rightarrow> mt_state \<Rightarrow> mt_state" where
  "set_tlp t b s = s\<lparr>thrs := (thrs s)(t := (thrs s t)\<lparr>ti_tlp := b\<rparr>)\<rparr>"

definition schedulable :: "mt_state \<Rightarrow> addr \<Rightarrow> bool" where
  "schedulable s t \<longleftrightarrow> ti_state (thrs s t) = THRD_RUNNING \<and> \<not> ti_nosched (thrs s t)"

fun sched_scan :: "u64 \<Rightarrow> addr list \<Rightarrow> mt_state \<Rightarrow> pick \<Rightarrow> mt_state \<times> pick" where
  "sched_scan now [] s p = (s, p)"
| "sched_scan now (t # ts) s p =
     (if schedulable s t then
        (if ti_last (thrs s t) = 0 then (s, p\<lparr>pk_thread := Some t\<rparr>)
         else if ti_last (thrs s t) = now then sched_scan now ts s (p\<lparr>pk_zthr := Some t\<rparr>)
         else let tdiff = now - ti_last (thrs s t) in
           if \<not> ti_tlp (thrs s t) then
             sched_scan now ts s (if tdiff > pk_cdiff p then p\<lparr>pk_thread := Some t, pk_cdiff := tdiff\<rparr> else p)
           else
             sched_scan now ts (set_tlp t False s) (if tdiff > pk_ediff p then p\<lparr>pk_ethr := Some t, pk_ediff := tdiff\<rparr> else p))
      else sched_scan now ts s p)"

definition all_threads :: "mt_state \<Rightarrow> addr list" where
  "all_threads s = List.map_filter id (concat (map (\<lambda>p. case p of None \<Rightarrow> [] | Some pd \<Rightarrow> pi_list pd) (pid_ptrs s)))"

definition pick0 :: pick where
  "pick0 = \<lparr>pk_thread = None, pk_zthr = None, pk_ethr = None, pk_cdiff = 0, pk_ediff = 0\<rparr>"

text \<open>\<open>th\<close> is the thread that runs now, if it does not end; it is an eater when it used up more than its
  share.\<close>

definition choose_thread :: "u64 \<Rightarrow> addr option \<Rightarrow> bool \<Rightarrow> addr \<Rightarrow> mt_state \<Rightarrow> addr \<times> mt_state" where
  "choose_thread now th eater sysidle s =
     (case sched_scan now (all_threads s) s pick0 of (s1, p) \<Rightarrow>
        (case pk_thread p of Some t \<Rightarrow> t
         | None \<Rightarrow> (case pk_ethr p of Some t \<Rightarrow> t | None \<Rightarrow> (case pk_zthr p of Some t \<Rightarrow> t | None \<Rightarrow> sysidle)),
         case th of Some t \<Rightarrow> if eater then set_tlp t True s1 else s1 | None \<Rightarrow> s1))"

section \<open>Timed callbacks\<close>

record attime_entry =
  at_start :: u64
  at_diff :: u64
  at_cbf :: "addr option"
  at_usr :: addr

fun slot_for :: "addr \<Rightarrow> nat \<Rightarrow> attime_entry list \<Rightarrow> nat option \<Rightarrow> nat option" where
  "slot_for cb ci [] eidx = eidx"
| "slot_for cb ci (ate # as) eidx =
     (if at_cbf ate = None \<and> eidx = None then slot_for cb (ci + 1) as (Some ci)
      else if at_cbf ate = Some cb then Some ci else slot_for cb (ci + 1) as eidx)"

datatype at_error = E_SYS_SOFTFAULT | E_SYS_TOOLARGE

definition callat :: "mt_calls \<Rightarrow> u64 \<Rightarrow> u64 \<Rightarrow> addr \<Rightarrow> addr \<Rightarrow> attime_entry list \<Rightarrow> attime_entry list \<times> at_error option" where
  "callat k now_c at cb usr attcb =
     (case slot_for cb 0 attcb None of
        None \<Rightarrow> (attcb, Some E_SYS_SOFTFAULT)
      | Some eidx \<Rightarrow>
          if at = 0 then (attcb[eidx := (attcb ! eidx)\<lparr>at_cbf := None\<rparr>], None)
          else
            let now_t = sys_clock k;
                ate = (attcb ! eidx)\<lparr>at_start := now_c, at_cbf := Some cb, at_usr := usr\<rparr> in
            if at < now_t then (attcb[eidx := ate\<lparr>at_diff := 0\<rparr>], None)
            else
              let d = (at - now_t + 50) div 100 in
              if d > 68719476736 then (attcb[eidx := ate\<lparr>at_cbf := None, at_diff := d\<rparr>], Some E_SYS_TOOLARGE)
              else (attcb[eidx := ate\<lparr>at_diff := d * tsc_100mks k\<rparr>], None))"

end
