(* ===== verification/MtSchedSpec.thy ===== *)
theory MtSchedSpec
  imports MtSched
begin

text \<open>The scheduler chooses the thread that waits longest, a wait always ends up in one of its outcomes
  with the list in order, and no callback has two slots.\<close>

section \<open>The scan\<close>

lemma set_tlp_simps [simp]:
  "ti_state (thrs (set_tlp t b s) u) = ti_state (thrs s u)" "ti_nosched (thrs (set_tlp t b s) u) = ti_nosched (thrs s u)"
  "ti_last (thrs (set_tlp t b s) u) = ti_last (thrs s u)" "schedulable (set_tlp t b s) u = schedulable s u"
  "ti_tlp (thrs (set_tlp t b s) u) = (if u = t then b else ti_tlp (thrs s u))"
  by (simp_all add: set_tlp_def schedulable_def)

lemma scan_other:
  assumes "\<And>u. u \<in> set ts \<Longrightarrow> schedulable s' u = schedulable s u \<and> ti_last (thrs s' u) = ti_last (thrs s u) \<and> ti_tlp (thrs s' u) = ti_tlp (thrs s u)"
    and "distinct ts"
  shows "snd (sched_scan now ts s' p) = snd (sched_scan now ts s p)"
  using assms
proof (induction ts arbitrary: s s' p)
  case (Cons t ts)
  have t: "schedulable s' t = schedulable s t" "ti_last (thrs s' t) = ti_last (thrs s t)" "ti_tlp (thrs s' t) = ti_tlp (thrs s t)"
    using Cons.prems(1) [of t] by auto
  have 1: "snd (sched_scan now ts s' q) = snd (sched_scan now ts s q)" for q
    using Cons.prems by (intro Cons.IH) auto
  have 2: "snd (sched_scan now ts (set_tlp t False s') q) = snd (sched_scan now ts (set_tlp t False s) q)" for q
    using Cons.prems by (intro Cons.IH) auto
  show ?case using t 1 2 by (simp add: Let_def)
qed simp

lemma scan_tlp [simp]: "t \<notin> set ts \<Longrightarrow> distinct ts \<Longrightarrow> snd (sched_scan now ts (set_tlp t b s) p) = snd (sched_scan now ts s p)"
  by (rule scan_other) auto

text \<open>One thread, seen from the state before the scan.\<close>

definition fresh :: "mt_state \<Rightarrow> addr \<Rightarrow> bool" where
  "fresh s t \<longleftrightarrow> schedulable s t \<and> ti_last (thrs s t) = 0"

definition waiter :: "u64 \<Rightarrow> bool \<Rightarrow> mt_state \<Rightarrow> addr \<Rightarrow> bool" where
  "waiter now tlp s t \<longleftrightarrow> schedulable s t \<and> ti_last (thrs s t) \<noteq> now \<and> ti_tlp (thrs s t) = tlp"

definition waited_for :: "u64 \<Rightarrow> mt_state \<Rightarrow> addr \<Rightarrow> u64" where
  "waited_for now s t = now - ti_last (thrs s t)"

lemma scan_fresh:
  assumes "distinct (us @ t # vs)" "\<forall>u\<in>set us. \<not> fresh s u" "fresh s t"
  shows "pk_thread (snd (sched_scan now (us @ t # vs) s p)) = Some t"
  using assms
proof (induction us arbitrary: p)
  case Nil
  then show ?case by (simp add: fresh_def)
next
  case (Cons u us)
  then show ?case by (auto simp: Let_def fresh_def)
qed

definition best :: "u64 \<Rightarrow> bool \<Rightarrow> mt_state \<Rightarrow> addr list \<Rightarrow> addr option \<Rightarrow> u64 \<Rightarrow> addr option \<Rightarrow> u64 \<Rightarrow> bool" where
  "best now tlp s ts t0 d0 t1 d1 \<longleftrightarrow> d0 \<le> d1 \<and> (\<forall>u\<in>set ts. waiter now tlp s u \<longrightarrow> waited_for now s u \<le> d1)
     \<and> (t1 = t0 \<and> d1 = d0 \<or> (\<exists>u\<in>set ts. waiter now tlp s u \<and> t1 = Some u \<and> d1 = waited_for now s u))"

lemma best_refl: "best now tlp s [] t d t d"
  by (simp add: best_def)

lemma best_skip: "\<not> waiter now tlp s t \<Longrightarrow> best now tlp s ts t0 d0 t1 d1 \<Longrightarrow> best now tlp s (t # ts) t0 d0 t1 d1"
  by (auto simp: best_def)

lemma best_take:
  assumes "waiter now tlp s t"
    and "best now tlp s ts (if waited_for now s t > d0 then Some t else t0) (if waited_for now s t > d0 then waited_for now s t else d0) t1 d1"
  shows "best now tlp s (t # ts) t0 d0 t1 d1"
  using assms by (auto simp: best_def split: if_splits)

definition scanned :: "u64 \<Rightarrow> mt_state \<Rightarrow> addr list \<Rightarrow> pick \<Rightarrow> pick \<Rightarrow> bool" where
  "scanned now s ts p q \<longleftrightarrow> best now False s ts (pk_thread p) (pk_cdiff p) (pk_thread q) (pk_cdiff q)
     \<and> best now True s ts (pk_ethr p) (pk_ediff p) (pk_ethr q) (pk_ediff q)
     \<and> (pk_zthr q = pk_zthr p \<or> (\<exists>u\<in>set ts. schedulable s u \<and> ti_last (thrs s u) = now \<and> pk_zthr q = Some u))
     \<and> ((\<exists>u\<in>set ts. schedulable s u \<and> ti_last (thrs s u) = now) \<longrightarrow> pk_zthr q \<noteq> None)"

lemma scan_best:
  assumes "distinct ts" "\<forall>u\<in>set ts. \<not> fresh s u"
  shows "scanned now s ts p (snd (sched_scan now ts s p))"
  using assms
proof (induction ts arbitrary: p)
  case Nil
  then show ?case by (simp add: scanned_def best_refl)
next
  case (Cons t ts)
  have ih: "scanned now s ts q (snd (sched_scan now ts s q))" for q using Cons by simp
  have nf: "\<not> fresh s t" and d: "t \<notin> set ts" "distinct ts" using Cons.prems by auto
  show ?case
  proof (cases "schedulable s t")
    case False
    then have "\<not> waiter now b s t" for b by (simp add: waiter_def)
    then show ?thesis using ih [of p] False by (auto simp: scanned_def intro: best_skip)
  next
    case sch: True
    then have l0: "ti_last (thrs s t) \<noteq> 0" using nf by (simp add: fresh_def)
    show ?thesis
    proof (cases "ti_last (thrs s t) = now")
      case True
      then have "\<not> waiter now b s t" for b by (simp add: waiter_def)
      moreover have "sched_scan now (t # ts) s p = sched_scan now ts s (p\<lparr>pk_zthr := Some t\<rparr>)"
        using sch l0 True by auto
      moreover note ih [of "p\<lparr>pk_zthr := Some t\<rparr>"]
      ultimately show ?thesis using True sch by (auto simp: scanned_def intro: best_skip)
    next
      case ln: False
      let ?d = "waited_for now s t"
      show ?thesis
      proof (cases "ti_tlp (thrs s t)")
        case True
        let ?q = "if ?d > pk_ediff p then p\<lparr>pk_ethr := Some t, pk_ediff := ?d\<rparr> else p"
        have e: "snd (sched_scan now (t # ts) s p) = snd (sched_scan now ts s ?q)"
          using sch l0 ln True d by (auto simp: Let_def waited_for_def)
        have w: "waiter now True s t" "\<not> waiter now False s t" using sch ln True by (auto simp: waiter_def)
        have "best now True s ts (if ?d > pk_ediff p then Some t else pk_ethr p) (if ?d > pk_ediff p then ?d else pk_ediff p)
            (pk_ethr (snd (sched_scan now ts s ?q))) (pk_ediff (snd (sched_scan now ts s ?q)))"
          using ih [of ?q] by (auto simp: scanned_def)
        then have "best now True s (t # ts) (pk_ethr p) (pk_ediff p) (pk_ethr (snd (sched_scan now ts s ?q))) (pk_ediff (snd (sched_scan now ts s ?q)))"
          by (rule best_take [OF w(1)])
        moreover have "best now False s (t # ts) (pk_thread p) (pk_cdiff p) (pk_thread (snd (sched_scan now ts s ?q))) (pk_cdiff (snd (sched_scan now ts s ?q)))"
          using ih [of ?q] by (intro best_skip [OF w(2)]) (auto simp: scanned_def split: if_splits)
        moreover have "pk_zthr ?q = pk_zthr p" by simp
        ultimately show ?thesis unfolding e using ih [of ?q] ln by (auto simp: scanned_def split: if_splits)
      next
        case False
        let ?q = "if ?d > pk_cdiff p then p\<lparr>pk_thread := Some t, pk_cdiff := ?d\<rparr> else p"
        have e: "snd (sched_scan now (t # ts) s p) = snd (sched_scan now ts s ?q)"
          using sch l0 ln False d by (auto simp: Let_def waited_for_def)
        have w: "waiter now False s t" "\<not> waiter now True s t" using sch ln False by (auto simp: waiter_def)
        have "best now False s ts (if ?d > pk_cdiff p then Some t else pk_thread p) (if ?d > pk_cdiff p then ?d else pk_cdiff p)
            (pk_thread (snd (sched_scan now ts s ?q))) (pk_cdiff (snd (sched_scan now ts s ?q)))"
          using ih [of ?q] by (auto simp: scanned_def)
        then have "best now False s (t # ts) (pk_thread p) (pk_cdiff p) (pk_thread (snd (sched_scan now ts s ?q))) (pk_cdiff (snd (sched_scan now ts s ?q)))"
          by (rule best_take [OF w(1)])
        moreover have "best now True s (t # ts) (pk_ethr p) (pk_ediff p) (pk_ethr (snd (sched_scan now ts s ?q))) (pk_ediff (snd (sched_scan now ts s ?q)))"
          using ih [of ?q] by (intro best_skip [OF w(2)]) (auto simp: scanned_def split: if_splits)
        moreover have "pk_zthr ?q = pk_zthr p" by simp
        ultimately show ?thesis unfolding e using ih [of ?q] ln by (auto simp: scanned_def split: if_splits)
      qed
    qed
  qed
qed

lemma best_first:
  assumes b: "best now tlp s ts None 0 t1 d1"
  shows "t1 = None \<Longrightarrow> u \<in> set ts \<Longrightarrow> \<not> waiter now tlp s u"
    and "t1 = Some t \<Longrightarrow> t \<in> set ts \<and> waiter now tlp s t \<and> (\<forall>u\<in>set ts. waiter now tlp s u \<longrightarrow> waited_for now s u \<le> waited_for now s t)"
proof -
  show "\<not> waiter now tlp s u" if n: "t1 = None" "u \<in> set ts"
  proof
    assume w: "waiter now tlp s u"
    then have "waited_for now s u \<le> d1" "d1 = 0" using b n by (auto simp: best_def)
    then have "now - ti_last (thrs s u) = 0" by (simp add: waited_for_def)
    then show False using w by (simp add: waiter_def)
  qed
  show "t \<in> set ts \<and> waiter now tlp s t \<and> (\<forall>u\<in>set ts. waiter now tlp s u \<longrightarrow> waited_for now s u \<le> waited_for now s t)" if "t1 = Some t"
    using b that by (auto simp: best_def)
qed

section \<open>Waiting keeps the list\<close>

lemma setup_frame:
  "setup_entries k now ws s = (es, s') \<Longrightarrow> wents s' = wents s \<and> we_first s' = we_first s \<and> we_last s' = we_last s
     \<and> pt_current s' = pt_current s \<and> length es = length ws"
proof (induction k now ws s arbitrary: es s' rule: setup_entries.induct)
  case (2 k now we ws s)
  have u: "wents (update_lwait p c s) = wents s" "we_first (update_lwait p c s) = we_first s" "we_last (update_lwait p c s) = we_last s"
    "pt_current (update_lwait p c s) = pt_current s" for p c
  proof -
    have f: "wents (foldl (\<lambda>s p. case p of None \<Rightarrow> s | Some pd \<Rightarrow> lwait_off pd q s) s ps) = wents s
      \<and> we_first (foldl (\<lambda>s p. case p of None \<Rightarrow> s | Some pd \<Rightarrow> lwait_off pd q s) s ps) = we_first s
      \<and> we_last (foldl (\<lambda>s p. case p of None \<Rightarrow> s | Some pd \<Rightarrow> lwait_off pd q s) s ps) = we_last s
      \<and> pt_current (foldl (\<lambda>s p. case p of None \<Rightarrow> s | Some pd \<Rightarrow> lwait_off pd q s) s ps) = pt_current s" for ps s q
      by (induction ps arbitrary: s) (auto simp: lwait_off_def split: option.split)
    show "wents (update_lwait p c s) = wents s" "we_first (update_lwait p c s) = we_first s" "we_last (update_lwait p c s) = we_last s"
      "pt_current (update_lwait p c s) = pt_current s"
      using f [of p s "pid_ptrs s"] by (auto simp: update_lwait_def lwait_off_def split: option.split)
  qed
  consider "htype we = QWHT_CLOCK" | "htype we = QWHT_MUTEX \<or> htype we = QWHT_EVENT" | "htype we = QWHT_PID"
    | "htype we \<noteq> QWHT_CLOCK" "\<not> (htype we = QWHT_MUTEX \<or> htype we = QWHT_EVENT)" "htype we \<noteq> QWHT_PID" by blast
  then show ?case
  proof cases
    case 1
    then show ?thesis using "2.IH"(1) "2.prems" by (auto split: prod.splits)
  next
    case x: 2
    then show ?thesis using "2.IH"(2) "2.prems" by (auto split: prod.splits)
  next
    case 3
    then show ?thesis using "2.IH"(3) "2.prems" u by (auto split: prod.splits)
  next
    case 4
    then show ?thesis using "2.IH"(4) "2.prems" by (auto split: prod.splits)
  qed
qed simp

lemma finish_wait_ok:
  assumes "wait_list s (xs @ [e])"
  shows "\<exists>s' err sg. finish_wait e s = Returned s' err sg \<and> wait_list s' xs"
proof -
  obtain w where w: "wents s e = Some w" using assms wl.seg_in unfolding wait_list_def by fastforce
  have "wait_list (w_del e s) (xs @ [])" by (rule w_del_list) (use assms in simp)
  moreover have "e \<notin> set xs" using assms by (simp add: wait_list_def)
  ultimately have "wait_list (w_free e (w_del e s)) xs" by (simp add: wait_list_def w_free_def wl.seg_other)
  then show ?thesis using w by (simp add: finish_wait_def)
qed

lemma no_leaves [simp]: "leaves 0 0 s a = False"
  by (simp add: leaves_def split: option.split)

lemma waitobject_list:
  assumes l: "wait_list s xs" and f: "wents s nwe = None"
  shows "\<exists>r. mt_waitobject k env mt_on nwe lst glogic s = Some r
     \<and> (case r of Refused e \<Rightarrow> True | Returned s' err sg \<Rightarrow> wait_list s' xs
        | Sleeps s' \<Rightarrow> wait_list s' (xs @ [nwe]) \<and> ti_state (thrs s' (pt_current s)) = THRD_WAITING
            \<and> ti_handle (thrs s' (pt_current s)) = nwe)"
proof (cases "\<exists>ws es. lst = Some ws \<and> ws \<noteq> [] \<and> mt_on \<and> check_params k s ws = Inr es")
  case False
  then show ?thesis by (auto simp: mt_waitobject_def split: option.splits sum.splits)
next
  case True
  then obtain ws es where c: "lst = Some ws" "ws \<noteq> []" "mt_on" "check_params k s ws = Inr es" by blast
  obtain es1 s1 where st: "setup_entries k (env_tsc env) es s = (es1, s1)" by fastforce
  let ?w = "\<lparr>we_caller = pt_current s, we_signaled = - 1, we_reterr = None, we_clogic = glogic, we_prev = None, we_next = None,
                      we_sigf = replicate (length es1) 0, we_ents = es1\<rparr>"
  let ?s2 = "w_add nwe (put_entry nwe ?w s1)"
  note fr = setup_frame [OF st]
  have nx: "nwe \<notin> set xs" using l f wl.seg_in unfolding wait_list_def by fastforce
  have l1: "wait_list (put_entry nwe ?w s1) xs" using l fr nx by (simp add: wait_list_def put_entry_def wl.seg_other)
  have l2: "wait_list ?s2 (xs @ [nwe])" using l1 nx by (intro w_add_list) (simp_all add: put_entry_def)
  obtain s3 res where w: "w_check_conditions env 0 0 (Some nwe) ?s2 = Some (s3, res)" "wait_list s3 (xs @ [nwe])" "kept ?s2 s3"
    using w_check_ok [OF l2, of env 0 0 "Some nwe"] by auto
  have cur: "pt_current s3 = pt_current s" using w(3) fr by (simp add: kept_def w_add_def put_entry_def)
  show ?thesis
  proof (cases res)
    case True
    obtain s' err sg where "finish_wait nwe s3 = Returned s' err sg" "wait_list s' xs" using finish_wait_ok [OF w(2)] by blast
    then show ?thesis using c st w(1) True by (simp add: mt_waitobject_def Let_def)
  next
    case False
    have "wait_list (s3\<lparr>thrs := h\<rparr>) (xs @ [nwe])" for h using w(2) by (simp add: wait_list_def)
    then show ?thesis using c st w(1) False cur by (simp add: mt_waitobject_def Let_def)
  qed
qed

section \<open>Callback slots\<close>

definition slots_ok :: "attime_entry list \<Rightarrow> bool" where
  "slots_ok as \<longleftrightarrow> (\<forall>i<length as. \<forall>j<length as. at_cbf (as ! i) \<noteq> None \<longrightarrow> at_cbf (as ! i) = at_cbf (as ! j) \<longrightarrow> i = j)"

lemma slot_for_facts:
  "slot_for cb ci as e = Some i \<Longrightarrow>
     (e = Some i \<or> (ci \<le> i \<and> i < ci + length as \<and> (at_cbf (as ! (i - ci)) = None \<or> at_cbf (as ! (i - ci)) = Some cb)))
     \<and> ((\<exists>j<length as. at_cbf (as ! j) = Some cb) \<longrightarrow> ci \<le> i \<and> i < ci + length as \<and> at_cbf (as ! (i - ci)) = Some cb)"
proof (induction cb ci as e rule: slot_for.induct)
  case (2 cb ci ate as e)
  show ?case
  proof (cases "at_cbf ate = Some cb")
    case True
    then show ?thesis using 2 by auto
  next
    case False
    have ih: "slot_for cb (ci + 1) as e' = Some i" if "e' = (if at_cbf ate = None \<and> e = None then Some ci else e)" for e'
      using 2(3) False that by (auto split: if_splits)
    have main: "((if at_cbf ate = None \<and> e = None then Some ci else e) = Some i
        \<or> (ci + 1 \<le> i \<and> i < ci + 1 + length as \<and> (at_cbf (as ! (i - (ci + 1))) = None \<or> at_cbf (as ! (i - (ci + 1))) = Some cb)))
     \<and> ((\<exists>j<length as. at_cbf (as ! j) = Some cb) \<longrightarrow> ci + 1 \<le> i \<and> i < ci + 1 + length as \<and> at_cbf (as ! (i - (ci + 1))) = Some cb)"
      using 2(1,2) False 2(3) by (auto split: if_splits)
    have sh: "ci + 1 \<le> i \<Longrightarrow> (ate # as) ! (i - ci) = as ! (i - (ci + 1))" by (simp add: nth_Cons' )
    have ex: "(\<exists>j<length (ate # as). at_cbf ((ate # as) ! j) = Some cb) \<longleftrightarrow> (\<exists>j<length as. at_cbf (as ! j) = Some cb)"
      using False by (auto simp: less_Suc_eq_0_disj)
    show ?thesis using main sh ex by (auto split: if_splits)
  qed
qed simp

lemma callat_slots:
  assumes ok: "slots_ok as"
  shows "slots_ok (fst (callat k now_c at cb usr as))"
proof (cases "slot_for cb 0 as None")
  case None
  then show ?thesis using ok by (simp add: callat_def)
next
  case (Some i)
  note f = slot_for_facts [OF Some]
  have i: "i < length as" using f by auto
  have u: "\<forall>j<length as. j \<noteq> i \<longrightarrow> at_cbf (as ! j) \<noteq> Some cb"
  proof (intro allI impI notI)
    fix j assume j: "j < length as" "j \<noteq> i" "at_cbf (as ! j) = Some cb"
    then have "at_cbf (as ! i) = Some cb" using f by auto
    then show False using ok i j by (auto simp: slots_ok_def)
  qed
  have g: "slots_ok (as[i := x])" if "at_cbf x = None \<or> at_cbf x = Some cb" for x
    using that ok i u unfolding slots_ok_def by (auto simp: nth_list_update)
  show ?thesis using Some g by (auto simp: callat_def Let_def)
qed

section \<open>The choice\<close>

definition good_choice :: "u64 \<Rightarrow> mt_state \<Rightarrow> addr list \<Rightarrow> addr \<Rightarrow> bool" where
  "good_choice now s ts t \<longleftrightarrow> t \<in> set ts \<and> schedulable s t
      \<and> (if \<exists>u\<in>set ts. fresh s u then fresh s t
         else if \<exists>u\<in>set ts. waiter now False s u
           then waiter now False s t \<and> (\<forall>u\<in>set ts. waiter now False s u \<longrightarrow> waited_for now s u \<le> waited_for now s t)
         else if \<exists>u\<in>set ts. waiter now True s u
           then waiter now True s t \<and> (\<forall>u\<in>set ts. waiter now True s u \<longrightarrow> waited_for now s u \<le> waited_for now s t)
         else ti_last (thrs s t) = now)"

lemma choose_good:
  assumes d: "distinct ts" and q: "q = snd (sched_scan now ts s pick0)"
    and t: "t = (case pk_thread q of Some t \<Rightarrow> t
         | None \<Rightarrow> (case pk_ethr q of Some t \<Rightarrow> t | None \<Rightarrow> (case pk_zthr q of Some t \<Rightarrow> t | None \<Rightarrow> sysidle)))"
  shows "if \<exists>u\<in>set ts. schedulable s u then good_choice now s ts t else t = sysidle"
proof (cases "\<exists>u\<in>set ts. fresh s u")
  case True
  then obtain us u vs where sp: "ts = us @ u # vs" "fresh s u" "\<forall>x\<in>set us. \<not> fresh s x"
    using split_list_first_prop [of ts "fresh s"] by blast
  have "pk_thread q = Some u" unfolding q sp(1) using d sp by (intro scan_fresh) auto
  then have "t = u" using t by simp
  then show ?thesis using sp True by (auto simp: good_choice_def fresh_def)
next
  case nf: False
  have sc: "scanned now s ts pick0 q" unfolding q using d nf by (intro scan_best) auto
  then have b0: "best now False s ts None 0 (pk_thread q) (pk_cdiff q)" and b1: "best now True s ts None 0 (pk_ethr q) (pk_ediff q)"
    and z: "pk_zthr q = None \<or> (\<exists>u\<in>set ts. schedulable s u \<and> ti_last (thrs s u) = now \<and> pk_zthr q = Some u)"
      "(\<exists>u\<in>set ts. schedulable s u \<and> ti_last (thrs s u) = now) \<longrightarrow> pk_zthr q \<noteq> None"
    by (simp_all add: scanned_def pick0_def)
  show ?thesis
  proof (cases "pk_thread q")
    case (Some x)
    then have "t = x" using t by simp
    moreover note best_first(2) [OF b0 Some]
    moreover have "schedulable s x" using best_first(2) [OF b0 Some] by (simp add: waiter_def)
    ultimately show ?thesis using nf by (auto simp: good_choice_def)
  next
    case None
    note n0 = best_first(1) [OF b0 None]
    show ?thesis
    proof (cases "pk_ethr q")
      case (Some x)
      then have "t = x" using t None by simp
      moreover note best_first(2) [OF b1 Some]
      moreover have "schedulable s x" using best_first(2) [OF b1 Some] by (simp add: waiter_def)
      ultimately show ?thesis using nf n0 by (auto simp: good_choice_def)
    next
      case none1: None
      note n1 = best_first(1) [OF b1 none1]
      have sch: "ti_last (thrs s u) = now" if "u \<in> set ts" "schedulable s u" for u
        using n0 [OF that(1)] n1 [OF that(1)] that(2) by (cases "ti_tlp (thrs s u)") (auto simp: waiter_def)
      show ?thesis
      proof (cases "pk_zthr q")
        case (Some x)
        then have "t = x" "x \<in> set ts" "schedulable s x" "ti_last (thrs s x) = now" using t None none1 z(1) by auto
        then show ?thesis using nf n0 n1 by (auto simp: good_choice_def)
      next
        case none2: None
        then have "\<not> (\<exists>u\<in>set ts. schedulable s u)" using sch z(2) by blast
        moreover have "t = sysidle" using t None none1 none2 by simp
        ultimately show ?thesis by auto
      qed
    qed
  qed
qed

section \<open>Properties\<close>

text \<open>C22: the scheduler takes, of the threads that can run, a new one before all others; otherwise the one
  that waits longest among those that are not marked as having used up more than their share; then the
  one that waits longest of the marked ones; then one that ran just now; and the idle thread only when
  no thread can run.\<close>

theorem scheduler_choice:
  assumes "distinct (all_threads s)" "choose_thread now th eater sysidle s = (t, s')"
  shows "if \<exists>u\<in>set (all_threads s). schedulable s u then good_choice now s (all_threads s) t else t = sysidle"
proof (rule choose_good [OF assms(1) refl])
  obtain s1 p where e: "sched_scan now (all_threads s) s pick0 = (s1, p)" by fastforce
  show "t = (case pk_thread (snd (sched_scan now (all_threads s) s pick0)) of Some t \<Rightarrow> t
         | None \<Rightarrow> (case pk_ethr (snd (sched_scan now (all_threads s) s pick0)) of Some t \<Rightarrow> t
           | None \<Rightarrow> (case pk_zthr (snd (sched_scan now (all_threads s) s pick0)) of Some t \<Rightarrow> t | None \<Rightarrow> sysidle)))"
    using assms(2) unfolding choose_thread_def e snd_conv prod.case by simp
qed

definition demo_threads :: mt_state where
  "demo_threads = \<lparr>muxs = (\<lambda>_. None), evts = (\<lambda>_. None),
     thrs = (\<lambda>t. \<lparr>ti_pid = 1, ti_tid = t, ti_state = (if t = 3 then THRD_WAITING else THRD_RUNNING), ti_reason = THWR_NONE, ti_handle = 0,
        ti_first = None, ti_last = (if t = 2 then 5 else 8), ti_time = 0, ti_exit = 0, ti_session = 0, ti_signals = False,
        ti_tlp = False, ti_nosched = False\<rparr>),
     pid_ptrs = [Some \<lparr>pi_pid = 1, pi_list = [Some 1, Some 2, Some 3], pi_threads = 3, pi_lwait = False, pi_chainexit = False, pi_exit = 0\<rparr>],
     pt_current = 1, wents = (\<lambda>_. None), we_first = None, we_last = None, results = (\<lambda>_. None)\<rparr>"

lemma demo_all_threads: "all_threads demo_threads = [1, 2, 3]"
  by (simp add: all_threads_def demo_threads_def List.map_filter_simps)

theorem scheduler_choice_witness:
  "\<exists>t. fst (choose_thread 9 (Some 1) False 7 demo_threads) = t \<and> waiter 9 False demo_threads t \<and> waited_for 9 demo_threads 2 \<le> waited_for 9 demo_threads t"
proof -
  obtain t s' where c: "choose_thread 9 (Some 1) False 7 demo_threads = (t, s')" by fastforce
  have d: "distinct (all_threads demo_threads)" by (simp add: demo_all_threads)
  have w: "waiter 9 False demo_threads 2" "schedulable demo_threads 2" "\<not> fresh demo_threads 1" "\<not> fresh demo_threads 2" "\<not> fresh demo_threads 3"
    by (simp_all add: waiter_def schedulable_def fresh_def demo_threads_def)
  show ?thesis using scheduler_choice [OF d c] c w by (auto simp: good_choice_def demo_all_threads)
qed

text \<open>C23: \<open>mt_waitobject\<close> always comes to one of its outcomes. When it returns, its entry has left the
  list of waiting threads, whose order is kept; when it sleeps, its entry is the last of the list and
  the caller waits for it.\<close>

theorem waitobject_outcomes:
  assumes "wait_list s xs" "wents s nwe = None"
  shows "\<exists>r. mt_waitobject k env mt_on nwe lst glogic s = Some r
     \<and> (case r of Refused e \<Rightarrow> True | Returned s' err sg \<Rightarrow> wait_list s' xs
        | Sleeps s' \<Rightarrow> wait_list s' (xs @ [nwe]) \<and> ti_state (thrs s' (pt_current s)) = THRD_WAITING
            \<and> ti_handle (thrs s' (pt_current s)) = nwe)"
  by (rule waitobject_list [OF assms])

theorem waitobject_outcomes_witness:
  "\<exists>r. mt_waitobject \<lparr>io_handletype = (\<lambda>_. 0), cvtmux = None, qe_available = (\<lambda>_. 0), sys_clock = 0, tsc_100mks = 1\<rparr>
     \<lparr>env_tsc = 0, env_keys = (\<lambda>_. False), env_qavail = (\<lambda>_. 0)\<rparr> True 50 (Some [\<lparr>htype = 5, group = 0, harg = 0, reserved = 0\<rparr>]) 0 demo_threads = Some r"
  using waitobject_outcomes [of demo_threads "[]" 50] by (force simp: wait_list_def demo_threads_def)

end
