(* ===== verification/MtMutexSpec.thy ===== *)
theory MtMutexSpec
  imports MtMutexInv
begin

text \<open>Mutexes as their users see them: a table of owners and depths, refined by the operations, from
  every state the operations can reach.\<close>

section \<open>Release, wait counts, deletion, creation\<close>

lemma release_deeper:
  "muxs s a = Some m \<Longrightarrow> mx_owner m = Some (pt_current s) \<Longrightarrow> 1 < mx_lockcnt m \<Longrightarrow>
     mutex_release a s = (set_mux a (m\<lparr>mx_lockcnt := mx_lockcnt m - 1\<rparr>) s, None)"
  by (simp add: mutex_release_def)

lemma release_refused:
  "snd (mutex_release a s) \<noteq> None \<Longrightarrow> fst (mutex_release a s) = s"
  by (auto simp: mutex_release_def Let_def split: option.splits if_splits)

lemma release_rep:
  assumes r: "mt_rep s L"
  shows "\<exists>L'. mt_rep (fst (mutex_release a s)) L'"
proof (cases "\<exists>m. muxs s a = Some m \<and> mx_owner m = Some (pt_current s)")
  case True
  then obtain m where m: "muxs s a = Some m" "mx_owner m = Some (pt_current s)" by blast
  show ?thesis
  proof (cases "1 < mx_lockcnt m")
    case True
    have "mx_lockcnt m \<le> MUTEX_MAXLOCK" using mt_repD(2) [OF r m(1)] m(2) by (simp add: mux_ok_def)
    then have "mt_rep (set_mux a (m\<lparr>mx_lockcnt := mx_lockcnt m - 1\<rparr>) s) L"
      using True by (intro capture_deeper [OF r m]) auto
    then show ?thesis using release_deeper [OF m True] by auto
  next
    case False
    then show ?thesis using release_last(5) [OF r m] by auto
  qed
next
  case False
  then have "fst (mutex_release a s) = s" by (auto simp: mutex_release_def split: option.splits)
  then show ?thesis using r by auto
qed

lemma lock_of_unlinked:
  assumes "muxs s' = (ml.unlinked (muxs s) a)(a := v)" "\<forall>m. v = Some m \<longrightarrow> mx_owner m = None"
  shows "lock_of s' = (lock_of s)(a := None)"
proof
  fix b
  show "lock_of s' b = ((lock_of s)(a := None)) b"
    using assms unlinked_body [of "muxs s" a b]
    by (cases "muxs s b"; cases "ml.unlinked (muxs s) a b") (auto simp: lock_of_def body_def split: option.splits)
qed

lemma free_rep:
  assumes r: "mt_rep s L"
  shows "\<exists>L'. mt_rep (fst (muxev_free a force s)) L'"
    and "muxs s a \<noteq> None \<Longrightarrow> snd (muxev_free a force s) = None \<Longrightarrow> lock_of (fst (muxev_free a force s)) = (lock_of s)(a := None)"
proof -
  let ?s' = "fst (muxev_free a force s)"
  have g: "(\<exists>L'. mt_rep ?s' L') \<and> (muxs s a \<noteq> None \<longrightarrow> snd (muxev_free a force s) = None \<longrightarrow> lock_of ?s' = (lock_of s)(a := None))"
  proof (cases "muxs s a")
    case None
    then have "muxs ?s' = muxs s" "thrs ?s' = thrs s" by (auto simp: muxev_free_def split: option.splits)
    then show ?thesis using r None by (auto simp: mt_rep_def own_list_def)
  next
    case (Some m)
    show ?thesis
    proof (cases "snd (muxev_free a force s) = None")
      case False
      then have "?s' = s" using Some by (auto simp: muxev_free_def Let_def split: if_splits)
      then show ?thesis using r False by auto
    next
      case True
      show ?thesis
      proof (cases "mx_owner m")
        case None
        have s': "muxs ?s' = (muxs s)(a := None)" "thrs ?s' = thrs s"
          using Some None True by (auto simp: muxev_free_def Let_def split: if_splits)
        have "own_list ?s' u (L u)" for u
          using mt_repD(1) [OF r] s' Some None by (subst own_list_cong [where s = s]) auto
        then have "mt_rep ?s' L" using mt_repD(2) [OF r] s' by (auto simp: mt_rep_def split: if_splits)
        then show ?thesis using s' by (auto simp: lock_of_def fun_eq_iff)
      next
        case own: (Some t)
        have s': "muxs ?s' = (ml.unlinked (muxs s) a)(a := None)" "thrs ?s' = thrs (mutex_unlink a s)"
          using Some own True by (auto simp: muxev_free_def Let_def unlink_muxs split: if_splits)
        show ?thesis using unlink_rep [OF r Some own s'] lock_of_unlinked [OF s'(1)] by auto
      qed
    qed
  qed
  then show "\<exists>L'. mt_rep ?s' L'" by blast
  show "muxs s a \<noteq> None \<Longrightarrow> snd (muxev_free a force s) = None \<Longrightarrow> lock_of ?s' = (lock_of s)(a := None)" using g by blast
qed

lemma create_rep:
  assumes r: "mt_rep s L" and f: "muxs s rc = None"
  shows "\<exists>L'. mt_rep (muxev_create rc sft ev sig s) L'"
proof (cases ev)
  case True
  then show ?thesis using r by (auto simp: muxev_create_def mt_rep_def own_list_def)
next
  case False
  let ?m = "\<lparr>mx_sft = sft, mx_owner = None, mx_prev = None, mx_next = None, mx_lockcnt = 0, mx_waitcnt = 0\<rparr>"
  let ?s1 = "set_mux rc ?m s"
  have "own_list ?s1 u (L u)" for u
    using mt_repD(1) [OF r] f by (subst own_list_cong [where s = s]) (auto simp: set_mux_def)
  then have "mt_rep ?s1 L" using mt_repD(2) [OF r] by (auto simp: mt_rep_def set_mux_def mux_ok_def)
  then show ?thesis using False capture_rep [of ?s1 L rc "pt_current s"] by (cases sig) (auto simp: muxev_create_def Let_def)
qed

section \<open>The end of a thread\<close>

lemma release_all_current:
  assumes "mt_rep s L" "pt_current s = th"
  shows "\<exists>s'. mutex_release_all th s = Some (Inr s') \<and> mt_rep s' (L(th := [])) \<and> pt_current s' = th
    \<and> lock_of s' = (\<lambda>a. if a \<in> set (L th) then None else lock_of s a)"
  using assms
proof (induction "L th" arbitrary: s L)
  case Nil
  then have "ti_first (thrs s th) = None" using rep_first [of s L th] by simp
  moreover have "L(th := []) = L" using Nil by auto
  ultimately show ?case using Nil by (auto simp: mutex_release_all.simps)
next
  case (Cons a as)
  have f: "ti_first (thrs s th) = Some a" using rep_first [OF Cons.prems(1), of th] Cons.hyps(2) by (metis list.distinct(1) list.sel(1))
  have "a \<in> set (L th)" using Cons.hyps(2) by (metis list.set_intros(1))
  then obtain m where m: "muxs s a = Some m" "mx_owner m = Some th" using mt_repD(3) [OF Cons.prems(1)] by blast
  define s1 where "s1 = (if 1 < mx_lockcnt m then set_mux a (m\<lparr>mx_lockcnt := 1\<rparr>) s else s)"
  have r1: "mt_rep s1 L" using Cons.prems(1) capture_deeper [OF Cons.prems(1) m, of 1] by (simp add: s1_def MUTEX_MAXLOCK_def)
  have c1: "pt_current s1 = th" using Cons.prems by (simp add: s1_def set_mux_def)
  obtain m1 where m1: "muxs s1 a = Some m1" "mx_owner m1 = Some (pt_current s1)" "mx_lockcnt m1 \<le> 1"
    using m c1 by (auto simp: s1_def set_mux_def split: if_splits)
  note rl = release_last [OF r1 m1]
  let ?s2 = "fst (mutex_release a s1)"
  have L2: "L(pt_current s1 := remove1 a (L (pt_current s1))) = L(th := as)"
    using c1 Cons.hyps(2) by (metis remove1.simps(2))
  have r2: "mt_rep ?s2 (L(th := as))" using rl(5) unfolding L2 .
  have ih: "\<exists>s'. mutex_release_all th ?s2 = Some (Inr s') \<and> mt_rep s' ((L(th := as))(th := [])) \<and> pt_current s' = th
    \<and> lock_of s' = (\<lambda>b. if b \<in> set ((L(th := as)) th) then None else lock_of ?s2 b)"
    using Cons.hyps(1) [of "L(th := as)" ?s2] r2 rl(4) c1 by simp
  have e: "mutex_release_all th s = mutex_release_all th ?s2"
    using f m by (subst mutex_release_all.simps) (simp add: s1_def)
  have "lock_of ?s2 = (lock_of s1)(a := None)" by (rule lock_of_unlinked [OF rl(2)]) simp
  moreover have "b \<noteq> a \<Longrightarrow> lock_of s1 b = lock_of s b" for b by (simp add: s1_def set_mux_def lock_of_def)
  moreover have "set (L th) = insert a (set as)" using Cons.hyps(2) by (metis list.simps(15))
  ultimately show ?case using ih e by (auto simp: fun_eq_iff)
qed

lemma release_all_foreign:
  assumes "mutex_release_all th s = Some y"
  shows "(\<exists>L. mt_rep s L) \<and> pt_current s \<noteq> th \<longrightarrow> ti_first (thrs s th) = None"
proof (rule mutex_release_all.raw_induct [OF _ assms], intro impI, elim conjE exE)
  fix rec th s y L
  assume ih: "\<And>th s y. rec th s = Some y \<Longrightarrow> (\<exists>L. mt_rep s L) \<and> pt_current s \<noteq> th \<longrightarrow> ti_first (thrs s th) = None"
    and body: "(case ti_first (thrs s th) of None \<Rightarrow> Some (Inr s)
      | Some a \<Rightarrow>
        (case muxs s a of None \<Rightarrow> Some (Inl ())
         | Some mx \<Rightarrow>
           if mx_owner mx \<noteq> Some th then Some (Inl ())
           else rec th
             (fst (mutex_release a (if 1 < mx_lockcnt mx then set_mux a (mx\<lparr>mx_lockcnt := 1\<rparr>) s else s))))) = Some y"
    and r: "mt_rep s L" and c: "pt_current s \<noteq> th"
  show "ti_first (thrs s th) = None"
  proof (rule ccontr)
    assume "ti_first (thrs s th) \<noteq> None"
    then obtain a where a: "ti_first (thrs s th) = Some a" by blast
    then have "a \<in> set (L th)" using rep_first [OF r, of th] by (auto split: if_splits)
    then obtain m where m: "muxs s a = Some m" "mx_owner m = Some th" using mt_repD(3) [OF r] by blast
    define s1 where "s1 = (if 1 < mx_lockcnt m then set_mux a (m\<lparr>mx_lockcnt := 1\<rparr>) s else s)"
    have r1: "mt_rep s1 L" using r capture_deeper [OF r m, of 1] by (simp add: s1_def MUTEX_MAXLOCK_def)
    have c1: "pt_current s1 \<noteq> th" "thrs s1 = thrs s" using c by (auto simp: s1_def set_mux_def)
    have "\<exists>m1. muxs s1 a = Some m1 \<and> mx_owner m1 = Some th" using m by (auto simp: s1_def set_mux_def)
    then have f: "fst (mutex_release a s1) = s1" using c1 by (auto simp: mutex_release_def)
    have "rec th (fst (mutex_release a s1)) = Some y" using body a m by (simp add: s1_def)
    then have "ti_first (thrs s1 th) = None" using ih [of th s1 y] f r1 c1 by auto
    then show False using c1 a by simp
  qed
qed

section \<open>States that can be reached\<close>

inductive mt_step :: "mt_state \<Rightarrow> mt_state \<Rightarrow> bool" where
  create: "muxs s rc = None \<Longrightarrow> evts s rc = None \<Longrightarrow> mt_step s (muxev_create rc sft ev sig s)"
| capture: "mt_step s (fst (mutex_capture a t s))"
| release: "mt_step s (fst (mutex_release a s))"
| wcounter: "mt_step s (fst (mutex_wcounter a i s))"
| free: "mt_step s (fst (muxev_free a force s))"
| switch: "mt_step s (s\<lparr>pt_current := t\<rparr>)"
| exit: "mutex_release_all (pt_current s) s = Some (Inr s') \<Longrightarrow> mt_step s s'"

inductive_cases mt_stepE: "mt_step s s'"

inductive mt_reach :: "mt_state \<Rightarrow> bool" where
  start: "muxs s = (\<lambda>_. None) \<Longrightarrow> (\<forall>t. ti_first (thrs s t) = None) \<Longrightarrow> mt_reach s"
| step: "mt_reach s \<Longrightarrow> mt_step s s' \<Longrightarrow> mt_reach s'"

lemma step_rep: "mt_step s s' \<Longrightarrow> \<exists>L. mt_rep s L \<Longrightarrow> \<exists>L'. mt_rep s' L'"
proof (induction rule: mt_step.induct)
  case (exit s s')
  then obtain L where r: "mt_rep s L" by blast
  show ?case using release_all_current [OF r refl] exit.hyps by auto
next
  case (switch s t)
  then show ?case by (auto simp: mt_rep_def own_list_def)
qed (blast intro: create_rep capture_rep release_rep wcounter_rep(1) free_rep(1))+

lemma reach_rep: "mt_reach s \<Longrightarrow> \<exists>L. mt_rep s L"
proof (induction rule: mt_reach.induct)
  case (start s)
  then have "mt_rep s (\<lambda>_. [])" by (auto simp: mt_rep_def own_list_def)
  then show ?case by blast
next
  case (step s s')
  then show ?case using step_rep by blast
qed

section \<open>Properties\<close>

text \<open>Abstract locks: who owns a mutex, and how deep.\<close>

type_synonym locks = "addr \<Rightarrow> (addr \<times> nat) option"

definition a_capture :: "addr \<Rightarrow> addr \<Rightarrow> locks \<Rightarrow> locks \<times> qserr option" where
  "a_capture a t T =
     (case T a of None \<Rightarrow> (T(a \<mapsto> (t, 1)), None)
      | Some (u, n) \<Rightarrow> if u \<noteq> t then (T, Some E_MT_SEMBUSY)
          else if MUTEX_MAXLOCK \<le> n then (T, Some E_MT_LOCKLIMIT) else (T(a \<mapsto> (t, n + 1)), None))"

definition a_release :: "addr \<Rightarrow> addr \<Rightarrow> locks \<Rightarrow> locks \<times> qserr option" where
  "a_release a t T =
     (case T a of None \<Rightarrow> (T, Some E_MT_NOTOWNER)
      | Some (u, n) \<Rightarrow> if u \<noteq> t then (T, Some E_MT_NOTOWNER)
          else (if 1 < n then T(a \<mapsto> (u, n - 1)) else T(a := None), None))"

lemma capture_refines:
  assumes r: "mt_rep s L" and m: "muxs s a \<noteq> None"
  shows "map_prod lock_of id (mutex_capture a t s) = a_capture a t (lock_of s)"
proof (cases "snd (mutex_capture a t s)")
  case None
  then obtain s1 where e: "mutex_capture a t s = (s1, None)" by (metis prod.collapse)
  have "lock_of s1 = (lock_of s)(a \<mapsto> (t, case lock_of s a of None \<Rightarrow> 1 | Some (u, n) \<Rightarrow> n + 1))"
    by (rule capture_locks(1) [OF r m e])
  then show ?thesis using capture_locks(2) [OF r m, of t] None
    unfolding e by (auto simp: a_capture_def split: option.splits if_splits)
next
  case (Some x)
  then have "mutex_capture a t s = (s, Some x)" using capture_locks(3) [OF r m, of t] by (metis option.distinct(1) prod.collapse)
  then show ?thesis using capture_locks(2) [OF r m, of t] by (auto simp: a_capture_def split: option.splits if_splits)
qed

lemma release_refines:
  assumes r: "mt_rep s L" and m: "muxs s a \<noteq> None"
  shows "map_prod lock_of id (mutex_release a s) = a_release a (pt_current s) (lock_of s)"
proof -
  obtain mx where mx: "muxs s a = Some mx" using m by blast
  show ?thesis
  proof (cases "mx_owner mx = Some (pt_current s)")
    case own: True
    show ?thesis
    proof (cases "1 < mx_lockcnt mx")
      case True
      then show ?thesis using release_deeper [OF mx own] mx own
        by (auto simp: a_release_def lock_of_def set_mux_def fun_eq_iff)
    next
      case False
      note rl = release_last [OF r mx own]
      have "lock_of (fst (mutex_release a s)) = (lock_of s)(a := None)"
        using rl(2) False by (intro lock_of_unlinked) auto
      moreover obtain s1 where e: "mutex_release a s = (s1, None)" using rl(1) False by fastforce
      ultimately show ?thesis unfolding e using False mx own by (auto simp: a_release_def lock_of_def)
    qed
  next
    case False
    then show ?thesis using mx by (auto simp: mutex_release_def a_release_def lock_of_def split: option.split)
  qed
qed

definition mt_demo :: mt_state where
  "mt_demo = \<lparr>muxs = (\<lambda>_. None), evts = (\<lambda>_. None),
     thrs = (\<lambda>t. \<lparr>ti_pid = 1, ti_tid = t, ti_state = THRD_RUNNING, ti_reason = THWR_NONE, ti_handle = 0, ti_first = None,
        ti_last = 1, ti_time = 0, ti_exit = 0, ti_session = 0, ti_signals = False, ti_tlp = False, ti_nosched = False\<rparr>),
     pid_ptrs = [], pt_current = 1, wents = (\<lambda>_. None), we_first = None, we_last = None, results = (\<lambda>_. None)\<rparr>"

lemma mt_demo_reach: "mt_reach (muxev_create 100 7 False True mt_demo)"
  by (rule mt_reach.step [OF mt_reach.start mt_step.create]) (simp_all add: mt_demo_def)

lemma mt_demo_mux:
  "muxs (muxev_create 100 7 False True mt_demo) 100 = Some \<lparr>mx_sft = 7, mx_owner = Some 1, mx_prev = None, mx_next = None,
     mx_lockcnt = 1, mx_waitcnt = 0\<rparr>"
  "pt_current (muxev_create 100 7 False True mt_demo) = 1"
  by (simp_all add: mt_demo_def muxev_create_def mutex_capture_def set_mux_def set_first_def upd_opt_def)

text \<open>C16: in every reachable state capture and release of a mutex are the abstract operations on the
  table of owners and depths: a free mutex is taken, the owner goes deeper up to the limit, everybody
  else is refused; the owner's last release frees it, nobody else can.\<close>

theorem mutex_refines:
  assumes "mt_reach s" "muxs s a \<noteq> None"
  shows "map_prod lock_of id (mutex_capture a t s) = a_capture a t (lock_of s)
    \<and> map_prod lock_of id (mutex_release a s) = a_release a (pt_current s) (lock_of s)"
proof -
  obtain L where r: "mt_rep s L" using reach_rep [OF assms(1)] by blast
  show ?thesis using capture_refines [OF r assms(2)] release_refines [OF r assms(2)] by blast
qed

theorem mutex_refines_witness:
  "map_prod lock_of id (mutex_release 100 (muxev_create 100 7 False True mt_demo))
     = a_release 100 1 (lock_of (muxev_create 100 7 False True mt_demo))"
  using mutex_refines [OF mt_demo_reach, of 100] mt_demo_mux by simp

text \<open>C17: in every reachable state each thread heads a doubly linked list of exactly the mutexes it
  owns, each once, with depths between 1 and the limit; free mutexes are in no list.\<close>

theorem mutex_lists_invariant:
  assumes "mt_reach s"
  shows "\<exists>L. (\<forall>t. distinct (L t) \<and> (\<exists>l. ml.seg (muxs s) None (ti_first (thrs s t)) (L t) l None)
        \<and> (\<forall>a. a \<in> set (L t) \<longleftrightarrow> (\<exists>m. muxs s a = Some m \<and> mx_owner m = Some t)))
     \<and> (\<forall>a m. muxs s a = Some m \<longrightarrow> (case mx_owner m of None \<Rightarrow> mx_lockcnt m = 0 \<and> mx_prev m = None \<and> mx_next m = None
          | Some _ \<Rightarrow> 0 < mx_lockcnt m \<and> mx_lockcnt m \<le> MUTEX_MAXLOCK))"
proof -
  obtain L where "mt_rep s L" using reach_rep [OF assms] by blast
  then show ?thesis by (intro exI [of _ L]) (simp add: mt_rep_def own_list_def mux_ok_def)
qed

theorem mutex_lists_invariant_witness:
  "\<exists>L. 100 \<in> set (L (1::addr)) \<and> (\<exists>l. ml.seg (muxs (muxev_create 100 7 False True mt_demo)) None
     (ti_first (thrs (muxev_create 100 7 False True mt_demo) 1)) (L 1) l None)"
  using mutex_lists_invariant [OF mt_demo_reach] mt_demo_mux(1) by force

text \<open>C18: when a thread ends, the loop that releases its mutexes comes to an end without a panic and
  leaves all of them free and all others as they were. For a thread that is not the current one and
  owns a mutex the loop would never end.\<close>

theorem release_all_terminates:
  assumes "mt_reach s"
  shows "(\<exists>s'. mutex_release_all (pt_current s) s = Some (Inr s')
        \<and> (\<forall>a. lock_of s' a = (case lock_of s a of Some (t, n) \<Rightarrow> if t = pt_current s then None else Some (t, n) | None \<Rightarrow> None)))
    \<and> (\<forall>th a n. th \<noteq> pt_current s \<longrightarrow> lock_of s a = Some (th, n) \<longrightarrow> mutex_release_all th s = None)"
proof -
  obtain L where r: "mt_rep s L" using reach_rep [OF assms] by blast
  have own: "lock_of s a = Some (t, n) \<Longrightarrow> a \<in> set (L t)" for a t n
    using mt_repD(3) [OF r, of a t] by (auto simp: lock_of_def split: option.splits)
  have nown: "a \<in> set (L t) \<Longrightarrow> \<exists>n. lock_of s a = Some (t, n)" for a t
    using mt_repD(3) [OF r, of a t] by (auto simp: lock_of_def)
  obtain s' where s': "mutex_release_all (pt_current s) s = Some (Inr s')"
    "lock_of s' = (\<lambda>a. if a \<in> set (L (pt_current s)) then None else lock_of s a)"
    using release_all_current [OF r refl] by blast
  have "lock_of s' a = (case lock_of s a of Some (t, n) \<Rightarrow> if t = pt_current s then None else Some (t, n) | None \<Rightarrow> None)" for a
    using own [of a] nown [of a "pt_current s"] s'(2) by (auto split: option.splits)
  moreover have "mutex_release_all th s = None" if "th \<noteq> pt_current s" "lock_of s a = Some (th, n)" for th a n
  proof (rule ccontr)
    assume "mutex_release_all th s \<noteq> None"
    then have "ti_first (thrs s th) = None" using release_all_foreign [of th s] r that(1) by auto
    then show False using rep_first [OF r, of th] own [OF that(2)] by (auto split: if_splits)
  qed
  ultimately show ?thesis using s'(1) by blast
qed

theorem release_all_terminates_witness:
  "\<exists>s'. mutex_release_all 1 (muxev_create 100 7 False True mt_demo) = Some (Inr s') \<and> lock_of s' 100 = None"
  using release_all_terminates [OF mt_demo_reach] mt_demo_mux by (auto simp: lock_of_def)

end
