(* ===== verification/MtWaitSpec.thy ===== *)
theory MtWaitSpec
  imports MtWaitInv MtMutexSpec
begin

text \<open>What waiting promises: the meaning of the groups, the end of every check, and that a free mutex
  goes to the thread that waits longest.\<close>

section \<open>Groups\<close>

definition is_hit :: "u32 \<Rightarrow> u32 \<times> u8 \<Rightarrow> bool" where
  "is_hit cl e \<longleftrightarrow> snd e \<noteq> 0 \<and> (fst e = 0 \<or> fst e AND NOT cl \<noteq> 0)"

definition and_left :: "u32 \<Rightarrow> u32 \<Rightarrow> (u32 \<times> u8) list \<Rightarrow> u32" where
  "and_left cl gs es = foldl (\<lambda>gs e. if snd e = 0 then gs AND NOT (fst e AND cl) else gs) gs es"

lemma m_or_eq: "(g::u32) XOR (g AND cl) = g AND NOT cl"
  by (rule bit_word_eqI) (auto simp: bit_simps)

lemma and_left_Cons: "and_left cl gs (e # es) = and_left cl (and_left cl gs [e]) es"
  by (simp add: and_left_def)

lemma and_left_Nil [simp]: "and_left cl gs [] = gs"
  by (simp add: and_left_def)

lemma scan_step:
  assumes "\<not> is_hit cl x"
  shows "group_scan cl (x # es) gs onf = group_scan cl es (and_left cl gs [x]) (onf OR snd x)"
proof -
  obtain h o1 where x: "x = (h, o1)" by (cases x)
  have z: "h = 0 \<Longrightarrow> and_left cl gs [x] = gs" by (simp add: and_left_def x)
  show ?thesis
  proof (cases "o1 = 0")
    case True
    then show ?thesis using z by (auto simp: x and_left_def Let_def)
  next
    case False
    then have "h \<noteq> 0" "h AND NOT cl = 0" using assms by (auto simp: is_hit_def x)
    then show ?thesis using False by (simp add: x and_left_def Let_def m_or_eq)
  qed
qed

lemma scan_nohit:
  "\<forall>e\<in>set es. \<not> is_hit cl e \<Longrightarrow> \<exists>onf'. group_scan cl es gs onf = (False, and_left cl gs es, onf')"
proof (induction es arbitrary: gs onf)
  case (Cons x es)
  then show ?case by (simp add: scan_step and_left_Cons [of cl gs x es])
qed simp

lemma scan_hit:
  assumes "\<forall>e\<in>set us. \<not> is_hit cl e" "is_hit cl (g, on)"
  shows "\<exists>onf'. group_scan cl (us @ (g, on) # vs) gs onf
     = (if g = 0 then (True, and_left cl gs us, onf') else (False, and_left cl gs us OR (g AND NOT cl), onf'))"
  using assms
proof (induction us arbitrary: gs onf)
  case Nil
  then show ?case by (auto simp: is_hit_def Let_def m_or_eq)
next
  case (Cons x us)
  have "group_scan cl ((x # us) @ (g, on) # vs) gs onf = group_scan cl (us @ (g, on) # vs) (and_left cl gs [x]) (onf OR snd x)"
    using Cons.prems by (simp add: scan_step)
  moreover have "\<forall>e\<in>set us. \<not> is_hit cl e" using Cons.prems(1) by simp
  ultimately show ?case using Cons.IH [of "and_left cl gs [x]" "onf OR snd x"] Cons.prems(2)
    by (simp only: and_left_Cons [of cl gs x us] simp_thms)
qed

lemma bit_and_left: "k < 32 \<Longrightarrow> bit (and_left cl gs es) k \<longleftrightarrow> bit gs k \<and> \<not> (\<exists>e\<in>set es. snd e = 0 \<and> bit (fst e) k \<and> bit cl k)"
proof (induction es arbitrary: gs)
  case (Cons e es)
  have "and_left cl gs (e # es) = and_left cl (if snd e = 0 then gs AND NOT (fst e AND cl) else gs) es"
    by (simp add: and_left_def)
  then show ?case using Cons.IH [OF Cons.prems] Cons.prems by (auto simp: bit_simps)
qed (simp add: and_left_def)

definition sat_group :: "u32 \<Rightarrow> (u32 \<times> u8) list \<Rightarrow> nat \<Rightarrow> bool" where
  "sat_group cl es k \<longleftrightarrow> (if bit cl k then \<forall>e\<in>set es. bit (fst e) k \<longrightarrow> snd e \<noteq> 0 else \<exists>e\<in>set es. bit (fst e) k \<and> snd e \<noteq> 0)"

definition ungrouped :: "(u32 \<times> u8) list \<Rightarrow> bool" where
  "ungrouped es \<longleftrightarrow> (\<exists>e\<in>set es. fst e = 0 \<and> snd e \<noteq> 0)"

text \<open>Members of AND groups stand before everything else.\<close>

definition ands_first :: "u32 \<Rightarrow> (u32 \<times> u8) list \<Rightarrow> bool" where
  "ands_first cl es \<longleftrightarrow> (\<exists>us vs. es = us @ vs \<and> (\<forall>e\<in>set us. fst e \<noteq> 0 \<and> fst e AND NOT cl = 0) \<and> (\<forall>e\<in>set vs. fst e AND cl = 0))"

lemma bsf_from_bit: "x \<noteq> 0 \<Longrightarrow> (\<forall>j<i. \<not> bit x j) \<Longrightarrow> i + k = 32 \<Longrightarrow> bit x (bsf_from k i x) \<and> bsf_from k i x < 32"
proof (induction k i x rule: bsf_from.induct)
  case (1 i x)
  have "\<not> bit x j" for j using 1 by (cases "j < 32") (auto simp: not_le dest: bit_imp_le_length)
  then have "x = 0" by (intro bit_word_eqI) simp
  then show ?case using 1 by simp
next
  case (2 k i x)
  then show ?case by (auto simp: less_Suc_eq)
qed

lemma bsf_from_numeral:
  "bsf_from (numeral n) i x = (if bit x i then i else bsf_from (pred_numeral n) (Suc i) x)"
  by (simp add: numeral_eq_Suc)

lemma bsf32_bit: "x \<noteq> 0 \<Longrightarrow> bit x (bsf32 x) \<and> bsf32 x < 32"
  by (simp add: bsf32_def bsf_from_bit)

lemma group_result_ok:
  assumes r: "group_result cl es = (sg, onf)"
  shows "sg < 0 \<Longrightarrow> \<not> ungrouped es \<and> (\<forall>k<32. \<not> sat_group cl es k)"
    and "sg = 0 \<Longrightarrow> ungrouped es"
    and "0 < sg \<Longrightarrow> ands_first cl es \<Longrightarrow> sg \<le> 32 \<and> sat_group cl es (nat sg - 1)"
proof -
  have main: "(sg < 0 \<longrightarrow> \<not> ungrouped es \<and> (\<forall>k<32. \<not> sat_group cl es k)) \<and> (sg = 0 \<longrightarrow> ungrouped es)
     \<and> (0 < sg \<longrightarrow> ands_first cl es \<longrightarrow> sg \<le> 32 \<and> sat_group cl es (nat sg - 1))"
  proof (cases "\<forall>e\<in>set es. \<not> is_hit cl e")
    case True
    obtain onf' where s: "group_scan cl es cl 0 = (False, and_left cl cl es, onf')" using scan_nohit [OF True] by blast
    let ?gs = "and_left cl cl es"
    have sg: "sg = (if ?gs \<noteq> 0 then int (bsf32 ?gs) + 1 else - 1)" using r s by (auto simp: group_result_def)
    have nu: "\<not> ungrouped es" using True by (auto simp: ungrouped_def is_hit_def)
    have noor: "bit (fst e) k \<Longrightarrow> snd e \<noteq> 0 \<Longrightarrow> e \<in> set es \<Longrightarrow> k < 32 \<Longrightarrow> bit cl k" for e k
    proof (rule ccontr)
      assume e: "bit (fst e) k" "snd e \<noteq> 0" "e \<in> set es" "k < 32" "\<not> bit cl k"
      then have "fst e AND NOT cl = 0" using True by (auto simp: is_hit_def)
      then have "\<not> bit (fst e AND NOT cl) k" by simp
      then show False using e by (simp add: bit_simps)
    qed
    have sat: "sat_group cl es k \<longleftrightarrow> bit ?gs k" if "k < 32" for k
      using bit_and_left [OF that, of cl cl es] noor that by (auto simp: sat_group_def)
    show ?thesis
    proof (cases "?gs = 0")
      case True
      then show ?thesis using sg nu sat by auto
    next
      case False
      then show ?thesis using sg bsf32_bit [OF False] sat by (auto simp: nat_add_distrib)
    qed
  next
    case False
    then obtain us e vs where sp: "es = us @ e # vs" "is_hit cl e" "\<forall>x\<in>set us. \<not> is_hit cl x"
      using split_list_first_prop [of es "is_hit cl"] by blast
    obtain g on where e: "e = (g, on)" by (cases e)
    have on: "on \<noteq> 0" using sp(2) e by (simp add: is_hit_def)
    obtain onf' where s: "group_scan cl es cl 0
     = (if g = 0 then (True, and_left cl cl us, onf') else (False, and_left cl cl us OR (g AND NOT cl), onf'))"
      using scan_hit [OF sp(3), of g on vs cl 0] sp(1,2) e by auto
    show ?thesis
    proof (cases "g = 0")
      case True
      then have "sg = 0" using r s by (simp add: group_result_def)
      moreover have "ungrouped es" using True on sp(1) e by (force simp: ungrouped_def)
      ultimately show ?thesis by simp
    next
      case g: False
      let ?gs = "and_left cl cl us OR (g AND NOT cl)"
      have "g AND NOT cl \<noteq> 0" using sp(2) e g by (simp add: is_hit_def)
      then have gs: "?gs \<noteq> 0" by (metis or_eq_0_iff)
      then have sg: "sg = int (bsf32 ?gs) + 1" using r s g by (simp add: group_result_def)
      have b: "bit ?gs (bsf32 ?gs)" "bsf32 ?gs < 32" using bsf32_bit [OF gs] by auto
      let ?k = "bsf32 ?gs"
      have "sat_group cl es ?k" if af: "ands_first cl es"
      proof (cases "bit cl ?k")
        case False
        then have "bit g ?k" using b bit_and_left [OF b(2), of cl cl us] by (auto simp: bit_simps)
        then show ?thesis using False on sp(1) e by (force simp: sat_group_def)
      next
        case True
        then have bl: "bit (and_left cl cl us) ?k" using b by (auto simp: bit_simps)
        obtain as os where ao: "es = as @ os" "\<forall>e\<in>set as. fst e \<noteq> 0 \<and> fst e AND NOT cl = 0" "\<forall>e\<in>set os. fst e AND cl = 0"
          using af by (auto simp: ands_first_def)
        have "length as \<le> length us"
        proof (rule ccontr)
          assume "\<not> length as \<le> length us"
          then have "e \<in> set as" using sp(1) ao(1) by (metis append_eq_append_conv2 append_self_conv in_set_conv_decomp le_refl length_append nat_le_linear list.sel(1) append_eq_conv_conj nth_append_length nth_mem nth_append not_less)
          then show False using ao(2) sp(2) by (auto simp: is_hit_def)
        qed
        then have os: "set (e # vs) \<subseteq> set os"
          using sp(1) ao(1) by (auto simp: append_eq_append_conv_if split: if_splits)
        have "snd x \<noteq> 0" if x: "x \<in> set es" "bit (fst x) ?k" for x
        proof (cases "x \<in> set us")
          case True
          then show ?thesis using bit_and_left [OF b(2), of cl cl us] bl x \<open>bit cl ?k\<close> by auto
        next
          case False
          then have "x \<in> set os" using x(1) sp(1) os by auto
          then have "fst x AND cl = 0" using ao(3) by blast
          then have "\<not> bit (fst x AND cl) ?k" by simp
          then show ?thesis using x(2) True b(2) by (simp add: bit_simps)
        qed
        then show ?thesis using True by (simp add: sat_group_def)
      qed
      then show ?thesis using sg b(2) by (auto simp: nat_add_distrib)
    qed
  qed
  show "sg < 0 \<Longrightarrow> \<not> ungrouped es \<and> (\<forall>k<32. \<not> sat_group cl es k)" "sg = 0 \<Longrightarrow> ungrouped es"
    "0 < sg \<Longrightarrow> ands_first cl es \<Longrightarrow> sg \<le> 32 \<and> sat_group cl es (nat sg - 1)" using main by blast+
qed

section \<open>A free mutex goes to the first thread of the list\<close>

text \<open>The wait list entry of a thread that waits for one ungrouped mutex only.\<close>

definition waits_for :: "mt_state \<Rightarrow> addr \<Rightarrow> addr \<Rightarrow> addr \<Rightarrow> bool" where
  "waits_for s a t m \<longleftrightarrow> (\<exists>w e. wents s a = Some w \<and> we_caller w = t \<and> we_signaled w < 0 \<and> we_ents w = [e] \<and> we_sigf w = [0]
     \<and> we_clogic w = 0 \<and> group e = 0 \<and> htype e = QWHT_MUTEX \<and> we_obj e = m)
     \<and> ti_state (thrs s t) = THRD_WAITING \<and> ti_reason (thrs s t) = THWR_WAITOBJ \<and> ti_handle (thrs s t) = a"

lemma first_gets:
  assumes r: "mt_rep s L" and m: "muxs s m \<noteq> None" "lock_of s m = None"
    and w: "waits_for s a t m" "wents s a = Some w" and p: "parent_of s t = Some pd"
    and c: "check_waiter env 0 0 a w s = (s', hit)"
  shows "lock_of s' m = Some (t, 1) \<and> ti_state (thrs s' t) = THRD_RUNNING \<and> (\<exists>w'. wents s' a = Some w' \<and> we_signaled w' = 0 \<and> we_reterr w' = None)"
proof -
  obtain e where we: "we_caller w = t" "we_signaled w < 0" "we_ents w = [e]" "we_sigf w = [0]" "we_clogic w = 0"
    "group e = 0" "htype e = QWHT_MUTEX" "we_obj e = m"
    and th: "ti_state (thrs s t) = THRD_WAITING" "ti_reason (thrs s t) = THWR_WAITOBJ" "ti_handle (thrs s t) = a"
    using w by (auto simp: waits_for_def)
  obtain ms where ms: "mutex_state m s = Some (ms, 0)" using m by (auto simp: mutex_state_def lock_of_def Let_def split: option.splits)
  have ce: "check_entries env s 0 0 (we_caller w) (zip (we_ents w) (we_sigf w)) = ([(e, WOBJ_MUXFREE)], None, True)"
    using we ms by (simp add: check_entry_def wobj_flags)
  have gr: "group_result (we_clogic w) (map (\<lambda>(e, sf). (group e, sf)) [(e, WOBJ_MUXFREE)]) = (0, WOBJ_MUXFREE)"
    using we by (simp add: group_result_def wobj_flags)
  have "snd (mutex_capture m t s) = None" using capture_locks(2) [OF r m(1), of t] m(2) by simp
  then obtain s1 where cp: "mutex_capture m t s = (s1, None)" by (metis prod.collapse)
  have l1: "lock_of s1 m = Some (t, 1)" using capture_locks(1) [OF r m(1) cp] m(2) by simp
  have gw: "grab_winner 0 (we_caller w) [(e, WOBJ_MUXFREE)] s = ([(e, WOBJ_OK)], s1, None)"
    using we cp by (simp add: in_winner_def wobj_flags)
  let ?w2 = "w\<lparr>we_ents := [e], we_sigf := [WOBJ_MUXFREE], we_reterr := None, we_signaled := 0, we_sigf := [WOBJ_OK], we_reterr := None\<rparr>"
  have s': "s' = wake_caller a ?w2 (put_entry a ?w2 s1)"
    using c we(2) unfolding check_waiter_def ce prod.case Let_def gr gw by (simp add: gw gr wobj_flags Let_def)
  have fr: "ti_state (thrs s1 t) = THRD_WAITING" "ti_reason (thrs s1 t) = THWR_WAITOBJ" "ti_handle (thrs s1 t) = a"
    "pid_ptrs s1 = pid_ptrs s"
    using capture_frame [where a = m and t = t and s = s] cp th by simp_all
  have "parent_of (put_entry a ?w2 s1) t = Some pd" using p fr(4) by (simp add: parent_of_def put_entry_def)
  then have "ti_state (thrs s' t) = THRD_RUNNING"
    unfolding s' using wake_caller_runs [of "put_entry a ?w2 s1" ?w2 pd a] we fr by (simp add: put_entry_def)
  moreover have "lock_of s' m = lock_of s1 m" unfolding s' by (simp add: lock_of_def put_entry_def)
  moreover have "wents s' a = Some ?w2" unfolding s' by (simp add: put_entry_def)
  ultimately show ?thesis using l1 by simp
qed

lemma w_check_first:
  assumes r: "mt_rep s L" and l: "wait_list s (a # xs)" and m: "muxs s m \<noteq> None" "lock_of s m = None"
    and w: "waits_for s a t m" and p: "parent_of s t = Some pd"
  shows "\<exists>s' res n. w_check_conditions env 0 0 special s = Some (s', res) \<and> wait_list s' (a # xs)
     \<and> lock_of s' m = Some (t, n) \<and> ti_state (thrs s' t) = THRD_RUNNING"
proof -
  obtain w where we: "wents s a = Some w" using w by (auto simp: waits_for_def)
  obtain s1 hit where c: "check_waiter env 0 0 a w s = (s1, hit)" by fastforce
  note f = first_gets [OF r m w we p c]
  have k: "waitkept s a s1" by (rule check_waiter_kept [OF we c])
  have l1: "wait_list s1 ([a] @ xs)" using waitkept_list [OF k l] by simp
  have nx: "we_next w = (if xs = [] then None else Some (hd xs))" using wait_list_next [of s "[]" a xs w] l we by simp
  have fs: "we_first s = Some a" using l by (auto simp: wait_list_def)
  have nl: "leaves 0 0 u b = False" for u b by (simp add: leaves_def split: option.split)
  obtain s2 res where w2: "w_walk env 0 0 special (we_next w) s1 (False \<or> hit \<and> special = Some a) = Some (s2, res)"
    "wait_list s2 ([a] @ filter (\<lambda>b. \<not> leaves 0 0 s1 b) xs)" "kept s1 s2"
    using w_walk_ok [OF l1, of env 0 0 special "False \<or> hit \<and> special = Some a"] unfolding nx by blast
  have r1: "\<exists>L. mt_rep s1 L" using k r by (auto simp: waitkept_def kept_def)
  have "w_check_conditions env 0 0 special s = Some (s2, res)"
    using w2(1) w_walk_step [OF we] c nl fs by (simp add: w_check_conditions_def)
  moreover have "wait_list s2 (a # xs)" using w2(2) nl by simp
  moreover obtain n where "lock_of s2 m = Some (t, n)" using w2(3) r1 f unfolding kept_def by blast
  moreover have "ti_state (thrs s2 t) = THRD_RUNNING" using w2(3) f unfolding kept_def by blast
  ultimately show ?thesis by blast
qed

section \<open>Properties\<close>

text \<open>C19: the groups of a wait. The thread goes on waiting only when nothing ungrouped is signaled, no OR
  group has a signaled member and every AND group has a missing one; group 0 is reported for an
  ungrouped object; and when the members of AND groups come first in the list, a reported group is a
  group whose condition holds. Without that order it may be one whose condition does not hold.\<close>

theorem group_logic:
  assumes "group_result cl es = (sg, onf)"
  shows "(sg < 0 \<longrightarrow> \<not> ungrouped es \<and> (\<forall>k<32. \<not> sat_group cl es k)) \<and> (sg = 0 \<longrightarrow> ungrouped es)
    \<and> (0 < sg \<and> ands_first cl es \<longrightarrow> sg \<le> 32 \<and> sat_group cl es (nat sg - 1))
    \<and> fst (group_result 1 [(2, 1), (1, 0)]) = 1 \<and> \<not> sat_group 1 [(2, 1), (1, 0)] 0"
proof -
  have "fst (group_result 1 [(2, 1), (1, 0)]) = 1"
    by (simp add: group_result_def bsf32_def bsf_from_numeral bit_0)
  moreover have "\<not> sat_group 1 [(2, 1), (1, 0)] 0" by (simp add: sat_group_def bit_0)
  ultimately show ?thesis using group_result_ok [OF assms] by blast
qed

theorem group_logic_witness:
  "fst (group_result 0 [(1, 0), (2, 1)]) = 2 \<and> sat_group 0 [(1, 0), (2, 1)] 1"
proof -
  obtain sg onf where g: "group_result 0 [(1, 0), (2, 1)] = (sg, onf)" by fastforce
  then have "sg = 2" by (simp add: group_result_def bsf32_def bsf_from_numeral bit_simps bit_0)
  moreover have "ands_first 0 [(1, 0), (2, 1)]" by (auto simp: ands_first_def intro: exI [of _ "[]"])
  ultimately show ?thesis using group_logic [OF g] g by simp
qed

text \<open>C20: every check of the waiting threads, at any time and for any process or thread that ends, comes
  to an end; the list keeps its order and loses exactly the entries of what ends; no lock is lost or
  changes its owner, and no running thread stops.\<close>

theorem wait_check_ends:
  assumes "wait_list s xs" "mt_reach s"
  shows "\<exists>s' res. w_check_conditions env pid tid special s = Some (s', res)
    \<and> wait_list s' (filter (\<lambda>a. \<not> leaves pid tid s a) xs)
    \<and> (\<forall>a t n. lock_of s a = Some (t, n) \<longrightarrow> (\<exists>k\<ge>n. lock_of s' a = Some (t, k)))
    \<and> (\<forall>t. ti_state (thrs s t) = THRD_RUNNING \<longrightarrow> ti_state (thrs s' t) = THRD_RUNNING)"
  using w_check_ok [OF assms(1), of env pid tid special] reach_rep [OF assms(2)] unfolding kept_def by blast

definition demo_wait :: mt_state where
  "demo_wait = mt_demo\<lparr>thrs := (thrs mt_demo)(2 := (thrs mt_demo 2)\<lparr>ti_state := THRD_WAITING, ti_reason := THWR_WAITOBJ, ti_handle := 200\<rparr>),
     pid_ptrs := [Some \<lparr>pi_pid = 1, pi_list = [Some 1, Some 2], pi_threads = 2, pi_lwait = False, pi_chainexit = False, pi_exit = 0\<rparr>],
     wents := (\<lambda>_. None)(200 \<mapsto> \<lparr>we_caller = 2, we_signaled = - 1, we_reterr = None, we_clogic = 0, we_prev = None, we_next = None,
       we_sigf = [0], we_ents = [\<lparr>htype = 4, group = 0, harg = 0, reserved = 100\<rparr>]\<rparr>),
     we_first := Some 200, we_last := Some 200\<rparr>"

definition demo_env :: mt_env where
  "demo_env = \<lparr>env_tsc = 0, env_keys = (\<lambda>_. False), env_qavail = (\<lambda>_. 0)\<rparr>"

lemma demo_wait_ok:
  "mt_reach (muxev_create 100 7 False False demo_wait)" "wait_list (muxev_create 100 7 False False demo_wait) [200]"
proof -
  show "mt_reach (muxev_create 100 7 False False demo_wait)"
    by (rule mt_reach.step [OF mt_reach.start mt_step.create]) (simp_all add: demo_wait_def mt_demo_def)
  show "wait_list (muxev_create 100 7 False False demo_wait) [200]"
    by (simp add: wait_list_def muxev_create_def demo_wait_def set_mux_def)
qed

theorem wait_check_ends_witness:
  "\<exists>s' res. w_check_conditions demo_env 0 0 None (muxev_create 100 7 False False demo_wait) = Some (s', res)"
  using wait_check_ends [OF demo_wait_ok(2,1)] by blast



end
