(* ===== verification/PidList.thy ===== *)
theory PidList
  imports QSort
begin

text \<open>
  The list of process ids of mtlib/process.c: a copy of the table of ids, in which the ids of
  ended processes are zero, is sorted with the zeros at its end, so that it can be read up to the
  first zero.
\<close>

definition pid_compare :: "u32 \<Rightarrow> u32 \<Rightarrow> int" where
  "pid_compare pid1 pid2 =
    (if pid1 = pid2 then 0
     else if pid1 = 0 \<and> pid2 \<noteq> 0 then 1
     else if pid2 \<noteq> 0 \<and> pid1 > pid2 then 1 else - 1)"

text \<open>The copy has one more cell, a zero that is not sorted.\<close>

definition mt_pidlist :: "u32 list \<Rightarrow> u32 list option" where
  "mt_pidlist pid_list = map_option (\<lambda>rc. rc @ [0]) (qsort pid_compare pid_list)"

interpretation pids: comparator pid_compare
  by unfold_locales (auto simp: pid_compare_def split: if_splits)

lemma pid_le: "pid_compare a b \<le> 0 \<longleftrightarrow> b = 0 \<or> a \<noteq> 0 \<and> a \<le> b"
  by (auto simp: pid_compare_def split: if_splits)

lemma zeros_last:
  "sorted_wrt (\<lambda>a b. pid_compare a b \<le> 0) xs \<Longrightarrow>
   \<exists>n. xs = sort (filter (\<lambda>p. p \<noteq> 0) xs) @ replicate n 0"
proof (induction xs)
  case (Cons x xs)
  then obtain n where n: "xs = sort (filter (\<lambda>p. p \<noteq> 0) xs) @ replicate n 0" by auto
  show ?case
  proof (cases "x = 0")
    case True
    then have "\<forall>y\<in>set xs. y = 0" using Cons.prems by (auto simp: pid_le)
    then have "filter (\<lambda>p. p \<noteq> 0) (x # xs) = []" "x # xs = replicate (Suc (length xs)) 0"
      using True by (auto simp: filter_empty_conv intro: replicate_eqI)
    then show ?thesis by (metis append_Nil sorted_sort_id sorted_wrt.simps(1))
  next
    case False
    then have "\<forall>y\<in>set (filter (\<lambda>p. p \<noteq> 0) xs). x \<le> y" using Cons.prems by (auto simp: pid_le)
    then have "sort (filter (\<lambda>p. p \<noteq> 0) (x # xs)) = x # sort (filter (\<lambda>p. p \<noteq> 0) xs)"
      using False by (simp add: insort_is_Cons)
    then show ?thesis using n by (metis append_Cons)
  qed
qed simp

text \<open>C25: The list is always built: it holds the ids of the living processes in ascending order,
  and then only zeros, one at least.\<close>

theorem pidlist_sorted:
  "\<exists>n. mt_pidlist pids = Some (sort (filter (\<lambda>p. p \<noteq> 0) pids) @ replicate (Suc n) 0)"
proof -
  obtain ys where ys: "qsort pid_compare pids = Some ys" "mset ys = mset pids"
    "sorted_wrt (\<lambda>a b. pid_compare a b \<le> 0) ys"
    using pids.qsort_ends by blast
  obtain n where "ys = sort (filter (\<lambda>p. p \<noteq> 0) ys) @ replicate n 0"
    using zeros_last [OF ys(3)] by blast
  moreover have "sort (filter (\<lambda>p. p \<noteq> 0) ys) = sort (filter (\<lambda>p. p \<noteq> 0) pids)"
    using ys(2) by (intro properties_for_sort) simp_all
  ultimately have "ys @ [0] = sort (filter (\<lambda>p. p \<noteq> 0) pids) @ replicate (Suc n) 0"
    by (metis append.assoc replicate_Suc replicate_append_same)
  then show ?thesis using ys(1) by (auto simp: mt_pidlist_def)
qed

end
