(* ===== verification/Spec2Isabelle.thy ===== *)
theory Spec2Isabelle
  imports CStrftime DiskIoSpec DiskTabSpec EnvSpec GptTable MemPoolSpec MtSchedSpec MtWaitSpec PidList
begin

text \<open>
  Verification of QSINIT (OS2World/SYSTEM-LOADER-QSINIT), the boot loader of OS/2 systems that runs
  as a small protected mode operating system of its own: a loader core (\<open>init/\<close>) with memory manager,
  printing and CRC, the START module (\<open>ldrapps/start/\<close>) with the C library, the process environment and
  the shared classes, the multitasking library (\<open>ldrapps/mtlib/\<close>), the partition manager
  (\<open>ldrapps/partmgr/\<close>) and the sector cache (\<open>ldrapps/cache/\<close>), above the disks of \<open>init/fat/diskio.c\<close>.
  All paths are below \<open>src/system/src/\<close>. The theories model the parts that carry
  state or decide something and can be read as C; each definition keeps the name of the function,
  type or constant it translates, and helper definitions are pieces of the function they stand in front of.

  \<^bold>\<open>Conventions.\<close> Structures are records, enumerations datatypes, \<open>u8t\<close> to \<open>u64t\<close> words of that width
  (arithmetic wraps as in C) where the width matters, and natural numbers or integers where the
  comments of the theory say why no wrap can occur. Panics, failed allocations and writes outside a
  buffer are values: \<open>Inl\<close> of a sum type or \<open>None\<close>. Loops are recursive functions with a proof of
  termination; where the source gives no bound (\<open>qsort\<close> repeats a pass until nothing moves, the release
  of all mutexes, the walk over the waiting threads) the function is partial or has fuel, and that it ends is proved.
  QsPrelude holds the machine types, the result type, block writes and searches all theories share.

  \<^bold>\<open>Memory manager\<close> (\<open>init/misc/membase.c\<close>): MemPool has the state (size table, free lists, headers inside
  the free blocks) and the operations, MemPoolInv the invariant and the lists as abstract sequences,
  MemPoolOps, MemPoolRealloc and MemPoolAdmin release, resizing, reservation, process exit and
  initialisation, MemPoolSpec the contract of an allocator as the locale \<open>block_allocator\<close>, interpreted on
  \<open>alloc_worker\<close> and \<open>hlp_memfree\<close>, and the properties. The walk of a free list has the number of blocks
  of the pool as fuel; a list cannot hold more headers than there are blocks. The low-memory callbacks are an argument.

  \<^bold>\<open>Bit maps\<close> (\<open>ldrapps/start/misc/bitmap.c\<close>, \<open>setbits\<close> of \<open>clib.c\<close>): BitStore has \<open>setbits\<close> in dword and
  stream order over the locale \<open>bit_cells\<close>, interpreted at both; BitMap the methods of the class with
  their byte tables, BitMapInv and BitMapFind the meaning of the buffer as bits and of the search,
  BitMapSpec the properties, with the two cases in which \<open>bm_find\<close> misses an area.

  \<^bold>\<open>Time\<close> (\<open>ldrapps/start/misc/time.c\<close>): CTime has day numbers, UNIX and DOS time and their agreement
  with the Gregorian calendar counted day by day, CStrftime the texts and how far \<open>strftime\<close> writes.

  \<^bold>\<open>Multitasking\<close> (\<open>ldrapps/mtlib/mutex.c\<close>, \<open>wobj.c\<close>, \<open>sched.c\<close>, \<open>process.c\<close>): DLink is the contract of a
  doubly linked list, interpreted on the mutex lists of the threads (MtMutex) and on the list of
  waiting threads (MtWaitInv). MtMutexInv and MtMutexSpec give the invariant, the states the
  operations can reach and the refinement of a table of owners and depths; MtWait and MtWaitSpec
  the conditions of a wait, its groups, and who is served first; MtSched and MtSchedSpec
  \<open>mt_waitobject\<close>, the choice of the next thread and the callback table; PidList the list of process ids.
  The library switches threads only inside its own calls, under a global lock, so that an
  interleaving is a sequence of whole operations. Queues, keyboard, handles and the clock are arguments.

  \<^bold>\<open>GPT manager\<close> (\<open>ldrapps/partmgr/gptmgr.cpp\<close>, parts of \<open>pscan.c\<close> and \<open>pboot.c\<close>): GptData has the structures
  with their bytes on disk and a device that fails after a given number of sectors, GptMgr the
  operations, GptScan the scan and the list of free blocks, GptFlush what every interrupted flush leaves
  on disk, GptTable the table as a set of ranges. QSort (\<open>clib.c\<close>) has the sort they use, over the locale
  \<open>comparator\<close>, interpreted on the comparators of the callers; Crc32 (\<open>init/zip/crc32.c\<close>) the checksum.
  The forced rescan, \<open>dsk_newmbr\<close>, \<open>dsk_getmap\<close>, type names and random GUIDs are arguments.

  \<^bold>\<open>Text\<close> (\<open>ldrapps/start/misc/clib.c\<close>, \<open>init/misc/print.c\<close>, \<open>strnicmp\<close> of \<open>init/misc/util.asm\<close>): CNum reads
  and prints integers, CNumSpec shows that reading is exact with saturation and that it inverts printing;
  CStr has the string routines and the sets of characters as bit vectors.

  \<^bold>\<open>Environment\<close> (\<open>ldrapps/start/misc/envmgr.c\<close>): Env has the block of a process and the operations on its
  bytes, EnvBlock the block as a list of lines, EnvSpec the refinement of a map of variables and the
  round trip of numbers through variables. The heap is an argument with the promise \<open>heap_ok\<close>: a
  block of at least the size asked for.

  \<^bold>\<open>Sector cache\<close> (\<open>ldrapps/cache/cproc.c\<close>): Cache has the arrays of the module and all operations on
  blocks, index and bits, with the walks along chains as partial functions. CacheInv is the invariant (the ring of
  used blocks, the free list, the index, one cycle of blocks per group, no place cached twice, cached data equal to
  the disk) and shows that a lookup under it is exact; CacheOps, CacheFree, CacheAdd and CacheDrop show that moving,
  freeing, adding and dropping blocks keep it, so that every walk ends; CacheIo goes through the loop of \<open>cache_io\<close>, whose
  state before each round is \<open>loop_inv\<close>. CacheSpec has the promise to the readers and writers of disks and the
  run of requests that breaks it: it needs that no round drops the first block of the group it adds to
  (\<open>run_safe\<close>; true as long as there are free blocks enough), and the code does not see to that.
  CacheAlloc is the setup of the disks, the loop that packs disk and group into one dword, and the
  size of the bit arrays. Disks, memory and the requests of the module itself are arguments.

  \<^bold>\<open>Disks\<close> (\<open>init/fat/diskio.c\<close>, \<open>init/inc/dskinfo.inc\<close>): DiskTab is the table \<open>qd_array\<close> with the disks that come
  and go, DiskTabSpec what adding and removing them promise and where the code breaks it. DiskIo has \<open>hlp_diskread\<close>,
  \<open>hlp_diskwrite\<close> and \<open>action\<close>: volumes (which may name volumes, so the calls are partial functions), access filters, the call of
  a cache module, drivers of emulated disks and the loop over parts of 32 Kb, which ends because every part is at least
  one sector; it also plugs in the cache of the repository, whose own requests come back with the flag \<open>QDSK_IAMCACHE\<close>.
  DiskIoSpec takes a request through all these layers. The BIOS and the drivers are arguments; that they
  work inside the disk is the hypothesis \<open>disk_works\<close>, that the cache knows the disks of the table is \<open>cache_fits\<close>.

  \<^bold>\<open>How the parts meet.\<close> \<open>mt_pidlist\<close> and the GPT manager sort with \<open>qsort\<close> and rest on its correctness for
  every comparator; the GPT flush seals headers with \<open>crc32\<close> and the scan checks them; a wait captures
  mutexes with the operations of MtMutex; the environment compares names with \<open>strnicmp\<close>, trims them with the
  string routines and stores numbers with \<open>itoa\<close> and \<open>atoi\<close>; a new disk gets its BIOS number from the search of
  the bit maps, and the coherence of the sector cache carries over to every read and update of a volume.

  \<^bold>\<open>Not modelled.\<close> The three copies of FatFs and the inflate code are third-party code in the tree.
  File handles, mounting, MBR and LVM tables, the batch interpreter, module loader and
  console do little but call them, the BIOS or the machine. The starters of kernels, descriptor tables,
  traps and the switch of registers act on the machine itself. \<open>cache_ioctl\<close> and \<open>unload_all\<close> of the cache react to volumes and to the end of the module.
  \<open>_searchenv\<close>, \<open>env_create\<close> and the routines over files in \<open>clib.c\<close> rest on these and on the C++ string classes.
\<close>

end
